(* ===== verification/Kcp_Prelude.thy ===== *)
theory Kcp_Prelude
  imports Main "HOL-Library.Word" "HOL-Library.Signed_Division"
begin

text \<open>
  Shared ground of the development: names for the machine integers of the C and C++ sources,
  the named collections the component theories fill, and the generic lemmas on words and lists
  that their proofs rest on. Nothing here models a function of the repository.

  A C \<open>unsigned\<close> of 8, 16, 32 or 64 bits is a word of that width; a signed 32-bit integer is a
  32-bit word as well, read through \<^const>\<open>sint\<close>, so that storing an \<open>int\<close> into an \<open>IUINT32\<close>
  field is the identity and signed arithmetic wraps in two's complement.
\<close>

type_synonym byte = "8 word"
type_synonym u16 = "16 word"
type_synonym u32 = "32 word"
type_synonym i32 = "32 word"
type_synonym u64 = "64 word"
type_synonym bytes = "byte list"

named_theorems codec_simps "equations of the wire codec"
named_theorems kcp_frame "fields of the control block an operation leaves alone"
named_theorems serial_simps "serial-number arithmetic on 32-bit words"

section \<open>Words read as signed and unsigned numbers\<close>

lemma uint32_range: "0 \<le> uint (w :: u32)" "uint (w :: u32) < 4294967296"
  using uint_bounded [of w] by simp_all

lemma int_unat32: "int (unat (w :: u32)) = uint w"
  by simp

lemma unat32_less [simp]: "unat (w :: u32) < 4294967296"
  using uint32_range [of w] int_unat32 [of w] by linarith

lemma sint32_eq: "sint (w :: u32) = (if uint w < 2147483648 then uint w else uint w - 4294967296)"
proof -
  have "sint w = signed_take_bit 31 (uint w)" by (simp add: sint_uint)
  also have "\<dots> = (uint w + 2147483648) mod 4294967296 - 2147483648"
    using signed_take_bit_eq_take_bit_shift [of 31 "uint w"] by (simp add: take_bit_eq_mod)
  also have "\<dots> = (if uint w < 2147483648 then uint w else uint w - 4294967296)"
  proof (cases "uint w < 2147483648")
    case True
    then have "(uint w + 2147483648) mod 4294967296 = uint w + 2147483648"
      using uint32_range [of w] by (intro mod_pos_pos_trivial) linarith+
    then show ?thesis using True by simp
  next
    case False
    then have "(uint w + 2147483648 - 4294967296) mod 4294967296 = uint w + 2147483648 - 4294967296"
      using uint32_range [of w] by (intro mod_pos_pos_trivial) linarith+
    moreover have "(uint w + 2147483648) mod 4294967296 = (uint w + 2147483648 - 4294967296) mod 4294967296"
      by (simp only: minus_mod_self2)
    ultimately show ?thesis using False by simp
  qed
  finally show ?thesis .
qed

lemma sint32_unat:
  "(unat (w :: u32) < 2147483648 \<and> sint w = int (unat w)) \<or>
   (2147483648 \<le> unat w \<and> sint w = int (unat w) - 4294967296)"
  using int_unat32 [of w] by (cases "uint w < 2147483648") (simp_all only: sint32_eq if_True if_False, linarith+)

lemma sint_range32: "-2147483648 \<le> sint (w :: u32)" "sint (w :: u32) < 2147483648"
  using sint32_unat [of w] unat32_less [of w] by linarith+

lemma sint32_neg [serial_simps]: "sint (w :: u32) < 0 \<longleftrightarrow> 2147483648 \<le> unat w"
  using sint32_unat [of w] unat32_less [of w] by linarith

lemma sint32_nonneg [serial_simps]: "0 \<le> sint (w :: u32) \<longleftrightarrow> unat w < 2147483648"
  using sint32_neg [of w] by linarith

lemma sint32_pos [serial_simps]: "0 < sint (w :: u32) \<longleftrightarrow> 0 < unat w \<and> unat w < 2147483648"
  using sint32_unat [of w] unat32_less [of w] by linarith

lemma sint32_small: "unat (w :: u32) < 2147483648 \<Longrightarrow> sint w = int (unat w)"
  using sint32_unat [of w] by linarith

lemma unat32_add: "unat (a + b :: u32) = (unat a + unat b) mod 4294967296"
  by (simp add: unat_word_ariths)

lemma unat32_add_small: "unat a + unat b < 4294967296 \<Longrightarrow> unat (a + b :: u32) = unat a + unat b"
  by (simp add: unat32_add)

lemma unat32_sub: "unat (a - b :: u32) = (if unat b \<le> unat a then unat a - unat b else unat a + 4294967296 - unat b)"
proof (cases "unat b \<le> unat a")
  case True
  then show ?thesis by (simp add: unat_sub word_le_nat_alt)
next
  case False
  then have "a < b" by (simp add: word_less_nat_alt)
  then show ?thesis using False
    by (simp add: unat_sub_if' word_size)
qed

lemma unat32_of_nat: "unat (of_nat n :: u32) = n mod 4294967296"
  by (simp add: unat_of_nat take_bit_eq_mod)

lemma unat32_of_nat_small: "n < 4294967296 \<Longrightarrow> unat (of_nat n :: u32) = n"
  by (simp add: unat32_of_nat)

lemma word32_eq_iff_unat: "(a :: u32) = b \<longleftrightarrow> unat a = unat b"
  by (simp add: word_unat_eq_iff)

lemma of_nat32_inj: "m < 4294967296 \<Longrightarrow> n < 4294967296 \<Longrightarrow> (of_nat m :: u32) = of_nat n \<longleftrightarrow> m = n"
  by (metis unat32_of_nat_small)

text \<open>Signed operations whose mathematical result fits in 32 bits.\<close>

lemma signed_fit32: "-2147483648 \<le> k \<Longrightarrow> k < 2147483648 \<Longrightarrow> signed_take_bit 31 k = (k :: int)"
  by (simp add: signed_take_bit_int_eq_self)

lemma sint32_of_int: "-2147483648 \<le> k \<Longrightarrow> k < 2147483648 \<Longrightarrow> sint (word_of_int k :: i32) = k"
  by (simp add: sint_sbintrunc' signed_fit32)

lemma sint32_add:
  "-2147483648 \<le> sint a + sint b \<Longrightarrow> sint a + sint b < 2147483648 \<Longrightarrow> sint (a + b :: i32) = sint a + sint b"
  by (simp add: sint_word_add signed_fit32)

lemma sint32_sub:
  "-2147483648 \<le> sint a - sint b \<Longrightarrow> sint a - sint b < 2147483648 \<Longrightarrow> sint (a - b :: i32) = sint a - sint b"
  by (simp add: sint_word_diff signed_fit32)

lemma sint32_mult:
  "-2147483648 \<le> sint a * sint b \<Longrightarrow> sint a * sint b < 2147483648 \<Longrightarrow> sint (a * b :: i32) = sint a * sint b"
  by (simp add: sint_word_mult signed_fit32)

lemma sdiv_nonneg: "0 \<le> a \<Longrightarrow> 0 \<le> b \<Longrightarrow> (a :: int) sdiv b = a div b"
  by (simp add: signed_divide_int_def sgn_if)

section \<open>Lists\<close>

lemma drop_append_exact: "length xs = n \<Longrightarrow> drop n (xs @ ys) = ys"
  by simp

lemma take_append_exact: "length xs = n \<Longrightarrow> take n (xs @ ys) = xs"
  by simp

lemma list_all2_right: "list_all2 P xs ys \<Longrightarrow> y \<in> set ys \<Longrightarrow> \<exists>x \<in> set xs. P x y"
  by (metis in_set_conv_nth list_all2_conv_all_nth)

lemma list_all2_left: "list_all2 P xs ys \<Longrightarrow> x \<in> set xs \<Longrightarrow> \<exists>y \<in> set ys. P x y"
  by (metis in_set_conv_nth list_all2_conv_all_nth)

lemma takeWhile_snoc_break: "\<not> P x \<Longrightarrow> takeWhile P (xs @ x # ys) = takeWhile P xs"
  by (induction xs) auto

section \<open>Transition systems\<close>

text \<open>A component that runs step by step: its initial states, its steps and the invariant it promises. Every
  state machine of the development is an interpretation.\<close>

locale step_system =
  fixes init :: "'s \<Rightarrow> bool" and step :: "'s \<Rightarrow> 's \<Rightarrow> bool" and inv :: "'s \<Rightarrow> bool"
  assumes init_inv: "init s \<Longrightarrow> inv s"
    and step_inv: "inv s \<Longrightarrow> step s t \<Longrightarrow> inv t"
begin

lemma run_inv: "step\<^sup>*\<^sup>* s t \<Longrightarrow> inv s \<Longrightarrow> inv t"
  by (induction rule: rtranclp_induct) (auto intro: step_inv)

lemma reachable_inv: "init s \<Longrightarrow> step\<^sup>*\<^sup>* s t \<Longrightarrow> inv t"
  using run_inv init_inv by blast

text \<open>A measure that no step decreases grows along every run.\<close>

lemma run_mono:
  fixes f :: "'s \<Rightarrow> 'b :: order"
  assumes "\<And>s t. inv s \<Longrightarrow> step s t \<Longrightarrow> f s \<le> f t" "step\<^sup>*\<^sup>* s t" "inv s"
  shows "f s \<le> f t"
  using assms(2,3)
proof (induction rule: rtranclp_induct)
  case (step y z)
  then show ?case using assms(1) [of y z] run_inv by (meson order.trans)
qed simp

end

end
