(* ===== verification/Kcp_Basic.thy ===== *)
theory Kcp_Basic
  imports Kcp_Prelude
begin

text \<open>
  The head of \<open>src/util/ikcp.c\<close>: the protocol constants, the little-endian encoders and decoders of
  8, 16 and 32 bit integers, and the small arithmetic helpers.

  An encoder writes at a pointer and returns the pointer behind what it wrote; here it extends the
  list of bytes written so far. A decoder reads at a pointer; here it takes the bytes from the pointer
  to the end of the buffer and gives the value with the bytes behind it, or \<open>None\<close> for a read past the
  end of the buffer. The encoders and decoders exist twice in the source, selected by
  \<open>IWORDS_BIG_ENDIAN\<close>: byte by byte on a big-endian host, and one native load or store on a
  little-endian one. Both versions are modelled and proved to give the same wire format.
\<close>

unbundle bit_operations_syntax

section \<open>Constants\<close>

definition IKCP_RTO_NDL :: u32 where "IKCP_RTO_NDL = 30"
definition IKCP_RTO_MIN :: u32 where "IKCP_RTO_MIN = 100"
definition IKCP_RTO_DEF :: u32 where "IKCP_RTO_DEF = 200"
definition IKCP_RTO_MAX :: u32 where "IKCP_RTO_MAX = 60000"
definition IKCP_CMD_PUSH :: u32 where "IKCP_CMD_PUSH = 81"
definition IKCP_CMD_ACK :: u32 where "IKCP_CMD_ACK = 82"
definition IKCP_CMD_WASK :: u32 where "IKCP_CMD_WASK = 83"
definition IKCP_CMD_WINS :: u32 where "IKCP_CMD_WINS = 84"
definition IKCP_ASK_SEND :: u32 where "IKCP_ASK_SEND = 1"
definition IKCP_ASK_TELL :: u32 where "IKCP_ASK_TELL = 2"
definition IKCP_WND_SND :: u32 where "IKCP_WND_SND = 32"
definition IKCP_WND_RCV :: u32 where "IKCP_WND_RCV = 32"
definition IKCP_MTU_DEF :: u32 where "IKCP_MTU_DEF = 1400"
definition IKCP_ACK_FAST :: u32 where "IKCP_ACK_FAST = 3"
definition IKCP_INTERVAL :: u32 where "IKCP_INTERVAL = 100"
definition IKCP_OVERHEAD :: u32 where "IKCP_OVERHEAD = 24"
definition IKCP_DEADLINK :: u32 where "IKCP_DEADLINK = 10"
definition IKCP_THRESH_INIT :: u32 where "IKCP_THRESH_INIT = 2"
definition IKCP_THRESH_MIN :: u32 where "IKCP_THRESH_MIN = 2"
definition IKCP_PROBE_INIT :: u32 where "IKCP_PROBE_INIT = 7000"
definition IKCP_PROBE_LIMIT :: u32 where "IKCP_PROBE_LIMIT = 120000"

lemmas kcp_consts = IKCP_RTO_NDL_def IKCP_RTO_MIN_def IKCP_RTO_DEF_def IKCP_RTO_MAX_def
  IKCP_CMD_PUSH_def IKCP_CMD_ACK_def IKCP_CMD_WASK_def IKCP_CMD_WINS_def IKCP_ASK_SEND_def
  IKCP_ASK_TELL_def IKCP_WND_SND_def IKCP_WND_RCV_def IKCP_MTU_DEF_def IKCP_ACK_FAST_def
  IKCP_INTERVAL_def IKCP_OVERHEAD_def IKCP_DEADLINK_def IKCP_THRESH_INIT_def IKCP_THRESH_MIN_def
  IKCP_PROBE_INIT_def IKCP_PROBE_LIMIT_def

text \<open>The word-order test of \<open>ikcp.h\<close> gives 0 on amd64 and on i386.\<close>

definition IWORDS_BIG_ENDIAN :: bool where "IWORDS_BIG_ENDIAN = False"

section \<open>Encoders and decoders\<close>

text \<open>A native store or load on a little-endian host: least significant byte at the lowest address.\<close>

definition store_native16 :: "u16 \<Rightarrow> bytes" where
  "store_native16 w = map (\<lambda>i. ucast (drop_bit (8 * i) w)) [0, 1]"

definition store_native32 :: "u32 \<Rightarrow> bytes" where
  "store_native32 l = map (\<lambda>i. ucast (drop_bit (8 * i) l)) [0, 1, 2, 3]"

definition load_native16 :: "byte \<Rightarrow> byte \<Rightarrow> u16" where
  "load_native16 b0 b1 = ucast b0 OR push_bit 8 (ucast b1)"

definition load_native32 :: "byte \<Rightarrow> byte \<Rightarrow> byte \<Rightarrow> byte \<Rightarrow> u32" where
  "load_native32 b0 b1 b2 b3 =
     ucast b0 OR push_bit 8 (ucast b1) OR push_bit 16 (ucast b2) OR push_bit 24 (ucast b3)"

definition ikcp_encode8u :: "bytes \<Rightarrow> byte \<Rightarrow> bytes" where
  "ikcp_encode8u p c = p @ [c]"

fun ikcp_decode8u :: "bytes \<Rightarrow> (byte \<times> bytes) option" where
  "ikcp_decode8u (b # p) = Some (b, p)"
| "ikcp_decode8u _ = None"

definition ikcp_encode16u :: "bool \<Rightarrow> bytes \<Rightarrow> u16 \<Rightarrow> bytes" where
  "ikcp_encode16u big_endian p w =
     p @ (if big_endian then [ucast (w AND 255), ucast (drop_bit 8 w)] else store_native16 w)"

fun ikcp_decode16u :: "bool \<Rightarrow> bytes \<Rightarrow> (u16 \<times> bytes) option" where
  "ikcp_decode16u big_endian (b0 # b1 # p) =
     Some (if big_endian then ucast b0 + push_bit 8 (ucast b1) else load_native16 b0 b1, p)"
| "ikcp_decode16u big_endian _ = None"

definition ikcp_encode32u :: "bool \<Rightarrow> bytes \<Rightarrow> u32 \<Rightarrow> bytes" where
  "ikcp_encode32u big_endian p l =
     p @ (if big_endian
          then [ucast (drop_bit 0 l AND 0xff), ucast (drop_bit 8 l AND 0xff),
                ucast (drop_bit 16 l AND 0xff), ucast (drop_bit 24 l AND 0xff)]
          else store_native32 l)"

fun ikcp_decode32u :: "bool \<Rightarrow> bytes \<Rightarrow> (u32 \<times> bytes) option" where
  "ikcp_decode32u big_endian (b0 # b1 # b2 # b3 # p) =
     Some (if big_endian
           then let l = ucast b3;
                    l = ucast b2 + push_bit 8 l;
                    l = ucast b1 + push_bit 8 l
                in ucast b0 + push_bit 8 l
           else load_native32 b0 b1 b2 b3, p)"
| "ikcp_decode32u big_endian _ = None"

section \<open>Arithmetic helpers\<close>

definition imin :: "u32 \<Rightarrow> u32 \<Rightarrow> u32" where
  "imin a b = (if a \<le> b then a else b)"

definition imax :: "u32 \<Rightarrow> u32 \<Rightarrow> u32" where
  "imax a b = (if a \<ge> b then a else b)"

definition ibound :: "u32 \<Rightarrow> u32 \<Rightarrow> u32 \<Rightarrow> u32" where
  "ibound lower middle upper = imin (imax lower middle) upper"

text \<open>\<open>_itimediff\<close>: the difference of two wrapping clocks or sequence numbers, as a signed number.\<close>

definition itimediff :: "u32 \<Rightarrow> u32 \<Rightarrow> int" where
  "itimediff later earlier = sint (later - earlier)"

lemma itimediff_neg [serial_simps]: "itimediff a b < 0 \<longleftrightarrow> 2147483648 \<le> unat (a - b)"
  by (simp add: itimediff_def sint32_neg)

lemma itimediff_nonneg [serial_simps]: "0 \<le> itimediff a b \<longleftrightarrow> unat (a - b) < 2147483648"
  by (simp add: itimediff_def sint32_nonneg)

lemma itimediff_pos [serial_simps]: "0 < itimediff a b \<longleftrightarrow> 0 < unat (a - b) \<and> unat (a - b) < 2147483648"
  by (simp add: itimediff_def sint32_pos)

lemma ibound_upper: "ibound lower middle upper \<le> upper"
  by (simp add: ibound_def imin_def)

lemma ibound_lower: "lower \<le> upper \<Longrightarrow> lower \<le> ibound lower middle upper"
  by (auto simp: ibound_def imin_def imax_def)

section \<open>Codec lemmas\<close>

lemma store_load_native16: "load_native16 (ucast w) (ucast (drop_bit 8 w)) = w"
  by (rule bit_word_eqI) (auto simp: load_native16_def bit_simps)

lemma store_load_native32:
  "load_native32 (ucast l) (ucast (drop_bit 8 l)) (ucast (drop_bit 16 l)) (ucast (drop_bit 24 l)) = l"
proof (rule bit_word_eqI)
  fix n assume "n < LENGTH(32)"
  then consider "n < 8" | "8 \<le> n" "n < 16" | "16 \<le> n" "n < 24" | "24 \<le> n" "n < 32" by fastforce
  then show "bit (load_native32 (ucast l) (ucast (drop_bit 8 l)) (ucast (drop_bit 16 l))
      (ucast (drop_bit 24 l))) n = bit l n"
    by cases (auto simp: load_native32_def bit_simps)
qed

lemma byte_bit_high: "8 \<le> n \<Longrightarrow> \<not> bit (b :: byte) n"
  using bit_imp_le_length [of b n] by auto

lemma add_shifted16: "(ucast (b :: byte) :: u16) + push_bit 8 x = ucast b OR push_bit 8 x"
  by (rule disjunctive_add_eq_or) (auto intro!: bit_word_eqI simp: bit_simps byte_bit_high)

lemma add_shifted32: "(ucast (b :: byte) :: u32) + push_bit 8 x = ucast b OR push_bit 8 x"
  by (rule disjunctive_add_eq_or) (auto intro!: bit_word_eqI simp: bit_simps byte_bit_high)

lemma mask8: "(255 :: u16) = mask 8" "(255 :: u32) = mask 8"
  by (simp_all add: mask_eq_exp_minus_1)

lemma low_byte16: "(ucast ((w :: u16) AND 255) :: byte) = ucast w"
  unfolding mask8 by (rule bit_word_eqI) (auto simp: bit_simps)

lemma low_byte32: "(ucast ((w :: u32) AND 255) :: byte) = ucast w"
  unfolding mask8 by (rule bit_word_eqI) (auto simp: bit_simps)

text \<open>Both hosts write and read the same bytes.\<close>

lemma encode16u_host: "ikcp_encode16u be p w = p @ store_native16 w"
  by (simp add: ikcp_encode16u_def store_native16_def low_byte16)

lemma encode32u_host: "ikcp_encode32u be p l = p @ store_native32 l"
  by (simp add: ikcp_encode32u_def store_native32_def low_byte32)

lemma decode16u_host: "ikcp_decode16u be p = ikcp_decode16u False p"
  by (cases "(be, p)" rule: ikcp_decode16u.cases)
    (auto simp: load_native16_def add_shifted16)

lemma load_big32:
  "(ucast b0 :: u32) + push_bit 8 (ucast b1 + push_bit 8 (ucast b2 + push_bit 8 (ucast b3))) =
   load_native32 b0 b1 b2 b3"
  unfolding add_shifted32 load_native32_def
  by (simp add: push_bit_or push_bit_push_bit or.assoc)

lemma decode32u_host: "ikcp_decode32u be p = ikcp_decode32u False p"
  by (cases "(be, p)" rule: ikcp_decode32u.cases) (auto simp: load_big32 Let_def)

text \<open>Reading back what was written, whatever follows.\<close>

lemma decode16u_store [codec_simps]: "ikcp_decode16u be (store_native16 w @ p) = Some (w, p)"
  unfolding decode16u_host [of be] by (simp add: store_native16_def store_load_native16)

lemma decode32u_store [codec_simps]: "ikcp_decode32u be (store_native32 l @ p) = Some (l, p)"
  unfolding decode32u_host [of be] by (simp add: store_native32_def store_load_native32)

lemma decode32u_none: "ikcp_decode32u be p = None \<longleftrightarrow> length p < 4"
  by (cases "(be, p)" rule: ikcp_decode32u.cases) auto

lemma store_of_load32: "store_native32 (load_native32 b0 b1 b2 b3) = [b0, b1, b2, b3]"
proof -
  let ?l = "load_native32 b0 b1 b2 b3"
  have "(ucast (drop_bit 0 ?l) :: byte) = b0" "(ucast (drop_bit 8 ?l) :: byte) = b1"
    "(ucast (drop_bit 16 ?l) :: byte) = b2" "(ucast (drop_bit 24 ?l) :: byte) = b3"
    by (rule bit_word_eqI; auto simp: load_native32_def bit_simps byte_bit_high)+
  then show ?thesis by (simp add: store_native32_def)
qed

lemma decode32u_some: "ikcp_decode32u be p = Some (l, q) \<Longrightarrow> p = store_native32 l @ q"
  unfolding decode32u_host [of be]
  by (cases "(False, p)" rule: ikcp_decode32u.cases) (auto simp: store_of_load32)

lemma length_store [simp]: "length (store_native16 w) = 2" "length (store_native32 l) = 4"
  by (simp_all add: store_native16_def store_native32_def)

end
