(* ===== verification/Kcp_State.thy ===== *)
theory Kcp_State
  imports Kcp_Basic
begin

text \<open>
  The data of \<open>src/util/ikcp.h\<close> (the segment \<open>IKCPSEG\<close> and the control block \<open>IKCPCB\<close>) and the
  operations of \<open>src/util/ikcp.c\<close> that create, release and configure a control block.

  A field \<open>x\<close> of \<open>struct IKCPSEG\<close> is \<open>seg_x\<close>, a field \<open>x\<close> of \<open>struct IKCPCB\<close> is \<open>k_x\<close>. The four
  queues are lists of segments, first entry first (theory \<open>Iqueue\<close> shows that the pointer macros
  behave so); the counters \<open>nsnd_que\<close>, \<open>nrcv_buf\<close> and so on stay separate 32-bit fields, because the
  code reads them. Integers of type \<open>IINT32\<close> and \<open>int\<close> are 32-bit words read with \<^const>\<open>sint\<close>.
  \<open>k_acklist\<close> is the whole allocated array, one pair per entry; \<open>k_buffer\<close> is the size in bytes of the
  allocated output buffer; \<open>k_output\<close> and \<open>k_writelog\<close> say whether the callback is set. Bytes and
  words of fresh memory that the code has not written yet are unspecified values.

  Memory allocation is a parameter: \<open>alloc i n\<close> says whether the \<open>i\<close>-th allocation of a call, of \<open>n\<close>
  bytes, succeeds.
\<close>

record IKCPSEG =
  seg_conv :: u32
  seg_cmd :: u32
  seg_frg :: u32
  seg_wnd :: u32
  seg_ts :: u32
  seg_sn :: u32
  seg_una :: u32
  seg_len :: u32
  seg_resendts :: u32
  seg_rto :: u32
  seg_fastack :: u32
  seg_xmit :: u32
  seg_data :: bytes

record IKCPCB =
  k_conv :: u32
  k_mtu :: u32
  k_mss :: u32
  k_state :: u32
  k_snd_una :: u32
  k_snd_nxt :: u32
  k_rcv_nxt :: u32
  k_ts_recent :: u32
  k_ts_lastack :: u32
  k_ssthresh :: u32
  k_rx_rttval :: i32
  k_rx_srtt :: i32
  k_rx_rto :: i32
  k_rx_minrto :: i32
  k_snd_wnd :: u32
  k_rcv_wnd :: u32
  k_rmt_wnd :: u32
  k_cwnd :: u32
  k_probe :: u32
  k_current :: u32
  k_interval :: u32
  k_ts_flush :: u32
  k_xmit :: u32
  k_nrcv_buf :: u32
  k_nsnd_buf :: u32
  k_nrcv_que :: u32
  k_nsnd_que :: u32
  k_nodelay :: u32
  k_updated :: u32
  k_ts_probe :: u32
  k_probe_wait :: u32
  k_dead_link :: u32
  k_incr :: u32
  k_snd_queue :: "IKCPSEG list"
  k_rcv_queue :: "IKCPSEG list"
  k_snd_buf :: "IKCPSEG list"
  k_rcv_buf :: "IKCPSEG list"
  k_acklist :: "(u32 \<times> u32) list"
  k_ackcount :: u32
  k_ackblock :: u32
  k_user :: nat
  k_buffer :: nat
  k_fastresend :: i32
  k_nocwnd :: i32
  k_logmask :: i32
  k_output :: bool
  k_writelog :: bool

type_synonym allocator = "nat \<Rightarrow> nat \<Rightarrow> bool"

text \<open>Object sizes on an LP64 platform; only the allocator sees them.\<close>

definition sizeof_IKCPSEG :: nat where "sizeof_IKCPSEG = 72"
definition sizeof_IKCPCB :: nat where "sizeof_IKCPCB = 264"

section \<open>Segments\<close>

text \<open>A fresh segment: every field holds whatever the memory held.\<close>

definition ikcp_segment_new :: "nat \<Rightarrow> IKCPSEG" where
  "ikcp_segment_new sz =
     \<lparr>seg_conv = undefined, seg_cmd = undefined, seg_frg = undefined, seg_wnd = undefined,
      seg_ts = undefined, seg_sn = undefined, seg_una = undefined, seg_len = undefined,
      seg_resendts = undefined, seg_rto = undefined, seg_fastack = undefined,
      seg_xmit = undefined, seg_data = replicate sz undefined\<rparr>"

section \<open>Creation and release\<close>

definition ikcp_create :: "allocator \<Rightarrow> u32 \<Rightarrow> nat \<Rightarrow> IKCPCB option" where
  "ikcp_create alloc conv user =
     (let mtu = IKCP_MTU_DEF;
          buffer = unat ((mtu + IKCP_OVERHEAD) * 3)
      in if \<not> alloc 0 sizeof_IKCPCB then None
         else if \<not> alloc 1 buffer then None
         else Some
           \<lparr>k_conv = conv, k_mtu = mtu, k_mss = mtu - IKCP_OVERHEAD, k_state = 0,
            k_snd_una = 0, k_snd_nxt = 0, k_rcv_nxt = 0,
            k_ts_recent = 0, k_ts_lastack = 0, k_ssthresh = IKCP_THRESH_INIT,
            k_rx_rttval = 0, k_rx_srtt = 0, k_rx_rto = IKCP_RTO_DEF, k_rx_minrto = IKCP_RTO_MIN,
            k_snd_wnd = IKCP_WND_SND, k_rcv_wnd = IKCP_WND_RCV, k_rmt_wnd = IKCP_WND_RCV,
            k_cwnd = 0, k_probe = 0,
            k_current = 0, k_interval = IKCP_INTERVAL, k_ts_flush = IKCP_INTERVAL, k_xmit = 0,
            k_nrcv_buf = 0, k_nsnd_buf = 0, k_nrcv_que = 0, k_nsnd_que = 0,
            k_nodelay = 0, k_updated = 0, k_ts_probe = 0, k_probe_wait = 0,
            k_dead_link = IKCP_DEADLINK, k_incr = 0,
            k_snd_queue = [], k_rcv_queue = [], k_snd_buf = [], k_rcv_buf = [],
            k_acklist = [], k_ackcount = 0, k_ackblock = 0,
            k_user = user, k_buffer = buffer,
            k_fastresend = 0, k_nocwnd = 0, k_logmask = 0, k_output = False, k_writelog = False\<rparr>)"

text \<open>One of the four loops of \<open>ikcp_release\<close>: take and free the first segment until the queue is
  empty. The segments freed so far are collected in order.\<close>

fun release_queue :: "IKCPSEG list \<Rightarrow> IKCPSEG list \<Rightarrow> IKCPSEG list \<times> IKCPSEG list" where
  "release_queue [] freed = ([], freed)"
| "release_queue (seg # q) freed = release_queue q (freed @ [seg])"

text \<open>The result is the list of freed segments and the fields of the control block as they stand when
  the block itself is freed.\<close>

definition ikcp_release :: "IKCPCB \<Rightarrow> IKCPSEG list \<times> IKCPCB" where
  "ikcp_release kcp =
     (let (snd_buf, freed) = release_queue (k_snd_buf kcp) [];
          (rcv_buf, freed) = release_queue (k_rcv_buf kcp) freed;
          (snd_queue, freed) = release_queue (k_snd_queue kcp) freed;
          (rcv_queue, freed) = release_queue (k_rcv_queue kcp) freed
      in (freed,
          kcp\<lparr>k_snd_buf := snd_buf, k_rcv_buf := rcv_buf, k_snd_queue := snd_queue,
              k_rcv_queue := rcv_queue,
              k_nrcv_buf := 0, k_nsnd_buf := 0, k_nrcv_que := 0, k_nsnd_que := 0,
              k_ackcount := 0, k_buffer := 0, k_acklist := []\<rparr>))"

section \<open>Configuration\<close>

definition ikcp_setmtu :: "allocator \<Rightarrow> IKCPCB \<Rightarrow> i32 \<Rightarrow> int \<times> IKCPCB" where
  "ikcp_setmtu alloc kcp mtu =
     (if sint mtu < 50 \<or> sint mtu < sint IKCP_OVERHEAD then (-1, kcp)
      else let buffer = unat ((mtu + IKCP_OVERHEAD) * 3)
           in if \<not> alloc 0 buffer then (-2, kcp)
              else (0, kcp\<lparr>k_mtu := mtu, k_mss := mtu - IKCP_OVERHEAD, k_buffer := buffer\<rparr>))"

text \<open>The clamp shared by \<open>ikcp_interval\<close> and \<open>ikcp_nodelay\<close>.\<close>

definition clamp_interval :: "i32 \<Rightarrow> i32" where
  "clamp_interval interval =
     (if sint interval > 5000 then 5000 else if sint interval < 2 then 2 else interval)"

definition ikcp_interval :: "IKCPCB \<Rightarrow> i32 \<Rightarrow> int \<times> IKCPCB" where
  "ikcp_interval kcp interval = (0, kcp\<lparr>k_interval := clamp_interval interval\<rparr>)"

definition ikcp_nodelay :: "IKCPCB \<Rightarrow> i32 \<Rightarrow> i32 \<Rightarrow> i32 \<Rightarrow> i32 \<Rightarrow> int \<times> IKCPCB" where
  "ikcp_nodelay kcp nodelay interval resend nc =
     (let kcp = (if sint nodelay \<ge> 0
                 then kcp\<lparr>k_nodelay := nodelay,
                          k_rx_minrto := (if nodelay \<noteq> 0 then IKCP_RTO_NDL else IKCP_RTO_MIN)\<rparr>
                 else kcp);
          kcp = (if sint interval \<ge> 0 then kcp\<lparr>k_interval := clamp_interval interval\<rparr> else kcp);
          kcp = (if sint resend \<ge> 0 then kcp\<lparr>k_fastresend := resend\<rparr> else kcp);
          kcp = (if sint nc \<ge> 0 then kcp\<lparr>k_nocwnd := nc\<rparr> else kcp)
      in (0, kcp))"

text \<open>\<open>ikcp_wndsize\<close> accepts a null control block and then does nothing.\<close>

definition ikcp_wndsize :: "IKCPCB option \<Rightarrow> i32 \<Rightarrow> i32 \<Rightarrow> int \<times> IKCPCB option" where
  "ikcp_wndsize kcp sndwnd rcvwnd =
     (0, map_option (\<lambda>kcp.
           let kcp = (if sint sndwnd > 0 then kcp\<lparr>k_snd_wnd := sndwnd\<rparr> else kcp)
           in if sint rcvwnd > 0 then kcp\<lparr>k_rcv_wnd := rcvwnd\<rparr> else kcp) kcp)"

definition ikcp_waitsnd :: "IKCPCB \<Rightarrow> int" where
  "ikcp_waitsnd kcp = sint (k_nsnd_buf kcp + k_nsnd_que kcp)"

definition ikcp_wnd_unused :: "IKCPCB \<Rightarrow> i32" where
  "ikcp_wnd_unused kcp =
     (if k_nrcv_que kcp < k_rcv_wnd kcp then k_rcv_wnd kcp - k_nrcv_que kcp else 0)"

lemma release_queue_eq [simp]: "release_queue q freed = ([], freed @ q)"
  by (induction q arbitrary: freed) auto

lemma clamp_interval_bounds: "2 \<le> unat (clamp_interval i) \<and> unat (clamp_interval i) \<le> 5000"
proof -
  consider "sint i > 5000" | "sint i < 2" | "2 \<le> sint i" "sint i \<le> 5000" by linarith
  then show ?thesis
  proof cases
    case 3
    then have "2 \<le> unat i \<and> unat i \<le> 5000" using sint32_unat [of i] unat32_less [of i] by linarith
    then show ?thesis using 3 by (simp add: clamp_interval_def)
  qed (simp_all add: clamp_interval_def)
qed

end
