(* ===== verification/Kcp_Recv.thy ===== *)
theory Kcp_Recv
  imports Kcp_State
begin

text \<open>
  The receiving side of \<open>src/util/ikcp.c\<close>: \<open>ikcp_peeksize\<close>, \<open>ikcp_recv\<close> and \<open>ikcp_parse_data\<close>. Segments
  arrive in \<open>rcv_buf\<close>, kept in sequence-number order; the loop \<open>move_rcv\<close>, which the source has twice,
  moves the segments that are next in line to \<open>rcv_queue\<close>; \<open>ikcp_recv\<close> takes one message (the fragments up
  to the first one numbered 0) from there.
\<close>

section \<open>Operations\<close>

text \<open>The summing loop of \<open>ikcp_peeksize\<close>; \<open>length\<close> is an \<open>int\<close> that a \<open>IUINT32\<close> is added to.\<close>

fun peek_sum :: "IKCPSEG list \<Rightarrow> i32 \<Rightarrow> i32" where
  "peek_sum [] len = len"
| "peek_sum (seg # q) len =
     (let len = len + seg_len seg in if seg_frg seg = 0 then len else peek_sum q len)"

definition ikcp_peeksize :: "IKCPCB \<Rightarrow> i32" where
  "ikcp_peeksize kcp =
     (case k_rcv_queue kcp of
        [] \<Rightarrow> -1
      | seg # _ \<Rightarrow>
          if seg_frg seg = 0 then seg_len seg
          else if k_nrcv_que kcp < seg_frg seg + 1 then -1
          else peek_sum (k_rcv_queue kcp) 0)"

text \<open>The merging loop of \<open>ikcp_recv\<close>: the bytes copied to the user's buffer (none when it is null),
  the number of bytes counted, the segments that stay in the queue and the queue counter.\<close>

fun merge_fragments :: "bool \<Rightarrow> bool \<Rightarrow> IKCPSEG list \<Rightarrow> bytes \<Rightarrow> i32 \<Rightarrow> u32 \<Rightarrow> bytes \<times> i32 \<times> IKCPSEG list \<times> u32" where
  "merge_fragments buffer ispeek [] out len nrcv_que = (out, len, [], nrcv_que)"
| "merge_fragments buffer ispeek (seg # q) out len nrcv_que =
     (let out = (if buffer then out @ take (unat (seg_len seg)) (seg_data seg) else out);
          len = len + seg_len seg;
          fragment = seg_frg seg;
          nrcv_que = (if \<not> ispeek then nrcv_que - 1 else nrcv_que)
      in if fragment = 0 then (out, len, (if ispeek then seg # q else q), nrcv_que)
         else case merge_fragments buffer ispeek q out len nrcv_que of
                (out, len, rest, nrcv_que) \<Rightarrow> (out, len, (if ispeek then seg # rest else rest), nrcv_que))"

text \<open>Move available data from \<open>rcv_buf\<close> to \<open>rcv_queue\<close>.\<close>

fun move_rcv_from :: "IKCPSEG list \<Rightarrow> IKCPCB \<Rightarrow> IKCPCB" where
  "move_rcv_from [] kcp = kcp\<lparr>k_rcv_buf := []\<rparr>"
| "move_rcv_from (seg # buf) kcp =
     (if seg_sn seg = k_rcv_nxt kcp \<and> k_nrcv_que kcp < k_rcv_wnd kcp
      then move_rcv_from buf
             (kcp\<lparr>k_nrcv_buf := k_nrcv_buf kcp - 1,
                  k_rcv_queue := k_rcv_queue kcp @ [seg],
                  k_nrcv_que := k_nrcv_que kcp + 1,
                  k_rcv_nxt := k_rcv_nxt kcp + 1\<rparr>)
      else kcp\<lparr>k_rcv_buf := seg # buf\<rparr>)"

definition move_rcv :: "IKCPCB \<Rightarrow> IKCPCB" where
  "move_rcv kcp = move_rcv_from (k_rcv_buf kcp) kcp"

text \<open>Fast recover: a window that was full and has room again is announced to the peer.\<close>

definition fast_recover :: "bool \<Rightarrow> IKCPCB \<Rightarrow> IKCPCB" where
  "fast_recover recover kcp =
     (if k_nrcv_que kcp < k_rcv_wnd kcp \<and> recover
      then kcp\<lparr>k_probe := k_probe kcp OR IKCP_ASK_TELL\<rparr> else kcp)"

text \<open>\<open>ikcp_recv\<close>: \<open>buffer\<close> says whether the user's buffer is non-null. The result is the return value,
  the bytes written to the buffer and the new control block; \<open>None\<close> is a failed \<open>assert\<close>.\<close>

definition ikcp_recv :: "IKCPCB \<Rightarrow> bool \<Rightarrow> i32 \<Rightarrow> (int \<times> bytes \<times> IKCPCB) option" where
  "ikcp_recv kcp buffer len =
     (let ispeek = (sint len < 0)
      in if k_rcv_queue kcp = [] then Some (-1, [], kcp)
         else
           let len = (if sint len < 0 then - len else len);
               peeksize = ikcp_peeksize kcp
           in if sint peeksize < 0 then Some (-2, [], kcp)
              else if sint peeksize > sint len then Some (-3, [], kcp)
              else
                let recover = (k_nrcv_que kcp \<ge> k_rcv_wnd kcp);
                    (out, len, queue, nrcv_que) =
                      merge_fragments buffer ispeek (k_rcv_queue kcp) [] 0 (k_nrcv_que kcp);
                    kcp = kcp\<lparr>k_rcv_queue := queue, k_nrcv_que := nrcv_que\<rparr>
                in if len \<noteq> peeksize then None
                   else Some (sint len, out, fast_recover recover (move_rcv kcp)))"

text \<open>The search of \<open>ikcp_parse_data\<close> runs from the tail of \<open>rcv_buf\<close> towards the head, so it is written on
  the reversed list. \<open>None\<close> is a repeated sequence number; otherwise the new segment is placed behind the
  entry the search stopped at.\<close>

fun insert_rcv_rev :: "IKCPSEG \<Rightarrow> IKCPSEG list \<Rightarrow> IKCPSEG list option" where
  "insert_rcv_rev newseg [] = Some [newseg]"
| "insert_rcv_rev newseg (seg # q) =
     (if seg_sn seg = seg_sn newseg then None
      else if itimediff (seg_sn newseg) (seg_sn seg) > 0 then Some (newseg # seg # q)
      else map_option ((#) seg) (insert_rcv_rev newseg q))"

definition ikcp_parse_data :: "IKCPCB \<Rightarrow> IKCPSEG \<Rightarrow> IKCPCB" where
  "ikcp_parse_data kcp newseg =
     (let sn = seg_sn newseg
      in if itimediff sn (k_rcv_nxt kcp + k_rcv_wnd kcp) \<ge> 0 \<or> itimediff sn (k_rcv_nxt kcp) < 0
         then kcp
         else
           let kcp = (case insert_rcv_rev newseg (rev (k_rcv_buf kcp)) of
                        None \<Rightarrow> kcp
                      | Some q \<Rightarrow> kcp\<lparr>k_rcv_buf := rev q, k_nrcv_buf := k_nrcv_buf kcp + 1\<rparr>)
           in move_rcv kcp)"

section \<open>Messages in a queue of fragments\<close>

text \<open>Reference notions: the first message of a queue is everything up to and including the first fragment
  numbered 0; the payload of a segment is its first \<open>len\<close> bytes.\<close>

fun first_message :: "IKCPSEG list \<Rightarrow> IKCPSEG list" where
  "first_message [] = []"
| "first_message (seg # q) = (if seg_frg seg = 0 then [seg] else seg # first_message q)"

fun after_message :: "IKCPSEG list \<Rightarrow> IKCPSEG list" where
  "after_message [] = []"
| "after_message (seg # q) = (if seg_frg seg = 0 then q else after_message q)"

definition payload :: "IKCPSEG \<Rightarrow> bytes" where
  "payload seg = take (unat (seg_len seg)) (seg_data seg)"

lemma message_split: "first_message q @ after_message q = q"
  by (induction q) auto

lemma peek_sum_eq: "peek_sum q len = len + sum_list (map seg_len (first_message q))"
  by (induction q arbitrary: len) (auto simp: Let_def algebra_simps)

lemma merge_take:
  "merge_fragments buffer False q out len n =
     (out @ (if buffer then concat (map payload (first_message q)) else []),
      len + sum_list (map seg_len (first_message q)), after_message q,
      n - of_nat (length (first_message q)))"
  by (induction q arbitrary: out len n) (auto simp: Let_def payload_def algebra_simps)

lemma merge_peek:
  "merge_fragments buffer True q out len n =
     (out @ (if buffer then concat (map payload (first_message q)) else []),
      len + sum_list (map seg_len (first_message q)), q, n)"
  by (induction q arbitrary: out len n) (auto simp: Let_def payload_def algebra_simps)

lemma peeksize_eq:
  assumes "k_rcv_queue kcp \<noteq> []" "sint (ikcp_peeksize kcp) \<ge> 0"
  shows "ikcp_peeksize kcp = sum_list (map seg_len (first_message (k_rcv_queue kcp)))"
  using assms by (auto simp: ikcp_peeksize_def peek_sum_eq split: list.splits if_splits)

section \<open>Moving segments that are next in line\<close>

lemma move_rcv_from_spec:
  "\<exists>n \<le> length buf.
     move_rcv_from buf kcp =
       kcp\<lparr>k_nrcv_buf := k_nrcv_buf kcp - of_nat n,
           k_rcv_queue := k_rcv_queue kcp @ take n buf,
           k_nrcv_que := k_nrcv_que kcp + of_nat n,
           k_rcv_nxt := k_rcv_nxt kcp + of_nat n,
           k_rcv_buf := drop n buf\<rparr> \<and>
     (\<forall>i < n. seg_sn (buf ! i) = k_rcv_nxt kcp + of_nat i \<and> k_nrcv_que kcp + of_nat i < k_rcv_wnd kcp) \<and>
     (n < length buf \<longrightarrow>
        seg_sn (buf ! n) \<noteq> k_rcv_nxt kcp + of_nat n \<or> \<not> k_nrcv_que kcp + of_nat n < k_rcv_wnd kcp)"
  (is "\<exists>n \<le> _. ?P buf kcp n")
proof (induction buf arbitrary: kcp)
  case Nil
  show ?case by (intro exI [of _ 0]) simp
next
  case (Cons seg buf)
  show ?case
  proof (cases "seg_sn seg = k_rcv_nxt kcp \<and> k_nrcv_que kcp < k_rcv_wnd kcp")
    case False
    then show ?thesis by (intro exI [of _ 0]) auto
  next
    case True
    let ?k = "kcp\<lparr>k_nrcv_buf := k_nrcv_buf kcp - 1, k_rcv_queue := k_rcv_queue kcp @ [seg],
                  k_nrcv_que := k_nrcv_que kcp + 1, k_rcv_nxt := k_rcv_nxt kcp + 1\<rparr>"
    from Cons.IH [of ?k] obtain n where n: "n \<le> length buf" "?P buf ?k n" by blast
    have "?P (seg # buf) kcp (Suc n)"
      using True n(2) by (auto simp: algebra_simps less_Suc_eq_0_disj)
    with n(1) show ?thesis by (intro exI [of _ "Suc n"]) simp
  qed
qed

section \<open>Ordered insertion into the receive buffer\<close>

text \<open>Sequence numbers wrap, so order is measured from a base: the offset of a segment is its distance from
  the next sequence number expected. \<open>sn_sorted\<close> is the order of the receive buffer.\<close>

definition sn_off :: "u32 \<Rightarrow> IKCPSEG \<Rightarrow> nat" where
  "sn_off base seg = unat (seg_sn seg - base)"

definition sn_sorted :: "u32 \<Rightarrow> IKCPSEG list \<Rightarrow> bool" where
  "sn_sorted base buf \<longleftrightarrow>
     sorted_wrt (<) (map (sn_off base) buf) \<and> (\<forall>seg \<in> set buf. sn_off base seg < 2147483648)"

fun insert_by_off :: "u32 \<Rightarrow> IKCPSEG \<Rightarrow> IKCPSEG list \<Rightarrow> IKCPSEG list" where
  "insert_by_off base newseg [] = [newseg]"
| "insert_by_off base newseg (seg # q) =
     (if sn_off base newseg < sn_off base seg then newseg # seg # q
      else seg # insert_by_off base newseg q)"

text \<open>Within half the sequence space, the signed comparison of the code is the comparison of offsets.\<close>

lemma serial_gt:
  assumes "unat (a - base) < 2147483648" "unat (b - base) < 2147483648"
  shows "itimediff a b > 0 \<longleftrightarrow> unat (b - base) < unat (a - base)"
proof -
  have "a - b = (a - base) - (b - base)" by simp
  then have "unat (a - b) = (if unat (b - base) \<le> unat (a - base) then unat (a - base) - unat (b - base)
      else unat (a - base) + 4294967296 - unat (b - base))"
    by (metis unat32_sub)
  then show ?thesis using assms by (auto simp: itimediff_pos split: if_splits)
qed

lemma serial_eq: "(a :: u32) = b \<longleftrightarrow> unat (a - base) = unat (b - base)"
  by (metis word32_eq_iff_unat diff_add_cancel)

lemma sn_off_inj: "sn_off base s = sn_off base t \<longleftrightarrow> seg_sn s = seg_sn t"
  unfolding sn_off_def by (rule serial_eq [symmetric])

lemma insert_by_off_append:
  "(\<forall>seg \<in> set xs. sn_off base seg \<le> sn_off base newseg) \<Longrightarrow>
   insert_by_off base newseg (xs @ ys) = xs @ insert_by_off base newseg ys"
  by (induction xs) auto

lemma insert_by_off_snoc:
  "sn_off base newseg < sn_off base seg \<Longrightarrow>
   insert_by_off base newseg (xs @ [seg]) = insert_by_off base newseg xs @ [seg]"
  by (induction xs) auto

lemma set_insert_by_off [simp]: "set (insert_by_off base newseg q) = insert newseg (set q)"
  by (induction q) auto

lemma length_insert_by_off [simp]: "length (insert_by_off base newseg q) = Suc (length q)"
  by (induction q) auto

lemma sn_sorted_Nil [simp]: "sn_sorted base []"
  by (simp add: sn_sorted_def)

lemma sn_sorted_Cons:
  "sn_sorted base (seg # q) \<longleftrightarrow>
     sn_off base seg < 2147483648 \<and> (\<forall>t \<in> set q. sn_off base seg < sn_off base t) \<and> sn_sorted base q"
  by (auto simp: sn_sorted_def)

lemma sn_sorted_append:
  "sn_sorted base (xs @ ys) \<longleftrightarrow>
     sn_sorted base xs \<and> sn_sorted base ys \<and>
     (\<forall>s \<in> set xs. \<forall>t \<in> set ys. sn_off base s < sn_off base t)"
  by (auto simp: sn_sorted_def sorted_wrt_append)

lemma insert_by_off_sorted:
  "sn_sorted base q \<Longrightarrow> sn_off base newseg < 2147483648 \<Longrightarrow> seg_sn newseg \<notin> seg_sn ` set q \<Longrightarrow>
   sn_sorted base (insert_by_off base newseg q)"
proof (induction q)
  case Nil
  then show ?case by (simp add: sn_sorted_Cons)
next
  case (Cons seg q)
  have "sn_off base newseg \<noteq> sn_off base seg" using Cons.prems(3) by (auto simp: sn_off_inj)
  with Cons show ?case by (auto simp: sn_sorted_Cons)
qed

text \<open>The search from the tail is ordered insertion, and it finds every repetition.\<close>

lemma insert_rcv_rev_eq:
  "sn_sorted base buf \<Longrightarrow> sn_off base newseg < 2147483648 \<Longrightarrow>
   insert_rcv_rev newseg (rev buf) =
     (if seg_sn newseg \<in> seg_sn ` set buf then None else Some (rev (insert_by_off base newseg buf)))"
proof (induction buf rule: rev_induct)
  case Nil
  then show ?case by simp
next
  case (snoc seg buf)
  have offs: "sn_off base seg < 2147483648" "sn_sorted base buf"
    "\<forall>t \<in> set buf. sn_off base t < sn_off base seg"
    using snoc.prems(1) by (auto simp: sn_sorted_append sn_sorted_Cons)
  have gt: "itimediff (seg_sn newseg) (seg_sn seg) > 0 \<longleftrightarrow> sn_off base seg < sn_off base newseg"
    using serial_gt offs(1) snoc.prems(2) unfolding sn_off_def by blast
  consider "seg_sn seg = seg_sn newseg" | "sn_off base seg < sn_off base newseg"
    | "sn_off base newseg < sn_off base seg"
    by (metis sn_off_inj linorder_neqE_nat)
  then show ?case
  proof cases
    case 1
    then show ?thesis by simp
  next
    case 2
    then have "\<forall>t \<in> set (buf @ [seg]). sn_off base t < sn_off base newseg" using offs(3) by fastforce
    then have lt: "\<forall>t \<in> set (buf @ [seg]). seg_sn newseg \<noteq> seg_sn t \<and> sn_off base t \<le> sn_off base newseg"
      by (metis sn_off_inj less_imp_le less_irrefl)
    then have "seg_sn newseg \<notin> seg_sn ` set (buf @ [seg])" by blast
    moreover have "insert_by_off base newseg (buf @ [seg]) = buf @ [seg, newseg]"
      using insert_by_off_append [of "buf @ [seg]" base newseg "[]"] lt by simp
    ultimately show ?thesis using 2 gt by auto
  next
    case 3
    then have "seg_sn seg \<noteq> seg_sn newseg" by (auto simp flip: sn_off_inj [of base])
    then show ?thesis using 3 gt snoc.IH [OF offs(2) snoc.prems(2)] by (auto simp: insert_by_off_snoc)
  qed
qed

section \<open>The receive-side invariant\<close>

definition seg_ok :: "IKCPSEG \<Rightarrow> bool" where
  "seg_ok seg \<longleftrightarrow> length (seg_data seg) = unat (seg_len seg)"

definition rcv_wf :: "IKCPCB \<Rightarrow> bool" where
  "rcv_wf kcp \<longleftrightarrow>
     0 < unat (k_rcv_wnd kcp) \<and> unat (k_rcv_wnd kcp) < 2147483648 \<and>
     length (k_rcv_queue kcp) < 2147483648 \<and>
     k_nrcv_que kcp = of_nat (length (k_rcv_queue kcp)) \<and>
     k_nrcv_buf kcp = of_nat (length (k_rcv_buf kcp)) \<and>
     sn_sorted (k_rcv_nxt kcp) (k_rcv_buf kcp) \<and>
     (\<forall>seg \<in> set (k_rcv_queue kcp) \<union> set (k_rcv_buf kcp). seg_ok seg)"

lemma sn_off_shift:
  "n \<le> sn_off base seg \<Longrightarrow> n < 4294967296 \<Longrightarrow> sn_off (base + of_nat n) seg = sn_off base seg - n"
proof -
  assume n: "n \<le> sn_off base seg" "n < 4294967296"
  have "seg_sn seg - (base + of_nat n) = (seg_sn seg - base) - of_nat n" by simp
  then show ?thesis using n
    by (simp only: sn_off_def unat32_sub unat32_of_nat_small) simp
qed

text \<open>Dropping a run of segments that starts at the base leaves a buffer sorted from the new base.\<close>

lemma sn_sorted_drop:
  assumes "sn_sorted base buf" "n \<le> length buf" "n < 2147483648"
    and "\<forall>i < n. seg_sn (buf ! i) = base + of_nat i"
  shows "sn_sorted (base + of_nat n) (drop n buf)"
proof -
  have ge: "n \<le> sn_off base seg" if "seg \<in> set (drop n buf)" for seg
  proof (cases n)
    case (Suc m)
    have "sn_off base (buf ! m) = m"
      using assms(3,4) Suc by (simp add: sn_off_def unat32_of_nat_small)
    moreover have "sn_off base (buf ! m) < sn_off base seg"
    proof -
      have "buf = take n buf @ drop n buf" by simp
      then have "\<forall>s \<in> set (take n buf). \<forall>t \<in> set (drop n buf). sn_off base s < sn_off base t"
        using assms(1) by (metis sn_sorted_append)
      moreover have "buf ! m \<in> set (take n buf)"
        using Suc assms(2) by (metis in_set_conv_nth length_take lessI min.absorb2 nth_take)
      ultimately show ?thesis using that by blast
    qed
    ultimately show ?thesis using Suc by simp
  qed simp
  have shift: "sn_off (base + of_nat n) seg = sn_off base seg - n" if "seg \<in> set (drop n buf)" for seg
    using sn_off_shift ge that assms(3) by simp
  have "sn_sorted base (drop n buf)"
    using assms(1) by (metis append_take_drop_id sn_sorted_append)
  then have "sorted_wrt (\<lambda>s t. sn_off (base + of_nat n) s < sn_off (base + of_nat n) t) (drop n buf)"
    unfolding sn_sorted_def sorted_wrt_map
    by (elim conjE sorted_wrt_mono_rel [rotated]) (use shift ge in \<open>force\<close>)
  moreover have "\<forall>seg \<in> set (drop n buf). sn_off (base + of_nat n) seg < 2147483648"
    using \<open>sn_sorted base (drop n buf)\<close> shift by (fastforce simp: sn_sorted_def)
  ultimately show ?thesis by (simp add: sn_sorted_def sorted_wrt_map)
qed

lemma sn_sorted_length: "sn_sorted base buf \<Longrightarrow> length buf \<le> 2147483648"
proof -
  assume s: "sn_sorted base buf"
  then have "distinct (map (sn_off base) buf)"
    by (auto simp: sn_sorted_def strict_sorted_iff)
  then have "length buf = card (set (map (sn_off base) buf))" by (metis distinct_card length_map)
  also have "\<dots> \<le> card {..< 2147483648 :: nat}"
    by (rule card_mono) (use s in \<open>auto simp: sn_sorted_def\<close>)
  finally show ?thesis by simp
qed

lemma count_below:
  assumes "m < 2147483648" "unat wnd < 2147483648" "n \<le> 2147483648"
    and "\<forall>i < n. (of_nat m :: u32) + of_nat i < wnd"
  shows "m + n < 2147483648"
proof (cases n)
  case (Suc k)
  have "m + k < 4294967296" using assms(1,3) Suc by simp
  then have "unat (of_nat m + of_nat k :: u32) = m + k"
    by (metis of_nat_add unat32_of_nat_small)
  then have "m + k < unat wnd" using assms(4) Suc by (auto simp: word_less_nat_alt)
  then show ?thesis using assms(2) Suc by simp
qed (use assms in simp)

lemma move_rcv_wf:
  assumes "rcv_wf kcp" shows "rcv_wf (move_rcv kcp)"
proof -
  let ?buf = "k_rcv_buf kcp"
  obtain n where n: "n \<le> length ?buf"
    and eq: "move_rcv kcp = kcp\<lparr>k_nrcv_buf := k_nrcv_buf kcp - of_nat n,
           k_rcv_queue := k_rcv_queue kcp @ take n ?buf, k_nrcv_que := k_nrcv_que kcp + of_nat n,
           k_rcv_nxt := k_rcv_nxt kcp + of_nat n, k_rcv_buf := drop n ?buf\<rparr>"
    and run: "\<forall>i < n. seg_sn (?buf ! i) = k_rcv_nxt kcp + of_nat i"
    and cnt: "\<forall>i < n. k_nrcv_que kcp + of_nat i < k_rcv_wnd kcp"
    using move_rcv_from_spec [of ?buf kcp] unfolding move_rcv_def by blast
  have srt: "sn_sorted (k_rcv_nxt kcp) ?buf" using assms by (simp add: rcv_wf_def)
  have len: "length (k_rcv_queue kcp) + n < 2147483648"
    using assms cnt n sn_sorted_length [OF srt]
    by (intro count_below [where wnd = "k_rcv_wnd kcp"]) (auto simp: rcv_wf_def)
  have "sn_sorted (k_rcv_nxt kcp + of_nat n) (drop n ?buf)"
    using sn_sorted_drop [OF srt n] len run by simp
  then show ?thesis using assms n len unfolding eq
    by (auto simp: rcv_wf_def of_nat_diff dest: in_set_dropD in_set_takeD)
qed

lemma insert_rcv_wf:
  assumes "rcv_wf kcp" "sn_off (k_rcv_nxt kcp) newseg < 2147483648"
    and "seg_sn newseg \<notin> seg_sn ` set (k_rcv_buf kcp)" "seg_ok newseg"
  shows "rcv_wf (kcp\<lparr>k_rcv_buf := insert_by_off (k_rcv_nxt kcp) newseg (k_rcv_buf kcp),
                     k_nrcv_buf := k_nrcv_buf kcp + 1\<rparr>)"
  using assms insert_by_off_sorted by (auto simp: rcv_wf_def)

text \<open>A segment inside the window and not yet buffered is inserted in order; a repetition and a segment
  outside the window change nothing but what \<open>move_rcv\<close> does.\<close>

lemma parse_data_cases:
  assumes "rcv_wf kcp"
  shows "ikcp_parse_data kcp newseg =
     (if itimediff (seg_sn newseg) (k_rcv_nxt kcp + k_rcv_wnd kcp) \<ge> 0 \<or>
         itimediff (seg_sn newseg) (k_rcv_nxt kcp) < 0 then kcp
      else if seg_sn newseg \<in> seg_sn ` set (k_rcv_buf kcp) then move_rcv kcp
      else move_rcv (kcp\<lparr>k_rcv_buf := insert_by_off (k_rcv_nxt kcp) newseg (k_rcv_buf kcp),
                         k_nrcv_buf := k_nrcv_buf kcp + 1\<rparr>))"
proof -
  have "sn_sorted (k_rcv_nxt kcp) (k_rcv_buf kcp)" using assms by (simp add: rcv_wf_def)
  then show ?thesis
    using insert_rcv_rev_eq [of "k_rcv_nxt kcp" "k_rcv_buf kcp" newseg]
    by (auto simp: ikcp_parse_data_def Let_def sn_off_def itimediff_neg itimediff_nonneg)
qed

lemma parse_data_wf:
  assumes "rcv_wf kcp" "seg_ok newseg"
  shows "rcv_wf (ikcp_parse_data kcp newseg)"
proof -
  have "sn_off (k_rcv_nxt kcp) newseg < 2147483648" if "\<not> itimediff (seg_sn newseg) (k_rcv_nxt kcp) < 0"
    using that by (simp add: itimediff_neg sn_off_def)
  then show ?thesis
    using assms insert_rcv_wf move_rcv_wf by (simp add: parse_data_cases)
qed

section \<open>Receiving a message\<close>

lemma recv_no_assert: "ikcp_recv kcp buffer len \<noteq> None"
proof -
  have "ikcp_peeksize kcp = sum_list (map seg_len (first_message (k_rcv_queue kcp)))"
    if "k_rcv_queue kcp \<noteq> []" "\<not> sint (ikcp_peeksize kcp) < 0"
    using peeksize_eq that by simp
  then show ?thesis
    by (cases "sint len < 0") (auto simp: ikcp_recv_def Let_def merge_peek merge_take)
qed

text \<open>What a successful, consuming call does.\<close>

definition drop_message :: "IKCPCB \<Rightarrow> IKCPCB" where
  "drop_message kcp =
     kcp\<lparr>k_rcv_queue := after_message (k_rcv_queue kcp),
         k_nrcv_que := k_nrcv_que kcp - of_nat (length (first_message (k_rcv_queue kcp)))\<rparr>"

lemma recv_take:
  assumes "k_rcv_queue kcp \<noteq> []" "0 \<le> sint len" "0 \<le> sint (ikcp_peeksize kcp)"
    "sint (ikcp_peeksize kcp) \<le> sint len"
  shows "ikcp_recv kcp buffer len =
     Some (sint (ikcp_peeksize kcp),
           if buffer then concat (map payload (first_message (k_rcv_queue kcp))) else [],
           fast_recover (k_rcv_wnd kcp \<le> k_nrcv_que kcp) (move_rcv (drop_message kcp)))"
  using assms peeksize_eq [OF assms(1,3)] by (simp add: ikcp_recv_def Let_def merge_take drop_message_def)

lemma drop_message_wf:
  assumes "rcv_wf kcp" shows "rcv_wf (drop_message kcp)"
proof -
  let ?q = "k_rcv_queue kcp"
  have "length ?q = length (first_message ?q) + length (after_message ?q)"
    and sub: "set (after_message ?q) \<subseteq> set ?q"
    using message_split [of ?q] by (metis length_append, metis Un_iff set_append subsetI)
  then show ?thesis using assms by (auto simp: rcv_wf_def drop_message_def)
qed

lemma recv_result:
  assumes "ikcp_recv kcp buffer len = Some (r, out, kcp')"
  shows "kcp' = kcp \<or> (\<exists>b. kcp' = fast_recover b (move_rcv kcp)) \<or>
     (\<exists>b. kcp' = fast_recover b (move_rcv (drop_message kcp)))"
proof (cases "sint len < 0")
  case True
  have id: "k\<lparr>k_rcv_queue := k_rcv_queue k, k_nrcv_que := k_nrcv_que k\<rparr> = k" for k :: IKCPCB by simp
  show ?thesis using assms True by (auto simp: ikcp_recv_def Let_def merge_peek id split: if_splits)
next
  case False
  then show ?thesis using assms
    by (auto simp: ikcp_recv_def Let_def merge_take drop_message_def split: if_splits)
qed

lemma fast_recover_wf [simp]: "rcv_wf (fast_recover b kcp) \<longleftrightarrow> rcv_wf kcp"
  by (simp add: rcv_wf_def fast_recover_def)

lemma recv_wf:
  assumes "rcv_wf kcp" "ikcp_recv kcp buffer len = Some (r, out, kcp')"
  shows "rcv_wf kcp'"
  using recv_result [OF assms(2)] assms(1) move_rcv_wf drop_message_wf by auto

end
