(* ===== verification/Kcp_Send.thy ===== *)
theory Kcp_Send
  imports Kcp_Recv
begin

text \<open>
  \<open>ikcp_send\<close> of \<open>src/util/ikcp.c\<close>: a message is cut into fragments of at most \<open>mss\<close> bytes, numbered
  downwards to 0, and queued on \<open>snd_queue\<close>. The lemmas relate the loop to a reference splitting of the
  message and show that \<open>ikcp_recv\<close> puts the fragments together again.
\<close>

section \<open>Operation\<close>

text \<open>The fragment loop, with \<open>rem\<close> iterations to go; \<open>buf\<close> is the user's buffer from the current position
  on, \<open>None\<close> for a null pointer; that it holds \<open>len\<close> bytes is up to the caller. \<open>None\<close> as a result is the failed \<open>assert(seg)\<close> when memory runs out.\<close>

fun send_loop :: "allocator \<Rightarrow> nat \<Rightarrow> nat \<Rightarrow> bytes option \<Rightarrow> i32 \<Rightarrow> IKCPCB \<Rightarrow> IKCPCB option" where
  "send_loop alloc count 0 buf len kcp = Some kcp"
| "send_loop alloc count (Suc rem) buf len kcp =
     (let i = count - Suc rem;
          sz = (if sint len > sint (k_mss kcp) then k_mss kcp else len)
      in if \<not> alloc i (sizeof_IKCPSEG + unat sz) then None
         else
           let seg = ikcp_segment_new (unat sz);
               seg = (case buf of
                        Some b \<Rightarrow> if sint len > 0 then seg\<lparr>seg_data := take (unat sz) b\<rparr> else seg
                      | None \<Rightarrow> seg);
               seg = seg\<lparr>seg_len := sz, seg_frg := of_nat (count - i - 1)\<rparr>;
               kcp = kcp\<lparr>k_snd_queue := k_snd_queue kcp @ [seg], k_nsnd_que := k_nsnd_que kcp + 1\<rparr>
           in send_loop alloc count rem (map_option (drop (unat sz)) buf) (len - sz) kcp)"

definition send_count :: "IKCPCB \<Rightarrow> i32 \<Rightarrow> i32" where
  "send_count kcp len =
     (if sint len \<le> sint (k_mss kcp) then 1 else (len + k_mss kcp - 1) div k_mss kcp)"

definition ikcp_send :: "allocator \<Rightarrow> IKCPCB \<Rightarrow> bytes option \<Rightarrow> i32 \<Rightarrow> (int \<times> IKCPCB) option" where
  "ikcp_send alloc kcp buffer len =
     (if \<not> k_mss kcp > 0 then None
      else if sint len < 0 then Some (-1, kcp)
      else
        let count = send_count kcp len
        in if sint count > 255 then Some (-2, kcp)
           else
             let count = (if count = 0 then 1 else count)
             in map_option (\<lambda>kcp. (0, kcp)) (send_loop alloc (unat count) (unat count) buffer len kcp))"

section \<open>Reference splitting\<close>

function chunks :: "nat \<Rightarrow> 'a list \<Rightarrow> 'a list list" where
  "chunks m xs = (if m = 0 \<or> length xs \<le> m then [xs] else take m xs # chunks m (drop m xs))"
  by pat_completeness auto
termination by (relation "measure (\<lambda>(m, xs). length xs)") auto

declare chunks.simps [simp del]

definition fragment :: "nat \<Rightarrow> bytes \<Rightarrow> IKCPSEG" where
  "fragment frg data =
     (ikcp_segment_new (length data))\<lparr>seg_data := data, seg_len := of_nat (length data), seg_frg := of_nat frg\<rparr>"

definition fragments :: "nat \<Rightarrow> bytes \<Rightarrow> IKCPSEG list" where
  "fragments m msg = map2 fragment (rev [0..< length (chunks m msg)]) (chunks m msg)"

lemma chunks_small: "length xs \<le> m \<Longrightarrow> chunks m xs = [xs]"
  by (simp add: chunks.simps)

lemma chunks_step: "0 < m \<Longrightarrow> m < length xs \<Longrightarrow> chunks m xs = take m xs # chunks m (drop m xs)"
  by (simp add: chunks.simps [of m xs])

lemma chunks_ne: "chunks m xs \<noteq> []"
  by (subst chunks.simps) simp

lemma concat_chunks: "concat (chunks m xs) = xs"
proof (induction m xs rule: chunks.induct)
  case (1 m xs)
  then show ?case by (cases "m = 0 \<or> length xs \<le> m") (auto simp: chunks.simps [of m xs])
qed

lemma chunk_size: "0 < m \<Longrightarrow> c \<in> set (chunks m xs) \<Longrightarrow> length c \<le> m"
proof (induction m xs rule: chunks.induct)
  case (1 m xs)
  then show ?case by (cases "length xs \<le> m") (auto simp: chunks.simps [of m xs])
qed

lemma chunk_in: "c \<in> set (chunks m xs) \<Longrightarrow> length c \<le> length xs"
proof (induction m xs rule: chunks.induct)
  case (1 m xs)
  then show ?case by (cases "m = 0 \<or> length xs \<le> m") (auto simp: chunks.simps [of m xs])
qed

lemma chunks_count: "0 < m \<Longrightarrow> length (chunks m xs) = (if length xs \<le> m then 1 else (length xs + m - 1) div m)"
proof (induction m xs rule: chunks.induct)
  case (1 m xs)
  show ?case
  proof (cases "length xs \<le> m")
    case True
    then show ?thesis by (simp add: chunks_small)
  next
    case False
    with "1.prems" have "length (chunks m xs) = Suc (length (chunks m (drop m xs)))"
      by (simp add: chunks_step)
    also have "\<dots> = Suc ((length xs - m + m - 1) div m)"
    proof (cases "length xs - m \<le> m")
      case le: True
      have "(length xs - m + m - 1) div m = 1"
        using le False "1.prems" by (intro div_nat_eqI) auto
      then show ?thesis using "1.IH" False "1.prems" le by simp
    next
      case le: False
      then show ?thesis using "1.IH" False "1.prems" by simp
    qed
    also have "\<dots> = (length xs + m - 1) div m"
      using False "1.prems" div_add_self2 [of m "length xs - 1"]
      by (simp add: le_div_geq)
    finally show ?thesis using False by simp
  qed
qed

lemma fragments_Cons:
  assumes "0 < m" "m < length msg"
  shows "fragments m msg = fragment (length (chunks m (drop m msg))) (take m msg) # fragments m (drop m msg)"
  using assms by (simp add: fragments_def chunks_step)

lemma fragments_single: "length msg \<le> m \<Longrightarrow> fragments m msg = [fragment 0 msg]"
  by (simp add: fragments_def chunks_small)

lemma length_fragments [simp]: "length (fragments m msg) = length (chunks m msg)"
  by (simp add: fragments_def)

lemma fragment_fields [simp]:
  "seg_data (fragment f d) = d" "seg_len (fragment f d) = of_nat (length d)" "seg_frg (fragment f d) = of_nat f"
  by (simp_all add: fragment_def)

section \<open>The loop is the reference splitting\<close>

lemma sint_of_nat32: "n < 2147483648 \<Longrightarrow> sint (of_nat n :: i32) = int n"
  by (simp only: sint32_small unat32_of_nat_small)

lemma send_loop_eq:
  assumes "0 < unat (k_mss kcp)" "unat (k_mss kcp) < 2147483648" "length msg < 2147483648"
    and "\<forall>i n. alloc i n" "length (chunks (unat (k_mss kcp)) msg) \<le> count"
  shows "send_loop alloc count (length (chunks (unat (k_mss kcp)) msg)) (Some msg) (of_nat (length msg)) kcp =
     Some (kcp\<lparr>k_snd_queue := k_snd_queue kcp @ fragments (unat (k_mss kcp)) msg,
               k_nsnd_que := k_nsnd_que kcp + of_nat (length (chunks (unat (k_mss kcp)) msg))\<rparr>)"
  using assms
proof (induction "unat (k_mss kcp)" msg arbitrary: kcp rule: chunks.induct)
  case (1 msg kcp)
  let ?m = "unat (k_mss kcp)"
  have slen: "sint (of_nat (length msg) :: i32) = int (length msg)" "sint (k_mss kcp) = int ?m"
    using "1.prems" by (simp_all only: sint_of_nat32 sint32_small)
  have ulen: "unat (of_nat (length msg) :: u32) = length msg"
    using "1.prems" by (simp only: unat32_of_nat_small)
  show ?case
  proof (cases "length msg \<le> ?m")
    case True
    then show ?thesis using "1.prems" slen ulen
      by (simp add: chunks_small fragments_single fragment_def Let_def ikcp_segment_new_def del: of_nat_unat)
  next
    case False
    let ?rest = "drop ?m msg"
    let ?k = "kcp\<lparr>k_snd_queue := k_snd_queue kcp @ [fragment (length (chunks ?m ?rest)) (take ?m msg)],
                  k_nsnd_que := k_nsnd_que kcp + 1\<rparr>"
    have len: "(of_nat (length msg) :: u32) - k_mss kcp = of_nat (length ?rest)"
      using False by (simp add: of_nat_diff)
    have "send_loop alloc count (length (chunks ?m ?rest)) (Some ?rest) (of_nat (length ?rest)) ?k =
        Some (?k\<lparr>k_snd_queue := k_snd_queue ?k @ fragments ?m ?rest,
                 k_nsnd_que := k_nsnd_que ?k + of_nat (length (chunks ?m ?rest))\<rparr>)"
      using "1.hyps" [of ?k] "1.prems" False by (simp add: chunks_step)
    moreover have "0 < sint (of_nat (length msg) :: i32)" using slen False by linarith
    ultimately show ?thesis using "1.prems" False slen len
      by (simp add: chunks_step fragments_Cons fragment_def Let_def ikcp_segment_new_def add.assoc del: of_nat_unat)
  qed
qed

lemma send_count_eq:
  assumes "0 < unat (k_mss kcp)" "unat (k_mss kcp) < 2147483648" "length msg < 2147483648"
  shows "unat (send_count kcp (of_nat (length msg))) = length (chunks (unat (k_mss kcp)) msg)"
proof -
  let ?m = "unat (k_mss kcp)" and ?n = "length msg"
  have s: "sint (of_nat ?n :: i32) = int ?n" "sint (k_mss kcp) = int ?m"
    using assms by (simp_all only: sint_of_nat32 sint32_small)
  have "(of_nat ?n :: u32) + k_mss kcp - 1 = of_nat (?n + ?m - 1)"
    using assms(1) by (simp add: of_nat_diff)
  moreover have "?n + ?m - 1 < 4294967296" using assms by simp
  ultimately have "unat ((of_nat ?n + k_mss kcp - 1) div k_mss kcp :: u32) = (?n + ?m - 1) div ?m"
    by (simp only: unat_div_distrib unat32_of_nat_small)
  then show ?thesis using s assms(1) by (simp add: send_count_def chunks_count del: of_nat_unat)
qed

lemma send_ok:
  assumes "0 < unat (k_mss kcp)" "unat (k_mss kcp) < 2147483648" "length msg < 2147483648"
    and "\<forall>i n. alloc i n" "length (chunks (unat (k_mss kcp)) msg) \<le> 255"
  shows "ikcp_send alloc kcp (Some msg) (of_nat (length msg)) =
     Some (0, kcp\<lparr>k_snd_queue := k_snd_queue kcp @ fragments (unat (k_mss kcp)) msg,
               k_nsnd_que := k_nsnd_que kcp + of_nat (length (chunks (unat (k_mss kcp)) msg))\<rparr>)"
proof -
  let ?c = "send_count kcp (of_nat (length msg))"
  have c: "unat ?c = length (chunks (unat (k_mss kcp)) msg)" by (rule send_count_eq [OF assms(1-3)])
  have "sint ?c = int (unat ?c)" using c assms(5) by (intro sint32_small) simp
  moreover have "?c \<noteq> 0" using c chunks_ne [of "unat (k_mss kcp)" msg] by auto
  moreover have "\<not> sint (of_nat (length msg) :: i32) < 0" using assms(3) by (simp only: sint_of_nat32)
  moreover have "k_mss kcp > 0" using assms(1) by (simp add: word_less_nat_alt)
  ultimately show ?thesis using c assms(5) send_loop_eq [OF assms(1-4), of "unat ?c"]
    by (simp add: ikcp_send_def Let_def del: of_nat_unat)
qed

lemma chunks_at_most: "0 < m \<Longrightarrow> length (chunks m xs) \<le> max 1 (length xs)"
proof (induction m xs rule: chunks.induct)
  case (1 m xs)
  then show ?case by (cases "length xs \<le> m") (auto simp: chunks.simps [of m xs])
qed

lemma send_too_long:
  assumes "0 < unat (k_mss kcp)" "unat (k_mss kcp) < 2147483648" "length msg < 2147483648"
    and "255 < length (chunks (unat (k_mss kcp)) msg)"
  shows "ikcp_send alloc kcp (Some msg) (of_nat (length msg)) = Some (-2, kcp)"
proof -
  let ?c = "send_count kcp (of_nat (length msg))"
  have c: "unat ?c = length (chunks (unat (k_mss kcp)) msg)" by (rule send_count_eq [OF assms(1-3)])
  have "length (chunks (unat (k_mss kcp)) msg) < 2147483648"
    using chunks_at_most [OF assms(1), of msg] assms(3) by simp
  then have "sint ?c = int (unat ?c)" using c by (intro sint32_small) simp
  moreover have "\<not> sint (of_nat (length msg) :: i32) < 0" using assms(3) by (simp only: sint_of_nat32)
  moreover have "k_mss kcp > 0" using assms(1) by (simp add: word_less_nat_alt)
  ultimately show ?thesis using c assms(4) by (simp add: ikcp_send_def Let_def del: of_nat_unat)
qed

section \<open>Fragments are put together again\<close>

lemma fragments_frg:
  assumes "0 < m" "length (chunks m msg) \<le> 4294967296"
  shows "first_message (fragments m msg @ q) = fragments m msg"
    and "after_message (fragments m msg @ q) = q"
proof -
  have "first_message (fragments m msg @ q) = fragments m msg \<and> after_message (fragments m msg @ q) = q"
    using assms
  proof (induction m msg rule: chunks.induct)
    case (1 m msg)
    show ?case
    proof (cases "length msg \<le> m")
      case True
      then show ?thesis by (simp add: fragments_single)
    next
      case False
      then have small: "length (chunks m (drop m msg)) < 4294967296"
        using "1.prems" by (simp add: chunks_step)
      have "(of_nat (length (chunks m (drop m msg))) :: u32) \<noteq> 0"
      proof
        assume "(of_nat (length (chunks m (drop m msg))) :: u32) = 0"
        then have "length (chunks m (drop m msg)) = 0" using small unat32_of_nat_small by (metis unat_0)
        then show False by (simp add: chunks_ne)
      qed
      then show ?thesis using False 1 small by (simp add: fragments_Cons)
    qed
  qed
  then show "first_message (fragments m msg @ q) = fragments m msg"
    and "after_message (fragments m msg @ q) = q" by blast+
qed

lemma payload_fragment: "length d < 4294967296 \<Longrightarrow> payload (fragment f d) = d"
  by (simp add: payload_def unat32_of_nat_small)

lemma fragments_data: "map seg_data (fragments m msg) = chunks m msg"
  by (rule nth_equalityI) (simp_all add: fragments_def)

lemma fragments_payload:
  assumes "length msg < 4294967296"
  shows "concat (map payload (fragments m msg)) = msg"
proof -
  have "payload seg = seg_data seg" if "seg \<in> set (fragments m msg)" for seg
  proof -
    from that obtain f d where "seg = fragment f d" "d \<in> set (chunks m msg)"
      by (auto simp: fragments_def dest: set_zip_rightD)
    then show ?thesis using payload_fragment chunk_in assms by fastforce
  qed
  then have "map payload (fragments m msg) = map seg_data (fragments m msg)" by simp
  then show ?thesis by (simp add: fragments_data concat_chunks)
qed

lemma fragments_ok:
  assumes "length msg < 4294967296" "seg \<in> set (fragments m msg)"
  shows "seg_ok seg"
proof -
  from assms(2) obtain f d where "seg = fragment f d" "d \<in> set (chunks m msg)"
    by (auto simp: fragments_def dest: set_zip_rightD)
  then show ?thesis using chunk_in [of d m msg] assms(1) by (simp add: seg_ok_def unat32_of_nat_small)
qed

lemma fragments_len_le:
  assumes "0 < m" "m < 4294967296" "seg \<in> set (fragments m msg)"
  shows "unat (seg_len seg) \<le> m"
proof -
  from assms(3) obtain f d where "seg = fragment f d" "d \<in> set (chunks m msg)"
    by (auto simp: fragments_def dest: set_zip_rightD)
  then show ?thesis using chunk_size [of m d msg] assms by (simp add: unat32_of_nat_small)
qed

lemma fragments_ne: "fragments m msg \<noteq> []"
  using chunks_ne [of m msg] by (metis length_fragments length_0_conv)

lemma chunks_cover: "0 < m \<Longrightarrow> length xs \<le> m * length (chunks m xs)"
proof (induction m xs rule: chunks.induct)
  case (1 m xs)
  show ?case
  proof (cases "length xs \<le> m")
    case True
    then show ?thesis by (simp add: chunks_small)
  next
    case False
    then have "length xs - m \<le> m * length (chunks m (drop m xs))" using 1 by simp
    then show ?thesis using False "1.prems" by (simp add: chunks_step)
  qed
qed

text \<open>A queue that starts with all the fragments of a message shows the size of the message.\<close>

lemma fragments_hd_frg: "seg_frg (hd (fragments m msg)) = of_nat (length (chunks m msg) - 1)"
proof -
  obtain c cs where c: "chunks m msg = c # cs" using chunks_ne [of m msg] by (cases "chunks m msg") auto
  have "rev [0..<Suc (length cs)] = length cs # rev [0..<length cs]" by simp
  then show ?thesis by (simp add: fragments_def c)
qed

lemma sum_fragments: "sum_list (map seg_len (fragments m msg)) = of_nat (length msg)"
proof -
  have "map seg_len (fragments m msg) = map (\<lambda>d. of_nat (length d)) (map seg_data (fragments m msg))"
    by (auto simp: fragments_def)
  also have "sum_list \<dots> = of_nat (length (concat (chunks m msg)))"
  proof -
    have "sum_list (map (\<lambda>d. of_nat (length d)) ds) = (of_nat (length (concat ds)) :: u32)" for ds :: "bytes list"
      by (induction ds) simp_all
    then show ?thesis unfolding fragments_data .
  qed
  finally show ?thesis by (simp add: concat_chunks)
qed

lemma peeksize_message:
  assumes "0 < m" "length (chunks m msg) \<le> 255" "length msg < 2147483648"
    and q: "k_rcv_queue kcp = fragments m msg @ q" "k_nrcv_que kcp = of_nat (length (k_rcv_queue kcp))"
    and "length (k_rcv_queue kcp) < 4294967296"
  shows "ikcp_peeksize kcp = of_nat (length msg)"
proof -
  let ?n = "length (chunks m msg)"
  obtain s r where s: "k_rcv_queue kcp = s # r" using q(1) fragments_ne [of m msg] by (metis append_is_Nil_conv neq_Nil_conv)
  have sf: "seg_frg s = of_nat (?n - 1)" using fragments_hd_frg [of m msg] s q(1) fragments_ne [of m msg]
    by (metis hd_append2 list.sel(1))
  have n: "0 < ?n" using chunks_ne [of m msg] by simp
  have "(of_nat (?n - 1) + 1 :: u32) = of_nat ?n" using n by (metis Suc_pred' of_nat_Suc add.commute)
  moreover have "\<not> (of_nat (length (k_rcv_queue kcp)) :: u32) < of_nat ?n"
  proof -
    have "unat (of_nat (length (k_rcv_queue kcp)) :: u32) = length (k_rcv_queue kcp)" "unat (of_nat ?n :: u32) = ?n"
      using assms(2,6) by (intro unat32_of_nat_small; simp)+
    moreover have "?n \<le> length (k_rcv_queue kcp)" using q(1) by simp
    ultimately show ?thesis by (simp only: word_less_nat_alt not_less)
  qed
  ultimately have enough: "\<not> k_nrcv_que kcp < seg_frg s + 1" using q(2) sf by simp
  have fm: "first_message (k_rcv_queue kcp) = fragments m msg" using fragments_frg(1) [OF assms(1), of msg q] assms(2) q(1) by simp
  have "ikcp_peeksize kcp = sum_list (map seg_len (first_message (k_rcv_queue kcp)))"
    using enough s by (auto simp: ikcp_peeksize_def peek_sum_eq)
  then show ?thesis by (simp add: fm sum_fragments)
qed

end
