(* ===== verification/Kcp_Ack.thy ===== *)
theory Kcp_Ack
  imports Kcp_Send
begin

text \<open>
  Acknowledgement handling of \<open>src/util/ikcp.c\<close>: the round-trip estimator \<open>ikcp_update_ack\<close>, the removal
  of acknowledged segments from \<open>snd_buf\<close> (\<open>ikcp_parse_ack\<close>, \<open>ikcp_parse_una\<close>, \<open>ikcp_shrink_buf\<close>) and the
  growing array of acknowledgements to send (\<open>ikcp_ack_push\<close>, \<open>ikcp_ack_get\<close>). \<open>snd_wf\<close> is the send-side
  invariant.
\<close>

section \<open>Operations\<close>

text \<open>Signed arithmetic: \<open>delta\<close> is a \<open>long\<close> (64 bits), the other intermediate values are 32-bit \<open>int\<close>s, and
  division truncates towards zero.\<close>

definition ikcp_update_ack :: "IKCPCB \<Rightarrow> i32 \<Rightarrow> IKCPCB" where
  "ikcp_update_ack kcp rtt =
     (let kcp = (if k_rx_srtt kcp = 0
                 then kcp\<lparr>k_rx_srtt := rtt, k_rx_rttval := word_of_int (sint rtt sdiv 2)\<rparr>
                 else
                   let delta = sint (rtt - k_rx_srtt kcp);
                       delta = (if delta < 0 then - delta else delta);
                       rttval = word_of_int ((sint (3 * k_rx_rttval kcp) + delta) sdiv 4);
                       srtt = word_of_int (sint (7 * k_rx_srtt kcp + rtt) sdiv 8);
                       srtt = (if sint srtt < 1 then 1 else srtt)
                   in kcp\<lparr>k_rx_rttval := rttval, k_rx_srtt := srtt\<rparr>);
          rto = k_rx_srtt kcp + imax 1 (4 * k_rx_rttval kcp)
      in kcp\<lparr>k_rx_rto := ibound (k_rx_minrto kcp) rto IKCP_RTO_MAX\<rparr>)"

definition ikcp_shrink_buf :: "IKCPCB \<Rightarrow> IKCPCB" where
  "ikcp_shrink_buf kcp =
     (case k_snd_buf kcp of
        seg # _ \<Rightarrow> kcp\<lparr>k_snd_una := seg_sn seg\<rparr>
      | [] \<Rightarrow> kcp\<lparr>k_snd_una := k_snd_nxt kcp\<rparr>)"

text \<open>The loop of \<open>ikcp_parse_ack\<close>: whether the segment was found, and the buffer afterwards.\<close>

fun parse_ack_loop :: "u32 \<Rightarrow> IKCPSEG list \<Rightarrow> bool \<times> IKCPSEG list" where
  "parse_ack_loop sn [] = (False, [])"
| "parse_ack_loop sn (seg # q) =
     (if sn = seg_sn seg then (True, q)
      else case parse_ack_loop sn q of
             (found, q) \<Rightarrow> (found, seg\<lparr>seg_fastack := seg_fastack seg + 1\<rparr> # q))"

definition ikcp_parse_ack :: "IKCPCB \<Rightarrow> u32 \<Rightarrow> IKCPCB" where
  "ikcp_parse_ack kcp sn =
     (if itimediff sn (k_snd_una kcp) < 0 \<or> itimediff sn (k_snd_nxt kcp) \<ge> 0 then kcp
      else case parse_ack_loop sn (k_snd_buf kcp) of
             (found, buf) \<Rightarrow>
               kcp\<lparr>k_snd_buf := buf,
                   k_nsnd_buf := (if found then k_nsnd_buf kcp - 1 else k_nsnd_buf kcp)\<rparr>)"

fun parse_una_loop :: "u32 \<Rightarrow> IKCPSEG list \<Rightarrow> u32 \<Rightarrow> IKCPSEG list \<times> u32" where
  "parse_una_loop una [] nsnd_buf = ([], nsnd_buf)"
| "parse_una_loop una (seg # q) nsnd_buf =
     (if itimediff una (seg_sn seg) > 0 then parse_una_loop una q (nsnd_buf - 1)
      else (seg # q, nsnd_buf))"

definition ikcp_parse_una :: "IKCPCB \<Rightarrow> u32 \<Rightarrow> IKCPCB" where
  "ikcp_parse_una kcp una =
     (case parse_una_loop una (k_snd_buf kcp) (k_nsnd_buf kcp) of
        (buf, nsnd_buf) \<Rightarrow> kcp\<lparr>k_snd_buf := buf, k_nsnd_buf := nsnd_buf\<rparr>)"

text \<open>The doubling loop for the new block size; it starts at 8, so the guard on 0 never matters.\<close>

function grow_block :: "nat \<Rightarrow> nat \<Rightarrow> nat" where
  "grow_block newblock newsize =
     (if 0 < newblock \<and> newblock < newsize then grow_block (2 * newblock) newsize else newblock)"
  by pat_completeness auto
termination by (relation "measure (\<lambda>(b, n). n - b)") auto

declare grow_block.simps [simp del]

text \<open>\<open>None\<close> is the \<open>abort\<close> when the array cannot be allocated; \<open>i\<close> numbers the allocation. The write at
  index \<open>ackcount\<close> outside the array is the unspecified behaviour of \<open>k_acklist\<close> as it is.\<close>

definition ikcp_ack_push :: "allocator \<Rightarrow> nat \<Rightarrow> IKCPCB \<Rightarrow> u32 \<Rightarrow> u32 \<Rightarrow> IKCPCB option" where
  "ikcp_ack_push alloc i kcp sn ts =
     (let newsize = unat (k_ackcount kcp + 1);
          grown = (if newsize > unat (k_ackblock kcp)
                   then
                     let newblock = grow_block 8 newsize
                     in if \<not> alloc i (newblock * 4 * 2) then None
                        else Some (kcp\<lparr>k_acklist := take (unat (k_ackcount kcp)) (k_acklist kcp) @
                                         replicate (newblock - unat (k_ackcount kcp)) undefined,
                                       k_ackblock := of_nat newblock\<rparr>)
                   else Some kcp)
      in map_option (\<lambda>kcp.
           kcp\<lparr>k_acklist := (k_acklist kcp)[unat (k_ackcount kcp) := (sn, ts)],
               k_ackcount := k_ackcount kcp + 1\<rparr>) grown)"

definition ikcp_ack_get :: "IKCPCB \<Rightarrow> nat \<Rightarrow> u32 \<times> u32" where
  "ikcp_ack_get kcp p = k_acklist kcp ! p"

section \<open>The acknowledgement array\<close>

definition ack_wf :: "IKCPCB \<Rightarrow> bool" where
  "ack_wf kcp \<longleftrightarrow> length (k_acklist kcp) = unat (k_ackblock kcp) \<and>
     unat (k_ackcount kcp) \<le> unat (k_ackblock kcp) \<and> unat (k_ackblock kcp) < 2147483648"

text \<open>No single allocation of 16 GiB or more succeeds: what keeps the counters of the array from wrapping.\<close>

definition alloc_bounded :: "allocator \<Rightarrow> bool" where
  "alloc_bounded alloc \<longleftrightarrow> (\<forall>i n. alloc i n \<longrightarrow> n < 17179869184)"

definition pending_acks :: "IKCPCB \<Rightarrow> (u32 \<times> u32) list" where
  "pending_acks kcp = take (unat (k_ackcount kcp)) (k_acklist kcp)"

lemma grow_block_ge: "0 < b \<Longrightarrow> n \<le> grow_block b n"
proof (induction b n rule: grow_block.induct)
  case (1 b n)
  then show ?case by (cases "b < n") (auto simp: grow_block.simps [of b n])
qed

text \<open>Pushing appends to the pending acknowledgements and stays inside the array.\<close>

lemma ack_push_wf:
  assumes "alloc_bounded alloc" "ack_wf kcp" "ikcp_ack_push alloc i kcp sn ts = Some kcp'"
  shows "ack_wf kcp'" and "pending_acks kcp' = pending_acks kcp @ [(sn, ts)]"
proof -
  let ?c = "unat (k_ackcount kcp)"
  have c: "?c < 2147483648" using assms(2) by (simp add: ack_wf_def)
  have c1: "unat (k_ackcount kcp + 1) = Suc ?c"
    using c unat32_add_small [of "k_ackcount kcp" 1] by simp
  have "ack_wf kcp' \<and> pending_acks kcp' = pending_acks kcp @ [(sn, ts)]"
  proof (cases "Suc ?c > unat (k_ackblock kcp)")
    case False
    then show ?thesis using assms c1
      by (auto simp: ikcp_ack_push_def Let_def ack_wf_def pending_acks_def take_Suc_conv_app_nth)
  next
    case True
    let ?b = "grow_block 8 (Suc ?c)"
    have blk: "length (k_acklist kcp) = ?c" using assms(2) True by (auto simp: ack_wf_def)
    have al: "alloc i (?b * 4 * 2)"
      and kcp': "kcp' = kcp\<lparr>k_acklist := (k_acklist kcp @ replicate (?b - ?c) undefined)[?c := (sn, ts)],
        k_ackblock := of_nat ?b, k_ackcount := k_ackcount kcp + 1\<rparr>"
      using assms(3) True c1 blk by (auto simp: ikcp_ack_push_def Let_def split: if_splits)
    have b: "Suc ?c \<le> ?b" "?b < 2147483648"
      using grow_block_ge [of 8] al assms(1) unfolding alloc_bounded_def by fastforce+
    then have ub: "unat (of_nat ?b :: u32) = ?b" by (intro unat32_of_nat_small) simp
    show ?thesis unfolding kcp' using b ub blk c1
      by (simp add: ack_wf_def pending_acks_def take_Suc_conv_app_nth list_update_append)
  qed
  then show "ack_wf kcp'" and "pending_acks kcp' = pending_acks kcp @ [(sn, ts)]" by blast+
qed

lemma ack_push_some: "(\<And>n. alloc i n) \<Longrightarrow> \<exists>kcp'. ikcp_ack_push alloc i kcp sn ts = Some kcp'"
  by (simp add: ikcp_ack_push_def Let_def)

section \<open>The retransmission timeout\<close>

lemma update_ack_rto_bounds:
  assumes "k_rx_minrto kcp \<le> IKCP_RTO_MAX"
  shows "k_rx_minrto kcp \<le> k_rx_rto (ikcp_update_ack kcp rtt) \<and> k_rx_rto (ikcp_update_ack kcp rtt) \<le> IKCP_RTO_MAX"
  using assms by (auto simp: ikcp_update_ack_def Let_def ibound_upper ibound_lower)

text \<open>With round-trip times below $2^{28}$ milliseconds (about three days) no intermediate value overflows:
  the machine computation is the mathematical one.\<close>

definition rtt_small :: "IKCPCB \<Rightarrow> bool" where
  "rtt_small kcp \<longleftrightarrow> 0 \<le> sint (k_rx_srtt kcp) \<and> sint (k_rx_srtt kcp) < 268435456 \<and>
     0 \<le> sint (k_rx_rttval kcp) \<and> sint (k_rx_rttval kcp) < 268435456"

lemma update_ack_first:
  assumes "k_rx_srtt kcp = 0" "0 \<le> sint rtt" "sint rtt < 268435456"
  shows "sint (k_rx_srtt (ikcp_update_ack kcp rtt)) = sint rtt"
    and "sint (k_rx_rttval (ikcp_update_ack kcp rtt)) = sint rtt div 2"
  using assms by (simp_all add: ikcp_update_ack_def Let_def sdiv_nonneg sint32_of_int)

lemma update_ack_smooth:
  assumes "rtt_small kcp" "k_rx_srtt kcp \<noteq> 0" "0 \<le> sint rtt" "sint rtt < 268435456"
  shows "sint (k_rx_srtt (ikcp_update_ack kcp rtt)) = max 1 ((7 * sint (k_rx_srtt kcp) + sint rtt) div 8)"
    and "sint (k_rx_rttval (ikcp_update_ack kcp rtt)) =
           (3 * sint (k_rx_rttval kcp) + \<bar>sint rtt - sint (k_rx_srtt kcp)\<bar>) div 4"
proof -
  let ?s = "sint (k_rx_srtt kcp)" and ?v = "sint (k_rx_rttval kcp)" and ?r = "sint rtt"
  have rng: "0 \<le> ?s" "?s < 268435456" "0 \<le> ?v" "?v < 268435456"
    using assms(1) by (simp_all add: rtt_small_def)
  have d: "sint (rtt - k_rx_srtt kcp) = ?r - ?s" using rng assms by (intro sint32_sub) linarith+
  have s3: "sint (3 :: i32) = 3" "sint (7 :: i32) = 7" by simp_all
  have v3: "sint (3 * k_rx_rttval kcp) = 3 * ?v"
    using rng by (subst sint32_mult) (simp_all only: s3)
  have s7': "sint (7 * k_rx_srtt kcp) = 7 * ?s"
    using rng by (subst sint32_mult) (simp_all only: s3)
  have s7: "sint (7 * k_rx_srtt kcp + rtt) = 7 * ?s + ?r"
    using rng assms by (subst sint32_add) (simp_all only: s7')
  have v: "sint (word_of_int ((3 * ?v + \<bar>?r - ?s\<bar>) sdiv 4) :: i32) = (3 * ?v + \<bar>?r - ?s\<bar>) div 4"
    using rng assms by (subst sdiv_nonneg, linarith, simp, intro sint32_of_int) linarith+
  have w: "sint (word_of_int ((7 * ?s + ?r) sdiv 8) :: i32) = (7 * ?s + ?r) div 8"
    using rng assms by (subst sdiv_nonneg, linarith, simp, intro sint32_of_int) linarith+
  have ab: "(if ?r - ?s < 0 then - (?r - ?s) else ?r - ?s) = \<bar>?r - ?s\<bar>" by simp
  show "sint (k_rx_srtt (ikcp_update_ack kcp rtt)) = max 1 ((7 * ?s + ?r) div 8)"
    using assms(2) by (simp add: ikcp_update_ack_def Let_def s7 w)
  show "sint (k_rx_rttval (ikcp_update_ack kcp rtt)) = (3 * ?v + \<bar>?r - ?s\<bar>) div 4"
    using assms(2) v by (simp only: ikcp_update_ack_def Let_def d v3 ab) simp
qed

lemma update_ack_small:
  assumes "rtt_small kcp" "0 \<le> sint rtt" "sint rtt < 268435456"
  shows "rtt_small (ikcp_update_ack kcp rtt)"
proof (cases "k_rx_srtt kcp = 0")
  case True
  then show ?thesis using update_ack_first [OF True assms(2,3)] assms by (simp add: rtt_small_def)
next
  case False
  then show ?thesis using update_ack_smooth [OF assms(1) False assms(2,3)] assms
    unfolding rtt_small_def by linarith
qed

section \<open>The send-side invariant\<close>

text \<open>\<open>snd_core\<close> is what \<open>ikcp_parse_una\<close> and \<open>ikcp_parse_ack\<close> keep: the counters count, the buffer is in
  sequence order between \<open>snd_una\<close> and \<open>snd_nxt\<close>, at most 65535 numbers apart (the largest window a header
  can announce). \<open>snd_wf\<close> adds that \<open>snd_una\<close> is the first unacknowledged number, which \<open>ikcp_shrink_buf\<close>
  restores.\<close>

definition snd_seg_ok :: "u32 \<Rightarrow> IKCPSEG \<Rightarrow> bool" where
  "snd_seg_ok conv seg \<longleftrightarrow> seg_ok seg \<and> unat (seg_frg seg) < 256 \<and> seg_conv seg = conv \<and> seg_cmd seg = IKCP_CMD_PUSH"

definition snd_core :: "IKCPCB \<Rightarrow> bool" where
  "snd_core kcp \<longleftrightarrow>
     k_nsnd_que kcp = of_nat (length (k_snd_queue kcp)) \<and>
     k_nsnd_buf kcp = of_nat (length (k_snd_buf kcp)) \<and>
     unat (k_rmt_wnd kcp) \<le> 65535 \<and>
     unat (k_snd_nxt kcp - k_snd_una kcp) \<le> 65535 \<and>
     sn_sorted (k_snd_una kcp) (k_snd_buf kcp) \<and>
     (\<forall>seg \<in> set (k_snd_buf kcp). sn_off (k_snd_una kcp) seg < unat (k_snd_nxt kcp - k_snd_una kcp)) \<and>
     (\<forall>seg \<in> set (k_snd_queue kcp). seg_ok seg \<and> unat (seg_frg seg) < 256) \<and>
     (\<forall>seg \<in> set (k_snd_buf kcp). snd_seg_ok (k_conv kcp) seg)"

definition first_unacked :: "IKCPCB \<Rightarrow> u32" where
  "first_unacked kcp = (case k_snd_buf kcp of [] \<Rightarrow> k_snd_nxt kcp | seg # _ \<Rightarrow> seg_sn seg)"

definition snd_wf :: "IKCPCB \<Rightarrow> bool" where
  "snd_wf kcp \<longleftrightarrow> snd_core kcp \<and> k_snd_una kcp = first_unacked kcp"

lemma shrink_buf_eq: "ikcp_shrink_buf kcp = kcp\<lparr>k_snd_una := first_unacked kcp\<rparr>"
  by (simp add: ikcp_shrink_buf_def first_unacked_def split: list.split)

lemma unat_rebase:
  assumes "unat (b - base) \<le> unat (a - base)"
  shows "unat (a - b :: u32) = unat (a - base) - unat (b - base)"
proof -
  have "a - b = (a - base) - (b - base)" by simp
  then show ?thesis using assms by (metis unat32_sub)
qed

lemma sn_sorted_rebase:
  assumes "sn_sorted base q" "unat (b - base) \<le> m" "\<forall>t \<in> set q. m \<le> sn_off base t"
  shows "sn_sorted b q" and "\<forall>t \<in> set q. sn_off b t = sn_off base t - unat (b - base)"
proof -
  show off: "\<forall>t \<in> set q. sn_off b t = sn_off base t - unat (b - base)"
    using assms(2,3) unat_rebase [of b base] unfolding sn_off_def by (meson le_trans)
  have "sorted_wrt (\<lambda>s t. sn_off b s < sn_off b t) q"
    using assms(1) unfolding sn_sorted_def sorted_wrt_map
    by (elim conjE sorted_wrt_mono_rel [rotated]) (use off assms(2,3) in force)
  moreover have "\<forall>t \<in> set q. sn_off b t < 2147483648" using assms(1) off by (fastforce simp: sn_sorted_def)
  ultimately show "sn_sorted b q" by (simp add: sn_sorted_def sorted_wrt_map)
qed

lemma shrink_buf_wf:
  assumes "snd_core kcp" shows "snd_wf (ikcp_shrink_buf kcp)"
proof (cases "k_snd_buf kcp")
  case Nil
  then show ?thesis using assms by (simp add: shrink_buf_eq snd_wf_def snd_core_def first_unacked_def)
next
  case (Cons seg q)
  let ?una = "k_snd_una kcp" and ?b = "seg_sn seg" and ?nxt = "k_snd_nxt kcp"
  have srt: "sn_sorted ?una (seg # q)" using assms Cons by (simp add: snd_core_def)
  then have ge: "\<forall>t \<in> set (seg # q). unat (?b - ?una) \<le> sn_off ?una t"
    by (auto simp: sn_sorted_Cons sn_off_def)
  note re = sn_sorted_rebase [OF srt order.refl ge]
  have lt: "\<forall>t \<in> set (seg # q). sn_off ?una t < unat (?nxt - ?una)" using assms Cons by (simp add: snd_core_def)
  then have nxt: "unat (?nxt - ?b) = unat (?nxt - ?una) - unat (?b - ?una)"
    by (intro unat_rebase) (simp add: sn_off_def)
  have lt': "sn_off ?b t < unat (?nxt - ?b)" if "t \<in> set (seg # q)" for t
    using that re(2) lt nxt ge by (metis diff_less_mono)
  have "unat (?nxt - ?b) \<le> 65535" using nxt assms unfolding snd_core_def by linarith
  then show ?thesis using assms Cons re(1) lt'
    by (simp add: shrink_buf_eq snd_wf_def snd_core_def first_unacked_def)
qed

text \<open>\<open>ikcp_parse_una\<close> drops the leading segments whose number lies before \<open>una\<close>.\<close>

lemma parse_una_loop_eq:
  "parse_una_loop una q n =
     (dropWhile (\<lambda>seg. itimediff una (seg_sn seg) > 0) q,
      n - of_nat (length (takeWhile (\<lambda>seg. itimediff una (seg_sn seg) > 0) q)))"
  by (induction q arbitrary: n) (auto simp: algebra_simps)

lemma length_takeWhile_dropWhile: "length (takeWhile P xs) + length (dropWhile P xs) = length xs"
  by (metis length_append takeWhile_dropWhile_id)

lemma parse_una_core:
  assumes "snd_core kcp" shows "snd_core (ikcp_parse_una kcp una)"
proof -
  let ?P = "\<lambda>seg. itimediff una (seg_sn seg) > 0" and ?q = "k_snd_buf kcp"
  have "sn_sorted (k_snd_una kcp) (dropWhile ?P ?q)"
    using assms by (metis snd_core_def sn_sorted_append takeWhile_dropWhile_id)
  moreover have "(of_nat (length ?q) :: u32) = of_nat (length (takeWhile ?P ?q)) + of_nat (length (dropWhile ?P ?q))"
    by (metis length_takeWhile_dropWhile of_nat_add)
  ultimately show ?thesis using assms set_dropWhileD [of _ ?P ?q]
    by (auto simp: ikcp_parse_una_def parse_una_loop_eq snd_core_def)
qed

text \<open>In a sorted buffer, the leading segments before \<open>una\<close> are all the segments before \<open>una\<close>.\<close>

lemma una_filter:
  assumes "sn_sorted base q" "unat (una - base) < 2147483648"
  shows "dropWhile (\<lambda>seg. itimediff una (seg_sn seg) > 0) q = filter (\<lambda>seg. unat (una - base) \<le> sn_off base seg) q"
  using assms(1)
proof (induction q)
  case (Cons seg q)
  have lt: "sn_off base seg < 2147483648" "\<forall>t \<in> set q. sn_off base seg < sn_off base t"
    using Cons.prems by (auto simp: sn_sorted_Cons)
  have gt: "itimediff una (seg_sn seg) > 0 \<longleftrightarrow> sn_off base seg < unat (una - base)"
    using serial_gt [OF assms(2)] lt(1) by (simp add: sn_off_def)
  show ?case
  proof (cases "sn_off base seg < unat (una - base)")
    case True
    then show ?thesis using Cons gt by (simp add: sn_sorted_Cons)
  next
    case False
    then have "filter (\<lambda>seg. unat (una - base) \<le> sn_off base seg) q = q"
      using lt(2) by (intro filter_True) fastforce
    then show ?thesis using False gt by simp
  qed
qed simp

text \<open>\<open>ikcp_parse_ack\<close> removes the segment with the acknowledged number, and counts one skipping
  acknowledgement on every segment before it (on all of them when it is not there).\<close>

definition skip_ack :: "IKCPSEG \<Rightarrow> IKCPSEG" where
  "skip_ack seg = seg\<lparr>seg_fastack := seg_fastack seg + 1\<rparr>"

lemma parse_ack_loop_eq:
  "parse_ack_loop sn q =
     (sn \<in> seg_sn ` set q,
      map skip_ack (takeWhile (\<lambda>seg. seg_sn seg \<noteq> sn) q) @ tl (dropWhile (\<lambda>seg. seg_sn seg \<noteq> sn) q))"
  by (induction q) (auto simp: skip_ack_def)

lemma skip_ack_simps [simp]: "sn_off base (skip_ack seg) = sn_off base seg" "seg_sn (skip_ack seg) = seg_sn seg"
  "snd_seg_ok c (skip_ack seg) = snd_seg_ok c seg" "seg_data (skip_ack seg) = seg_data seg"
  "seg_len (skip_ack seg) = seg_len seg" "seg_frg (skip_ack seg) = seg_frg seg"
  by (simp_all add: skip_ack_def sn_off_def snd_seg_ok_def seg_ok_def)

lemma sn_sorted_map_skip [simp]: "sn_sorted base (map skip_ack q) = sn_sorted base q"
  by (simp add: sn_sorted_def comp_def)

lemma parse_ack_parts:
  obtains xs ys where "fst (parse_ack_loop sn q) = (ys \<noteq> [])" "q = xs @ ys" "sn \<notin> seg_sn ` set xs"
    "snd (parse_ack_loop sn q) = map skip_ack xs @ tl ys" "ys \<noteq> [] \<Longrightarrow> seg_sn (hd ys) = sn"
proof
  let ?P = "\<lambda>seg. seg_sn seg \<noteq> sn"
  show "fst (parse_ack_loop sn q) = (dropWhile ?P q \<noteq> [])" by (auto simp: parse_ack_loop_eq dropWhile_eq_Nil_conv)
  show "q = takeWhile ?P q @ dropWhile ?P q" by simp
  show "sn \<notin> seg_sn ` set (takeWhile ?P q)" by (auto dest: set_takeWhileD)
  show "snd (parse_ack_loop sn q) = map skip_ack (takeWhile ?P q) @ tl (dropWhile ?P q)" by (simp add: parse_ack_loop_eq)
  show "dropWhile ?P q \<noteq> [] \<Longrightarrow> seg_sn (hd (dropWhile ?P q)) = sn" using hd_dropWhile [of ?P q] by blast
qed

lemma snd_core_buf:
  assumes "snd_core kcp" "sn_sorted (k_snd_una kcp) buf" "n = of_nat (length buf)"
    and sub: "\<forall>t \<in> set buf. \<exists>s \<in> set (k_snd_buf kcp).
      sn_off (k_snd_una kcp) t = sn_off (k_snd_una kcp) s \<and> snd_seg_ok (k_conv kcp) t = snd_seg_ok (k_conv kcp) s"
  shows "snd_core (kcp\<lparr>k_snd_buf := buf, k_nsnd_buf := n\<rparr>)"
proof -
  have old: "\<forall>s \<in> set (k_snd_buf kcp). sn_off (k_snd_una kcp) s < unat (k_snd_nxt kcp - k_snd_una kcp) \<and>
      snd_seg_ok (k_conv kcp) s"
    using assms(1) unfolding snd_core_def by blast
  have "\<forall>t \<in> set buf. sn_off (k_snd_una kcp) t < unat (k_snd_nxt kcp - k_snd_una kcp)"
    and "\<forall>t \<in> set buf. snd_seg_ok (k_conv kcp) t"
    using sub old by metis+
  then show ?thesis using assms(1-3) unfolding snd_core_def by simp
qed

lemma parse_ack_core:
  assumes "snd_core kcp" shows "snd_core (ikcp_parse_ack kcp sn)"
proof (cases "itimediff sn (k_snd_una kcp) < 0 \<or> itimediff sn (k_snd_nxt kcp) \<ge> 0")
  case True
  then show ?thesis using assms by (auto simp: ikcp_parse_ack_def)
next
  case False
  obtain xs ys where p: "fst (parse_ack_loop sn (k_snd_buf kcp)) = (ys \<noteq> [])" "k_snd_buf kcp = xs @ ys"
    "snd (parse_ack_loop sn (k_snd_buf kcp)) = map skip_ack xs @ tl ys"
    using parse_ack_parts by metis
  then have eq: "ikcp_parse_ack kcp sn = kcp\<lparr>k_snd_buf := map skip_ack xs @ tl ys,
      k_nsnd_buf := (if ys \<noteq> [] then k_nsnd_buf kcp - 1 else k_nsnd_buf kcp)\<rparr>"
    using False by (simp add: ikcp_parse_ack_def case_prod_beta)
  have "sn_sorted (k_snd_una kcp) (map skip_ack xs @ tl ys)"
    using assms p(2) by (cases ys) (auto simp: snd_core_def sn_sorted_append sn_sorted_Cons)
  moreover have "(if ys \<noteq> [] then k_nsnd_buf kcp - 1 else k_nsnd_buf kcp) = of_nat (length (map skip_ack xs @ tl ys))"
    using assms p(2) by (cases ys) (simp_all add: snd_core_def)
  moreover have "\<forall>t \<in> set (map skip_ack xs @ tl ys). \<exists>s \<in> set (k_snd_buf kcp).
      sn_off (k_snd_una kcp) t = sn_off (k_snd_una kcp) s \<and> snd_seg_ok (k_conv kcp) t = snd_seg_ok (k_conv kcp) s"
    using p(2) by (cases ys) auto
  ultimately show ?thesis unfolding eq by (rule snd_core_buf [OF assms])
qed

end
