(* ===== verification/Kcp_Wf.thy ===== *)
theory Kcp_Wf
  imports Kcp_Ack
begin

text \<open>
  The invariant \<open>kcp_wf\<close> of a control block: the receive side (\<open>rcv_wf\<close>), the send side (\<open>snd_wf\<close>), the
  acknowledgement array (\<open>ack_wf\<close>) and the configuration (\<open>cfg_wf\<close>), with the lemmas saying that a fresh
  block has it and that the calls of the upper layer (\<open>ikcp_send\<close>, \<open>ikcp_recv\<close> and the setters) keep it.
\<close>

section \<open>The invariant\<close>

definition cfg_wf :: "IKCPCB \<Rightarrow> bool" where
  "cfg_wf kcp \<longleftrightarrow>
     50 \<le> unat (k_mtu kcp) \<and> unat (k_mtu kcp) \<le> 1073741823 \<and> k_mss kcp = k_mtu kcp - IKCP_OVERHEAD \<and>
     k_buffer kcp = (unat (k_mtu kcp) + 24) * 3 \<and>
     k_rx_minrto kcp \<in> {IKCP_RTO_NDL, IKCP_RTO_MIN} \<and>
     30 \<le> unat (k_rx_rto kcp) \<and> unat (k_rx_rto kcp) \<le> 60000 \<and>
     2 \<le> unat (k_interval kcp) \<and> unat (k_interval kcp) \<le> 5000 \<and>
     2 \<le> unat (k_ssthresh kcp) \<and> unat (k_probe_wait kcp) \<le> 120000"

text \<open>Every queued segment fits the maximum segment size, so it fits a datagram.\<close>

definition segs_fit :: "IKCPCB \<Rightarrow> bool" where
  "segs_fit kcp \<longleftrightarrow> (\<forall>seg \<in> set (k_snd_queue kcp) \<union> set (k_snd_buf kcp). unat (seg_len seg) \<le> unat (k_mss kcp))"

definition kcp_wf :: "IKCPCB \<Rightarrow> bool" where
  "kcp_wf kcp \<longleftrightarrow> rcv_wf kcp \<and> snd_wf kcp \<and> ack_wf kcp \<and> cfg_wf kcp \<and> segs_fit kcp"

lemma kcp_wfI: "rcv_wf kcp \<Longrightarrow> snd_wf kcp \<Longrightarrow> ack_wf kcp \<Longrightarrow> cfg_wf kcp \<Longrightarrow> segs_fit kcp \<Longrightarrow> kcp_wf kcp"
  by (simp add: kcp_wf_def)

lemmas wf_parts = rcv_wf_def snd_wf_def snd_core_def ack_wf_def cfg_wf_def segs_fit_def first_unacked_def

lemma mss_eq: "cfg_wf kcp \<Longrightarrow> unat (k_mss kcp) = unat (k_mtu kcp) - 24"
  by (simp add: cfg_wf_def IKCP_OVERHEAD_def unat32_sub)

section \<open>What each part depends on\<close>

text \<open>Each part of the invariant reads only some fields; assigning another field leaves it alone.\<close>

lemma rcv_wf_cong: "k_rcv_wnd a = k_rcv_wnd b \<Longrightarrow> k_rcv_queue a = k_rcv_queue b \<Longrightarrow> k_nrcv_que a = k_nrcv_que b \<Longrightarrow> k_nrcv_buf a = k_nrcv_buf b \<Longrightarrow> k_rcv_buf a = k_rcv_buf b \<Longrightarrow> k_rcv_nxt a = k_rcv_nxt b \<Longrightarrow> rcv_wf a = rcv_wf b"
  by (simp add: rcv_wf_def)

lemma rcv_wf_frame [kcp_frame]:
  "rcv_wf (kcp\<lparr>k_nsnd_que := v0\<rparr>) = rcv_wf kcp"
  "rcv_wf (kcp\<lparr>k_nsnd_buf := v1\<rparr>) = rcv_wf kcp"
  "rcv_wf (kcp\<lparr>k_rmt_wnd := v2\<rparr>) = rcv_wf kcp"
  "rcv_wf (kcp\<lparr>k_snd_nxt := v3\<rparr>) = rcv_wf kcp"
  "rcv_wf (kcp\<lparr>k_snd_una := v4\<rparr>) = rcv_wf kcp"
  "rcv_wf (kcp\<lparr>k_snd_buf := v5\<rparr>) = rcv_wf kcp"
  "rcv_wf (kcp\<lparr>k_snd_queue := v6\<rparr>) = rcv_wf kcp"
  "rcv_wf (kcp\<lparr>k_acklist := v7\<rparr>) = rcv_wf kcp"
  "rcv_wf (kcp\<lparr>k_ackblock := v8\<rparr>) = rcv_wf kcp"
  "rcv_wf (kcp\<lparr>k_ackcount := v9\<rparr>) = rcv_wf kcp"
  "rcv_wf (kcp\<lparr>k_mtu := v10\<rparr>) = rcv_wf kcp"
  "rcv_wf (kcp\<lparr>k_mss := v11\<rparr>) = rcv_wf kcp"
  "rcv_wf (kcp\<lparr>k_buffer := v12\<rparr>) = rcv_wf kcp"
  "rcv_wf (kcp\<lparr>k_rx_minrto := v13\<rparr>) = rcv_wf kcp"
  "rcv_wf (kcp\<lparr>k_rx_rto := v14\<rparr>) = rcv_wf kcp"
  "rcv_wf (kcp\<lparr>k_rx_srtt := v15\<rparr>) = rcv_wf kcp"
  "rcv_wf (kcp\<lparr>k_rx_rttval := v16\<rparr>) = rcv_wf kcp"
  "rcv_wf (kcp\<lparr>k_interval := v17\<rparr>) = rcv_wf kcp"
  "rcv_wf (kcp\<lparr>k_ssthresh := v18\<rparr>) = rcv_wf kcp"
  "rcv_wf (kcp\<lparr>k_probe_wait := v19\<rparr>) = rcv_wf kcp"
  "rcv_wf (kcp\<lparr>k_probe := v20\<rparr>) = rcv_wf kcp"
  "rcv_wf (kcp\<lparr>k_ts_probe := v21\<rparr>) = rcv_wf kcp"
  "rcv_wf (kcp\<lparr>k_cwnd := v22\<rparr>) = rcv_wf kcp"
  "rcv_wf (kcp\<lparr>k_incr := v23\<rparr>) = rcv_wf kcp"
  "rcv_wf (kcp\<lparr>k_current := v24\<rparr>) = rcv_wf kcp"
  "rcv_wf (kcp\<lparr>k_updated := v25\<rparr>) = rcv_wf kcp"
  "rcv_wf (kcp\<lparr>k_ts_flush := v26\<rparr>) = rcv_wf kcp"
  "rcv_wf (kcp\<lparr>k_xmit := v27\<rparr>) = rcv_wf kcp"
  "rcv_wf (kcp\<lparr>k_state := v28\<rparr>) = rcv_wf kcp"
  "rcv_wf (kcp\<lparr>k_nodelay := v29\<rparr>) = rcv_wf kcp"
  "rcv_wf (kcp\<lparr>k_fastresend := v30\<rparr>) = rcv_wf kcp"
  "rcv_wf (kcp\<lparr>k_nocwnd := v31\<rparr>) = rcv_wf kcp"
  "rcv_wf (kcp\<lparr>k_snd_wnd := v32\<rparr>) = rcv_wf kcp"
  "rcv_wf (kcp\<lparr>k_output := v33\<rparr>) = rcv_wf kcp"
  by (rule rcv_wf_cong; simp)+

lemma snd_core_cong: "k_conv a = k_conv b \<Longrightarrow> k_nsnd_que a = k_nsnd_que b \<Longrightarrow> k_nsnd_buf a = k_nsnd_buf b \<Longrightarrow> k_rmt_wnd a = k_rmt_wnd b \<Longrightarrow> k_snd_nxt a = k_snd_nxt b \<Longrightarrow> k_snd_una a = k_snd_una b \<Longrightarrow> k_snd_buf a = k_snd_buf b \<Longrightarrow> k_snd_queue a = k_snd_queue b \<Longrightarrow> snd_core a = snd_core b"
  by (simp add: snd_core_def)

lemma snd_core_frame [kcp_frame]:
  "snd_core (kcp\<lparr>k_rcv_wnd := v0\<rparr>) = snd_core kcp"
  "snd_core (kcp\<lparr>k_rcv_queue := v1\<rparr>) = snd_core kcp"
  "snd_core (kcp\<lparr>k_nrcv_que := v2\<rparr>) = snd_core kcp"
  "snd_core (kcp\<lparr>k_nrcv_buf := v3\<rparr>) = snd_core kcp"
  "snd_core (kcp\<lparr>k_rcv_buf := v4\<rparr>) = snd_core kcp"
  "snd_core (kcp\<lparr>k_rcv_nxt := v5\<rparr>) = snd_core kcp"
  "snd_core (kcp\<lparr>k_acklist := v6\<rparr>) = snd_core kcp"
  "snd_core (kcp\<lparr>k_ackblock := v7\<rparr>) = snd_core kcp"
  "snd_core (kcp\<lparr>k_ackcount := v8\<rparr>) = snd_core kcp"
  "snd_core (kcp\<lparr>k_mtu := v9\<rparr>) = snd_core kcp"
  "snd_core (kcp\<lparr>k_mss := v10\<rparr>) = snd_core kcp"
  "snd_core (kcp\<lparr>k_buffer := v11\<rparr>) = snd_core kcp"
  "snd_core (kcp\<lparr>k_rx_minrto := v12\<rparr>) = snd_core kcp"
  "snd_core (kcp\<lparr>k_rx_rto := v13\<rparr>) = snd_core kcp"
  "snd_core (kcp\<lparr>k_rx_srtt := v14\<rparr>) = snd_core kcp"
  "snd_core (kcp\<lparr>k_rx_rttval := v15\<rparr>) = snd_core kcp"
  "snd_core (kcp\<lparr>k_interval := v16\<rparr>) = snd_core kcp"
  "snd_core (kcp\<lparr>k_ssthresh := v17\<rparr>) = snd_core kcp"
  "snd_core (kcp\<lparr>k_probe_wait := v18\<rparr>) = snd_core kcp"
  "snd_core (kcp\<lparr>k_probe := v19\<rparr>) = snd_core kcp"
  "snd_core (kcp\<lparr>k_ts_probe := v20\<rparr>) = snd_core kcp"
  "snd_core (kcp\<lparr>k_cwnd := v21\<rparr>) = snd_core kcp"
  "snd_core (kcp\<lparr>k_incr := v22\<rparr>) = snd_core kcp"
  "snd_core (kcp\<lparr>k_current := v23\<rparr>) = snd_core kcp"
  "snd_core (kcp\<lparr>k_updated := v24\<rparr>) = snd_core kcp"
  "snd_core (kcp\<lparr>k_ts_flush := v25\<rparr>) = snd_core kcp"
  "snd_core (kcp\<lparr>k_xmit := v26\<rparr>) = snd_core kcp"
  "snd_core (kcp\<lparr>k_state := v27\<rparr>) = snd_core kcp"
  "snd_core (kcp\<lparr>k_nodelay := v28\<rparr>) = snd_core kcp"
  "snd_core (kcp\<lparr>k_fastresend := v29\<rparr>) = snd_core kcp"
  "snd_core (kcp\<lparr>k_nocwnd := v30\<rparr>) = snd_core kcp"
  "snd_core (kcp\<lparr>k_snd_wnd := v31\<rparr>) = snd_core kcp"
  "snd_core (kcp\<lparr>k_output := v32\<rparr>) = snd_core kcp"
  by (rule snd_core_cong; simp)+

lemma snd_wf_cong: "k_conv a = k_conv b \<Longrightarrow> k_nsnd_que a = k_nsnd_que b \<Longrightarrow> k_nsnd_buf a = k_nsnd_buf b \<Longrightarrow> k_rmt_wnd a = k_rmt_wnd b \<Longrightarrow> k_snd_nxt a = k_snd_nxt b \<Longrightarrow> k_snd_una a = k_snd_una b \<Longrightarrow> k_snd_buf a = k_snd_buf b \<Longrightarrow> k_snd_queue a = k_snd_queue b \<Longrightarrow> snd_wf a = snd_wf b"
  by (simp add: snd_wf_def snd_core_def first_unacked_def split: list.split)

lemma snd_wf_frame [kcp_frame]:
  "snd_wf (kcp\<lparr>k_rcv_wnd := v0\<rparr>) = snd_wf kcp"
  "snd_wf (kcp\<lparr>k_rcv_queue := v1\<rparr>) = snd_wf kcp"
  "snd_wf (kcp\<lparr>k_nrcv_que := v2\<rparr>) = snd_wf kcp"
  "snd_wf (kcp\<lparr>k_nrcv_buf := v3\<rparr>) = snd_wf kcp"
  "snd_wf (kcp\<lparr>k_rcv_buf := v4\<rparr>) = snd_wf kcp"
  "snd_wf (kcp\<lparr>k_rcv_nxt := v5\<rparr>) = snd_wf kcp"
  "snd_wf (kcp\<lparr>k_acklist := v6\<rparr>) = snd_wf kcp"
  "snd_wf (kcp\<lparr>k_ackblock := v7\<rparr>) = snd_wf kcp"
  "snd_wf (kcp\<lparr>k_ackcount := v8\<rparr>) = snd_wf kcp"
  "snd_wf (kcp\<lparr>k_mtu := v9\<rparr>) = snd_wf kcp"
  "snd_wf (kcp\<lparr>k_mss := v10\<rparr>) = snd_wf kcp"
  "snd_wf (kcp\<lparr>k_buffer := v11\<rparr>) = snd_wf kcp"
  "snd_wf (kcp\<lparr>k_rx_minrto := v12\<rparr>) = snd_wf kcp"
  "snd_wf (kcp\<lparr>k_rx_rto := v13\<rparr>) = snd_wf kcp"
  "snd_wf (kcp\<lparr>k_rx_srtt := v14\<rparr>) = snd_wf kcp"
  "snd_wf (kcp\<lparr>k_rx_rttval := v15\<rparr>) = snd_wf kcp"
  "snd_wf (kcp\<lparr>k_interval := v16\<rparr>) = snd_wf kcp"
  "snd_wf (kcp\<lparr>k_ssthresh := v17\<rparr>) = snd_wf kcp"
  "snd_wf (kcp\<lparr>k_probe_wait := v18\<rparr>) = snd_wf kcp"
  "snd_wf (kcp\<lparr>k_probe := v19\<rparr>) = snd_wf kcp"
  "snd_wf (kcp\<lparr>k_ts_probe := v20\<rparr>) = snd_wf kcp"
  "snd_wf (kcp\<lparr>k_cwnd := v21\<rparr>) = snd_wf kcp"
  "snd_wf (kcp\<lparr>k_incr := v22\<rparr>) = snd_wf kcp"
  "snd_wf (kcp\<lparr>k_current := v23\<rparr>) = snd_wf kcp"
  "snd_wf (kcp\<lparr>k_updated := v24\<rparr>) = snd_wf kcp"
  "snd_wf (kcp\<lparr>k_ts_flush := v25\<rparr>) = snd_wf kcp"
  "snd_wf (kcp\<lparr>k_xmit := v26\<rparr>) = snd_wf kcp"
  "snd_wf (kcp\<lparr>k_state := v27\<rparr>) = snd_wf kcp"
  "snd_wf (kcp\<lparr>k_nodelay := v28\<rparr>) = snd_wf kcp"
  "snd_wf (kcp\<lparr>k_fastresend := v29\<rparr>) = snd_wf kcp"
  "snd_wf (kcp\<lparr>k_nocwnd := v30\<rparr>) = snd_wf kcp"
  "snd_wf (kcp\<lparr>k_snd_wnd := v31\<rparr>) = snd_wf kcp"
  "snd_wf (kcp\<lparr>k_output := v32\<rparr>) = snd_wf kcp"
  by (rule snd_wf_cong; simp)+

lemma ack_wf_cong: "k_acklist a = k_acklist b \<Longrightarrow> k_ackblock a = k_ackblock b \<Longrightarrow> k_ackcount a = k_ackcount b \<Longrightarrow> ack_wf a = ack_wf b"
  by (simp add: ack_wf_def)

lemma ack_wf_frame [kcp_frame]:
  "ack_wf (kcp\<lparr>k_rcv_wnd := v0\<rparr>) = ack_wf kcp"
  "ack_wf (kcp\<lparr>k_rcv_queue := v1\<rparr>) = ack_wf kcp"
  "ack_wf (kcp\<lparr>k_nrcv_que := v2\<rparr>) = ack_wf kcp"
  "ack_wf (kcp\<lparr>k_nrcv_buf := v3\<rparr>) = ack_wf kcp"
  "ack_wf (kcp\<lparr>k_rcv_buf := v4\<rparr>) = ack_wf kcp"
  "ack_wf (kcp\<lparr>k_rcv_nxt := v5\<rparr>) = ack_wf kcp"
  "ack_wf (kcp\<lparr>k_nsnd_que := v6\<rparr>) = ack_wf kcp"
  "ack_wf (kcp\<lparr>k_nsnd_buf := v7\<rparr>) = ack_wf kcp"
  "ack_wf (kcp\<lparr>k_rmt_wnd := v8\<rparr>) = ack_wf kcp"
  "ack_wf (kcp\<lparr>k_snd_nxt := v9\<rparr>) = ack_wf kcp"
  "ack_wf (kcp\<lparr>k_snd_una := v10\<rparr>) = ack_wf kcp"
  "ack_wf (kcp\<lparr>k_snd_buf := v11\<rparr>) = ack_wf kcp"
  "ack_wf (kcp\<lparr>k_snd_queue := v12\<rparr>) = ack_wf kcp"
  "ack_wf (kcp\<lparr>k_mtu := v13\<rparr>) = ack_wf kcp"
  "ack_wf (kcp\<lparr>k_mss := v14\<rparr>) = ack_wf kcp"
  "ack_wf (kcp\<lparr>k_buffer := v15\<rparr>) = ack_wf kcp"
  "ack_wf (kcp\<lparr>k_rx_minrto := v16\<rparr>) = ack_wf kcp"
  "ack_wf (kcp\<lparr>k_rx_rto := v17\<rparr>) = ack_wf kcp"
  "ack_wf (kcp\<lparr>k_rx_srtt := v18\<rparr>) = ack_wf kcp"
  "ack_wf (kcp\<lparr>k_rx_rttval := v19\<rparr>) = ack_wf kcp"
  "ack_wf (kcp\<lparr>k_interval := v20\<rparr>) = ack_wf kcp"
  "ack_wf (kcp\<lparr>k_ssthresh := v21\<rparr>) = ack_wf kcp"
  "ack_wf (kcp\<lparr>k_probe_wait := v22\<rparr>) = ack_wf kcp"
  "ack_wf (kcp\<lparr>k_probe := v23\<rparr>) = ack_wf kcp"
  "ack_wf (kcp\<lparr>k_ts_probe := v24\<rparr>) = ack_wf kcp"
  "ack_wf (kcp\<lparr>k_cwnd := v25\<rparr>) = ack_wf kcp"
  "ack_wf (kcp\<lparr>k_incr := v26\<rparr>) = ack_wf kcp"
  "ack_wf (kcp\<lparr>k_current := v27\<rparr>) = ack_wf kcp"
  "ack_wf (kcp\<lparr>k_updated := v28\<rparr>) = ack_wf kcp"
  "ack_wf (kcp\<lparr>k_ts_flush := v29\<rparr>) = ack_wf kcp"
  "ack_wf (kcp\<lparr>k_xmit := v30\<rparr>) = ack_wf kcp"
  "ack_wf (kcp\<lparr>k_state := v31\<rparr>) = ack_wf kcp"
  "ack_wf (kcp\<lparr>k_nodelay := v32\<rparr>) = ack_wf kcp"
  "ack_wf (kcp\<lparr>k_fastresend := v33\<rparr>) = ack_wf kcp"
  "ack_wf (kcp\<lparr>k_nocwnd := v34\<rparr>) = ack_wf kcp"
  "ack_wf (kcp\<lparr>k_snd_wnd := v35\<rparr>) = ack_wf kcp"
  "ack_wf (kcp\<lparr>k_output := v36\<rparr>) = ack_wf kcp"
  by (rule ack_wf_cong; simp)+

lemma cfg_wf_cong: "k_mtu a = k_mtu b \<Longrightarrow> k_mss a = k_mss b \<Longrightarrow> k_buffer a = k_buffer b \<Longrightarrow> k_rx_minrto a = k_rx_minrto b \<Longrightarrow> k_rx_rto a = k_rx_rto b \<Longrightarrow> k_interval a = k_interval b \<Longrightarrow> k_ssthresh a = k_ssthresh b \<Longrightarrow> k_probe_wait a = k_probe_wait b \<Longrightarrow> cfg_wf a = cfg_wf b"
  by (simp add: cfg_wf_def)

lemma cfg_wf_frame [kcp_frame]:
  "cfg_wf (kcp\<lparr>k_rcv_wnd := v0\<rparr>) = cfg_wf kcp"
  "cfg_wf (kcp\<lparr>k_rcv_queue := v1\<rparr>) = cfg_wf kcp"
  "cfg_wf (kcp\<lparr>k_nrcv_que := v2\<rparr>) = cfg_wf kcp"
  "cfg_wf (kcp\<lparr>k_nrcv_buf := v3\<rparr>) = cfg_wf kcp"
  "cfg_wf (kcp\<lparr>k_rcv_buf := v4\<rparr>) = cfg_wf kcp"
  "cfg_wf (kcp\<lparr>k_rcv_nxt := v5\<rparr>) = cfg_wf kcp"
  "cfg_wf (kcp\<lparr>k_nsnd_que := v6\<rparr>) = cfg_wf kcp"
  "cfg_wf (kcp\<lparr>k_nsnd_buf := v7\<rparr>) = cfg_wf kcp"
  "cfg_wf (kcp\<lparr>k_rmt_wnd := v8\<rparr>) = cfg_wf kcp"
  "cfg_wf (kcp\<lparr>k_snd_nxt := v9\<rparr>) = cfg_wf kcp"
  "cfg_wf (kcp\<lparr>k_snd_una := v10\<rparr>) = cfg_wf kcp"
  "cfg_wf (kcp\<lparr>k_snd_buf := v11\<rparr>) = cfg_wf kcp"
  "cfg_wf (kcp\<lparr>k_snd_queue := v12\<rparr>) = cfg_wf kcp"
  "cfg_wf (kcp\<lparr>k_acklist := v13\<rparr>) = cfg_wf kcp"
  "cfg_wf (kcp\<lparr>k_ackblock := v14\<rparr>) = cfg_wf kcp"
  "cfg_wf (kcp\<lparr>k_ackcount := v15\<rparr>) = cfg_wf kcp"
  "cfg_wf (kcp\<lparr>k_rx_srtt := v16\<rparr>) = cfg_wf kcp"
  "cfg_wf (kcp\<lparr>k_rx_rttval := v17\<rparr>) = cfg_wf kcp"
  "cfg_wf (kcp\<lparr>k_probe := v18\<rparr>) = cfg_wf kcp"
  "cfg_wf (kcp\<lparr>k_ts_probe := v19\<rparr>) = cfg_wf kcp"
  "cfg_wf (kcp\<lparr>k_cwnd := v20\<rparr>) = cfg_wf kcp"
  "cfg_wf (kcp\<lparr>k_incr := v21\<rparr>) = cfg_wf kcp"
  "cfg_wf (kcp\<lparr>k_current := v22\<rparr>) = cfg_wf kcp"
  "cfg_wf (kcp\<lparr>k_updated := v23\<rparr>) = cfg_wf kcp"
  "cfg_wf (kcp\<lparr>k_ts_flush := v24\<rparr>) = cfg_wf kcp"
  "cfg_wf (kcp\<lparr>k_xmit := v25\<rparr>) = cfg_wf kcp"
  "cfg_wf (kcp\<lparr>k_state := v26\<rparr>) = cfg_wf kcp"
  "cfg_wf (kcp\<lparr>k_nodelay := v27\<rparr>) = cfg_wf kcp"
  "cfg_wf (kcp\<lparr>k_fastresend := v28\<rparr>) = cfg_wf kcp"
  "cfg_wf (kcp\<lparr>k_nocwnd := v29\<rparr>) = cfg_wf kcp"
  "cfg_wf (kcp\<lparr>k_snd_wnd := v30\<rparr>) = cfg_wf kcp"
  "cfg_wf (kcp\<lparr>k_output := v31\<rparr>) = cfg_wf kcp"
  by (rule cfg_wf_cong; simp)+

lemma segs_fit_cong: "k_snd_queue a = k_snd_queue b \<Longrightarrow> k_snd_buf a = k_snd_buf b \<Longrightarrow> k_mss a = k_mss b \<Longrightarrow> segs_fit a = segs_fit b"
  by (simp add: segs_fit_def)

lemma segs_fit_frame [kcp_frame]:
  "segs_fit (kcp\<lparr>k_rcv_wnd := v0\<rparr>) = segs_fit kcp"
  "segs_fit (kcp\<lparr>k_rcv_queue := v1\<rparr>) = segs_fit kcp"
  "segs_fit (kcp\<lparr>k_nrcv_que := v2\<rparr>) = segs_fit kcp"
  "segs_fit (kcp\<lparr>k_nrcv_buf := v3\<rparr>) = segs_fit kcp"
  "segs_fit (kcp\<lparr>k_rcv_buf := v4\<rparr>) = segs_fit kcp"
  "segs_fit (kcp\<lparr>k_rcv_nxt := v5\<rparr>) = segs_fit kcp"
  "segs_fit (kcp\<lparr>k_nsnd_que := v6\<rparr>) = segs_fit kcp"
  "segs_fit (kcp\<lparr>k_nsnd_buf := v7\<rparr>) = segs_fit kcp"
  "segs_fit (kcp\<lparr>k_rmt_wnd := v8\<rparr>) = segs_fit kcp"
  "segs_fit (kcp\<lparr>k_snd_nxt := v9\<rparr>) = segs_fit kcp"
  "segs_fit (kcp\<lparr>k_snd_una := v10\<rparr>) = segs_fit kcp"
  "segs_fit (kcp\<lparr>k_acklist := v11\<rparr>) = segs_fit kcp"
  "segs_fit (kcp\<lparr>k_ackblock := v12\<rparr>) = segs_fit kcp"
  "segs_fit (kcp\<lparr>k_ackcount := v13\<rparr>) = segs_fit kcp"
  "segs_fit (kcp\<lparr>k_mtu := v14\<rparr>) = segs_fit kcp"
  "segs_fit (kcp\<lparr>k_buffer := v15\<rparr>) = segs_fit kcp"
  "segs_fit (kcp\<lparr>k_rx_minrto := v16\<rparr>) = segs_fit kcp"
  "segs_fit (kcp\<lparr>k_rx_rto := v17\<rparr>) = segs_fit kcp"
  "segs_fit (kcp\<lparr>k_rx_srtt := v18\<rparr>) = segs_fit kcp"
  "segs_fit (kcp\<lparr>k_rx_rttval := v19\<rparr>) = segs_fit kcp"
  "segs_fit (kcp\<lparr>k_interval := v20\<rparr>) = segs_fit kcp"
  "segs_fit (kcp\<lparr>k_ssthresh := v21\<rparr>) = segs_fit kcp"
  "segs_fit (kcp\<lparr>k_probe_wait := v22\<rparr>) = segs_fit kcp"
  "segs_fit (kcp\<lparr>k_probe := v23\<rparr>) = segs_fit kcp"
  "segs_fit (kcp\<lparr>k_ts_probe := v24\<rparr>) = segs_fit kcp"
  "segs_fit (kcp\<lparr>k_cwnd := v25\<rparr>) = segs_fit kcp"
  "segs_fit (kcp\<lparr>k_incr := v26\<rparr>) = segs_fit kcp"
  "segs_fit (kcp\<lparr>k_current := v27\<rparr>) = segs_fit kcp"
  "segs_fit (kcp\<lparr>k_updated := v28\<rparr>) = segs_fit kcp"
  "segs_fit (kcp\<lparr>k_ts_flush := v29\<rparr>) = segs_fit kcp"
  "segs_fit (kcp\<lparr>k_xmit := v30\<rparr>) = segs_fit kcp"
  "segs_fit (kcp\<lparr>k_state := v31\<rparr>) = segs_fit kcp"
  "segs_fit (kcp\<lparr>k_nodelay := v32\<rparr>) = segs_fit kcp"
  "segs_fit (kcp\<lparr>k_fastresend := v33\<rparr>) = segs_fit kcp"
  "segs_fit (kcp\<lparr>k_nocwnd := v34\<rparr>) = segs_fit kcp"
  "segs_fit (kcp\<lparr>k_snd_wnd := v35\<rparr>) = segs_fit kcp"
  "segs_fit (kcp\<lparr>k_output := v36\<rparr>) = segs_fit kcp"
  by (rule segs_fit_cong; simp)+


section \<open>Creation and configuration\<close>

lemma create_wf: "ikcp_create alloc conv user = Some kcp \<Longrightarrow> kcp_wf kcp"
  by (auto simp: ikcp_create_def Let_def kcp_wf_def wf_parts kcp_consts split: if_splits)

lemma cfg_interval: "cfg_wf kcp \<Longrightarrow> cfg_wf (kcp\<lparr>k_interval := clamp_interval i\<rparr>)"
  using clamp_interval_bounds [of i] by (simp add: cfg_wf_def)

lemma interval_wf: "kcp_wf kcp \<Longrightarrow> kcp_wf (snd (ikcp_interval kcp i))"
  using cfg_interval [of kcp i] by (simp add: ikcp_interval_def kcp_wf_def kcp_frame)

lemma nodelay_wf:
  assumes "kcp_wf kcp" shows "kcp_wf (snd (ikcp_nodelay kcp nodelay interval resend nc))"
proof -
  have "cfg_wf (kcp\<lparr>k_rx_minrto := IKCP_RTO_NDL\<rparr>) \<and> cfg_wf (kcp\<lparr>k_rx_minrto := IKCP_RTO_MIN\<rparr>)"
    if "cfg_wf kcp" for kcp using that by (simp add: cfg_wf_def)
  then show ?thesis
    using assms cfg_interval by (simp add: ikcp_nodelay_def Let_def kcp_wf_def kcp_frame)
qed

lemma wndsize_wf:
  assumes "kcp_wf kcp" shows "\<forall>kcp' \<in> set_option (snd (ikcp_wndsize (Some kcp) sndwnd rcvwnd)). kcp_wf kcp'"
proof -
  have "rcv_wf (kcp\<lparr>k_rcv_wnd := rcvwnd\<rparr>)" if "0 < sint rcvwnd" "rcv_wf kcp" for kcp
    using that by (simp add: rcv_wf_def sint32_pos)
  then show ?thesis using assms by (simp add: ikcp_wndsize_def Let_def kcp_wf_def kcp_frame)
qed

text \<open>A new maximum transmission unit keeps the invariant when the size computation does not wrap and the
  segments already queued still fit.\<close>

lemma setmtu_wf:
  assumes "kcp_wf kcp" "unat mtu \<le> 1073741823"
    and "\<forall>seg \<in> set (k_snd_queue kcp) \<union> set (k_snd_buf kcp). unat (seg_len seg) + 24 \<le> unat mtu"
  shows "kcp_wf (snd (ikcp_setmtu alloc kcp mtu))"
proof -
  have "cfg_wf (kcp\<lparr>k_mtu := mtu, k_mss := mtu - IKCP_OVERHEAD, k_buffer := unat ((mtu + IKCP_OVERHEAD) * 3)\<rparr>)"
    if "\<not> sint mtu < 50"
  proof -
    have m: "50 \<le> unat mtu" using that sint32_unat [of mtu] assms(2) by linarith
    have "unat (mtu + IKCP_OVERHEAD) = unat mtu + 24"
      using assms(2) by (subst unat32_add_small) (simp_all add: IKCP_OVERHEAD_def)
    moreover have "unat (x * 3 :: u32) = (unat x * 3) mod 4294967296" for x by (simp add: unat_word_ariths)
    ultimately have "unat ((mtu + IKCP_OVERHEAD) * 3) = (unat mtu + 24) * 3" using assms(2) by (simp only:) simp
    then show ?thesis using assms(1,2) m by (simp add: kcp_wf_def cfg_wf_def)
  qed
  moreover have "unat (seg_len seg) \<le> unat (mtu - IKCP_OVERHEAD)"
    if "\<not> sint mtu < 50" "seg \<in> set (k_snd_queue kcp) \<union> set (k_snd_buf kcp)" for seg
  proof -
    have "unat (seg_len seg) + 24 \<le> unat mtu" using assms(3) that(2) by blast
    then show ?thesis by (simp add: IKCP_OVERHEAD_def unat32_sub)
  qed
  ultimately show ?thesis using assms(1)
    by (auto simp: ikcp_setmtu_def Let_def kcp_wf_def kcp_frame segs_fit_def)
qed

section \<open>Receiving\<close>

lemma move_rcv_from_frame [kcp_frame]:
  "snd_wf (move_rcv_from buf kcp) = snd_wf kcp" "ack_wf (move_rcv_from buf kcp) = ack_wf kcp"
  "cfg_wf (move_rcv_from buf kcp) = cfg_wf kcp" "segs_fit (move_rcv_from buf kcp) = segs_fit kcp"
  by (induction buf kcp rule: move_rcv_from.induct) (simp_all add: kcp_frame)

lemma recv_frame [kcp_frame]:
  "snd_wf (fast_recover b kcp) = snd_wf kcp" "ack_wf (fast_recover b kcp) = ack_wf kcp"
  "cfg_wf (fast_recover b kcp) = cfg_wf kcp" "segs_fit (fast_recover b kcp) = segs_fit kcp"
  "snd_wf (move_rcv kcp) = snd_wf kcp" "ack_wf (move_rcv kcp) = ack_wf kcp"
  "cfg_wf (move_rcv kcp) = cfg_wf kcp" "segs_fit (move_rcv kcp) = segs_fit kcp"
  "snd_wf (drop_message kcp) = snd_wf kcp" "ack_wf (drop_message kcp) = ack_wf kcp"
  "cfg_wf (drop_message kcp) = cfg_wf kcp" "segs_fit (drop_message kcp) = segs_fit kcp"
  by (simp_all add: fast_recover_def move_rcv_def drop_message_def kcp_frame)

lemma recv_keeps_wf:
  assumes "kcp_wf kcp" "ikcp_recv kcp buffer len = Some (r, out, kcp')"
  shows "kcp_wf kcp'"
proof (rule kcp_wfI)
  show "rcv_wf kcp'" using recv_wf [OF _ assms(2)] assms(1) by (simp add: kcp_wf_def)
qed (use recv_result [OF assms(2)] assms(1) in \<open>auto simp: kcp_wf_def kcp_frame\<close>)

section \<open>Sending\<close>

lemma send_size:
  fixes mss len :: i32
  assumes "0 < unat mss" "unat mss < 2147483648" "unat len < 2147483648"
  shows "unat (if sint len > sint mss then mss else len) = min (unat mss) (unat len)"
  using assms sint32_small [of len] sint32_small [of mss] by (simp del: of_nat_unat)

lemma send_loop_segs:
  assumes "send_loop alloc count rem buf len kcp = Some kcp'" "rem \<le> count" "count < 257"
    and "0 < unat (k_mss kcp)" "unat (k_mss kcp) < 2147483648" "unat len < 2147483648"
    and "\<forall>b \<in> set_option buf. unat len \<le> length b"
  shows "\<exists>segs. kcp' = kcp\<lparr>k_snd_queue := k_snd_queue kcp @ segs,
             k_nsnd_que := k_nsnd_que kcp + of_nat (length segs)\<rparr> \<and>
           (\<forall>seg \<in> set segs. seg_ok seg \<and> unat (seg_frg seg) < 256 \<and> unat (seg_len seg) \<le> unat (k_mss kcp))"
  using assms
proof (induction alloc count rem buf len kcp rule: send_loop.induct)
  case (1 alloc count buf len kcp)
  then show ?case by (intro exI [of _ "[]"]) simp
next
  case (2 alloc count rem buf len kcp)
  let ?sz = "if sint len > sint (k_mss kcp) then k_mss kcp else len"
  let ?seg0 = "case buf of Some b \<Rightarrow> if sint len > 0 then (ikcp_segment_new (unat ?sz))\<lparr>seg_data := take (unat ?sz) b\<rparr>
      else ikcp_segment_new (unat ?sz) | None \<Rightarrow> ikcp_segment_new (unat ?sz)"
  let ?seg = "?seg0\<lparr>seg_len := ?sz, seg_frg := of_nat (count - (count - Suc rem) - 1)\<rparr>"
  let ?kcp = "kcp\<lparr>k_snd_queue := k_snd_queue kcp @ [?seg], k_nsnd_que := k_nsnd_que kcp + 1\<rparr>"
  have sz: "unat ?sz = min (unat (k_mss kcp)) (unat len)" by (rule send_size [OF "2.prems"(4-6)])
  have al: "alloc (count - Suc rem) (sizeof_IKCPSEG + unat ?sz)"
    using "2.prems"(1) by (simp add: Let_def split: if_split_asm)
  have run: "send_loop alloc count rem (map_option (drop (unat ?sz)) buf) (len - ?sz) ?kcp = Some kcp'"
    using "2.prems"(1) al by (simp only: send_loop.simps Let_def not_True_eq_False if_False)
  have len': "unat (len - ?sz) = unat len - unat ?sz" by (subst unat32_sub) (simp add: sz)
  have data: "length (seg_data ?seg0) = unat ?sz"
    using "2.prems"(7) sz by (auto simp: ikcp_segment_new_def split: option.split)
  have rem: "count - (count - Suc rem) - 1 = rem" "rem < 256" using "2.prems"(2,3) by simp_all
  have ok: "seg_ok ?seg \<and> unat (seg_frg ?seg) < 256 \<and> unat (seg_len ?seg) \<le> unat (k_mss kcp)"
    using data sz rem by (simp add: seg_ok_def unat32_of_nat_small)
  have "\<exists>segs. kcp' = ?kcp\<lparr>k_snd_queue := k_snd_queue ?kcp @ segs, k_nsnd_que := k_nsnd_que ?kcp + of_nat (length segs)\<rparr> \<and>
      (\<forall>seg \<in> set segs. seg_ok seg \<and> unat (seg_frg seg) < 256 \<and> unat (seg_len seg) \<le> unat (k_mss ?kcp))"
  proof (rule "2.IH" [OF refl refl _ refl refl refl refl run])
    show "\<forall>b \<in> set_option (map_option (drop (unat ?sz)) buf). unat (len - ?sz) \<le> length b"
      using "2.prems"(7) len' by (cases buf) auto
    show "unat (len - ?sz) < 2147483648" using len' "2.prems"(6) by simp
  qed (use al "2.prems" in simp_all)
  then obtain segs where kcp': "kcp' = ?kcp\<lparr>k_snd_queue := k_snd_queue ?kcp @ segs, k_nsnd_que := k_nsnd_que ?kcp + of_nat (length segs)\<rparr>"
    and oks: "\<forall>seg \<in> set segs. seg_ok seg \<and> unat (seg_frg seg) < 256 \<and> unat (seg_len seg) \<le> unat (k_mss kcp)"
    by auto
  show ?case using kcp' ok oks by (intro exI [of _ "?seg # segs"]) simp
qed

lemma sent_few:
  assumes "0 < unat (k_mss kcp)" "unat (k_mss kcp) < 2147483648" "unat len < 2147483648"
  shows "unat (send_count kcp len) < 2147483648"
proof -
  have "unat ((len + k_mss kcp - 1) div k_mss kcp) \<le> unat (len + k_mss kcp - 1) div 2" if "sint (k_mss kcp) < sint len" "k_mss kcp \<noteq> 1"
  proof -
    have "2 \<le> unat (k_mss kcp)" using assms(1) that(2) word32_eq_iff_unat [of "k_mss kcp" 1] by simp
    then show ?thesis by (simp add: unat_div div_le_mono2)
  qed
  moreover have "unat (len + 1 - 1) < 2147483648" using assms(3) by simp
  moreover have "unat (len + k_mss kcp - 1) div 2 < 2147483648"
    by (rule less_mult_imp_div_less) simp
  ultimately show ?thesis
    by (cases "k_mss kcp = 1") (auto simp: send_count_def)
qed

lemma queue_segs_wf:
  assumes "kcp_wf kcp"
    and "\<forall>seg \<in> set segs. seg_ok seg \<and> unat (seg_frg seg) < 256 \<and> unat (seg_len seg) \<le> unat (k_mss kcp)"
  shows "kcp_wf (kcp\<lparr>k_snd_queue := k_snd_queue kcp @ segs, k_nsnd_que := k_nsnd_que kcp + of_nat (length segs)\<rparr>)"
    (is "kcp_wf ?kcp")
proof (rule kcp_wfI)
  have "snd_core ?kcp" using assms by (auto simp: kcp_wf_def snd_wf_def snd_core_def)
  moreover have "first_unacked ?kcp = first_unacked kcp" by (simp add: first_unacked_def split: list.split)
  ultimately show "snd_wf ?kcp" using assms(1) by (simp add: snd_wf_def kcp_wf_def)
  show "segs_fit ?kcp" using assms by (auto simp: kcp_wf_def segs_fit_def)
qed (use assms(1) in \<open>simp_all add: kcp_wf_def kcp_frame\<close>)

lemma send_keeps_wf:
  assumes "kcp_wf kcp" "ikcp_send alloc kcp buffer len = Some (r, kcp')"
    and "\<forall>b \<in> set_option buffer. unat len \<le> length b"
  shows "kcp_wf kcp'"
proof (cases "kcp' = kcp")
  case False
  define c where "c = (if send_count kcp len = 0 then 1 else send_count kcp len)"
  have cfg: "cfg_wf kcp" using assms(1) by (simp add: kcp_wf_def)
  have mss: "0 < unat (k_mss kcp)" "unat (k_mss kcp) < 2147483648"
    using mss_eq [OF cfg] cfg unfolding cfg_wf_def by linarith+
  have len: "unat len < 2147483648" and run: "send_loop alloc (unat c) (unat c) buffer len kcp = Some kcp'"
    and c: "\<not> sint (send_count kcp len) > 255"
    using assms(2) False by (auto simp: ikcp_send_def Let_def c_def sint32_neg split: if_splits)
  have "unat c < 257" using sent_few [OF mss len] c unfolding c_def
    using sint32_small [of "send_count kcp len"] by (simp del: of_nat_unat)
  then show ?thesis
    using send_loop_segs [OF run order.refl _ mss len assms(3)] queue_segs_wf [OF assms(1)] by blast
qed (use assms(1) in simp)

end
