(* ===== verification/Kcp_Flush.thy ===== *)
theory Kcp_Flush
  imports Kcp_Input
begin

text \<open>
  The sending half of the protocol clock of \<open>src/util/ikcp.c\<close>: \<open>ikcp_output\<close>, \<open>ikcp_encode_seg\<close>,
  \<open>ikcp_flush\<close>, \<open>ikcp_update\<close> and \<open>ikcp_check\<close>. One call of \<open>ikcp_flush\<close> writes, in this order, the pending
  acknowledgements, the window probes and the data segments that are new, timed out or skipped, into the
  output buffer, and hands the buffer to the output callback whenever the next piece would not fit the
  \<open>mtu\<close>.

  The model collects the datagrams handed to the callback. \<open>None\<close> stands for what the program must never do:
  a write outside the buffer of \<open>k_buffer\<close> bytes, a read outside the acknowledgement array or a segment, or
  a call of a callback that is not set.
\<close>

section \<open>Operations\<close>

definition ikcp_output :: "IKCPCB \<Rightarrow> bytes \<Rightarrow> bytes list \<Rightarrow> bytes list option" where
  "ikcp_output kcp data sent =
     (if \<not> k_output kcp then None
      else if length data = 0 then Some sent
      else Some (sent @ [data]))"

definition ikcp_encode_seg :: "bytes \<Rightarrow> IKCPSEG \<Rightarrow> bytes" where
  "ikcp_encode_seg ptr seg =
     (let ptr = ikcp_encode32u IWORDS_BIG_ENDIAN ptr (seg_conv seg);
          ptr = ikcp_encode8u ptr (ucast (seg_cmd seg));
          ptr = ikcp_encode8u ptr (ucast (seg_frg seg));
          ptr = ikcp_encode16u IWORDS_BIG_ENDIAN ptr (ucast (seg_wnd seg));
          ptr = ikcp_encode32u IWORDS_BIG_ENDIAN ptr (seg_ts seg);
          ptr = ikcp_encode32u IWORDS_BIG_ENDIAN ptr (seg_sn seg);
          ptr = ikcp_encode32u IWORDS_BIG_ENDIAN ptr (seg_una seg)
      in ikcp_encode32u IWORDS_BIG_ENDIAN ptr (seg_len seg))"

text \<open>The bytes between \<open>buffer\<close> and \<open>ptr\<close>, and the datagrams sent so far.\<close>

type_synonym outbuf = "bytes \<times> bytes list"

definition checked :: "IKCPCB \<Rightarrow> outbuf \<Rightarrow> outbuf option" where
  "checked kcp out = (if length (fst out) \<le> k_buffer kcp then Some out else None)"

text \<open>Hand over the buffer and start again at its beginning.\<close>

definition output_all :: "IKCPCB \<Rightarrow> outbuf \<Rightarrow> outbuf option" where
  "output_all kcp out = map_option (\<lambda>sent. ([], sent)) (ikcp_output kcp (fst out) (snd out))"

text \<open>A segment without data. \<open>size + IKCP_OVERHEAD > (int)kcp->mtu\<close> is an unsigned comparison, because
  \<open>IKCP_OVERHEAD\<close> is unsigned.\<close>

definition put_control :: "IKCPCB \<Rightarrow> IKCPSEG \<Rightarrow> outbuf \<Rightarrow> outbuf option" where
  "put_control kcp seg out = do {
     let sz = (of_nat (length (fst out)) :: u32);
     (ptr, sent) \<leftarrow> (if sz + IKCP_OVERHEAD > k_mtu kcp then output_all kcp out else Some out);
     checked kcp (ikcp_encode_seg ptr seg, sent)
   }"

text \<open>A data segment: \<open>size + need > (int)kcp->mtu\<close> is a signed comparison.\<close>

definition put_data :: "IKCPCB \<Rightarrow> IKCPSEG \<Rightarrow> outbuf \<Rightarrow> outbuf option" where
  "put_data kcp seg out = do {
     let sz = (of_nat (length (fst out)) :: i32);
     let need = IKCP_OVERHEAD + seg_len seg;
     (ptr, sent) \<leftarrow> (if sint (sz + need) > sint (k_mtu kcp) then output_all kcp out else Some out);
     out \<leftarrow> checked kcp (ikcp_encode_seg ptr seg, sent);
     (if seg_len seg > 0
      then if length (seg_data seg) < unat (seg_len seg) then None
           else checked kcp (fst out @ take (unat (seg_len seg)) (seg_data seg), sent)
      else Some out)
   }"

text \<open>Flush acknowledges: entries \<open>i\<close>, \<open>i + 1\<close>, and so on, \<open>n\<close> of them. The control segment keeps the \<open>sn\<close> and
  \<open>ts\<close> of the last one.\<close>

fun flush_acks :: "IKCPCB \<Rightarrow> nat \<Rightarrow> nat \<Rightarrow> IKCPSEG \<Rightarrow> outbuf \<Rightarrow> (IKCPSEG \<times> outbuf) option" where
  "flush_acks kcp 0 i seg out = Some (seg, out)"
| "flush_acks kcp (Suc n) i seg out =
     (if i \<ge> length (k_acklist kcp) then None
      else
        let (sn, ts) = ikcp_ack_get kcp i;
            seg = seg\<lparr>seg_sn := sn, seg_ts := ts\<rparr>
        in case put_control kcp seg out of
             None \<Rightarrow> None
           | Some out \<Rightarrow> flush_acks kcp n (Suc i) seg out)"

text \<open>Probe window size: the next waiting time is half as long again, within its limits.\<close>

definition next_probe_wait :: "u32 \<Rightarrow> u32" where
  "next_probe_wait wait =
     (let wait = (if wait < IKCP_PROBE_INIT then IKCP_PROBE_INIT else wait);
          wait = wait + wait div 2
      in if wait > IKCP_PROBE_LIMIT then IKCP_PROBE_LIMIT else wait)"

definition probe_window :: "IKCPCB \<Rightarrow> IKCPCB" where
  "probe_window kcp =
     (if k_rmt_wnd kcp = 0
      then
        if k_probe_wait kcp = 0
        then kcp\<lparr>k_probe_wait := IKCP_PROBE_INIT, k_ts_probe := k_current kcp + IKCP_PROBE_INIT\<rparr>
        else if itimediff (k_current kcp) (k_ts_probe kcp) \<ge> 0
        then
          let wait = next_probe_wait (k_probe_wait kcp)
          in kcp\<lparr>k_probe_wait := wait, k_ts_probe := k_current kcp + wait,
                 k_probe := k_probe kcp OR IKCP_ASK_SEND\<rparr>
        else kcp
      else kcp\<lparr>k_ts_probe := 0, k_probe_wait := 0\<rparr>)"

text \<open>Flush window probing commands: \<open>IKCP_CMD_WASK\<close>, then \<open>IKCP_CMD_WINS\<close>.\<close>

definition flush_probes :: "IKCPCB \<Rightarrow> IKCPSEG \<Rightarrow> outbuf \<Rightarrow> outbuf option" where
  "flush_probes kcp seg out = do {
     out \<leftarrow> (if k_probe kcp AND IKCP_ASK_SEND \<noteq> 0
             then put_control kcp (seg\<lparr>seg_cmd := IKCP_CMD_WASK\<rparr>) out else Some out);
     (if k_probe kcp AND IKCP_ASK_TELL \<noteq> 0
      then put_control kcp (seg\<lparr>seg_cmd := IKCP_CMD_WINS\<rparr>) out else Some out)
   }"

text \<open>Calculate window size.\<close>

definition flush_window :: "IKCPCB \<Rightarrow> u32" where
  "flush_window kcp =
     (let cwnd = imin (k_snd_wnd kcp) (k_rmt_wnd kcp)
      in if k_nocwnd kcp = 0 then imin (k_cwnd kcp) cwnd else cwnd)"

text \<open>Move data from \<open>snd_queue\<close> to \<open>snd_buf\<close>; the first argument is the queue that is left.\<close>

definition fresh_segment :: "IKCPCB \<Rightarrow> u32 \<Rightarrow> IKCPSEG \<Rightarrow> IKCPSEG" where
  "fresh_segment kcp wnd newseg =
     newseg\<lparr>seg_conv := k_conv kcp, seg_cmd := IKCP_CMD_PUSH, seg_wnd := wnd, seg_ts := k_current kcp,
            seg_sn := k_snd_nxt kcp, seg_una := k_rcv_nxt kcp, seg_resendts := k_current kcp,
            seg_rto := k_rx_rto kcp, seg_fastack := 0, seg_xmit := 0\<rparr>"

fun move_snd_from :: "IKCPSEG list \<Rightarrow> u32 \<Rightarrow> u32 \<Rightarrow> IKCPCB \<Rightarrow> IKCPCB" where
  "move_snd_from [] cwnd wnd kcp = kcp\<lparr>k_snd_queue := []\<rparr>"
| "move_snd_from (newseg # queue) cwnd wnd kcp =
     (if itimediff (k_snd_nxt kcp) (k_snd_una kcp + cwnd) < 0
      then move_snd_from queue cwnd wnd
             (kcp\<lparr>k_snd_buf := k_snd_buf kcp @ [fresh_segment kcp wnd newseg],
                  k_nsnd_que := k_nsnd_que kcp - 1,
                  k_nsnd_buf := k_nsnd_buf kcp + 1,
                  k_snd_nxt := k_snd_nxt kcp + 1\<rparr>)
      else kcp\<lparr>k_snd_queue := newseg # queue\<rparr>)"

definition move_snd :: "u32 \<Rightarrow> u32 \<Rightarrow> IKCPCB \<Rightarrow> IKCPCB" where
  "move_snd cwnd wnd kcp = move_snd_from (k_snd_queue kcp) cwnd wnd kcp"

text \<open>Why a data segment is sent in this round.\<close>

datatype need_send = First | Timeout | Skipped | Quiet

definition why_send :: "u32 \<Rightarrow> u32 \<Rightarrow> IKCPSEG \<Rightarrow> need_send" where
  "why_send current resent segment =
     (if seg_xmit segment = 0 then First
      else if itimediff current (seg_resendts segment) \<ge> 0 then Timeout
      else if seg_fastack segment \<ge> resent then Skipped
      else Quiet)"

text \<open>The changes of the segment in each of the three branches.\<close>

definition mark_segment :: "IKCPCB \<Rightarrow> u32 \<Rightarrow> u32 \<Rightarrow> need_send \<Rightarrow> IKCPSEG \<Rightarrow> IKCPSEG" where
  "mark_segment kcp current rtomin why segment =
     (case why of
        First \<Rightarrow>
          segment\<lparr>seg_xmit := seg_xmit segment + 1, seg_rto := k_rx_rto kcp,
                  seg_resendts := current + k_rx_rto kcp + rtomin\<rparr>
      | Timeout \<Rightarrow>
          let rto = seg_rto segment +
                (if k_nodelay kcp = 0 then k_rx_rto kcp else word_of_int (sint (k_rx_rto kcp) sdiv 2))
          in segment\<lparr>seg_xmit := seg_xmit segment + 1, seg_rto := rto, seg_resendts := current + rto\<rparr>
      | Skipped \<Rightarrow>
          segment\<lparr>seg_xmit := seg_xmit segment + 1, seg_fastack := 0,
                  seg_resendts := current + seg_rto segment\<rparr>
      | Quiet \<Rightarrow> segment)"

text \<open>The local state of the loop over \<open>snd_buf\<close>: the two fields of the control block it writes, the output
  buffer and the flags.\<close>

record flush_state =
  fs_xmit :: u32
  fs_state :: u32
  fs_out :: outbuf
  fs_change :: bool
  fs_lost :: bool

definition flush_segment :: "IKCPCB \<Rightarrow> u32 \<Rightarrow> u32 \<Rightarrow> u32 \<Rightarrow> IKCPSEG \<Rightarrow> flush_state \<Rightarrow> (IKCPSEG \<times> flush_state) option" where
  "flush_segment kcp wnd resent rtomin segment fs =
     (let current = k_current kcp;
          why = why_send current resent segment;
          segment = mark_segment kcp current rtomin why segment
      in if why = Quiet then Some (segment, fs)
         else
           let segment = segment\<lparr>seg_ts := current, seg_wnd := wnd, seg_una := k_rcv_nxt kcp\<rparr>
           in map_option (\<lambda>out.
                (segment,
                 \<lparr>fs_xmit = (if why = Timeout then fs_xmit fs + 1 else fs_xmit fs),
                  fs_state = (if seg_xmit segment \<ge> k_dead_link kcp then -1 else fs_state fs),
                  fs_out = out,
                  fs_change = (fs_change fs \<or> why = Skipped),
                  fs_lost = (fs_lost fs \<or> why = Timeout)\<rparr>))
                (put_data kcp segment (fs_out fs)))"

fun flush_data :: "IKCPCB \<Rightarrow> u32 \<Rightarrow> u32 \<Rightarrow> u32 \<Rightarrow> IKCPSEG list \<Rightarrow> flush_state \<Rightarrow> (IKCPSEG list \<times> flush_state) option" where
  "flush_data kcp wnd resent rtomin [] fs = Some ([], fs)"
| "flush_data kcp wnd resent rtomin (segment # buf) fs =
     (case flush_segment kcp wnd resent rtomin segment fs of
        None \<Rightarrow> None
      | Some (segment, fs) \<Rightarrow>
          map_option (\<lambda>(buf, fs). (segment # buf, fs)) (flush_data kcp wnd resent rtomin buf fs))"

text \<open>Update \<open>ssthresh\<close> and the congestion window.\<close>

definition flush_cwnd :: "bool \<Rightarrow> bool \<Rightarrow> u32 \<Rightarrow> u32 \<Rightarrow> IKCPCB \<Rightarrow> IKCPCB" where
  "flush_cwnd change lost resent cwnd kcp =
     (let kcp = (if change
                 then
                   let ssthresh = (k_snd_nxt kcp - k_snd_una kcp) div 2;
                       ssthresh = (if ssthresh < IKCP_THRESH_MIN then IKCP_THRESH_MIN else ssthresh)
                   in kcp\<lparr>k_ssthresh := ssthresh, k_cwnd := ssthresh + resent,
                          k_incr := (ssthresh + resent) * k_mss kcp\<rparr>
                 else kcp);
          kcp = (if lost
                 then
                   let ssthresh = cwnd div 2
                   in kcp\<lparr>k_ssthresh := (if ssthresh < IKCP_THRESH_MIN then IKCP_THRESH_MIN else ssthresh),
                          k_cwnd := 1, k_incr := k_mss kcp\<rparr>
                 else kcp)
      in if k_cwnd kcp < 1 then kcp\<lparr>k_cwnd := 1, k_incr := k_mss kcp\<rparr> else kcp)"

text \<open>The control segment on the stack of \<open>ikcp_flush\<close>.\<close>

definition control_segment :: "IKCPCB \<Rightarrow> IKCPSEG" where
  "control_segment kcp =
     (ikcp_segment_new 0)\<lparr>seg_conv := k_conv kcp, seg_cmd := IKCP_CMD_ACK, seg_frg := 0,
        seg_wnd := ikcp_wnd_unused kcp, seg_una := k_rcv_nxt kcp, seg_len := 0, seg_sn := 0, seg_ts := 0\<rparr>"

definition flush_resent :: "IKCPCB \<Rightarrow> u32" where
  "flush_resent kcp = (if sint (k_fastresend kcp) > 0 then k_fastresend kcp else 0xffffffff)"

definition flush_rtomin :: "IKCPCB \<Rightarrow> u32" where
  "flush_rtomin kcp = (if k_nodelay kcp = 0 then signed_drop_bit 3 (k_rx_rto kcp) else 0)"

text \<open>The second half of \<open>ikcp_flush\<close>, from the window calculation on.\<close>

definition flush_segments :: "IKCPCB \<Rightarrow> u32 \<Rightarrow> outbuf \<Rightarrow> (IKCPCB \<times> bytes list) option" where
  "flush_segments kcp wnd out = do {
     let cwnd = flush_window kcp;
     let kcp = move_snd cwnd wnd kcp;
     let resent = flush_resent kcp;
     (buf, fs) \<leftarrow> flush_data kcp wnd resent (flush_rtomin kcp) (k_snd_buf kcp)
       \<lparr>fs_xmit = k_xmit kcp, fs_state = k_state kcp, fs_out = out, fs_change = False, fs_lost = False\<rparr>;
     (ptr, sent) \<leftarrow> (if length (fst (fs_out fs)) > 0 then output_all kcp (fs_out fs) else Some (fs_out fs));
     let kcp = kcp\<lparr>k_snd_buf := buf, k_xmit := fs_xmit fs, k_state := fs_state fs\<rparr>;
     Some (flush_cwnd (fs_change fs) (fs_lost fs) resent cwnd kcp, sent)
   }"

definition ikcp_flush :: "IKCPCB \<Rightarrow> (IKCPCB \<times> bytes list) option" where
  "ikcp_flush kcp =
     (if k_updated kcp = 0 then Some (kcp, [])
      else do {
        let seg = control_segment kcp;
        (seg, out) \<leftarrow> flush_acks kcp (nat (sint (k_ackcount kcp))) 0 seg ([], []);
        let kcp = probe_window (kcp\<lparr>k_ackcount := 0\<rparr>);
        out \<leftarrow> flush_probes kcp seg out;
        flush_segments (kcp\<lparr>k_probe := 0\<rparr>) (seg_wnd seg) out
      })"

text \<open>\<open>ikcp_update\<close>: the clock of the protocol.\<close>

definition ikcp_update :: "IKCPCB \<Rightarrow> u32 \<Rightarrow> (IKCPCB \<times> bytes list) option" where
  "ikcp_update kcp current =
     (let kcp = kcp\<lparr>k_current := current\<rparr>;
          kcp = (if k_updated kcp = 0 then kcp\<lparr>k_updated := 1, k_ts_flush := k_current kcp\<rparr> else kcp);
          slap = itimediff (k_current kcp) (k_ts_flush kcp);
          (kcp, slap) = (if slap \<ge> 10000 \<or> slap < -10000
                         then (kcp\<lparr>k_ts_flush := k_current kcp\<rparr>, 0) else (kcp, slap))
      in if slap \<ge> 0
         then
           let kcp = kcp\<lparr>k_ts_flush := k_ts_flush kcp + k_interval kcp\<rparr>;
               kcp = (if itimediff (k_current kcp) (k_ts_flush kcp) \<ge> 0
                      then kcp\<lparr>k_ts_flush := k_current kcp + k_interval kcp\<rparr> else kcp)
           in ikcp_flush kcp
         else Some (kcp, []))"

text \<open>The loop of \<open>ikcp_check\<close>: \<open>None\<close> is the early \<open>return current\<close>.\<close>

fun check_segments :: "u32 \<Rightarrow> IKCPSEG list \<Rightarrow> int \<Rightarrow> int option" where
  "check_segments current [] tm_packet = Some tm_packet"
| "check_segments current (seg # buf) tm_packet =
     (let diff = itimediff (seg_resendts seg) current
      in if diff \<le> 0 then None
         else check_segments current buf (if diff < tm_packet then diff else tm_packet))"

definition ikcp_check :: "IKCPCB \<Rightarrow> u32 \<Rightarrow> u32" where
  "ikcp_check kcp current =
     (if k_updated kcp = 0 then current
      else
        let ts_flush = (if itimediff current (k_ts_flush kcp) \<ge> 10000 \<or> itimediff current (k_ts_flush kcp) < -10000
                        then current else k_ts_flush kcp)
        in if itimediff current ts_flush \<ge> 0 then current
           else
             let tm_flush = itimediff ts_flush current
             in case check_segments current (k_snd_buf kcp) 0x7fffffff of
                  None \<Rightarrow> current
                | Some tm_packet \<Rightarrow>
                    let minimal = word_of_int (if tm_packet < tm_flush then tm_packet else tm_flush);
                        minimal = (if minimal \<ge> k_interval kcp then k_interval kcp else minimal)
                    in current + minimal)"

section \<open>What is written\<close>

definition seg_header :: "IKCPSEG \<Rightarrow> kcp_header" where
  "seg_header seg =
     \<lparr>h_conv = seg_conv seg, h_cmd = ucast (seg_cmd seg), h_frg = ucast (seg_frg seg), h_wnd = ucast (seg_wnd seg),
      h_ts = seg_ts seg, h_sn = seg_sn seg, h_una = seg_una seg, h_len = seg_len seg\<rparr>"

lemma encode_seg_eq: "ikcp_encode_seg ptr seg = ptr @ header_bytes (seg_header seg)"
  by (simp add: ikcp_encode_seg_def header_bytes_def seg_header_def ikcp_encode8u_def encode16u_host encode32u_host Let_def)

text \<open>A datagram is a run of headers, each with its data.\<close>

type_synonym wire_seg = "kcp_header \<times> bytes"

definition segs_bytes :: "wire_seg list \<Rightarrow> bytes" where
  "segs_bytes hs = concat (map (\<lambda>(h, p). header_bytes h @ p) hs)"

definition made_of :: "(wire_seg \<Rightarrow> bool) \<Rightarrow> bytes \<Rightarrow> bool" where
  "made_of Q d \<longleftrightarrow> (\<exists>hs. d = segs_bytes hs \<and> (\<forall>x \<in> set hs. Q x))"

lemma made_of_Nil [simp]: "made_of Q []"
  by (auto simp: made_of_def segs_bytes_def intro: exI [of _ "[]"])

lemma made_of_snoc: "made_of Q d \<Longrightarrow> Q (h, p) \<Longrightarrow> made_of Q (d @ header_bytes h @ p)"
  unfolding made_of_def segs_bytes_def
  by (elim exE conjE, rule_tac x = "hs @ [(h, p)]" in exI) auto

text \<open>The invariant of the output buffer: it never holds more than \<open>mtu\<close> bytes, and what it holds and what
  has been sent are runs of segments with property \<open>Q\<close>.\<close>

definition out_ok :: "(wire_seg \<Rightarrow> bool) \<Rightarrow> IKCPCB \<Rightarrow> outbuf \<Rightarrow> bool" where
  "out_ok Q kcp out \<longleftrightarrow>
     length (fst out) \<le> unat (k_mtu kcp) \<and> made_of Q (fst out) \<and>
     (\<forall>d \<in> set (snd out). 0 < length d \<and> length d \<le> unat (k_mtu kcp) \<and> made_of Q d)"

lemma output_all_ok:
  assumes "k_output kcp" "out_ok Q kcp out"
  obtains sent where "output_all kcp out = Some ([], sent)" "out_ok Q kcp ([], sent)"
  using assms that by (cases "fst out = []") (auto simp: output_all_def ikcp_output_def out_ok_def)

lemma buffer_room: "cfg_wf kcp \<Longrightarrow> n \<le> unat (k_mtu kcp) \<Longrightarrow> n \<le> k_buffer kcp"
  by (simp add: cfg_wf_def)

lemma put_control_ok:
  assumes "cfg_wf kcp" "k_output kcp" "out_ok Q kcp out" "Q (seg_header seg, [])"
  shows "\<exists>out'. put_control kcp seg out = Some out' \<and> out_ok Q kcp out'"
proof -
  let ?n = "length (fst out)" and ?mtu = "unat (k_mtu kcp)"
  have mtu: "50 \<le> ?mtu" "?mtu \<le> 1073741823" using assms(1) by (simp_all add: cfg_wf_def)
  have n: "?n \<le> ?mtu" using assms(3) by (simp add: out_ok_def)
  have "(of_nat ?n :: u32) + IKCP_OVERHEAD = of_nat (?n + 24)" by (simp add: IKCP_OVERHEAD_def)
  then have full: "(of_nat ?n :: u32) + IKCP_OVERHEAD > k_mtu kcp \<longleftrightarrow> ?mtu < ?n + 24"
    using n mtu by (simp only: word_less_nat_alt unat32_of_nat_small)
  have snoc: "out_ok Q kcp (ptr @ header_bytes (seg_header seg), sent)"
    if "out_ok Q kcp (ptr, sent)" "length ptr + 24 \<le> ?mtu" for ptr sent
    using that made_of_snoc [of Q ptr "seg_header seg" "[]"] assms(4) by (simp add: out_ok_def)
  show ?thesis
  proof (cases "?mtu < ?n + 24")
    case True
    obtain sent where s: "output_all kcp out = Some ([], sent)" "out_ok Q kcp ([], sent)"
      by (rule output_all_ok [OF assms(2,3)])
    show ?thesis using True full s snoc [of "[]" sent] mtu buffer_room [OF assms(1), of 24]
      by (simp add: put_control_def Let_def checked_def encode_seg_eq)
  next
    case False
    then show ?thesis using full assms(3) snoc [of "fst out" "snd out"] buffer_room [OF assms(1), of "?n + 24"]
      by (cases out) (simp add: put_control_def Let_def checked_def encode_seg_eq)
  qed
qed

lemma put_data_ok:
  assumes "cfg_wf kcp" "k_output kcp" "out_ok Q kcp out" "Q (seg_header seg, seg_data seg)"
    and "seg_ok seg" "unat (seg_len seg) \<le> unat (k_mss kcp)"
  shows "\<exists>out'. put_data kcp seg out = Some out' \<and> out_ok Q kcp out'"
proof -
  let ?n = "length (fst out)" and ?mtu = "unat (k_mtu kcp)" and ?len = "unat (seg_len seg)"
  have mtu: "50 \<le> ?mtu" "?mtu \<le> 1073741823" using assms(1) by (simp_all add: cfg_wf_def)
  have len: "?len + 24 \<le> ?mtu" using mss_eq [OF assms(1)] mtu assms(6) by linarith
  have n: "?n \<le> ?mtu" using assms(3) by (simp add: out_ok_def)
  have data: "length (seg_data seg) = ?len" using assms(5) by (simp add: seg_ok_def)
  have "(of_nat ?n :: u32) + (IKCP_OVERHEAD + seg_len seg) = of_nat (?n + 24 + ?len)"
    by (simp add: IKCP_OVERHEAD_def)
  moreover have "sint (of_nat (?n + 24 + ?len) :: u32) = int (?n + 24 + ?len)"
    using n len mtu by (intro sint_of_nat32) linarith
  moreover have "sint (k_mtu kcp) = int ?mtu" using mtu by (intro sint32_small) linarith
  ultimately have full: "sint ((of_nat ?n :: u32) + (IKCP_OVERHEAD + seg_len seg)) > sint (k_mtu kcp) \<longleftrightarrow> ?mtu < ?n + 24 + ?len"
    by (simp only: of_nat_less_iff)
  have snoc: "out_ok Q kcp (ptr @ header_bytes (seg_header seg) @ seg_data seg, sent)"
    if "out_ok Q kcp (ptr, sent)" "length ptr + 24 + ?len \<le> ?mtu" for ptr sent
    using that made_of_snoc [of Q ptr "seg_header seg" "seg_data seg"] assms(4) data by (simp add: out_ok_def)
  have nodata: "seg_data seg = []" if "\<not> seg_len seg > 0"
    using that data by (simp add: word_less_nat_alt)
  have put: "\<exists>out'. do {
       out \<leftarrow> checked kcp (ikcp_encode_seg ptr seg, sent);
       (if seg_len seg > 0
        then if length (seg_data seg) < unat (seg_len seg) then None
             else checked kcp (fst out @ take (unat (seg_len seg)) (seg_data seg), sent)
        else Some out)} = Some out' \<and> out_ok Q kcp out'"
    if "out_ok Q kcp (ptr, sent)" "length ptr + 24 + ?len \<le> ?mtu" for ptr sent
    using snoc [OF that] that(2) buffer_room [OF assms(1), of "length ptr + 24"]
      buffer_room [OF assms(1), of "length ptr + 24 + ?len"] nodata data
    by (auto simp: checked_def encode_seg_eq)
  show ?thesis
  proof (cases "?mtu < ?n + 24 + ?len")
    case True
    obtain sent where s: "output_all kcp out = Some ([], sent)" "out_ok Q kcp ([], sent)"
      by (rule output_all_ok [OF assms(2,3)])
    show ?thesis using True full put [OF s(2)] len by (simp add: put_data_def Let_def s(1))
  next
    case False
    obtain ptr sent where out: "out = (ptr, sent)" by (cases out)
    show ?thesis using False full assms(3) put [of ptr sent] by (simp add: put_data_def Let_def out)
  qed
qed

section \<open>Acknowledgements and probes\<close>

lemma flush_acks_ok:
  assumes "cfg_wf kcp" "k_output kcp" "out_ok Q kcp out" "i + n \<le> length (k_acklist kcp)"
    and "\<And>j. i \<le> j \<Longrightarrow> j < i + n \<Longrightarrow>
      Q (seg_header (seg\<lparr>seg_sn := fst (k_acklist kcp ! j), seg_ts := snd (k_acklist kcp ! j)\<rparr>), [])"
  shows "\<exists>sn ts out'. flush_acks kcp n i seg out = Some (seg\<lparr>seg_sn := sn, seg_ts := ts\<rparr>, out') \<and> out_ok Q kcp out'"
  using assms(3-)
proof (induction n arbitrary: i seg out)
  case 0
  have "seg = seg\<lparr>seg_sn := seg_sn seg, seg_ts := seg_ts seg\<rparr>" by simp
  with 0 show ?case by (metis flush_acks.simps(1))
next
  case (Suc n)
  let ?seg = "seg\<lparr>seg_sn := fst (k_acklist kcp ! i), seg_ts := snd (k_acklist kcp ! i)\<rparr>"
  obtain out1 where o: "put_control kcp ?seg out = Some out1" "out_ok Q kcp out1"
    using put_control_ok [OF assms(1,2) Suc.prems(1), of ?seg] Suc.prems(3) [of i] by auto
  have "\<exists>sn ts out'. flush_acks kcp n (Suc i) ?seg out1 = Some (?seg\<lparr>seg_sn := sn, seg_ts := ts\<rparr>, out') \<and> out_ok Q kcp out'"
    by (rule Suc.IH [OF o(2)]) (use Suc.prems(2,3) in simp_all)
  then show ?case using o(1) Suc.prems(2) by (simp add: ikcp_ack_get_def case_prod_beta Let_def)
qed

lemma flush_probes_ok:
  assumes "cfg_wf kcp" "k_output kcp" "out_ok Q kcp out"
    and "Q (seg_header (seg\<lparr>seg_cmd := IKCP_CMD_WASK\<rparr>), [])" "Q (seg_header (seg\<lparr>seg_cmd := IKCP_CMD_WINS\<rparr>), [])"
  shows "\<exists>out'. flush_probes kcp seg out = Some out' \<and> out_ok Q kcp out'"
proof -
  have "\<exists>out'. (if k_probe kcp AND IKCP_ASK_SEND \<noteq> 0
      then put_control kcp (seg\<lparr>seg_cmd := IKCP_CMD_WASK\<rparr>) out else Some out) = Some out' \<and> out_ok Q kcp out'"
    using put_control_ok [OF assms(1-4)] assms(3) by (cases out) auto
  then obtain out1 where "(if k_probe kcp AND IKCP_ASK_SEND \<noteq> 0
      then put_control kcp (seg\<lparr>seg_cmd := IKCP_CMD_WASK\<rparr>) out else Some out) = Some out1" "out_ok Q kcp out1"
    by blast
  then show ?thesis using put_control_ok [OF assms(1,2) \<open>out_ok Q kcp out1\<close>, of "seg\<lparr>seg_cmd := IKCP_CMD_WINS\<rparr>"] assms(5)
    by (cases out1) (simp add: flush_probes_def)
qed

lemma probe_window_fields:
  obtains w t p where "probe_window kcp = kcp\<lparr>k_probe_wait := w, k_ts_probe := t, k_probe := p\<rparr>"
    "unat (k_probe_wait kcp) \<le> 120000 \<Longrightarrow> unat w \<le> 120000"
proof (cases "k_rmt_wnd kcp = 0 \<and> k_probe_wait kcp \<noteq> 0 \<and> \<not> 0 \<le> itimediff (k_current kcp) (k_ts_probe kcp)")
  case True
  then show thesis using that [where w = "k_probe_wait kcp" and t = "k_ts_probe kcp" and p = "k_probe kcp"] by (simp add: probe_window_def)
next
  case False
  have lim: "unat (next_probe_wait w) \<le> 120000" for w
    by (simp add: next_probe_wait_def Let_def IKCP_PROBE_LIMIT_def word_less_nat_alt)
  have ini: "unat IKCP_PROBE_INIT \<le> 120000" by (simp add: IKCP_PROBE_INIT_def)
  consider "k_rmt_wnd kcp \<noteq> 0" | "k_rmt_wnd kcp = 0" "k_probe_wait kcp = 0"
    | "k_rmt_wnd kcp = 0" "k_probe_wait kcp \<noteq> 0" "0 \<le> itimediff (k_current kcp) (k_ts_probe kcp)"
    using False by blast
  then show thesis
  proof cases
    case 1
    then show thesis using that [where w = 0 and t = 0 and p = "k_probe kcp"] by (simp add: probe_window_def)
  next
    case 2
    then show thesis using that [where w = IKCP_PROBE_INIT and t = "k_current kcp + IKCP_PROBE_INIT" and p = "k_probe kcp"] ini by (simp add: probe_window_def)
  next
    case 3
    let ?w = "next_probe_wait (k_probe_wait kcp)"
    from 3 show thesis
      using that [where w = ?w and t = "k_current kcp + ?w" and p = "k_probe kcp OR IKCP_ASK_SEND"] lim
      by (simp add: probe_window_def Let_def)
  qed
qed

section \<open>Moving segments into the send buffer\<close>

lemma inflight_step:
  assumes "unat (nxt - una :: u32) \<le> 65535" "unat cwnd \<le> 65535" "itimediff nxt (una + cwnd) < 0"
  shows "unat (nxt - una) < unat cwnd" and "unat (nxt + 1 - una) = unat (nxt - una) + 1"
proof -
  have "nxt - (una + cwnd) = (nxt - una) - cwnd" by simp
  then have "unat (nxt - (una + cwnd)) = (if unat cwnd \<le> unat (nxt - una) then unat (nxt - una) - unat cwnd
      else unat (nxt - una) + 4294967296 - unat cwnd)" by (metis unat32_sub)
  then show "unat (nxt - una) < unat cwnd" using assms by (simp add: itimediff_neg split: if_splits)
  have "nxt + 1 - una = (nxt - una) + 1" by simp
  then show "unat (nxt + 1 - una) = unat (nxt - una) + 1"
    using unat32_add_small [of "nxt - una" 1] assms(1) by (simp only:) simp
qed

lemma fresh_segment_simps [simp]:
  "seg_sn (fresh_segment kcp wnd seg) = k_snd_nxt kcp" "seg_data (fresh_segment kcp wnd seg) = seg_data seg"
  "seg_len (fresh_segment kcp wnd seg) = seg_len seg" "seg_frg (fresh_segment kcp wnd seg) = seg_frg seg"
  "seg_conv (fresh_segment kcp wnd seg) = k_conv kcp" "seg_cmd (fresh_segment kcp wnd seg) = IKCP_CMD_PUSH"
  "seg_xmit (fresh_segment kcp wnd seg) = 0"
  by (simp_all add: fresh_segment_def)

lemma move_one_wf:
  assumes "snd_wf (kcp\<lparr>k_snd_queue := newseg # queue\<rparr>)" "unat cwnd \<le> 65535"
    and "itimediff (k_snd_nxt kcp) (k_snd_una kcp + cwnd) < 0"
  shows "snd_wf (kcp\<lparr>k_snd_buf := k_snd_buf kcp @ [fresh_segment kcp wnd newseg],
      k_nsnd_que := k_nsnd_que kcp - 1, k_nsnd_buf := k_nsnd_buf kcp + 1, k_snd_nxt := k_snd_nxt kcp + 1,
      k_snd_queue := queue\<rparr>)" (is "snd_wf ?k")
proof -
  have core: "snd_core (kcp\<lparr>k_snd_queue := newseg # queue\<rparr>)" and una: "k_snd_una kcp = first_unacked kcp"
    using assms(1) by (auto simp: snd_wf_def first_unacked_def split: list.splits)
  let ?d = "unat (k_snd_nxt kcp - k_snd_una kcp)"
  have d: "?d \<le> 65535" using core by (simp add: snd_core_def)
  note st = inflight_step [OF d assms(2,3)]
  have off: "sn_off (k_snd_una kcp) (fresh_segment kcp wnd newseg) = ?d" by (simp add: sn_off_def)
  have lt: "\<forall>seg \<in> set (k_snd_buf kcp). sn_off (k_snd_una kcp) seg < ?d" using core by (simp add: snd_core_def)
  have "sn_sorted (k_snd_una kcp) (k_snd_buf kcp @ [fresh_segment kcp wnd newseg])"
    using core lt off d by (simp add: snd_core_def sn_sorted_append sn_sorted_Cons)
  moreover have "snd_seg_ok (k_conv kcp) (fresh_segment kcp wnd newseg)"
    using core by (simp add: snd_core_def snd_seg_ok_def seg_ok_def)
  ultimately have "snd_core ?k" using core st assms(2) lt off by (auto simp: snd_core_def less_SucI)
  moreover have "k_snd_una ?k = first_unacked ?k"
    using una by (auto simp: first_unacked_def split: list.splits)
  ultimately show ?thesis by (simp add: snd_wf_def)
qed

lemma move_snd_wf:
  "snd_wf (kcp\<lparr>k_snd_queue := queue\<rparr>) \<Longrightarrow> unat cwnd \<le> 65535 \<Longrightarrow> snd_wf (move_snd_from queue cwnd wnd kcp)"
proof (induction queue arbitrary: kcp)
  case (Cons newseg queue)
  then show ?case using move_one_wf [OF Cons.prems] by simp
qed simp

lemma move_snd_frame [kcp_frame]:
  "rcv_wf (move_snd_from queue cwnd wnd kcp) = rcv_wf kcp" "ack_wf (move_snd_from queue cwnd wnd kcp) = ack_wf kcp"
  "cfg_wf (move_snd_from queue cwnd wnd kcp) = cfg_wf kcp"
  by (induction queue arbitrary: kcp) (simp_all add: kcp_frame)

lemma move_snd_fit:
  "segs_fit (kcp\<lparr>k_snd_queue := queue\<rparr>) \<Longrightarrow> segs_fit (move_snd_from queue cwnd wnd kcp)"
proof (induction queue arbitrary: kcp)
  case (Cons newseg queue)
  let ?k = "kcp\<lparr>k_snd_buf := k_snd_buf kcp @ [fresh_segment kcp wnd newseg], k_nsnd_que := k_nsnd_que kcp - 1,
      k_nsnd_buf := k_nsnd_buf kcp + 1, k_snd_nxt := k_snd_nxt kcp + 1\<rparr>"
  have "segs_fit (?k\<lparr>k_snd_queue := queue\<rparr>)" using Cons.prems by (simp add: segs_fit_def)
  then show ?case using Cons.IH [of ?k] Cons.prems by simp
qed simp

lemma move_snd_fields [simp]:
  "k_output (move_snd_from queue cwnd wnd kcp) = k_output kcp" "k_mtu (move_snd_from queue cwnd wnd kcp) = k_mtu kcp"
  "k_conv (move_snd_from queue cwnd wnd kcp) = k_conv kcp" "k_rcv_nxt (move_snd_from queue cwnd wnd kcp) = k_rcv_nxt kcp"
  "k_current (move_snd_from queue cwnd wnd kcp) = k_current kcp" "k_mss (move_snd_from queue cwnd wnd kcp) = k_mss kcp"
  "k_snd_una (move_snd_from queue cwnd wnd kcp) = k_snd_una kcp"
  by (induction queue arbitrary: kcp) simp_all

text \<open>The number of segments in flight grows up to the window and no further.\<close>

lemma move_snd_window:
  assumes "unat (k_snd_nxt kcp - k_snd_una kcp) \<le> 65535" "unat cwnd \<le> 65535"
  shows "unat (k_snd_nxt (move_snd_from queue cwnd wnd kcp) - k_snd_una kcp) \<le> max (unat (k_snd_nxt kcp - k_snd_una kcp)) (unat cwnd)"
  using assms
proof (induction queue arbitrary: kcp)
  case (Cons newseg queue)
  let ?k = "kcp\<lparr>k_snd_buf := k_snd_buf kcp @ [fresh_segment kcp wnd newseg], k_nsnd_que := k_nsnd_que kcp - 1,
      k_nsnd_buf := k_nsnd_buf kcp + 1, k_snd_nxt := k_snd_nxt kcp + 1\<rparr>"
  show ?case
  proof (cases "itimediff (k_snd_nxt kcp) (k_snd_una kcp + cwnd) < 0")
    case True
    note st = inflight_step [OF Cons.prems(1) assms(2) True]
    then show ?thesis using Cons.IH [of ?k] True assms(2) by simp
  qed simp
qed simp

section \<open>Data segments\<close>

text \<open>Sending leaves the number, the data and the header fields of the receiver's side alone.\<close>

definition same_seg :: "IKCPSEG \<Rightarrow> IKCPSEG \<Rightarrow> bool" where
  "same_seg s t \<longleftrightarrow> seg_sn s = seg_sn t \<and> seg_len s = seg_len t \<and> seg_data s = seg_data t \<and>
     seg_frg s = seg_frg t \<and> seg_conv s = seg_conv t \<and> seg_cmd s = seg_cmd t"

lemma same_seg_refl [simp]: "same_seg s s"
  by (simp add: same_seg_def)

lemma mark_same [simp]: "same_seg s (mark_segment kcp current rtomin why s)"
  by (simp add: mark_segment_def same_seg_def Let_def split: need_send.split)

lemma flush_segment_ok:
  assumes "cfg_wf kcp" "k_output kcp" "out_ok Q kcp (fs_out fs)" "seg_ok s" "unat (seg_len s) \<le> unat (k_mss kcp)"
    and Q: "\<And>t. same_seg s t \<Longrightarrow> seg_una t = k_rcv_nxt kcp \<Longrightarrow> seg_wnd t = wnd \<Longrightarrow> Q (seg_header t, seg_data s)"
  shows "\<exists>t fs'. flush_segment kcp wnd resent rtomin s fs = Some (t, fs') \<and> same_seg s t \<and> out_ok Q kcp (fs_out fs')"
proof (cases "why_send (k_current kcp) resent s = Quiet")
  case True
  then show ?thesis using assms(3) by (simp add: flush_segment_def Let_def)
next
  case False
  define t where "t = (mark_segment kcp (k_current kcp) rtomin (why_send (k_current kcp) resent s) s)
      \<lparr>seg_ts := k_current kcp, seg_wnd := wnd, seg_una := k_rcv_nxt kcp\<rparr>"
  have t: "same_seg s t" "seg_una t = k_rcv_nxt kcp" "seg_wnd t = wnd"
    using mark_same unfolding t_def same_seg_def by simp_all
  then have "seg_ok t" "unat (seg_len t) \<le> unat (k_mss kcp)" "Q (seg_header t, seg_data t)"
    using assms(4,5) Q [OF t] by (simp_all add: same_seg_def seg_ok_def)
  then obtain out' where "put_data kcp t (fs_out fs) = Some out'" "out_ok Q kcp out'"
    using put_data_ok [OF assms(1-3)] by blast
  then show ?thesis using False t(1) by (simp add: flush_segment_def Let_def t_def)
qed

lemma flush_data_ok:
  assumes "cfg_wf kcp" "k_output kcp" "out_ok Q kcp (fs_out fs)"
    and "\<forall>s \<in> set buf. seg_ok s \<and> unat (seg_len s) \<le> unat (k_mss kcp)"
    and "\<And>s t. s \<in> set buf \<Longrightarrow> same_seg s t \<Longrightarrow> seg_una t = k_rcv_nxt kcp \<Longrightarrow> seg_wnd t = wnd \<Longrightarrow> Q (seg_header t, seg_data s)"
  shows "\<exists>buf' fs'. flush_data kcp wnd resent rtomin buf fs = Some (buf', fs') \<and> list_all2 same_seg buf buf' \<and>
           out_ok Q kcp (fs_out fs')"
  using assms(3-)
proof (induction buf arbitrary: fs)
  case (Cons s buf)
  obtain t fs1 where 1: "flush_segment kcp wnd resent rtomin s fs = Some (t, fs1)" "same_seg s t" "out_ok Q kcp (fs_out fs1)"
    using flush_segment_ok [OF assms(1,2) Cons.prems(1), of s wnd] Cons.prems(2) Cons.prems(3) [of s]
    by (metis list.set_intros(1))
  obtain buf' fs2 where 2: "flush_data kcp wnd resent rtomin buf fs1 = Some (buf', fs2)" "list_all2 same_seg buf buf'"
    "out_ok Q kcp (fs_out fs2)"
    using Cons.IH [OF 1(3)] Cons.prems(2,3) by fastforce
  show ?case using 1 2 by simp
qed simp

lemma same_seg_view: "same_seg s t \<Longrightarrow> sn_off b t = sn_off b s \<and> snd_seg_ok c t = snd_seg_ok c s"
  by (simp add: same_seg_def sn_off_def snd_seg_ok_def seg_ok_def)

lemma same_segs_wf:
  assumes "snd_wf kcp" "list_all2 same_seg (k_snd_buf kcp) buf"
  shows "snd_wf (kcp\<lparr>k_snd_buf := buf\<rparr>)"
proof -
  have core: "snd_core kcp" and una: "k_snd_una kcp = first_unacked kcp" using assms(1) by (simp_all add: snd_wf_def)
  have offs: "list_all2 (\<lambda>s t. sn_off b s = sn_off b t) (k_snd_buf kcp) buf" for b
    using assms(2) by (rule list_all2_mono) (simp add: same_seg_def sn_off_def)
  then have map: "map (sn_off b) buf = map (sn_off b) (k_snd_buf kcp)" for b
    by (simp add: list_all2_conv_all_nth list_eq_iff_nth_eq)
  have "\<forall>t \<in> set buf. \<exists>s \<in> set (k_snd_buf kcp). same_seg s t"
    using list_all2_right [OF assms(2)] by blast
  then have sub: "\<forall>t \<in> set buf. \<exists>s \<in> set (k_snd_buf kcp). sn_off (k_snd_una kcp) t = sn_off (k_snd_una kcp) s \<and>
      snd_seg_ok (k_conv kcp) t = snd_seg_ok (k_conv kcp) s"
    using same_seg_view by blast
  have srt: "sn_sorted (k_snd_una kcp) buf"
  proof -
    have "\<forall>seg \<in> set buf. sn_off (k_snd_una kcp) seg < 2147483648"
      using core sub unfolding snd_core_def sn_sorted_def by metis
    then show ?thesis using core by (simp add: snd_core_def sn_sorted_def map)
  qed
  have len: "k_nsnd_buf kcp = of_nat (length buf)" using core list_all2_lengthD [OF assms(2)] by (simp add: snd_core_def)
  have "snd_core (kcp\<lparr>k_snd_buf := buf\<rparr>)" using snd_core_buf [OF core srt len sub] by simp
  moreover have "first_unacked (kcp\<lparr>k_snd_buf := buf\<rparr>) = first_unacked kcp"
    using assms(2) by (cases "k_snd_buf kcp"; cases buf) (auto simp: first_unacked_def same_seg_def)
  ultimately show ?thesis using una by (simp add: snd_wf_def)
qed

lemma same_segs_fit:
  assumes "segs_fit kcp" "list_all2 same_seg (k_snd_buf kcp) buf"
  shows "segs_fit (kcp\<lparr>k_snd_buf := buf\<rparr>)"
proof -
  have "\<forall>t \<in> set buf. \<exists>s \<in> set (k_snd_buf kcp). seg_len t = seg_len s"
    using list_all2_right [OF assms(2)] unfolding same_seg_def by metis
  then show ?thesis using assms(1) by (fastforce simp: segs_fit_def)
qed

lemma flush_cwnd_frame [kcp_frame]:
  "rcv_wf (flush_cwnd change lost resent cwnd kcp) = rcv_wf kcp"
  "snd_wf (flush_cwnd change lost resent cwnd kcp) = snd_wf kcp"
  "ack_wf (flush_cwnd change lost resent cwnd kcp) = ack_wf kcp"
  "segs_fit (flush_cwnd change lost resent cwnd kcp) = segs_fit kcp"
  by (simp_all add: flush_cwnd_def Let_def kcp_frame)

lemma flush_cwnd_cfg: "cfg_wf kcp \<Longrightarrow> cfg_wf (flush_cwnd change lost resent cwnd kcp)"
proof -
  have min: "2 \<le> unat (if w < IKCP_THRESH_MIN then IKCP_THRESH_MIN else w)" for w
    by (simp add: IKCP_THRESH_MIN_def word_less_nat_alt)
  have "cfg_wf (k\<lparr>k_ssthresh := (if w < IKCP_THRESH_MIN then IKCP_THRESH_MIN else w), k_cwnd := c, k_incr := n\<rparr>)"
    if "cfg_wf k" for w c n k using that min [of w] by (simp add: cfg_wf_def)
  then show "cfg_wf kcp \<Longrightarrow> cfg_wf (flush_cwnd change lost resent cwnd kcp)"
    by (simp add: flush_cwnd_def Let_def kcp_frame)
qed

section \<open>The whole flush\<close>

text \<open>What a segment on the wire may be, for a flush of \<open>kcp\<close> that leaves \<open>buf\<close> in \<open>snd_buf\<close>.\<close>

definition sent_ok :: "IKCPCB \<Rightarrow> IKCPSEG list \<Rightarrow> wire_seg \<Rightarrow> bool" where
  "sent_ok kcp buf x \<longleftrightarrow>
     (case x of (h, p) \<Rightarrow>
        h_conv h = k_conv kcp \<and> h_una h = k_rcv_nxt kcp \<and> h_wnd h = ucast (ikcp_wnd_unused kcp) \<and>
        length p = unat (h_len h) \<and>
        (h_cmd h = 82 \<and> p = [] \<and> (h_sn h, h_ts h) \<in> set (pending_acks kcp) \<or>
         (h_cmd h = 83 \<or> h_cmd h = 84) \<and> p = [] \<or>
         h_cmd h = 81 \<and> (\<exists>seg \<in> set buf. h_sn h = seg_sn seg \<and> h_frg h = ucast (seg_frg seg) \<and> p = seg_data seg)))"

lemma cmd_bytes [simp]: "(ucast IKCP_CMD_PUSH :: byte) = 81" "(ucast IKCP_CMD_ACK :: byte) = 82"
  "(ucast IKCP_CMD_WASK :: byte) = 83" "(ucast IKCP_CMD_WINS :: byte) = 84"
  by (simp_all add: kcp_consts)

lemma flush_window_le: "unat (k_rmt_wnd kcp) \<le> 65535 \<Longrightarrow> unat (flush_window kcp) \<le> 65535"
  by (auto simp: flush_window_def imin_def Let_def word_le_nat_alt)

lemma flush_segments_ok:
  assumes wf: "kcp_wf kcp" and o: "k_output kcp" "out_ok Q kcp out"
    and Q: "\<And>s t. s \<in> set (k_snd_buf (move_snd (flush_window kcp) wnd kcp)) \<Longrightarrow> same_seg s t \<Longrightarrow>
      seg_una t = k_rcv_nxt kcp \<Longrightarrow> seg_wnd t = wnd \<Longrightarrow> Q (seg_header t, seg_data s)"
  shows "\<exists>kcp' sent. flush_segments kcp wnd out = Some (kcp', sent) \<and> kcp_wf kcp' \<and> k_cwnd kcp' \<ge> 1 \<and>
     list_all2 same_seg (k_snd_buf (move_snd (flush_window kcp) wnd kcp)) (k_snd_buf kcp') \<and>
     k_snd_nxt kcp' = k_snd_nxt (move_snd (flush_window kcp) wnd kcp) \<and> k_snd_una kcp' = k_snd_una kcp \<and>
     (\<forall>d \<in> set sent. 0 < length d \<and> length d \<le> unat (k_mtu kcp) \<and> made_of Q d)"
proof -
  define cwnd where "cwnd = flush_window kcp"
  define k where "k = move_snd cwnd wnd kcp"
  have parts: "rcv_wf kcp" "snd_wf kcp" "ack_wf kcp" "cfg_wf kcp" "segs_fit kcp" using wf by (simp_all add: kcp_wf_def)
  have "unat cwnd \<le> 65535" using parts(2) flush_window_le by (simp add: cwnd_def snd_wf_def snd_core_def)
  then have k: "rcv_wf k" "snd_wf k" "ack_wf k" "cfg_wf k" "segs_fit k"
    using parts move_snd_wf [where queue = "k_snd_queue kcp" and kcp = kcp] move_snd_fit [where queue = "k_snd_queue kcp" and kcp = kcp]
    by (simp_all add: k_def move_snd_def kcp_frame)
  have eqs: "k_output k" "out_ok Q k out" "k_rcv_nxt k = k_rcv_nxt kcp" "k_mtu k = k_mtu kcp" "k_snd_una k = k_snd_una kcp"
    using o by (simp_all add: k_def move_snd_def out_ok_def)
  have segs: "\<forall>s \<in> set (k_snd_buf k). seg_ok s \<and> unat (seg_len s) \<le> unat (k_mss k)"
    using k(2,5) by (auto simp: snd_wf_def snd_core_def snd_seg_ok_def segs_fit_def)
  let ?fs = "\<lparr>fs_xmit = k_xmit k, fs_state = k_state k, fs_out = out, fs_change = False, fs_lost = False\<rparr>"
  obtain buf fs where fd: "flush_data k wnd (flush_resent k) (flush_rtomin k) (k_snd_buf k) ?fs = Some (buf, fs)"
    "list_all2 same_seg (k_snd_buf k) buf" "out_ok Q k (fs_out fs)"
    using flush_data_ok [OF k(4) eqs(1), of Q ?fs "k_snd_buf k" wnd] eqs(2,3) segs Q unfolding k_def cwnd_def by force
  obtain ptr sent where fin: "(if length (fst (fs_out fs)) > 0 then output_all k (fs_out fs) else Some (fs_out fs)) = Some (ptr, sent)"
    "out_ok Q k (ptr, sent)"
  proof (cases "length (fst (fs_out fs)) > 0")
    case True
    obtain sent where "output_all k (fs_out fs) = Some ([], sent)" "out_ok Q k ([], sent)"
      by (rule output_all_ok [OF eqs(1) fd(3)])
    then show thesis using that True by simp
  next
    case False
    obtain ptr sent where "fs_out fs = (ptr, sent)" by fastforce
    then show thesis using that [of ptr sent] False fd(3) by simp
  qed
  let ?k = "k\<lparr>k_snd_buf := buf, k_xmit := fs_xmit fs, k_state := fs_state fs\<rparr>"
  let ?r = "flush_cwnd (fs_change fs) (fs_lost fs) (flush_resent k) cwnd ?k"
  have run: "flush_segments kcp wnd out = Some (?r, sent)"
    using fd(1) fin(1) by (simp add: flush_segments_def Let_def split: if_splits flip: k_def cwnd_def)
  have "kcp_wf ?r"
    using k same_segs_wf [OF k(2) fd(2)] same_segs_fit [OF k(5) fd(2)] flush_cwnd_cfg
    by (simp add: kcp_wf_def kcp_frame)
  moreover have "k_cwnd ?r \<ge> 1" by (simp add: flush_cwnd_def Let_def word_le_nat_alt word_less_nat_alt)
  moreover have "k_snd_buf ?r = buf" "k_snd_nxt ?r = k_snd_nxt k" "k_snd_una ?r = k_snd_una k"
    by (simp_all add: flush_cwnd_def Let_def)
  moreover have "\<forall>d \<in> set sent. 0 < length d \<and> length d \<le> unat (k_mtu kcp) \<and> made_of Q d"
    using fin(2) eqs(4) by (simp add: out_ok_def)
  ultimately show ?thesis using run fd(2) eqs(5) unfolding k_def cwnd_def by auto
qed

lemma control_ok:
  assumes "seg = (control_segment kcp)\<lparr>seg_sn := sn, seg_ts := ts\<rparr>"
  shows "(sn, ts) \<in> set (pending_acks kcp) \<Longrightarrow> sent_ok kcp buf (seg_header seg, [])"
    and "sent_ok kcp buf (seg_header (seg\<lparr>seg_cmd := IKCP_CMD_WASK\<rparr>), [])"
    and "sent_ok kcp buf (seg_header (seg\<lparr>seg_cmd := IKCP_CMD_WINS\<rparr>), [])"
  by (simp_all add: assms sent_ok_def seg_header_def control_segment_def)

text \<open>The segments \<open>ikcp_flush\<close> has in \<open>snd_buf\<close> while it sends.\<close>

definition flushed :: "IKCPCB \<Rightarrow> IKCPCB" where
  "flushed kcp = move_snd (flush_window kcp) (ikcp_wnd_unused kcp) (probe_window (kcp\<lparr>k_ackcount := 0\<rparr>)\<lparr>k_probe := 0\<rparr>)"

lemma flushed_wf:
  assumes "kcp_wf kcp" shows "snd_wf (flushed kcp)" and "k_conv (flushed kcp) = k_conv kcp"
proof -
  obtain w t p where pw: "probe_window (kcp\<lparr>k_ackcount := 0\<rparr>) = kcp\<lparr>k_ackcount := 0, k_probe_wait := w, k_ts_probe := t, k_probe := p\<rparr>"
    by (rule probe_window_fields [of "kcp\<lparr>k_ackcount := 0\<rparr>"]) simp
  have "snd_wf kcp" using assms by (simp add: kcp_wf_def)
  then have "unat (flush_window kcp) \<le> 65535" by (intro flush_window_le) (simp add: snd_wf_def snd_core_def)
  then show "snd_wf (flushed kcp)"
    using \<open>snd_wf kcp\<close> unfolding flushed_def move_snd_def pw by (intro move_snd_wf) (simp_all add: kcp_frame)
  show "k_conv (flushed kcp) = k_conv kcp" unfolding flushed_def move_snd_def pw by simp
qed

lemma flush_ok:
  assumes wf: "kcp_wf kcp" and o: "k_output kcp" and u: "k_updated kcp \<noteq> 0"
  shows "\<exists>kcp' sent. ikcp_flush kcp = Some (kcp', sent) \<and> kcp_wf kcp' \<and> k_cwnd kcp' \<ge> 1 \<and>
     list_all2 same_seg (k_snd_buf (flushed kcp)) (k_snd_buf kcp') \<and>
     k_snd_nxt kcp' = k_snd_nxt (flushed kcp) \<and> k_snd_una kcp' = k_snd_una kcp \<and>
     (\<forall>d \<in> set sent. 0 < length d \<and> length d \<le> unat (k_mtu kcp) \<and>
        made_of (sent_ok kcp (k_snd_buf (flushed kcp))) d)"
proof -
  let ?buf = "k_snd_buf (flushed kcp)" and ?seg = "control_segment kcp"
  let ?Q = "sent_ok kcp ?buf"
  have parts: "rcv_wf kcp" "snd_wf kcp" "ack_wf kcp" "cfg_wf kcp" "segs_fit kcp" using wf by (simp_all add: kcp_wf_def)
  have n: "nat (sint (k_ackcount kcp)) = unat (k_ackcount kcp)"
    using parts(3) sint32_small [of "k_ackcount kcp"] by (simp add: ack_wf_def del: of_nat_unat)
  have len: "0 + unat (k_ackcount kcp) \<le> length (k_acklist kcp)" using parts(3) by (simp add: ack_wf_def)
  have acks: "?Q (seg_header (?seg\<lparr>seg_sn := fst (k_acklist kcp ! j), seg_ts := snd (k_acklist kcp ! j)\<rparr>), [])"
    if "j < 0 + unat (k_ackcount kcp)" for j
    by (rule control_ok(1) [OF refl]) (use that len in \<open>auto simp: pending_acks_def in_set_conv_nth intro: exI [of _ j]\<close>)
  have "out_ok ?Q kcp ([], [])" by (simp add: out_ok_def)
  then obtain sn ts out1 where fa: "flush_acks kcp (unat (k_ackcount kcp)) 0 ?seg ([], []) = Some (?seg\<lparr>seg_sn := sn, seg_ts := ts\<rparr>, out1)"
    "out_ok ?Q kcp out1"
    using flush_acks_ok [OF parts(4) o, of ?Q, OF _ len acks] by blast
  define k where "k = probe_window (kcp\<lparr>k_ackcount := 0\<rparr>)"
  obtain w t p where pw: "k = kcp\<lparr>k_ackcount := 0, k_probe_wait := w, k_ts_probe := t, k_probe := p\<rparr>" "unat w \<le> 120000"
    by (rule probe_window_fields [of "kcp\<lparr>k_ackcount := 0\<rparr>"]) (use parts(4) in \<open>simp add: k_def cfg_wf_def\<close>)
  have cfg: "cfg_wf k" using parts(4) pw by (simp add: cfg_wf_def)
  have "out_ok ?Q k out1" using fa(2) pw(1) by (simp add: out_ok_def)
  then obtain out2 where fp: "flush_probes k (?seg\<lparr>seg_sn := sn, seg_ts := ts\<rparr>) out1 = Some out2" "out_ok ?Q k out2"
    using flush_probes_ok [OF cfg, of ?Q, OF _ _ control_ok(2,3) [OF refl]] o pw(1) by fastforce
  have "ack_wf (kcp\<lparr>k_ackcount := 0\<rparr>)" using parts(3) by (simp add: ack_wf_def)
  then have wfk: "kcp_wf (k\<lparr>k_probe := 0\<rparr>)" using parts cfg pw(1) by (simp add: kcp_wf_def kcp_frame)
  have fl: "move_snd (flush_window (k\<lparr>k_probe := 0\<rparr>)) (ikcp_wnd_unused kcp) (k\<lparr>k_probe := 0\<rparr>) = flushed kcp"
    unfolding flushed_def k_def [symmetric] by (simp add: pw(1) flush_window_def Let_def)
  have "\<exists>kcp' sent. flush_segments (k\<lparr>k_probe := 0\<rparr>) (ikcp_wnd_unused kcp) out2 = Some (kcp', sent) \<and> kcp_wf kcp' \<and>
      k_cwnd kcp' \<ge> 1 \<and> list_all2 same_seg ?buf (k_snd_buf kcp') \<and> k_snd_nxt kcp' = k_snd_nxt (flushed kcp) \<and>
      k_snd_una kcp' = k_snd_una (k\<lparr>k_probe := 0\<rparr>) \<and>
      (\<forall>d \<in> set sent. 0 < length d \<and> length d \<le> unat (k_mtu (k\<lparr>k_probe := 0\<rparr>)) \<and> made_of ?Q d)"
  proof (rule flush_segments_ok [OF wfk, of ?Q out2 "ikcp_wnd_unused kcp", unfolded fl])
    fix s t assume s: "s \<in> set ?buf" "same_seg s t" "seg_una t = k_rcv_nxt (k\<lparr>k_probe := 0\<rparr>)" "seg_wnd t = ikcp_wnd_unused kcp"
    have "snd_wf (flushed kcp)" "k_conv (flushed kcp) = k_conv kcp" by (rule flushed_wf [OF wf])+
    then have "snd_seg_ok (k_conv kcp) s" using s(1) by (simp add: snd_wf_def snd_core_def)
    then show "?Q (seg_header t, seg_data s)"
      using s pw(1) by (auto simp: sent_ok_def seg_header_def same_seg_def snd_seg_ok_def seg_ok_def intro!: bexI [of _ s])
  qed (use o pw(1) fp(2) in \<open>simp_all add: out_ok_def\<close>)
  moreover have "ikcp_flush kcp = flush_segments (k\<lparr>k_probe := 0\<rparr>) (ikcp_wnd_unused kcp) out2"
    using u n fa(1) fp(1) by (simp add: ikcp_flush_def Let_def flip: k_def) (simp add: control_segment_def)
  ultimately show ?thesis using pw(1) by simp
qed

section \<open>Fields a flush leaves alone\<close>

lemma flush_elim:
  assumes "ikcp_flush kcp = Some (kcp', sent)" "k_updated kcp \<noteq> 0"
  obtains seg out1 out2 where
    "flush_acks kcp (nat (sint (k_ackcount kcp))) 0 (control_segment kcp) ([], []) = Some (seg, out1)"
    "flush_segments (probe_window (kcp\<lparr>k_ackcount := 0\<rparr>)\<lparr>k_probe := 0\<rparr>) (seg_wnd seg) out2 = Some (kcp', sent)"
  using assms that by (auto simp: ikcp_flush_def Let_def bind_eq_Some_conv)

definition flush_view :: "IKCPCB \<Rightarrow> u32 \<times> u32 \<times> u32 \<times> u32 \<times> u32 \<times> u32 \<times> u32 \<times> bool" where
  "flush_view kcp = (k_conv kcp, k_mtu kcp, k_current kcp, k_interval kcp, k_ts_flush kcp, k_updated kcp, k_snd_una kcp, k_output kcp)"

definition rcv_view :: "IKCPCB \<Rightarrow> u32 \<times> u32 \<times> IKCPSEG list \<times> IKCPSEG list \<times> u32 \<times> u32" where
  "rcv_view kcp = (k_rcv_nxt kcp, k_rcv_wnd kcp, k_rcv_queue kcp, k_rcv_buf kcp, k_nrcv_que kcp, k_nrcv_buf kcp)"

lemma move_snd_view [simp]:
  "flush_view (move_snd_from queue cwnd wnd kcp) = flush_view kcp" "rcv_view (move_snd_from queue cwnd wnd kcp) = rcv_view kcp"
  by (induction queue arbitrary: kcp) (simp_all add: flush_view_def rcv_view_def)

lemma flush_cwnd_view [simp]:
  "flush_view (flush_cwnd change lost resent cwnd kcp) = flush_view kcp"
  "rcv_view (flush_cwnd change lost resent cwnd kcp) = rcv_view kcp"
  by (simp_all add: flush_cwnd_def flush_view_def rcv_view_def Let_def)

lemma probe_window_view [simp]: "flush_view (probe_window kcp) = flush_view kcp" "rcv_view (probe_window kcp) = rcv_view kcp"
  by (simp_all add: probe_window_def flush_view_def rcv_view_def Let_def)

lemma flush_view_upd [simp]:
  "flush_view (kcp\<lparr>k_snd_buf := a\<rparr>) = flush_view kcp" "flush_view (kcp\<lparr>k_xmit := b\<rparr>) = flush_view kcp"
  "flush_view (kcp\<lparr>k_state := c\<rparr>) = flush_view kcp" "flush_view (kcp\<lparr>k_probe := d\<rparr>) = flush_view kcp"
  "flush_view (kcp\<lparr>k_ackcount := e\<rparr>) = flush_view kcp"
  "rcv_view (kcp\<lparr>k_snd_buf := a\<rparr>) = rcv_view kcp" "rcv_view (kcp\<lparr>k_xmit := b\<rparr>) = rcv_view kcp"
  "rcv_view (kcp\<lparr>k_state := c\<rparr>) = rcv_view kcp" "rcv_view (kcp\<lparr>k_probe := d\<rparr>) = rcv_view kcp"
  "rcv_view (kcp\<lparr>k_ackcount := e\<rparr>) = rcv_view kcp"
  by (simp_all add: flush_view_def rcv_view_def)

lemma flush_keeps_view:
  assumes "ikcp_flush kcp = Some (kcp', sent)"
  shows "flush_view kcp' = flush_view kcp" and "rcv_view kcp' = rcv_view kcp"
proof -
  have "flush_view k' = flush_view k \<and> rcv_view k' = rcv_view k" if "flush_segments k wnd out = Some (k', sent)" for k wnd out k' sent
    using that by (auto simp: flush_segments_def Let_def bind_eq_Some_conv move_snd_def)
  note fs = this
  have "flush_view kcp' = flush_view kcp \<and> rcv_view kcp' = rcv_view kcp"
  proof (cases "k_updated kcp = 0")
    case False
    show ?thesis
    proof (rule flush_elim [OF assms False])
      fix seg out2
      assume "flush_segments (probe_window (kcp\<lparr>k_ackcount := 0\<rparr>)\<lparr>k_probe := 0\<rparr>) (seg_wnd seg) out2 = Some (kcp', sent)"
      from fs [OF this] show ?thesis by simp
    qed
  qed (use assms in \<open>simp add: ikcp_flush_def\<close>)
  then show "flush_view kcp' = flush_view kcp" and "rcv_view kcp' = rcv_view kcp" by simp_all
qed

section \<open>The clock\<close>

text \<open>\<open>ikcp_update\<close> without its last step: the control block \<open>ikcp_flush\<close> is called on, and whether it is.\<close>

definition update_clock :: "IKCPCB \<Rightarrow> u32 \<Rightarrow> IKCPCB \<times> bool" where
  "update_clock kcp current =
     (let ts = (if k_updated kcp = 0 then current else k_ts_flush kcp);
          slap = itimediff current ts;
          far = (slap \<ge> 10000 \<or> slap < -10000);
          ts = (if far then current else ts);
          due = (far \<or> slap \<ge> 0);
          next = ts + k_interval kcp;
          next = (if itimediff current next \<ge> 0 then current + k_interval kcp else next)
      in (kcp\<lparr>k_current := current, k_updated := (if k_updated kcp = 0 then 1 else k_updated kcp),
              k_ts_flush := (if due then next else ts)\<rparr>, due))"

lemma update_eq:
  "ikcp_update kcp current =
     (case update_clock kcp current of (k, due) \<Rightarrow> if due then ikcp_flush k else Some (k, []))"
  by (cases "k_updated kcp = 0") (auto simp: ikcp_update_def update_clock_def Let_def itimediff_def)

lemma update_clock_wf: "kcp_wf kcp \<Longrightarrow> kcp_wf (fst (update_clock kcp current))"
  by (simp add: update_clock_def Let_def kcp_wf_def kcp_frame)

lemma update_clock_updated: "k_updated (fst (update_clock kcp current)) \<noteq> 0" 
  "k_output (fst (update_clock kcp current)) = k_output kcp" "k_mtu (fst (update_clock kcp current)) = k_mtu kcp"
  "k_current (fst (update_clock kcp current)) = current"
  by (simp_all add: update_clock_def Let_def)

lemma sint32_sub_small:
  assumes "0 \<le> sint (a :: u32)" "sint a < 10000" "0 \<le> sint b" "sint b \<le> 5000"
  shows "sint (a - b) = sint a - sint b"
  using assms by (intro sint32_sub) linarith+

lemma itimediff_add:
  assumes "0 \<le> itimediff current ts" "itimediff current ts < 10000" "unat i \<le> 5000"
  shows "itimediff current (ts + i) = itimediff current ts - int (unat i)"
proof -
  have i: "sint i = int (unat i)" using assms(3) by (intro sint32_small) simp
  have "sint ((current - ts) - i) = sint (current - ts) - sint i"
    by (rule sint32_sub_small) (use assms i in \<open>auto simp: itimediff_def simp del: of_nat_unat\<close>)
  then show ?thesis by (simp add: itimediff_def i diff_diff_eq del: of_nat_unat)
qed

lemma itimediff_swap: "-2147483648 < itimediff a b \<Longrightarrow> itimediff b a = - itimediff a b"
  using sint32_sub [of 0 "a - b"] sint_range32 [of "a - b"] by (simp add: itimediff_def)

lemma itimediff_plus: "unat i \<le> 5000 \<Longrightarrow> itimediff (t + i) t = int (unat i)"
  using sint32_small [of i] by (simp add: itimediff_def)

text \<open>After a call the next flush is between one millisecond and ten seconds away.\<close>

lemma update_clock_next:
  assumes "cfg_wf kcp"
  shows "0 < itimediff (k_ts_flush (fst (update_clock kcp current))) current \<and>
         itimediff (k_ts_flush (fst (update_clock kcp current))) current \<le> 10000"
proof -
  let ?i = "k_interval kcp"
  have i: "2 \<le> unat ?i" "unat ?i \<le> 5000" using assms by (simp_all add: cfg_wf_def)
  define ts0 where "ts0 = (if k_updated kcp = 0 then current else k_ts_flush kcp)"
  define far where "far = (itimediff current ts0 \<ge> 10000 \<or> itimediff current ts0 < -10000)"
  define ts where "ts = (if far then current else ts0)"
  have near: "-10000 \<le> itimediff current ts" "itimediff current ts < 10000" "far \<Longrightarrow> itimediff current ts = 0"
    by (auto simp: ts_def far_def itimediff_def)
  have due: "far \<or> itimediff current ts0 \<ge> 0 \<longleftrightarrow> itimediff current ts \<ge> 0"
    using near(3) by (auto simp: ts_def)
  have swap: "itimediff x current = - itimediff current x" if "-10000 \<le> itimediff current x" for x
    using that by (intro itimediff_swap) simp
  have res: "k_ts_flush (fst (update_clock kcp current)) =
      (if itimediff current ts \<ge> 0
       then if itimediff current (ts + ?i) \<ge> 0 then current + ?i else ts + ?i else ts)"
    unfolding due [symmetric] by (simp add: update_clock_def Let_def ts_def far_def flip: ts0_def)
  show ?thesis
  proof (cases "itimediff current ts \<ge> 0")
    case True
    note add = itimediff_add [OF True near(2) i(2)]
    show ?thesis unfolding res using True add swap [of "ts + ?i"] itimediff_plus [OF i(2), of current] i
      by (cases "itimediff current (ts + ?i) \<ge> 0") (simp_all del: of_nat_unat)
  next
    case False
    then show ?thesis unfolding res using swap [of ts] near by simp
  qed
qed

lemma update_ok:
  assumes "kcp_wf kcp" "k_output kcp"
  shows "\<exists>kcp' sent. ikcp_update kcp current = Some (kcp', sent) \<and> kcp_wf kcp' \<and>
     (\<forall>d \<in> set sent. 0 < length d \<and> length d \<le> unat (k_mtu kcp)) \<and>
     flush_view kcp' = flush_view (fst (update_clock kcp current)) \<and> rcv_view kcp' = rcv_view kcp"
proof -
  obtain k due where k: "update_clock kcp current = (k, due)" by fastforce
  have wf: "kcp_wf k" "k_output k" "k_updated k \<noteq> 0" "k_mtu k = k_mtu kcp"
    using update_clock_wf [OF assms(1), of current] update_clock_updated [of kcp current] k assms(2) by simp_all
  have rv: "rcv_view k = rcv_view kcp" using k by (auto simp: update_clock_def Let_def rcv_view_def)
  show ?thesis
  proof (cases due)
    case True
    from flush_ok [OF wf(1-3)] obtain kcp' sent where f: "ikcp_flush k = Some (kcp', sent)" "kcp_wf kcp'"
      "\<forall>d \<in> set sent. 0 < length d \<and> length d \<le> unat (k_mtu k)" by blast
    then show ?thesis using True k flush_keeps_view [OF f(1)] wf(4) rv by (simp add: update_eq)
  next
    case False
    then show ?thesis using k wf(1) rv by (simp add: update_eq)
  qed
qed

section \<open>When to call again\<close>

lemma check_segments_some:
  "check_segments current buf tm = Some m \<Longrightarrow>
     m \<le> tm \<and> (0 < tm \<longrightarrow> 0 < m) \<and> (\<forall>seg \<in> set buf. m \<le> itimediff (seg_resendts seg) current)"
  by (induction current buf tm rule: check_segments.induct) (fastforce simp: Let_def split: if_splits)+

lemma itimediff_ahead:
  assumes "0 < itimediff a b" "int j \<le> itimediff a b"
  shows "itimediff a (b + of_nat j) = itimediff a b - int j"
proof -
  have lt: "itimediff a b < 2147483648" using sint_range32 [of "a - b"] by (simp add: itimediff_def)
  then have j: "sint (of_nat j :: u32) = int j" using assms by (intro sint_of_nat32) simp
  have "sint ((a - b) - of_nat j) = sint (a - b) - sint (of_nat j :: u32)"
    unfolding j by (rule sint32_sub [of "a - b" "of_nat j", unfolded j]) (use assms lt in \<open>auto simp: itimediff_def\<close>)
  then show ?thesis by (simp add: itimediff_def j diff_diff_eq)
qed

text \<open>The answer is at most one interval away.\<close>

lemma check_bound: "unat (ikcp_check kcp current - current) \<le> unat (k_interval kcp)"
  by (auto simp: ikcp_check_def Let_def word_le_nat_alt split: option.split)

text \<open>Before the answer nothing is due: no flush, and no retransmission of a buffered segment.\<close>

lemma check_quiet:
  assumes "j < unat (ikcp_check kcp current - current)"
  shows "\<not> snd (update_clock kcp (current + of_nat j))"
    and "\<forall>seg \<in> set (k_snd_buf kcp). itimediff (seg_resendts seg) (current + of_nat j) > 0"
proof -
  have ne: "ikcp_check kcp current \<noteq> current" using assms by auto
  have upd: "k_updated kcp \<noteq> 0" using ne by (auto simp: ikcp_check_def)
  have near: "itimediff current (k_ts_flush kcp) < 10000" "-10000 \<le> itimediff current (k_ts_flush kcp)"
    "itimediff current (k_ts_flush kcp) < 0"
    using ne upd by (auto simp: ikcp_check_def Let_def itimediff_def split: if_splits)
  define fl where "fl = itimediff (k_ts_flush kcp) current"
  have fl: "fl = - itimediff current (k_ts_flush kcp)" unfolding fl_def using near by (intro itimediff_swap) simp
  obtain m where m: "check_segments current (k_snd_buf kcp) 0x7fffffff = Some m"
    using ne upd near by (auto simp: ikcp_check_def Let_def split: option.splits if_splits)
  note segs = check_segments_some [OF m]
  define w where "w = (word_of_int (min m fl) :: u32)"
  have mm: "0 < min m fl" "min m fl \<le> 10000" using segs fl near by auto
  then have "sint w = min m fl" unfolding w_def by (intro sint32_of_int) auto
  then have w: "int (unat w) = min m fl" using mm(1) sint32_small [of w] sint32_nonneg [of w] by (simp del: of_nat_unat)
  have "ikcp_check kcp current = current + (if w \<ge> k_interval kcp then k_interval kcp else w)"
    using upd near m by (auto simp: ikcp_check_def Let_def w_def fl_def min_def)
  then have "unat (ikcp_check kcp current - current) \<le> unat w" by (auto simp: word_le_nat_alt)
  then have j: "int j < m" "int j < fl" using assms w by linarith+
  have "itimediff (k_ts_flush kcp) (current + of_nat j) = fl - int j"
    using itimediff_ahead [of "k_ts_flush kcp" current j] j(2) unfolding fl_def by simp
  then have "itimediff (current + of_nat j) (k_ts_flush kcp) = int j - fl"
    using itimediff_swap [of "k_ts_flush kcp" "current + of_nat j"] j(2) by simp
  then show "\<not> snd (update_clock kcp (current + of_nat j))"
    using j(2) fl near upd by (simp add: update_clock_def Let_def)
  show "\<forall>seg \<in> set (k_snd_buf kcp). itimediff (seg_resendts seg) (current + of_nat j) > 0"
  proof
    fix seg assume "seg \<in> set (k_snd_buf kcp)"
    then have "int j < itimediff (seg_resendts seg) current" using segs j(1) by fastforce
    then show "itimediff (seg_resendts seg) (current + of_nat j) > 0"
      using itimediff_ahead [of "seg_resendts seg" current j] by linarith
  qed
qed

end
