(* ===== verification/Kcp_Stream.thy ===== *)
theory Kcp_Stream
  imports Kcp_Flush
begin

text \<open>
  The stream of one direction. The log of a sender is the list of all fragments it has ever queued; the
  sequence number of a fragment is its position. \<open>snd_log\<close> says that the control block of the sender
  agrees with the log, \<open>wire_ok\<close> that a segment on the wire carries the fragment its number stands for, and
  \<open>rcv_log\<close> that what the receiver has delivered and holds in \<open>rcv_queue\<close> is an initial piece of the log.
  The lemmas show that every operation of the two control blocks keeps these relations.
\<close>

section \<open>Logs\<close>

type_synonym frag = "u32 \<times> bytes"

definition view :: "IKCPSEG \<Rightarrow> frag" where
  "view seg = (seg_frg seg, seg_data seg)"

definition at_pos :: "frag list \<Rightarrow> nat \<Rightarrow> u32 \<Rightarrow> frag \<Rightarrow> bool" where
  "at_pos log n sn f \<longleftrightarrow> (\<exists>i < n. sn = of_nat i \<and> f = log ! i)"

definition logged :: "frag list \<Rightarrow> nat \<Rightarrow> IKCPSEG \<Rightarrow> bool" where
  "logged log n seg \<longleftrightarrow> at_pos log n (seg_sn seg) (view seg)"

definition snd_log :: "frag list \<Rightarrow> IKCPCB \<Rightarrow> bool" where
  "snd_log log kcp \<longleftrightarrow>
     (\<exists>n \<le> length log. k_snd_nxt kcp = of_nat n \<and> map view (k_snd_queue kcp) = drop n log \<and>
        (\<forall>seg \<in> set (k_snd_buf kcp). logged log n seg))"

definition rcv_log :: "frag list \<Rightarrow> frag list \<Rightarrow> IKCPCB \<Rightarrow> bool" where
  "rcv_log log got kcp \<longleftrightarrow>
     (\<exists>r \<le> length log. k_rcv_nxt kcp = of_nat r \<and> got @ map view (k_rcv_queue kcp) = take r log \<and>
        (\<forall>seg \<in> set (k_rcv_buf kcp). logged log (length log) seg))"

definition wire_ok :: "frag list \<Rightarrow> wire_seg \<Rightarrow> bool" where
  "wire_ok log x \<longleftrightarrow>
     (case x of (h, p) \<Rightarrow> length p = unat (h_len h) \<and>
        (h_cmd h = 81 \<longrightarrow> at_pos log (length log) (h_sn h) (ucast (h_frg h), p)))"

lemma at_pos_mono: "at_pos log n sn f \<Longrightarrow> n \<le> m \<Longrightarrow> at_pos log m sn f"
  unfolding at_pos_def by (elim exE conjE, rule_tac x = i in exI) simp

lemma at_pos_append: "at_pos log n sn f \<Longrightarrow> n \<le> length log \<Longrightarrow> at_pos (log @ ext) n sn f"
  unfolding at_pos_def by (metis less_le_trans nth_append)

lemma logged_mono: "logged log n seg \<Longrightarrow> n \<le> m \<Longrightarrow> logged log m seg"
  unfolding logged_def by (rule at_pos_mono)

lemma logged_append: "logged log n seg \<Longrightarrow> n \<le> length log \<Longrightarrow> logged (log @ ext) n seg"
  unfolding logged_def by (rule at_pos_append)

lemma wire_ok_append: "wire_ok log x \<Longrightarrow> wire_ok (log @ ext) x"
  unfolding wire_ok_def using at_pos_mono [OF at_pos_append [OF _ order.refl]] by (auto split: prod.split)

lemma rcv_log_append:
  assumes "rcv_log log got kcp" shows "rcv_log (log @ ext) got kcp"
proof -
  have "logged (log @ ext) (length (log @ ext)) seg" if "logged log (length log) seg" for seg
    using logged_mono [OF logged_append [OF that order.refl]] by simp
  then show ?thesis using assms unfolding rcv_log_def
    by (elim exE conjE, rule_tac x = r in exI) auto
qed

lemma snd_log_append:
  assumes "snd_log log kcp"
  shows "snd_log (log @ map view segs) (kcp\<lparr>k_snd_queue := k_snd_queue kcp @ segs, k_nsnd_que := c\<rparr>)"
  using assms unfolding snd_log_def by (elim exE conjE, rule_tac x = n in exI) (auto intro: logged_append)

section \<open>Which fields matter\<close>

definition snd_view :: "IKCPCB \<Rightarrow> u32 \<times> IKCPSEG list \<times> IKCPSEG list" where
  "snd_view kcp = (k_snd_nxt kcp, k_snd_queue kcp, k_snd_buf kcp)"

lemma snd_log_view: "snd_view a = snd_view b \<Longrightarrow> snd_log log a = snd_log log b"
  by (simp add: snd_log_def snd_view_def)

lemma rcv_log_view: "rcv_view a = rcv_view b \<Longrightarrow> rcv_log log got a = rcv_log log got b"
  by (simp add: rcv_log_def rcv_view_def)

named_theorems stream_frame "operations that leave the stream of one direction alone"

lemma update_ack_view [stream_frame]:
  "snd_view (ikcp_update_ack kcp rtt) = snd_view kcp" "rcv_view (ikcp_update_ack kcp rtt) = rcv_view kcp"
  by (simp_all add: ikcp_update_ack_def snd_view_def rcv_view_def Let_def)

lemma parse_una_view [stream_frame]: "rcv_view (ikcp_parse_una kcp una) = rcv_view kcp"
  by (simp add: ikcp_parse_una_def rcv_view_def case_prod_beta)

lemma shrink_buf_view [stream_frame]:
  "snd_view (ikcp_shrink_buf kcp) = snd_view kcp" "rcv_view (ikcp_shrink_buf kcp) = rcv_view kcp"
  by (simp_all add: shrink_buf_eq snd_view_def rcv_view_def)

lemma parse_ack_view [stream_frame]: "rcv_view (ikcp_parse_ack kcp sn) = rcv_view kcp"
  by (simp add: ikcp_parse_ack_def rcv_view_def case_prod_beta)

lemma input_ack_view [stream_frame]: "rcv_view (input_ack kcp h) = rcv_view kcp"
  by (simp add: input_ack_def Let_def stream_frame)

lemma ack_push_view:
  assumes "ikcp_ack_push alloc i kcp sn ts = Some kcp'"
  shows "snd_view kcp' = snd_view kcp" "rcv_view kcp' = rcv_view kcp"
  by (rule ack_push_fields [OF assms], simp add: snd_view_def rcv_view_def)+

lemma move_rcv_view [stream_frame]: "snd_view (move_rcv kcp) = snd_view kcp"
proof -
  have "snd_view (move_rcv_from buf kcp) = snd_view kcp" for buf
    by (induction buf kcp rule: move_rcv_from.induct) (simp_all add: snd_view_def)
  then show ?thesis by (simp add: move_rcv_def)
qed

lemma parse_data_view [stream_frame]: "snd_view (ikcp_parse_data kcp seg) = snd_view kcp"
  by (simp add: ikcp_parse_data_def Let_def stream_frame split: option.split) (simp add: snd_view_def)

lemma input_push_view:
  assumes "input_push alloc j kcp h data = Some kcp'" shows "snd_view kcp' = snd_view kcp"
  using assms ack_push_view(1)
  by (auto simp: input_push_def stream_frame split: if_splits option.splits)

lemma recv_ops_view [stream_frame]:
  "snd_view (fast_recover b kcp) = snd_view kcp" "snd_view (drop_message kcp) = snd_view kcp"
  "rcv_view (fast_recover b kcp) = rcv_view kcp"
  by (simp_all add: fast_recover_def drop_message_def snd_view_def rcv_view_def)

lemma grow_cwnd_view [stream_frame]:
  "snd_view (grow_cwnd una kcp) = snd_view kcp" "rcv_view (grow_cwnd una kcp) = rcv_view kcp"
  by (simp_all add: grow_cwnd_def Let_def snd_view_def rcv_view_def)

lemma rmt_wnd_view [stream_frame]:
  "snd_view (kcp\<lparr>k_rmt_wnd := w\<rparr>) = snd_view kcp" "rcv_view (kcp\<lparr>k_rmt_wnd := w\<rparr>) = rcv_view kcp"
  "snd_view (kcp\<lparr>k_probe := p\<rparr>) = snd_view kcp"
  by (simp_all add: snd_view_def rcv_view_def)

section \<open>The sender\<close>

lemma snd_log_sub:
  assumes "snd_log log kcp" "k_snd_nxt kcp' = k_snd_nxt kcp" "k_snd_queue kcp' = k_snd_queue kcp"
    and "\<forall>t \<in> set (k_snd_buf kcp'). \<exists>s \<in> set (k_snd_buf kcp). seg_sn t = seg_sn s \<and> view t = view s"
  shows "snd_log log kcp'"
proof -
  from assms(1) obtain n where n: "n \<le> length log" "k_snd_nxt kcp = of_nat n" "map view (k_snd_queue kcp) = drop n log"
    "\<forall>seg \<in> set (k_snd_buf kcp). logged log n seg" unfolding snd_log_def by blast
  have "logged log n t" if "t \<in> set (k_snd_buf kcp')" for t
    using assms(4) that n(4) unfolding logged_def by metis
  then show ?thesis using n assms(2,3) by (auto simp: snd_log_def)
qed

lemma parse_una_log: "snd_log log kcp \<Longrightarrow> snd_log log (ikcp_parse_una kcp una)"
  by (erule snd_log_sub) (auto simp: ikcp_parse_una_def parse_una_loop_eq dest: set_dropWhileD)

lemma parse_ack_log:
  assumes "snd_log log kcp" shows "snd_log log (ikcp_parse_ack kcp sn)"
proof -
  obtain xs ys where p: "k_snd_buf kcp = xs @ ys" "snd (parse_ack_loop sn (k_snd_buf kcp)) = map skip_ack xs @ tl ys"
    using parse_ack_parts by metis
  have "\<exists>s \<in> set (k_snd_buf kcp). seg_sn t = seg_sn s \<and> view t = view s" if "t \<in> set (map skip_ack xs @ tl ys)" for t
    using that p(1) by (cases ys) (auto simp: view_def)
  then show ?thesis using p(2)
    by (intro snd_log_sub [OF assms]) (auto simp: ikcp_parse_ack_def case_prod_beta)
qed

lemma input_one_snd_log:
  assumes "snd_log log kcp" "input_one alloc j kcp h data = Some kcp'"
  shows "snd_log log kcp'"
proof -
  let ?k = "ikcp_shrink_buf (ikcp_parse_una (kcp\<lparr>k_rmt_wnd := ucast (h_wnd h)\<rparr>) (h_una h))"
  have "snd_log log (kcp\<lparr>k_rmt_wnd := ucast (h_wnd h)\<rparr>)" using assms(1) snd_log_view stream_frame by metis
  then have k: "snd_log log ?k" using parse_una_log snd_log_view shrink_buf_view(1) by metis
  have "snd_log log (input_ack ?k h)"
    using k parse_ack_log snd_log_view [OF update_ack_view(1)] snd_log_view [OF shrink_buf_view(1)]
    by (simp add: input_ack_def Let_def)
  moreover have "snd_log log (?k\<lparr>k_probe := p\<rparr>)" for p using k snd_log_view rmt_wnd_view(3) by metis
  moreover have "snd_log log k'" if "input_push alloc j ?k h data = Some k'" for k'
    using snd_log_view [OF input_push_view [OF that]] k by simp
  ultimately show ?thesis using assms(2) k by (auto simp: input_one_def Let_def split: if_splits)
qed

lemma input_snd_log:
  assumes "snd_log log kcp" "ikcp_input alloc kcp data sz = Some (r, kcp')"
  shows "snd_log log kcp'"
proof -
  have "snd_log log k" if "input_loop alloc 0 kcp d sz = Some (x, k)" for d x k
    using input_loop_keeps [of "snd_log log" alloc, OF input_one_snd_log assms(1) that] .
  then show ?thesis using assms snd_log_view [OF grow_cwnd_view(1)]
    by (auto simp: ikcp_input_def Let_def split: option.splits if_splits)
qed

lemma move_snd_log:
  assumes "snd_log log (kcp\<lparr>k_snd_queue := queue\<rparr>)"
  shows "snd_log log (move_snd_from queue cwnd wnd kcp)"
  using assms
proof (induction queue arbitrary: kcp)
  case (Cons newseg queue)
  let ?s = "fresh_segment kcp wnd newseg"
  let ?k = "kcp\<lparr>k_snd_buf := k_snd_buf kcp @ [?s], k_nsnd_que := k_nsnd_que kcp - 1,
      k_nsnd_buf := k_nsnd_buf kcp + 1, k_snd_nxt := k_snd_nxt kcp + 1\<rparr>"
  from Cons.prems obtain n where n: "n \<le> length log" "k_snd_nxt kcp = of_nat n"
    "view newseg # map view queue = drop n log" "\<forall>seg \<in> set (k_snd_buf kcp). logged log n seg"
    by (auto simp: snd_log_def)
  have lt: "n < length log" using n(3) by (metis drop_eq_Nil list.distinct(1) not_le)
  then have d: "view newseg = log ! n" "map view queue = drop (Suc n) log"
    using n(3) by (auto simp flip: Cons_nth_drop_Suc)
  have "logged log (Suc n) ?s" using n(2) d(1) unfolding logged_def at_pos_def by (intro exI [of _ n]) (simp add: view_def)
  then have "snd_log log (?k\<lparr>k_snd_queue := queue\<rparr>)"
    using n(2,4) lt d(2) unfolding snd_log_def
    by (intro exI [of _ "Suc n"]) (auto intro: logged_mono simp: add.commute)
  then show ?case using Cons.IH [of ?k] Cons.prems by simp
qed simp

lemma same_segs_log:
  assumes "snd_log log kcp" "list_all2 same_seg (k_snd_buf kcp) (k_snd_buf kcp')"
    and "k_snd_nxt kcp' = k_snd_nxt kcp" "k_snd_queue kcp' = k_snd_queue kcp"
  shows "snd_log log kcp'"
proof (rule snd_log_sub [OF assms(1,3,4)])
  show "\<forall>t \<in> set (k_snd_buf kcp'). \<exists>s \<in> set (k_snd_buf kcp). seg_sn t = seg_sn s \<and> view t = view s"
    using list_all2_right [OF assms(2)] unfolding same_seg_def view_def by metis
qed

lemma control_wnd: "seg_wnd (control_segment kcp) = ikcp_wnd_unused kcp"
  by (simp add: control_segment_def)

lemma flush_queue:
  assumes "ikcp_flush kcp = Some (kcp', sent)" "k_updated kcp \<noteq> 0"
  shows "k_snd_queue kcp' = k_snd_queue (flushed kcp)"
proof -
  have fs: "k_snd_queue k' = k_snd_queue (move_snd (flush_window k) wnd k)"
    if "flush_segments k wnd out = Some (k', sent)" for k wnd out k' sent
    using that by (auto simp: flush_segments_def Let_def bind_eq_Some_conv flush_cwnd_def)
  have w: "seg_wnd seg' = seg_wnd seg" if "flush_acks k n i seg out = Some (seg', out')" for k n i seg out seg' out'
    using that
  proof (induction n arbitrary: i seg out)
    case (Suc n)
    then show ?case using Suc.IH by (fastforce simp: Let_def case_prod_beta split: if_splits option.splits)
  qed simp
  have win: "flush_window (probe_window (kcp\<lparr>k_ackcount := 0\<rparr>)\<lparr>k_probe := 0\<rparr>) = flush_window kcp"
    by (simp add: flush_window_def probe_window_def Let_def)
  obtain seg out1 out2 where
    "flush_acks kcp (nat (sint (k_ackcount kcp))) 0 (control_segment kcp) ([], []) = Some (seg, out1)"
    "flush_segments (probe_window (kcp\<lparr>k_ackcount := 0\<rparr>)\<lparr>k_probe := 0\<rparr>) (seg_wnd seg) out2 = Some (kcp', sent)"
    by (rule flush_elim [OF assms])
  then show ?thesis using fs w win unfolding flushed_def by (metis control_wnd)
qed

lemma frg_byte: "unat f < 256 \<Longrightarrow> (ucast (ucast (f :: u32) :: byte) :: u32) = f"
proof -
  assume "unat f < 256"
  then have "take_bit 8 (unat f) = unat f" by (simp add: take_bit_nat_eq_self)
  then have "n < 8" if "bit f n" for n
  proof -
    have "bit (take_bit 8 (unat f)) n" using that \<open>take_bit 8 (unat f) = unat f\<close> by (simp add: bit_unsigned_iff)
    then show ?thesis by (simp add: bit_take_bit_iff)
  qed
  then show ?thesis by (intro bit_word_eqI) (auto simp: bit_simps)
qed

text \<open>What a flush may put on the wire carries what the log says.\<close>

lemma sent_wire_ok:
  assumes "snd_wf f" "snd_log log f" "sent_ok kcp (k_snd_buf f) x" shows "wire_ok log x"
proof -
  obtain h p where x: "x = (h, p)" by fastforce
  have "at_pos log (length log) (h_sn h) (ucast (h_frg h), p)" if "h_cmd h = 81"
  proof -
    from assms(3) x that obtain seg where seg: "seg \<in> set (k_snd_buf f)" "h_sn h = seg_sn seg"
      "h_frg h = ucast (seg_frg seg)" "p = seg_data seg" by (auto simp: sent_ok_def)
    have "unat (seg_frg seg) < 256" using assms(1) seg(1) by (auto simp: snd_wf_def snd_core_def snd_seg_ok_def)
    moreover have "logged log (length log) seg" using assms(2) seg(1) logged_mono unfolding snd_log_def by blast
    ultimately show ?thesis using seg by (simp add: logged_def view_def frg_byte)
  qed
  then show ?thesis using assms(3) x by (simp add: wire_ok_def sent_ok_def)
qed

lemma flush_stream:
  assumes wf: "kcp_wf kcp" "k_output kcp" and log: "snd_log log kcp" and run: "ikcp_flush kcp = Some (kcp', sent)"
  shows "snd_log log kcp'" and "\<forall>d \<in> set sent. made_of (wire_ok log) d"
proof -
  have "snd_log log kcp' \<and> (\<forall>d \<in> set sent. made_of (wire_ok log) d)"
  proof (cases "k_updated kcp = 0")
    case True
    then show ?thesis using run log by (simp add: ikcp_flush_def)
  next
    case False
    have sent: "list_all2 same_seg (k_snd_buf (flushed kcp)) (k_snd_buf kcp')" "k_snd_nxt kcp' = k_snd_nxt (flushed kcp)"
      "kcp_wf kcp'" "\<forall>d \<in> set sent. made_of (sent_ok kcp (k_snd_buf (flushed kcp))) d"
      using flush_ok [OF wf False] run by auto
    have "snd_view (probe_window (kcp\<lparr>k_ackcount := 0\<rparr>)\<lparr>k_probe := 0\<rparr>) = snd_view kcp"
      by (simp add: snd_view_def probe_window_def Let_def)
    then have fl: "snd_log log (flushed kcp)"
      unfolding flushed_def move_snd_def using snd_log_view [THEN iffD2] log by (intro move_snd_log) simp
    have "snd_log log kcp'" by (rule same_segs_log [OF fl sent(1,2) flush_queue [OF run False]])
    moreover have "wire_ok log x" if "sent_ok kcp (k_snd_buf (flushed kcp)) x" for x
      using sent_wire_ok [OF flushed_wf(1) [OF wf(1)] fl that] .
    ultimately show ?thesis using sent(4) unfolding made_of_def by metis
  qed
  then show "snd_log log kcp'" and "\<forall>d \<in> set sent. made_of (wire_ok log) d" by blast+
qed

section \<open>The receiver\<close>

lemma move_rcv_log:
  assumes "rcv_log log got (kcp\<lparr>k_rcv_buf := buf\<rparr>)" "length log < 4294967296"
  shows "rcv_log log got (move_rcv_from buf kcp)"
  using assms(1)
proof (induction buf arbitrary: kcp)
  case (Cons seg buf)
  let ?k = "kcp\<lparr>k_nrcv_buf := k_nrcv_buf kcp - 1, k_rcv_queue := k_rcv_queue kcp @ [seg],
                k_nrcv_que := k_nrcv_que kcp + 1, k_rcv_nxt := k_rcv_nxt kcp + 1\<rparr>"
  show ?case
  proof (cases "seg_sn seg = k_rcv_nxt kcp \<and> k_nrcv_que kcp < k_rcv_wnd kcp")
    case True
    from Cons.prems obtain r where r: "r \<le> length log" "k_rcv_nxt kcp = of_nat r"
      "got @ map view (k_rcv_queue kcp) = take r log" "\<forall>t \<in> set (seg # buf). logged log (length log) t"
      by (auto simp: rcv_log_def)
    from r(4) obtain i where i: "i < length log" "seg_sn seg = of_nat i" "view seg = log ! i"
      by (auto simp: logged_def at_pos_def)
    have "i = r" using i(1,2) r(1,2) True assms(2) of_nat32_inj [of i r] by simp
    then have "rcv_log log got (?k\<lparr>k_rcv_buf := buf\<rparr>)"
      using i r unfolding rcv_log_def
      by (intro exI [of _ "Suc r"]) (simp add: take_Suc_conv_app_nth add.commute flip: append_assoc)
    then show ?thesis using Cons.IH [of ?k] True by simp
  qed (use Cons.prems in auto)
qed simp

lemma move_rcv_log':
  "rcv_log log got kcp \<Longrightarrow> length log < 4294967296 \<Longrightarrow> rcv_log log got (move_rcv kcp)"
  using move_rcv_log [where buf = "k_rcv_buf kcp" and kcp = kcp] by (simp add: move_rcv_def)

lemma parse_data_log:
  assumes "rcv_wf kcp" "rcv_log log got kcp" "length log < 4294967296" "logged log (length log) newseg"
  shows "rcv_log log got (ikcp_parse_data kcp newseg)"
proof -
  have "rcv_log log got (kcp\<lparr>k_rcv_buf := insert_by_off b newseg (k_rcv_buf kcp), k_nrcv_buf := n\<rparr>)" for b n
    using assms(2,4) by (auto simp: rcv_log_def)
  then show ?thesis using assms(2) move_rcv_log' [OF _ assms(3)]
    by (simp add: parse_data_cases [OF assms(1)])
qed

lemma segment_view: "length p = unat (h_len h) \<Longrightarrow> view (input_segment h (p @ rest)) = (ucast (h_frg h), p)"
  "seg_sn (input_segment h data) = h_sn h"
  by (simp_all add: view_def input_segment_def)

lemma input_push_log:
  assumes "rcv_wf kcp" "rcv_log log got kcp" "length log < 4294967296" "wire_ok log (h, p)" "h_cmd h = 81"
    and "input_push alloc j kcp h (p @ rest) = Some kcp'"
  shows "rcv_log log got kcp'"
proof (cases "itimediff (h_sn h) (k_rcv_nxt kcp + k_rcv_wnd kcp) < 0")
  case True
  then obtain k where k: "ikcp_ack_push alloc (2 * j) kcp (h_sn h) (h_ts h) = Some k"
    using assms(6) by (auto simp: input_push_def split: option.splits)
  obtain n xs c where "k = kcp\<lparr>k_ackblock := n, k_acklist := xs, k_ackcount := c\<rparr>"
    by (rule ack_push_fields [OF k])
  then have wf: "rcv_wf k" "rcv_log log got k" using assms(1,2) by (simp_all add: kcp_frame rcv_log_def)
  have "logged log (length log) (input_segment h (p @ rest))"
    using assms(4,5) by (simp add: logged_def wire_ok_def segment_view)
  then have "rcv_log log got (ikcp_parse_data k (input_segment h (p @ rest)))"
    using parse_data_log [OF wf assms(3)] by blast
  then show ?thesis using assms(6) True k wf(2) by (auto simp: input_push_def split: if_splits)
qed (use assms in \<open>auto simp: input_push_def\<close>)

lemma push_byte: "(ucast (c :: byte) :: u32) = IKCP_CMD_PUSH \<Longrightarrow> c = 81"
  using byte_id [of c] by simp

lemma input_one_rcv_log:
  assumes "rcv_wf kcp" "rcv_log log got kcp" "length log < 4294967296" "wire_ok log (h, p)"
    and run: "input_one alloc j kcp h (p @ rest) = Some kcp'"
  shows "rcv_log log got kcp'"
proof -
  let ?k = "ikcp_shrink_buf (ikcp_parse_una (kcp\<lparr>k_rmt_wnd := ucast (h_wnd h)\<rparr>) (h_una h))"
  have "rcv_view ?k = rcv_view kcp" by (simp add: stream_frame)
  then have k: "rcv_wf ?k" "rcv_log log got ?k"
    using assms(1) rcv_log_view [of ?k kcp] assms(2) by (simp_all add: kcp_frame)
  have "rcv_log log got (input_ack ?k h)" using k(2) rcv_log_view [OF input_ack_view] by blast
  moreover have "rcv_log log got (?k\<lparr>k_probe := q\<rparr>)" for q using k(2) by (simp add: rcv_log_def)
  moreover have "rcv_log log got k'" if "input_push alloc j ?k h (p @ rest) = Some k'" "ucast (h_cmd h) = IKCP_CMD_PUSH" for k'
    using input_push_log [OF k assms(3,4) push_byte [OF that(2)] that(1)] .
  ultimately show ?thesis using run k(2) by (auto simp: input_one_def Let_def split: if_splits)
qed

text \<open>Rule for a well-formed datagram: what its segments keep, the datagram keeps.\<close>

lemma segs_bytes_simps [simp]: "segs_bytes [] = []" "segs_bytes ((h, p) # hs) = header_bytes h @ p @ segs_bytes hs"
  by (simp_all add: segs_bytes_def)

lemma input_loop_segs:
  assumes "\<And>kcp j h p rest kcp'. P kcp \<Longrightarrow> Q (h, p) \<Longrightarrow> input_one alloc j kcp h (p @ rest) = Some kcp' \<Longrightarrow> P kcp'"
    and "\<And>h p. Q (h, p) \<Longrightarrow> length p = unat (h_len h)" and "\<forall>x \<in> set hs. Q x"
    and "P kcp" "input_loop alloc j kcp (segs_bytes hs) (int (length (segs_bytes hs))) = Some (r, kcp')"
  shows "P kcp'"
  using assms(3-)
proof (induction hs arbitrary: j kcp)
  case Nil
  then show ?case by (simp add: input_loop.simps)
next
  case (Cons x hs)
  obtain h p where x: "x = (h, p)" by fastforce
  have len: "length p = unat (h_len h)" and q: "Q (h, p)" using Cons.prems(1) assms(2) x by auto
  have dec: "ikcp_decode32u IWORDS_BIG_ENDIAN (segs_bytes (x # hs)) = Some (h_conv h, rest_bytes h @ p @ segs_bytes hs)"
    "decode_rest (h_conv h) (rest_bytes h @ p @ segs_bytes hs) = Some (h, p @ segs_bytes hs)"
    by (simp_all add: x header_split codec_simps)
  have sz: "int (length (segs_bytes (x # hs))) - 24 - uint (h_len h) = int (length (segs_bytes hs))"
    using len int_unat32 [of "h_len h"] by (simp add: x del: of_nat_unat)
  have big: "\<not> int (length (segs_bytes (x # hs))) < 24" by (simp add: x)
  show ?case
  proof (cases "kcp' = kcp")
    case False
    have "input_loop alloc j kcp (segs_bytes (x # hs)) (int (length (segs_bytes (x # hs)))) =
      (if h_conv h \<noteq> k_conv kcp then Some (-1, kcp)
       else if int (length (segs_bytes (x # hs))) - 24 < uint (h_len h) then Some (-2, kcp)
       else if \<not> cmd_known (h_cmd h) then Some (-3, kcp)
       else case input_one alloc j kcp h (p @ segs_bytes hs) of
              None \<Rightarrow> None
            | Some k \<Rightarrow> input_loop alloc (Suc j) k (drop (unat (h_len h)) (p @ segs_bytes hs)) (int (length (segs_bytes hs))))"
      unfolding sz [symmetric] by (subst input_loop.simps) (simp only: overhead big dec if_False option.case prod.case Let_def)
    then obtain k where k: "input_one alloc j kcp h (p @ segs_bytes hs) = Some k"
      "input_loop alloc (Suc j) k (drop (unat (h_len h)) (p @ segs_bytes hs)) (int (length (segs_bytes hs))) = Some (r, kcp')"
      using False Cons.prems(3) by (auto split: if_splits option.splits)
    have "P k" by (rule assms(1) [OF Cons.prems(2) q k(1)])
    then show ?thesis using Cons.IH [of k "Suc j"] Cons.prems(1) k(2) len by simp
  qed (use Cons.prems(2) in simp)
qed

lemma input_rcv_log:
  assumes "alloc_bounded alloc" "kcp_wf kcp" "rcv_log log got kcp" "length log < 4294967296" "made_of (wire_ok log) d"
    and "ikcp_input alloc kcp (Some d) (int (length d)) = Some (r, kcp')"
  shows "rcv_log log got kcp'"
proof -
  obtain hs where hs: "d = segs_bytes hs" "\<forall>x \<in> set hs. wire_ok log x" using assms(5) by (auto simp: made_of_def)
  have "kcp_wf k \<and> rcv_log log got k" if "input_loop alloc 0 kcp d (int (length d)) = Some (x, k)" for x k
  proof (rule input_loop_segs [where P = "\<lambda>k. kcp_wf k \<and> rcv_log log got k" and Q = "wire_ok log", OF _ _ hs(2) _ that [unfolded hs(1)]])
    show "kcp_wf kcp \<and> rcv_log log got kcp" using assms(2,3) by simp
    fix kcp j h p rest kcp'
    assume a: "kcp_wf kcp \<and> rcv_log log got kcp" "wire_ok log (h, p)" "input_one alloc j kcp h (p @ rest) = Some kcp'"
    then have "rcv_wf kcp" "rcv_log log got kcp" "kcp_wf kcp" by (simp_all add: kcp_wf_def)
    then show "kcp_wf kcp' \<and> rcv_log log got kcp'"
      using one_keeps_wf [OF assms(1) _ a(3)] input_one_rcv_log [OF _ _ assms(4) a(2,3)] by blast
  qed (simp add: wire_ok_def)
  then show ?thesis using assms(3,6) rcv_log_view [OF grow_cwnd_view(2)]
    by (auto simp: ikcp_input_def Let_def split: option.splits if_splits)
qed

section \<open>Messages\<close>

text \<open>The log of a sender that has accepted the messages \<open>msgs\<close> with maximum segment size \<open>m\<close>.\<close>

definition frags :: "nat \<Rightarrow> bytes \<Rightarrow> frag list" where
  "frags m msg = map view (fragments m msg)"

definition msg_log :: "nat \<Rightarrow> bytes list \<Rightarrow> frag list" where
  "msg_log m msgs = concat (map (frags m) msgs)"

definition msg_ok :: "nat \<Rightarrow> bytes \<Rightarrow> bool" where
  "msg_ok m msg \<longleftrightarrow> length msg < 2147483648 \<and> length (chunks m msg) \<le> 255"

lemma length_frags [simp]: "length (frags m msg) = length (chunks m msg)"
  by (simp add: frags_def)

lemma frags_ne: "frags m msg \<noteq> []"
  using chunks_ne [of m msg] by (metis length_frags length_0_conv)

lemma first_message_length: "map seg_frg a = map seg_frg b \<Longrightarrow> length (first_message a) = length (first_message b)"
proof (induction a arbitrary: b)
  case (Cons s a)
  then show ?case by (cases b) auto
qed simp

lemma first_message_take: "first_message q = take (length (first_message q)) q"
  by (metis append_eq_conv_conj message_split)

lemma first_message_frags:
  assumes "map view q = frags m msg @ rest" "0 < m" "length (chunks m msg) \<le> 255"
  shows "map view (first_message q) = frags m msg" and "map view (after_message q) = rest"
proof -
  let ?n = "length (chunks m msg)"
  let ?q2 = "drop ?n q"
  have frg: "map seg_frg q = map fst (map view q)" for q by (simp add: view_def)
  have n: "map view (take ?n q) = frags m msg" "map view ?q2 = rest"
    using assms(1) by (simp_all add: take_map [symmetric] drop_map [symmetric])
  have "map seg_frg (fragments m msg @ ?q2) = map seg_frg q"
    unfolding frg using assms(1) n by (simp add: frags_def)
  then have "length (first_message q) = length (first_message (fragments m msg @ ?q2))"
    by (intro first_message_length) simp
  also have "\<dots> = ?n" using fragments_frg(1) [OF assms(2), of msg ?q2] assms(3) by simp
  finally have len: "length (first_message q) = ?n" .
  then have fm: "first_message q = take ?n q" by (metis first_message_take)
  then show "map view (first_message q) = frags m msg" using n(1) by simp
  have "after_message q = ?q2" using message_split [of q] fm len by (metis append_eq_conv_conj)
  then show "map view (after_message q) = rest" using n(2) by simp
qed

lemma frags_hd: "fst (hd (frags m msg)) = of_nat (length (chunks m msg) - 1)"
proof -
  obtain c cs where c: "chunks m msg = c # cs" using chunks_ne [of m msg] by (cases "chunks m msg") auto
  have "rev [0..<Suc (length cs)] = length cs # rev [0..<length cs]" by simp
  then show ?thesis by (simp add: frags_def fragments_def c view_def)
qed

lemma frags_data: "concat (map snd (frags m msg)) = msg"
proof -
  have "map snd (frags m msg) = map seg_data (fragments m msg)" by (simp add: frags_def view_def comp_def)
  then show ?thesis by (simp add: fragments_data concat_chunks)
qed

lemma payload_data: "\<forall>s \<in> set q. seg_ok s \<Longrightarrow> concat (map payload q) = concat (map snd (map view q))"
  by (induction q) (auto simp: payload_def seg_ok_def view_def)

text \<open>The fragments of a message at the head of \<open>rcv_queue\<close>, whatever the other fields of the segments say.\<close>

lemma peek_sum_cong: "map seg_frg q = map seg_frg q' \<Longrightarrow> map seg_len q = map seg_len q' \<Longrightarrow> peek_sum q n = peek_sum q' n"
proof (induction q arbitrary: q' n)
  case (Cons s q)
  then obtain s' q'' where q: "q' = s' # q''" by (cases q') auto
  then have "peek_sum q x = peek_sum q'' x" for x using Cons by simp
  then show ?case using Cons.prems q by (simp add: Let_def)
qed simp

lemma peeksize_cong:
  assumes "map seg_frg (k_rcv_queue k) = map seg_frg (k_rcv_queue k')" "map seg_len (k_rcv_queue k) = map seg_len (k_rcv_queue k')"
    and "k_nrcv_que k = k_nrcv_que k'"
  shows "ikcp_peeksize k = ikcp_peeksize k'"
proof (cases "k_rcv_queue k")
  case Nil
  then show ?thesis using assms(1) by (simp add: ikcp_peeksize_def)
next
  case (Cons s q)
  then obtain s' q' where "k_rcv_queue k' = s' # q'" using assms(1) by (cases "k_rcv_queue k'") auto
  moreover have "peek_sum (k_rcv_queue k) 0 = peek_sum (k_rcv_queue k') 0" by (rule peek_sum_cong [OF assms(1,2)])
  ultimately show ?thesis using Cons assms by (simp add: ikcp_peeksize_def del: peek_sum.simps)
qed

lemma fragments_lens: "map seg_len (fragments m msg) = map (\<lambda>f. of_nat (length (snd f))) (frags m msg)"
proof -
  have "seg_len s = of_nat (length (seg_data s))" if "s \<in> set (fragments m msg)" for s
    using that by (auto simp: fragments_def fragment_def dest!: set_zip_leftD)
  then show ?thesis by (simp add: frags_def view_def)
qed

lemma peeksize_frags:
  assumes "rcv_wf kcp" "0 < m" "msg_ok m msg" "map view (k_rcv_queue kcp) = frags m msg @ rest"
  shows "ikcp_peeksize kcp = of_nat (length msg)"
proof -
  let ?n = "length (chunks m msg)"
  let ?q = "fragments m msg @ drop ?n (k_rcv_queue kcp)"
  have ok: "\<forall>s \<in> set (k_rcv_queue kcp). seg_len s = of_nat (length (seg_data s))"
    using assms(1) by (auto simp: rcv_wf_def seg_ok_def)
  have tk: "map view (take ?n (k_rcv_queue kcp)) = frags m msg" using assms(4) by (simp add: take_map [symmetric])
  have "map seg_frg (take ?n (k_rcv_queue kcp)) = map fst (frags m msg)" "map seg_frg (fragments m msg) = map fst (frags m msg)"
    by (simp add: tk [symmetric] view_def comp_def) (simp add: frags_def view_def comp_def)
  then have f: "map seg_frg (k_rcv_queue kcp) = map seg_frg ?q" by (metis append_take_drop_id map_append)
  have "map seg_len (take ?n (k_rcv_queue kcp)) = map (\<lambda>f. of_nat (length (snd f))) (frags m msg)"
    using ok in_set_takeD by (fastforce simp: tk [symmetric] view_def)
  then have l: "map seg_len (k_rcv_queue kcp) = map seg_len ?q"
    using fragments_lens [of m msg] by (metis append_take_drop_id map_append)
  have len: "length ?q = length (k_rcv_queue kcp)" using arg_cong [OF f, of length] by simp
  have "ikcp_peeksize kcp = ikcp_peeksize (kcp\<lparr>k_rcv_queue := ?q\<rparr>)" by (rule peeksize_cong) (use f l in simp_all)
  also have "\<dots> = of_nat (length msg)"
    by (rule peeksize_message [OF assms(2)]) (use assms(1,3) len in \<open>auto simp: msg_ok_def rcv_wf_def\<close>)
  finally show ?thesis .
qed

text \<open>A call of \<open>ikcp_recv\<close> that only looks or fails does not move the stream on.\<close>

lemma recv_fail:
  assumes "ikcp_recv kcp buffer len = Some (r, out, kcp')" "sint len < 0 \<or> r < 0"
  shows "kcp' = kcp \<or> (\<exists>b. kcp' = fast_recover b (move_rcv kcp))"
proof (cases "sint len < 0")
  case True
  have id: "k\<lparr>k_rcv_queue := k_rcv_queue k, k_nrcv_que := k_nrcv_que k\<rparr> = k" for k :: IKCPCB by simp
  show ?thesis using assms True by (auto simp: ikcp_recv_def Let_def merge_peek id split: if_splits)
next
  case False
  then show ?thesis using assms by (auto simp: ikcp_recv_def Let_def merge_take split: if_splits)
qed

lemma recv_fail_log:
  assumes "rcv_log log got kcp" "length log < 4294967296"
    and "ikcp_recv kcp buffer len = Some (r, out, kcp')" "sint len < 0 \<or> r < 0"
  shows "rcv_log log got kcp'"
  using recv_fail [OF assms(3,4)] assms(1) move_rcv_log' [OF assms(1,2)] rcv_log_view [OF recv_ops_view(3)] by metis

lemma recv_success:
  assumes "ikcp_recv kcp True len = Some (r, out, kcp')" "0 \<le> sint len" "0 \<le> r"
  shows "k_rcv_queue kcp \<noteq> []" and "0 \<le> sint (ikcp_peeksize kcp)"
    and "out = concat (map payload (first_message (k_rcv_queue kcp)))"
    and "\<exists>b. kcp' = fast_recover b (move_rcv (drop_message kcp))"
proof -
  have "k_rcv_queue kcp \<noteq> [] \<and> 0 \<le> sint (ikcp_peeksize kcp) \<and> sint (ikcp_peeksize kcp) \<le> sint len"
    using assms by (auto simp: ikcp_recv_def Let_def split: if_splits)
  then show "k_rcv_queue kcp \<noteq> []" "0 \<le> sint (ikcp_peeksize kcp)"
    "out = concat (map payload (first_message (k_rcv_queue kcp)))"
    "\<exists>b. kcp' = fast_recover b (move_rcv (drop_message kcp))"
    using recv_take [of kcp len True] assms by auto
qed

lemma peeksize_whole:
  assumes "rcv_wf kcp" "k_rcv_queue kcp = s # q" "0 \<le> sint (ikcp_peeksize kcp)" "seg_frg s = of_nat n" "n < 255"
  shows "n < length (k_rcv_queue kcp)"
proof (cases "n = 0")
  case False
  have n: "unat (of_nat n :: u32) = n" using assms(5) by (intro unat32_of_nat_small) simp
  then have n1: "unat (of_nat n + 1 :: u32) = n + 1" using unat32_add_small [of "of_nat n" 1] assms(5) by simp
  have "seg_frg s \<noteq> 0" using assms(4) n False by (metis unat_0)
  then have "\<not> k_nrcv_que kcp < of_nat n + 1" using assms(2-4) by (auto simp: ikcp_peeksize_def)
  then have "n + 1 \<le> unat (k_nrcv_que kcp)" using n1 by (simp add: word_less_nat_alt)
  moreover have "unat (k_nrcv_que kcp) = length (k_rcv_queue kcp)"
    using assms(1) unat32_of_nat_small [of "length (k_rcv_queue kcp)"] by (simp add: rcv_wf_def)
  ultimately show ?thesis by simp
qed (use assms(2) in simp)

lemma recv_deliver:
  assumes wf: "rcv_wf kcp" and log: "rcv_log (msg_log m msgs) (msg_log m (take k msgs)) kcp"
    and m: "0 < m" "\<forall>msg \<in> set msgs. msg_ok m msg" "length (msg_log m msgs) < 4294967296" "k \<le> length msgs"
    and run: "ikcp_recv kcp True len = Some (r, out, kcp')" "0 \<le> sint len" "0 \<le> r"
  shows "k < length msgs \<and> out = msgs ! k \<and> rcv_log (msg_log m msgs) (msg_log m (take (Suc k) msgs)) kcp' \<and>
    length (chunks m out) \<le> length (k_rcv_queue kcp)"
proof -
  note succ = recv_success [OF run]
  obtain s q where q: "k_rcv_queue kcp = s # q" using succ(1) by (cases "k_rcv_queue kcp") auto
  obtain n where n: "n \<le> length (msg_log m msgs)" "k_rcv_nxt kcp = of_nat n"
    "msg_log m (take k msgs) @ map view (k_rcv_queue kcp) = take n (msg_log m msgs)"
    "\<forall>seg \<in> set (k_rcv_buf kcp). logged (msg_log m msgs) (length (msg_log m msgs)) seg"
    using log by (auto simp: rcv_log_def)
  have "msg_log m (take k msgs) @ msg_log m (drop k msgs) = msg_log m msgs"
    unfolding msg_log_def by (metis append_take_drop_id concat_append map_append)
  also have "\<dots> = take n (msg_log m msgs) @ drop n (msg_log m msgs)" by simp
  also have "\<dots> = msg_log m (take k msgs) @ map view (k_rcv_queue kcp) @ drop n (msg_log m msgs)"
    by (simp only: n(3) [symmetric] append_assoc)
  finally have pre: "msg_log m (drop k msgs) = map view (k_rcv_queue kcp) @ drop n (msg_log m msgs)" by simp
  then have "drop k msgs \<noteq> []" using q by (auto simp: msg_log_def)
  then have k: "k < length msgs" by simp
  let ?msg = "msgs ! k"
  have ok: "msg_ok m ?msg" using m(2) k by simp
  have cons: "frags m ?msg @ msg_log m (drop (Suc k) msgs) = map view (k_rcv_queue kcp) @ drop n (msg_log m msgs)"
  proof -
    have "msg_log m (drop k msgs) = msg_log m (?msg # drop (Suc k) msgs)" using k by (simp only: Cons_nth_drop_Suc)
    also have "\<dots> = frags m ?msg @ msg_log m (drop (Suc k) msgs)" by (simp add: msg_log_def)
    finally show ?thesis using pre by (simp only:)
  qed
  then have "hd (frags m ?msg @ msg_log m (drop (Suc k) msgs)) = view s" using q by simp
  then have "view s = hd (frags m ?msg)" using frags_ne [of m ?msg] by simp
  then have "seg_frg s = of_nat (length (chunks m ?msg) - 1)" using frags_hd [of m ?msg] by (metis fst_conv view_def)
  then have few: "length (chunks m ?msg) - 1 < length (k_rcv_queue kcp)"
  proof (rule peeksize_whole [OF wf q succ(2)])
    show "length (chunks m ?msg) - 1 < 255" using ok unfolding msg_ok_def by linarith
  qed
  then have "length (frags m ?msg) \<le> length (map view (k_rcv_queue kcp))" by simp
  then obtain rest where rest: "map view (k_rcv_queue kcp) = frags m ?msg @ rest"
    using cons by (metis append_eq_append_conv_if append_take_drop_id)
  note fm = first_message_frags [OF rest m(1)]
  have view: "map view (first_message (k_rcv_queue kcp)) = frags m ?msg" "map view (after_message (k_rcv_queue kcp)) = rest"
    using fm ok by (simp_all add: msg_ok_def)
  have "\<forall>s \<in> set (first_message (k_rcv_queue kcp)). seg_ok s"
    using wf message_split [of "k_rcv_queue kcp"] unfolding rcv_wf_def by (metis Un_iff set_append)
  then have "out = ?msg" using succ(3) payload_data view(1) frags_data by simp
  moreover have "rcv_log (msg_log m msgs) (msg_log m (take (Suc k) msgs)) (drop_message kcp)"
    using n rest view(2) k by (auto simp: rcv_log_def drop_message_def msg_log_def take_Suc_conv_app_nth intro!: exI [of _ n])
  then have "rcv_log (msg_log m msgs) (msg_log m (take (Suc k) msgs)) kcp'"
    using succ(4) move_rcv_log' [OF _ m(3)] rcv_log_view [OF recv_ops_view(3)] by metis
  ultimately show ?thesis using k few by simp
qed

section \<open>The receive window bounds the receive queue\<close>

text \<open>While \<open>ikcp_wndsize\<close> is not called, \<open>rcv_queue\<close> never holds more segments than the window.\<close>

definition rcv_room :: "u32 \<Rightarrow> IKCPCB \<Rightarrow> bool" where
  "rcv_room w kcp \<longleftrightarrow> k_rcv_wnd kcp = w \<and> k_nrcv_que kcp = of_nat (length (k_rcv_queue kcp)) \<and>
     length (k_rcv_queue kcp) \<le> unat w"

lemma room_view: "rcv_view a = rcv_view b \<Longrightarrow> rcv_room w a = rcv_room w b"
  by (simp add: rcv_room_def rcv_view_def)

lemma room_move: "rcv_room w kcp \<Longrightarrow> rcv_room w (move_rcv kcp)"
proof -
  have "rcv_room w (move_rcv_from buf kcp)" if "rcv_room w kcp" for buf
    using that
  proof (induction buf kcp rule: move_rcv_from.induct)
    case (2 seg buf kcp)
    have "Suc (length (k_rcv_queue kcp)) \<le> unat w" if "k_nrcv_que kcp < k_rcv_wnd kcp"
    proof -
      have "unat (of_nat (length (k_rcv_queue kcp)) :: u32) = length (k_rcv_queue kcp)"
        using 2(2) by (intro unat32_of_nat_small) (auto simp: rcv_room_def intro: le_less_trans)
      then show ?thesis using that 2(2) by (simp add: rcv_room_def word_less_nat_alt)
    qed
    then show ?case using 2 by (simp add: rcv_room_def)
  qed (simp add: rcv_room_def)
  then show "rcv_room w kcp \<Longrightarrow> rcv_room w (move_rcv kcp)" by (simp add: move_rcv_def)
qed

lemma room_parse_data:
  assumes "rcv_room w kcp" shows "rcv_room w (ikcp_parse_data kcp seg)"
proof -
  have "rcv_room w (kcp\<lparr>k_rcv_buf := b, k_nrcv_buf := n\<rparr>)" for b n using assms by (simp add: rcv_room_def)
  from room_move [OF this] show ?thesis using assms
    by (simp add: ikcp_parse_data_def Let_def room_move split: option.split)
qed

lemma room_input_one:
  assumes "rcv_room w kcp" "input_one alloc j kcp h data = Some kcp'" shows "rcv_room w kcp'"
proof -
  let ?k = "ikcp_shrink_buf (ikcp_parse_una (kcp\<lparr>k_rmt_wnd := ucast (h_wnd h)\<rparr>) (h_una h))"
  have "rcv_view ?k = rcv_view kcp" by (simp add: stream_frame)
  then have k: "rcv_room w ?k" using assms(1) room_view by blast
  have "rcv_room w k'" if push: "input_push alloc j ?k h data = Some k'" for k'
    using push k room_view [OF ack_push_view(2)] room_parse_data
    by (fastforce simp: input_push_def split: option.splits if_splits)
  moreover have "rcv_room w (input_ack ?k h)" using k room_view [OF input_ack_view] by blast
  moreover have "rcv_room w (?k\<lparr>k_probe := p\<rparr>)" for p using k by (simp add: rcv_room_def)
  ultimately show ?thesis using assms(2) k by (auto simp: input_one_def Let_def split: if_splits)
qed

lemma room_input:
  assumes "rcv_room w kcp" "ikcp_input alloc kcp data sz = Some (r, kcp')" shows "rcv_room w kcp'"
proof -
  have "rcv_room w k" if "input_loop alloc 0 kcp d sz = Some (x, k)" for d x k
    by (rule input_loop_keeps [where P = "rcv_room w", OF _ assms(1) that]) (use room_input_one in metis)
  moreover have "rcv_room w (grow_cwnd una k) = rcv_room w k" for una k by (rule room_view [OF grow_cwnd_view(2)])
  ultimately show ?thesis using assms
    by (auto simp: ikcp_input_def Let_def split: option.splits if_splits)
qed

lemma room_recv:
  assumes "rcv_room w kcp" "ikcp_recv kcp buffer len = Some (r, out, kcp')" shows "rcv_room w kcp'"
proof -
  have n: "length (k_rcv_queue kcp) = length (first_message (k_rcv_queue kcp)) + length (after_message (k_rcv_queue kcp))"
    using message_split [of "k_rcv_queue kcp"] by (metis length_append)
  have "rcv_room w (drop_message kcp)" using assms(1) n by (simp add: rcv_room_def drop_message_def)
  then show ?thesis using recv_result [OF assms(2)] assms(1) room_move room_view [OF recv_ops_view(3)] by metis
qed

end
