(* ===== verification/Kcp_Protocol.thy ===== *)
theory Kcp_Protocol
  imports Kcp_Stream
begin

text \<open>
  Two state machines built from the operations of the control block. \<open>api_step\<close> is one control block whose
  owner calls the operations of \<open>ikcp.h\<close> that change it, and whose network delivers any bytes; of these calls
  only \<open>ikcp_setmtu\<close> is restricted: it is called while no segment is queued that is too long for the new size.
  \<open>net_step\<close> is a sender and a receiver joined by a network that may lose, repeat and reorder the datagrams of
  the sender; both are configured before the conversation starts and not during it.
\<close>

section \<open>Any sequence of calls\<close>

definition fresh_kcp :: "IKCPCB \<Rightarrow> bool" where
  "fresh_kcp kcp \<longleftrightarrow> (\<exists>alloc conv user k. ikcp_create alloc conv user = Some k \<and> kcp = k\<lparr>k_output := True\<rparr>)"

text \<open>One call on the control block. A call that aborts the process has no successor. The allocator may
  refuse memory at any time, but never grants 16 GiB or more at once. The buffer given to \<open>ikcp_send\<close> may be null
  and the length negative; otherwise the buffer holds as many bytes as the call says. \<open>ikcp_setmtu\<close> has a guard that
  the source does not have: every segment waiting to be sent fits the new size, which is below 1 GiB. Without it a
  flush may overrun the output buffer, which is proved below. The output callback stays set.\<close>

inductive api_step :: "IKCPCB \<Rightarrow> IKCPCB \<Rightarrow> bool" where
  api_send: "alloc_bounded alloc \<Longrightarrow> ikcp_send alloc kcp buffer len = Some (r, kcp') \<Longrightarrow>
     \<forall>b \<in> set_option buffer. sint len \<le> int (length b) \<Longrightarrow> api_step kcp kcp'"
| api_recv: "ikcp_recv kcp buffer len = Some (r, out, kcp') \<Longrightarrow> api_step kcp kcp'"
| api_input: "alloc_bounded alloc \<Longrightarrow> ikcp_input alloc kcp data sz = Some (r, kcp') \<Longrightarrow> api_step kcp kcp'"
| api_update: "ikcp_update kcp current = Some (kcp', sent) \<Longrightarrow> api_step kcp kcp'"
| api_nodelay: "api_step kcp (snd (ikcp_nodelay kcp nodelay interval resend nc))"
| api_interval: "api_step kcp (snd (ikcp_interval kcp i))"
| api_wndsize: "snd (ikcp_wndsize (Some kcp) sndwnd rcvwnd) = Some kcp' \<Longrightarrow> api_step kcp kcp'"
| api_flush: "ikcp_flush kcp = Some (kcp', sent) \<Longrightarrow> api_step kcp kcp'"
| api_setmtu: "unat mtu \<le> 1073741823 \<Longrightarrow>
     \<forall>seg \<in> set (k_snd_queue kcp) \<union> set (k_snd_buf kcp). unat (seg_len seg) + 24 \<le> unat mtu \<Longrightarrow>
     api_step kcp (snd (ikcp_setmtu alloc kcp mtu))"

lemma api_send_msg:
  assumes "alloc_bounded alloc" "ikcp_send alloc kcp (Some msg) (of_nat (length msg)) = Some (r, kcp')" "length msg < 2147483648"
  shows "api_step kcp kcp'"
  by (rule api_send [OF assms(1,2)]) (use sint_of_nat32 [OF assms(3)] in simp)

text \<open>Fields no call but \<open>ikcp_setmtu\<close> changes.\<close>

definition cfg_view :: "IKCPCB \<Rightarrow> u32 \<times> u32 \<times> u32 \<times> bool" where
  "cfg_view kcp = (k_conv kcp, k_mtu kcp, k_mss kcp, k_output kcp)"

named_theorems cfg_frame "operations that leave the conversation, the mtu and the callback alone"

lemma cfg_view_upd [cfg_frame]:
  "cfg_view (kcp\<lparr>k_rmt_wnd := w\<rparr>) = cfg_view kcp" "cfg_view (kcp\<lparr>k_probe := p\<rparr>) = cfg_view kcp"
  "cfg_view (ikcp_update_ack kcp rtt) = cfg_view kcp" "cfg_view (ikcp_parse_una kcp una) = cfg_view kcp"
  "cfg_view (ikcp_shrink_buf kcp) = cfg_view kcp" "cfg_view (ikcp_parse_ack kcp sn) = cfg_view kcp"
  "cfg_view (fast_recover b kcp) = cfg_view kcp" "cfg_view (drop_message kcp) = cfg_view kcp"
  "cfg_view (grow_cwnd una kcp) = cfg_view kcp"
  by (simp_all add: cfg_view_def ikcp_update_ack_def ikcp_parse_una_def shrink_buf_eq ikcp_parse_ack_def
      fast_recover_def drop_message_def grow_cwnd_def Let_def case_prod_beta)

lemma move_rcv_cfg [cfg_frame]: "cfg_view (move_rcv kcp) = cfg_view kcp"
proof -
  have "cfg_view (move_rcv_from buf kcp) = cfg_view kcp" for buf
    by (induction buf kcp rule: move_rcv_from.induct) (simp_all add: cfg_view_def)
  then show ?thesis by (simp add: move_rcv_def)
qed

lemma parse_data_cfg [cfg_frame]: "cfg_view (ikcp_parse_data kcp seg) = cfg_view kcp"
  by (simp add: ikcp_parse_data_def Let_def cfg_frame split: option.split) (simp add: cfg_view_def)

lemma input_one_cfg:
  assumes "input_one alloc j kcp h data = Some kcp'" shows "cfg_view kcp' = cfg_view kcp"
proof -
  have "cfg_view k' = cfg_view k" if "ikcp_ack_push alloc i k sn ts = Some k'" for i k sn ts k'
    by (rule ack_push_fields [OF that]) (simp add: cfg_view_def)
  then have "cfg_view k' = cfg_view k" if "input_push alloc j k h data = Some k'" for k k'
    using that by (auto simp: input_push_def cfg_frame split: if_splits option.splits)
  then show ?thesis using assms
    by (auto simp: input_one_def input_ack_def Let_def cfg_frame split: if_splits)
qed

lemma input_cfg:
  assumes "ikcp_input alloc kcp data sz = Some (r, kcp')" shows "cfg_view kcp' = cfg_view kcp"
proof -
  have "cfg_view k = cfg_view kcp" if "input_loop alloc 0 kcp d sz = Some (x, k)" for d x k
    using input_loop_keeps [of "\<lambda>k. cfg_view k = cfg_view kcp" alloc, OF _ _ that] input_one_cfg by metis
  then show ?thesis using assms
    by (auto simp: ikcp_input_def Let_def cfg_frame split: option.splits if_splits)
qed

text \<open>What the segments of a datagram do to the control block, one after the other, and the loop of \<open>ikcp_input\<close>
  on a datagram that starts with complete segments of the conversation and goes on with any bytes.\<close>

fun input_segs :: "allocator \<Rightarrow> nat \<Rightarrow> IKCPCB \<Rightarrow> wire_seg list \<Rightarrow> IKCPCB option" where
  "input_segs alloc j kcp [] = Some kcp"
| "input_segs alloc j kcp ((h, p) # ws) =
     (case input_one alloc j kcp h p of None \<Rightarrow> None | Some kcp \<Rightarrow> input_segs alloc (Suc j) kcp ws)"

definition whole_seg :: "u32 \<Rightarrow> wire_seg \<Rightarrow> bool" where
  "whole_seg conv w \<longleftrightarrow> h_conv (fst w) = conv \<and> cmd_known (h_cmd (fst w)) \<and> length (snd w) = unat (h_len (fst w))"

lemma input_one_exact: "length p = unat (h_len h) \<Longrightarrow> input_one alloc j kcp h (p @ rest) = input_one alloc j kcp h p"
  by (simp add: input_one_def input_push_def input_segment_def Let_def split: option.split)

lemma input_loop_header:
  "input_loop alloc j kcp (header_bytes h @ q) (24 + int (length q)) =
     (if h_conv h \<noteq> k_conv kcp then Some (-1, kcp)
      else if length q < unat (h_len h) then Some (-2, kcp)
      else if \<not> cmd_known (h_cmd h) then Some (-3, kcp)
      else case input_one alloc j kcp h q of None \<Rightarrow> None
           | Some k \<Rightarrow> input_loop alloc (Suc j) k (drop (unat (h_len h)) q) (int (length q) - uint (h_len h)))"
proof -
  have dec: "ikcp_decode32u IWORDS_BIG_ENDIAN (header_bytes h @ q) = Some (h_conv h, rest_bytes h @ q)"
    "decode_rest (h_conv h) (rest_bytes h @ q) = Some (h, q)"
    by (simp_all add: header_split codec_simps)
  have sz: "\<not> 24 + int (length q) < 24" "24 + int (length q) - 24 = int (length q)" by simp_all
  have len: "int (length q) < uint (h_len h) \<longleftrightarrow> length q < unat (h_len h)" using int_unat32 [of "h_len h"] by linarith
  show ?thesis
    by (subst input_loop.simps) (simp only: overhead dec sz len if_False option.case prod.case Let_def)
qed

lemma input_loop_prefix:
  assumes "\<forall>w \<in> set ws. whole_seg conv w" "k_conv kcp = conv"
  shows "input_loop alloc j kcp (segs_bytes ws @ rest) (int (length (segs_bytes ws @ rest))) =
    Option.bind (input_segs alloc j kcp ws) (\<lambda>k. input_loop alloc (j + length ws) k rest (int (length rest)))"
  using assms
proof (induction ws arbitrary: j kcp)
  case (Cons w ws)
  obtain h p where w: "w = (h, p)" by fastforce
  have g: "h_conv h = k_conv kcp" "cmd_known (h_cmd h)" "length p = unat (h_len h)"
    using Cons.prems w by (auto simp: whole_seg_def)
  let ?q = "p @ segs_bytes ws @ rest"
  have d: "segs_bytes (w # ws) @ rest = header_bytes h @ ?q" by (simp add: w)
  have len: "int (length (header_bytes h @ ?q)) = 24 + int (length ?q)"
    "int (length ?q) - uint (h_len h) = int (length (segs_bytes ws @ rest))"
    using g(3) int_unat32 [of "h_len h"] by (simp_all add: w del: of_nat_unat)
  have "k_conv k = conv" if "input_one alloc j kcp h p = Some k" for k
    using input_one_cfg [OF that] Cons.prems(2) by (simp add: cfg_view_def)
  then show ?case using Cons.IH [of _ "Suc j"] Cons.prems(1) g
    unfolding d len(1) input_loop_header len(2)
    by (auto simp: w input_one_exact split: option.split)
qed simp

lemma input_segs_conv: "input_segs alloc j kcp ws = Some k \<Longrightarrow> k_conv k = k_conv kcp"
proof (induction ws arbitrary: j kcp)
  case (Cons w ws)
  obtain h p where w: "w = (h, p)" by fastforce
  then obtain k1 where k: "input_one alloc j kcp h p = Some k1" "input_segs alloc (Suc j) k1 ws = Some k"
    using Cons.prems by (auto split: option.splits)
  then show ?case using Cons.IH [OF k(2)] input_one_cfg [OF k(1)] by (simp add: cfg_view_def)
qed simp

text \<open>The whole call on such a datagram: what is left over once the first segments are processed decides the answer.\<close>

lemma input_prefix:
  assumes "\<forall>w \<in> set ws. whole_seg (k_conv kcp) w" "24 \<le> length rest"
    and "\<And>j k. k_conv k = k_conv kcp \<Longrightarrow> input_loop alloc j k rest (int (length rest)) = Some (r, k)" "r \<noteq> 0"
  shows "ikcp_input alloc kcp (Some (segs_bytes ws @ rest)) (int (length (segs_bytes ws @ rest))) =
    map_option (\<lambda>k. (r, k)) (input_segs alloc 0 kcp ws)"
proof -
  have "input_loop alloc 0 kcp (segs_bytes ws @ rest) (int (length (segs_bytes ws @ rest))) =
      map_option (\<lambda>k. (r, k)) (input_segs alloc 0 kcp ws)"
    unfolding input_loop_prefix [OF assms(1) refl] using assms(3) input_segs_conv
    by (cases "input_segs alloc 0 kcp ws") (simp_all add: input_segs_conv)
  then show ?thesis using assms(2,4) by (simp add: ikcp_input_def Let_def option.map_comp split: option.split)
qed

lemma input_complete:
  assumes "\<forall>w \<in> set ws. whole_seg (k_conv kcp) w" "length rest < 24"
  shows "ikcp_input alloc kcp (Some (segs_bytes ws @ rest)) (int (length (segs_bytes ws @ rest))) =
    map_option (\<lambda>k. (0, grow_cwnd (k_snd_una kcp) k)) (input_segs alloc 0 kcp ws)"
proof (cases "ws = []")
  case True
  have "grow_cwnd (k_snd_una kcp) kcp = kcp" by (simp add: grow_cwnd_def itimediff_def)
  then show ?thesis using True assms(2) by (simp add: ikcp_input_def)
next
  case False
  then obtain h p vs where "ws = (h, p) # vs" by (metis neq_Nil_conv surj_pair)
  then have big: "\<not> int (length (segs_bytes ws @ rest)) < 24" by simp
  have "input_loop alloc j k rest (int (length rest)) = Some (0, k)" for j k
    using assms(2) by (subst input_loop.simps) (simp add: overhead)
  then have "input_loop alloc 0 kcp (segs_bytes ws @ rest) (int (length (segs_bytes ws @ rest))) =
      map_option (\<lambda>k. (0, k)) (input_segs alloc 0 kcp ws)"
    unfolding input_loop_prefix [OF assms(1) refl] by (cases "input_segs alloc 0 kcp ws") simp_all
  then show ?thesis using big by (simp only: ikcp_input_def Let_def if_False option.case) (simp split: option.split)
qed

lemma recv_cfg:
  assumes "ikcp_recv kcp buffer len = Some (r, out, kcp')" shows "cfg_view kcp' = cfg_view kcp"
  using recv_result [OF assms] by (auto simp: cfg_frame)

lemma flush_ops_cfg [cfg_frame]:
  "cfg_view (flush_cwnd change lost resent cwnd kcp) = cfg_view kcp" "cfg_view (probe_window kcp) = cfg_view kcp"
  "cfg_view (kcp\<lparr>k_snd_buf := buf\<rparr>) = cfg_view kcp" "cfg_view (kcp\<lparr>k_xmit := x\<rparr>) = cfg_view kcp"
  "cfg_view (kcp\<lparr>k_state := t\<rparr>) = cfg_view kcp" "cfg_view (kcp\<lparr>k_ackcount := c\<rparr>) = cfg_view kcp"
  by (simp_all add: flush_cwnd_def probe_window_def Let_def cfg_view_def)

lemma move_snd_cfg [cfg_frame]: "cfg_view (move_snd cwnd wnd kcp) = cfg_view kcp"
proof -
  have "cfg_view (move_snd_from queue cwnd wnd kcp) = cfg_view kcp" for queue
    by (induction queue arbitrary: kcp) (simp_all add: cfg_view_def)
  then show ?thesis by (simp add: move_snd_def)
qed

lemma flush_cfg:
  assumes "ikcp_flush kcp = Some (kcp', sent)" shows "cfg_view kcp' = cfg_view kcp"
proof -
  have "cfg_view k' = cfg_view k" if "flush_segments k wnd out = Some (k', sent)" for k wnd out k' sent
    using that by (auto simp: flush_segments_def Let_def bind_eq_Some_conv cfg_frame)
  note fs = this
  show ?thesis
  proof (cases "k_updated kcp = 0")
    case False
    show ?thesis
    proof (rule flush_elim [OF assms False])
      fix seg out2
      assume "flush_segments (probe_window (kcp\<lparr>k_ackcount := 0\<rparr>)\<lparr>k_probe := 0\<rparr>) (seg_wnd seg) out2 = Some (kcp', sent)"
      from fs [OF this] show ?thesis by (simp add: cfg_frame)
    qed
  qed (use assms in \<open>simp add: ikcp_flush_def\<close>)
qed

lemma update_cfg:
  assumes "ikcp_update kcp current = Some (kcp', sent)" shows "cfg_view kcp' = cfg_view kcp"
proof -
  obtain k due where k: "update_clock kcp current = (k, due)" by fastforce
  have "cfg_view k = cfg_view kcp" using k by (auto simp: update_clock_def Let_def cfg_view_def)
  then show ?thesis using assms k flush_cfg by (auto simp: update_eq split: if_splits)
qed

lemma send_any_alloc:
  assumes "ikcp_send alloc kcp buf len = Some x" shows "ikcp_send (\<lambda>i n. True) kcp buf len = Some x"
proof -
  have "send_loop (\<lambda>i n. True) count rem b l k = Some k'" if "send_loop alloc count rem b l k = Some k'" for count rem b l k k'
    using that
  proof (induction rem arbitrary: b l k)
    case (Suc rem)
    have "alloc (count - Suc rem) (sizeof_IKCPSEG + unat (if sint l > sint (k_mss k) then k_mss k else l))"
      using Suc.prems by (simp add: Let_def split: if_split_asm)
    then show ?case using Suc.prems Suc.IH
      by (simp only: send_loop.simps Let_def not_True_eq_False if_False)
  qed simp
  then show ?thesis using assms by (auto simp: ikcp_send_def Let_def split: if_splits)
qed

lemma send_cases:
  assumes "cfg_wf kcp" "ikcp_send alloc kcp (Some msg) (of_nat (length msg)) = Some (r, kcp')" "length msg < 2147483648"
  shows "r = -2 \<and> kcp' = kcp \<or>
    r = 0 \<and> msg_ok (unat (k_mss kcp)) msg \<and>
      kcp' = kcp\<lparr>k_snd_queue := k_snd_queue kcp @ fragments (unat (k_mss kcp)) msg,
                k_nsnd_que := k_nsnd_que kcp + of_nat (length (chunks (unat (k_mss kcp)) msg))\<rparr>"
proof -
  have mss: "0 < unat (k_mss kcp)" "unat (k_mss kcp) < 2147483648"
    using mss_eq [OF assms(1)] assms(1) unfolding cfg_wf_def by linarith+
  note run = send_any_alloc [OF assms(2)]
  show ?thesis
  proof (cases "length (chunks (unat (k_mss kcp)) msg) \<le> 255")
    case True
    then show ?thesis using send_ok [OF mss assms(3), of "\<lambda>i n. True"] run assms(3) by (simp add: msg_ok_def)
  next
    case False
    then show ?thesis using send_too_long [OF mss assms(3)] run by simp
  qed
qed

lemma input_total:
  assumes "\<forall>i n. alloc i n" shows "ikcp_input alloc kcp (Some data) (int (length data)) \<noteq> None"
  using input_loop_total [OF assms order.refl, of 0 kcp data] by (auto simp: ikcp_input_def Let_def)

lemma send_total:
  assumes "cfg_wf kcp" "\<forall>i n. alloc i n" "length msg < 2147483648"
  shows "ikcp_send alloc kcp (Some msg) (of_nat (length msg)) \<noteq> None"
proof -
  have mss: "0 < unat (k_mss kcp)" "unat (k_mss kcp) < 2147483648"
    using mss_eq [OF assms(1)] assms(1) unfolding cfg_wf_def by linarith+
  show ?thesis
    using send_ok [OF mss assms(3,2)] send_too_long [OF mss assms(3), of alloc]
    by (cases "length (chunks (unat (k_mss kcp)) msg) \<le> 255") simp_all
qed

lemma send_cfg:
  assumes "cfg_wf kcp" "ikcp_send alloc kcp (Some msg) (of_nat (length msg)) = Some (r, kcp')" "length msg < 2147483648"
  shows "cfg_view kcp' = cfg_view kcp"
  using send_cases [OF assms] by (auto simp: cfg_view_def)

lemma send_loop_cfg: "send_loop alloc count rem buf len kcp = Some kcp' \<Longrightarrow> cfg_view kcp' = cfg_view kcp"
proof (induction rem arbitrary: buf len kcp)
  case (Suc rem)
  show ?case using Suc.prems Suc.IH
    by (auto simp: Let_def cfg_view_def split: if_split_asm)
qed simp

lemma send_any_cfg:
  assumes "ikcp_send alloc kcp buffer len = Some (r, kcp')" shows "cfg_view kcp' = cfg_view kcp"
  using assms send_loop_cfg by (auto simp: ikcp_send_def Let_def simp del: send_loop.simps split: if_splits)

lemma send_any_wf:
  assumes "kcp_wf kcp" "ikcp_send alloc kcp buffer len = Some (r, kcp')" "\<forall>b \<in> set_option buffer. sint len \<le> int (length b)"
  shows "kcp_wf kcp'"
proof (cases "sint len < 0")
  case True
  then show ?thesis using assms(1,2) by (auto simp: ikcp_send_def split: if_splits)
next
  case False
  then have "int (unat len) = sint len" using sint32_neg [of len] sint32_small [of len] by fastforce
  then have "unat len \<le> length b" if "b \<in> set_option buffer" for b
    using bspec [OF assms(3) that] by linarith
  then show ?thesis using send_keeps_wf [OF assms(1,2)] by blast
qed

lemma send_any_total:
  assumes "cfg_wf kcp" "\<forall>i n. alloc i n" shows "ikcp_send alloc kcp buffer len \<noteq> None"
proof -
  have "send_loop alloc count rem b l k \<noteq> None" for count rem b l k
    using assms(2) by (induction rem arbitrary: b l k) (simp_all add: Let_def)
  moreover have "k_mss kcp > 0" using mss_eq [OF assms(1)] assms(1) unfolding cfg_wf_def word_less_nat_alt by simp
  ultimately show ?thesis by (simp add: ikcp_send_def Let_def)
qed

definition api_inv :: "IKCPCB \<Rightarrow> bool" where
  "api_inv kcp \<longleftrightarrow> kcp_wf kcp \<and> k_output kcp"

lemma fresh_inv: "fresh_kcp kcp \<Longrightarrow> api_inv kcp"
  using create_wf by (auto simp: fresh_kcp_def api_inv_def kcp_wf_def kcp_frame)

lemma cfg_output: "cfg_view k = cfg_view k' \<Longrightarrow> k_output k = k_output k'"
  by (simp add: cfg_view_def)

lemma api_step_inv:
  assumes "api_inv kcp" "api_step kcp kcp'" shows "api_inv kcp'"
  using assms(2,1)
proof cases
  case (api_send alloc buffer len r)
  then show ?thesis using send_any_wf [OF _ api_send(2,3)] cfg_output [OF send_any_cfg [OF api_send(2)]] assms(1)
    by (simp add: api_inv_def)
next
  case (api_recv buffer len r out)
  then show ?thesis using recv_keeps_wf [OF _ api_recv] cfg_output [OF recv_cfg [OF api_recv]] assms(1) by (simp add: api_inv_def)
next
  case (api_input alloc data sz r)
  then show ?thesis using input_keeps_wf [OF api_input(1) _ api_input(2)] cfg_output [OF input_cfg [OF api_input(2)]] assms(1)
    by (simp add: api_inv_def)
next
  case (api_update current sent)
  then show ?thesis using update_ok [of kcp current] cfg_output [OF update_cfg [OF api_update]] assms(1) by (auto simp: api_inv_def)
next
  case (api_nodelay nodelay interval resend nc)
  have "k_output kcp' = k_output kcp" unfolding api_nodelay by (simp add: ikcp_nodelay_def Let_def)
  then show ?thesis using api_nodelay nodelay_wf assms(1) by (simp add: api_inv_def)
next
  case (api_interval i)
  have "k_output kcp' = k_output kcp" unfolding api_interval by (simp add: ikcp_interval_def)
  then show ?thesis using api_interval interval_wf assms(1) by (simp add: api_inv_def)
next
  case (api_wndsize sndwnd rcvwnd)
  have "k_output kcp' = k_output kcp" using api_wndsize by (auto simp: ikcp_wndsize_def Let_def split: if_splits)
  then show ?thesis using api_wndsize wndsize_wf [of kcp sndwnd rcvwnd] assms(1) by (simp add: api_inv_def)
next
  case (api_flush sent)
  have "kcp_wf kcp'"
  proof (cases "k_updated kcp = 0")
    case False
    then show ?thesis using flush_ok [of kcp] api_flush assms(1) by (auto simp: api_inv_def)
  qed (use api_flush assms(1) in \<open>simp add: ikcp_flush_def api_inv_def\<close>)
  then show ?thesis using cfg_output [OF flush_cfg [OF api_flush]] assms(1) by (simp add: api_inv_def)
next
  case (api_setmtu mtu alloc)
  have "k_output kcp' = k_output kcp" unfolding api_setmtu by (simp add: ikcp_setmtu_def Let_def)
  then show ?thesis using api_setmtu setmtu_wf [OF _ api_setmtu(2,3), of alloc] assms(1) by (simp add: api_inv_def)
qed

interpretation api: step_system fresh_kcp api_step api_inv
  by unfold_locales (rule fresh_inv, assumption, rule api_step_inv)

section \<open>A sender, a receiver and a network\<close>

text \<open>\<open>n_wire\<close> holds every datagram the sender has handed to its callback. \<open>n_sent\<close> and \<open>n_got\<close> are the messages
  the sender's \<open>ikcp_send\<close> has accepted and the receiver's \<open>ikcp_recv\<close> has returned, in order.\<close>

record net_state =
  n_a :: IKCPCB
  n_b :: IKCPCB
  n_wire :: "bytes set"
  n_sent :: "bytes list"
  n_got :: "bytes list"

text \<open>A control block at the start of a conversation: as created, or also configured once by
  \<open>ikcp_nodelay\<close>, which is how the server and the client set theirs up.\<close>

definition ready_kcp :: "IKCPCB \<Rightarrow> bool" where
  "ready_kcp kcp \<longleftrightarrow>
     (\<exists>k. fresh_kcp k \<and> (kcp = k \<or> (\<exists>nodelay interval resend nc. kcp = snd (ikcp_nodelay k nodelay interval resend nc))))"

definition net_init :: "net_state \<Rightarrow> bool" where
  "net_init s \<longleftrightarrow> ready_kcp (n_a s) \<and> ready_kcp (n_b s) \<and> n_wire s = {} \<and> n_sent s = [] \<and> n_got s = []"

text \<open>The network delivers to the receiver any datagram the sender has sent, whenever and as often as it
  likes, or never. The sender may be fed any bytes at all. Both sides also make the other calls that the
  owners in \<open>connection.cpp\<close> and \<open>kcp_client.cpp\<close> make during a conversation: the receiver sends and updates, the
  sender receives. Those owners call \<open>ikcp_nodelay\<close> once, before the first message (\<open>ready_kcp\<close>), and never
  \<open>ikcp_interval\<close>, \<open>ikcp_wndsize\<close>, \<open>ikcp_setmtu\<close> or \<open>ikcp_flush\<close>, so the machine has no step for them.\<close>

inductive net_step :: "net_state \<Rightarrow> net_state \<Rightarrow> bool" where
  net_send: "alloc_bounded alloc \<Longrightarrow> ikcp_send alloc (n_a s) (Some msg) (of_nat (length msg)) = Some (r, a) \<Longrightarrow>
     length msg < 2147483648 \<Longrightarrow>
     net_step s (s\<lparr>n_a := a, n_sent := (if r = 0 then n_sent s @ [msg] else n_sent s)\<rparr>)"
| net_flush: "ikcp_update (n_a s) current = Some (a, out) \<Longrightarrow>
     net_step s (s\<lparr>n_a := a, n_wire := n_wire s \<union> set out\<rparr>)"
| net_back: "alloc_bounded alloc \<Longrightarrow> ikcp_input alloc (n_a s) data sz = Some (r, a) \<Longrightarrow> net_step s (s\<lparr>n_a := a\<rparr>)"
| net_read: "ikcp_recv (n_a s) buffer len = Some (r, out, a) \<Longrightarrow> net_step s (s\<lparr>n_a := a\<rparr>)"
| net_deliver: "alloc_bounded alloc \<Longrightarrow> d \<in> n_wire s \<Longrightarrow>
     ikcp_input alloc (n_b s) (Some d) (int (length d)) = Some (r, b) \<Longrightarrow> net_step s (s\<lparr>n_b := b\<rparr>)"
| net_recv: "ikcp_recv (n_b s) True len = Some (r, out, b) \<Longrightarrow>
     net_step s (s\<lparr>n_b := b, n_got := (if 0 \<le> sint len \<and> 0 \<le> r then n_got s @ [out] else n_got s)\<rparr>)"
| net_reply: "alloc_bounded alloc \<Longrightarrow> ikcp_send alloc (n_b s) (Some msg) (of_nat (length msg)) = Some (r, b) \<Longrightarrow>
     length msg < 2147483648 \<Longrightarrow> net_step s (s\<lparr>n_b := b\<rparr>)"
| net_tick: "ikcp_update (n_b s) current = Some (b, out) \<Longrightarrow> net_step s (s\<lparr>n_b := b\<rparr>)"

text \<open>The log of the sender; its maximum segment size is 1376 throughout.\<close>

definition net_log :: "net_state \<Rightarrow> frag list" where
  "net_log s = msg_log 1376 (n_sent s)"

text \<open>The relation of the two ends, as long as fewer than $2^{32}$ fragments have been sent, so that no
  sequence number is used twice.\<close>

definition net_inv :: "net_state \<Rightarrow> bool" where
  "net_inv s \<longleftrightarrow>
     api_inv (n_a s) \<and> api_inv (n_b s) \<and> k_mss (n_a s) = 1376 \<and> (\<forall>msg \<in> set (n_sent s). msg_ok 1376 msg) \<and>
     (length (net_log s) < 4294967296 \<longrightarrow>
        snd_log (net_log s) (n_a s) \<and> (\<forall>d \<in> n_wire s. made_of (wire_ok (net_log s)) d) \<and>
        (\<exists>k \<le> length (n_sent s). n_got s = take k (n_sent s) \<and> rcv_log (net_log s) (msg_log 1376 (take k (n_sent s))) (n_b s)))"

lemma net_invI:
  assumes "api_inv (n_a s)" "api_inv (n_b s)" "k_mss (n_a s) = 1376" "\<forall>msg \<in> set (n_sent s). msg_ok 1376 msg"
    and "length (net_log s) < 4294967296 \<Longrightarrow> snd_log (net_log s) (n_a s)"
    and "length (net_log s) < 4294967296 \<Longrightarrow> \<forall>d \<in> n_wire s. made_of (wire_ok (net_log s)) d"
    and "length (net_log s) < 4294967296 \<Longrightarrow> \<exists>k \<le> length (n_sent s). n_got s = take k (n_sent s) \<and>
      rcv_log (net_log s) (msg_log 1376 (take k (n_sent s))) (n_b s)"
  shows "net_inv s"
  using assms by (simp add: net_inv_def)

lemma cfg_mss: "cfg_view k = cfg_view k' \<Longrightarrow> k_mss k = k_mss k'"
  by (simp add: cfg_view_def)

lemma fresh_fields:
  assumes "fresh_kcp k"
  shows "k_mss k = 1376" "snd_log [] k" "rcv_log [] [] k"
  using assms by (auto simp: fresh_kcp_def ikcp_create_def Let_def kcp_consts snd_log_def rcv_log_def split: if_splits)

lemma nodelay_views:
  "k_mss (snd (ikcp_nodelay k nodelay interval resend nc)) = k_mss k"
  "snd_view (snd (ikcp_nodelay k nodelay interval resend nc)) = snd_view k"
  "rcv_view (snd (ikcp_nodelay k nodelay interval resend nc)) = rcv_view k"
  by (simp_all add: ikcp_nodelay_def Let_def snd_view_def rcv_view_def)

lemma ready_fields:
  assumes "ready_kcp k"
  shows "k_mss k = 1376" "snd_log [] k" "rcv_log [] [] k" "api_inv k"
proof -
  obtain k\<^sub>0 where k: "fresh_kcp k\<^sub>0"
    and or: "k = k\<^sub>0 \<or> (\<exists>nodelay interval resend nc. k = snd (ikcp_nodelay k\<^sub>0 nodelay interval resend nc))"
    using assms unfolding ready_kcp_def by blast
  from or show "k_mss k = 1376" "snd_log [] k" "rcv_log [] [] k"
    using fresh_fields [OF k] nodelay_views snd_log_view rcv_log_view by metis+
  from or show "api_inv k" using fresh_inv [OF k] api_step_inv [OF fresh_inv [OF k] api_nodelay] by blast
qed

lemma net_init_inv: "net_init s \<Longrightarrow> net_inv s"
  using ready_fields by (auto simp: net_init_def net_inv_def net_log_def msg_log_def)

lemma made_of_mono: "made_of P d \<Longrightarrow> (\<And>x. P x \<Longrightarrow> Q x) \<Longrightarrow> made_of Q d"
  unfolding made_of_def by blast

lemma update_stream:
  assumes "api_inv kcp" "snd_log log kcp" "ikcp_update kcp current = Some (kcp', sent)"
  shows "snd_log log kcp'" and "\<forall>d \<in> set sent. made_of (wire_ok log) d"
proof -
  obtain k due where k: "update_clock kcp current = (k, due)" by fastforce
  have "kcp_wf k" "k_output k" using update_clock_wf [of kcp current] update_clock_updated(2) [of kcp current] k assms(1)
    by (simp_all add: api_inv_def)
  moreover have "snd_view k = snd_view kcp" using k by (auto simp: update_clock_def Let_def snd_view_def)
  then have "snd_log log k" using assms(2) snd_log_view by blast
  ultimately have "snd_log log kcp' \<and> (\<forall>d \<in> set sent. made_of (wire_ok log) d)"
    using flush_stream [of k log kcp' sent] assms(3) k by (auto simp: update_eq split: if_splits)
  then show "snd_log log kcp'" and "\<forall>d \<in> set sent. made_of (wire_ok log) d" by blast+
qed

text \<open>Accepting a message extends the log.\<close>

lemma net_send_inv:
  assumes inv: "net_inv s" and step: "ikcp_send alloc (n_a s) (Some msg) (of_nat (length msg)) = Some (r, a)"
    "alloc_bounded alloc" "length msg < 2147483648"
  shows "net_inv (s\<lparr>n_a := a, n_sent := (if r = 0 then n_sent s @ [msg] else n_sent s)\<rparr>)" (is "net_inv ?t")
proof -
  have api: "api_inv (n_a s)" "k_mss (n_a s) = 1376" using inv by (simp_all add: net_inv_def)
  then have cfg: "cfg_wf (n_a s)" by (simp add: api_inv_def kcp_wf_def)
  have api': "api_inv a" using api_step_inv [OF api(1) api_send_msg [OF step(2,1,3)]] .
  have mss: "k_mss a = 1376" using cfg_mss [OF send_cfg [OF cfg step(1,3)]] api(2) by simp
  from send_cases [OF cfg step(1,3)] consider "r = -2" "a = n_a s"
    | c where "r = 0" "msg_ok 1376 msg" "a = (n_a s)\<lparr>k_snd_queue := k_snd_queue (n_a s) @ fragments 1376 msg, k_nsnd_que := c\<rparr>"
    using api(2) by auto
  then show ?thesis
  proof cases
    case 1
    then show ?thesis using inv by simp
  next
    case 2
    have log: "net_log ?t = net_log s @ frags 1376 msg" using 2(1) by (simp add: net_log_def msg_log_def)
    show ?thesis
    proof (rule net_invI)
      assume small: "length (net_log ?t) < 4294967296"
      then have old: "snd_log (net_log s) (n_a s)" "\<forall>d \<in> n_wire s. made_of (wire_ok (net_log s)) d"
        "\<exists>k \<le> length (n_sent s). n_got s = take k (n_sent s) \<and> rcv_log (net_log s) (msg_log 1376 (take k (n_sent s))) (n_b s)"
        using inv log by (simp_all add: net_inv_def)
      show "snd_log (net_log ?t) (n_a ?t)"
        using snd_log_append [OF old(1), of "fragments 1376 msg"] unfolding log by (simp add: 2(3) frags_def)
      show "\<forall>d \<in> n_wire ?t. made_of (wire_ok (net_log ?t)) d"
        using old(2) made_of_mono [of "wire_ok (net_log s)" _ "wire_ok (net_log s @ frags 1376 msg)"] wire_ok_append
        unfolding log by simp
      show "\<exists>k \<le> length (n_sent ?t). n_got ?t = take k (n_sent ?t) \<and>
          rcv_log (net_log ?t) (msg_log 1376 (take k (n_sent ?t))) (n_b ?t)"
      proof -
        obtain k where "k \<le> length (n_sent s)" "n_got s = take k (n_sent s)"
          "rcv_log (net_log s) (msg_log 1376 (take k (n_sent s))) (n_b s)" using old(3) by blast
        then show ?thesis using rcv_log_append unfolding log by (intro exI [of _ k]) (simp add: 2(1))
      qed
    qed (use inv api' mss 2 in \<open>auto simp: net_inv_def\<close>)
  qed
qed

lemma net_sender_inv:
  assumes inv: "net_inv s" and step: "api_step (n_a s) a" "k_mss a = 1376"
    and "\<And>log. snd_log log (n_a s) \<Longrightarrow> snd_log log a \<and> (\<forall>d \<in> D. made_of (wire_ok log) d)"
  shows "net_inv (s\<lparr>n_a := a, n_wire := n_wire s \<union> D\<rparr>)" (is "net_inv ?t")
proof (rule net_invI)
  have log: "net_log ?t = net_log s" by (simp add: net_log_def)
  show "api_inv (n_a ?t)" using api_step_inv [OF _ step(1)] inv by (simp add: net_inv_def)
  assume small: "length (net_log ?t) < 4294967296"
  then have old: "snd_log (net_log s) (n_a s)" "\<forall>d \<in> n_wire s. made_of (wire_ok (net_log s)) d"
    using inv log by (simp_all add: net_inv_def)
  show "snd_log (net_log ?t) (n_a ?t)" "\<forall>d \<in> n_wire ?t. made_of (wire_ok (net_log ?t)) d"
    using old assms(4) [OF old(1)] unfolding log by auto
  show "\<exists>k \<le> length (n_sent ?t). n_got ?t = take k (n_sent ?t) \<and> rcv_log (net_log ?t) (msg_log 1376 (take k (n_sent ?t))) (n_b ?t)"
    using inv small unfolding log net_inv_def by simp
qed (use inv step(2) in \<open>auto simp: net_inv_def\<close>)

lemma net_receiver_inv:
  assumes inv: "net_inv s" and step: "api_step (n_b s) b"
    and "\<And>k. length (net_log s) < 4294967296 \<Longrightarrow> k \<le> length (n_sent s) \<Longrightarrow> n_got s = take k (n_sent s) \<Longrightarrow>
      rcv_log (net_log s) (msg_log 1376 (take k (n_sent s))) (n_b s) \<Longrightarrow>
      \<exists>k' \<le> length (n_sent s). got = take k' (n_sent s) \<and> rcv_log (net_log s) (msg_log 1376 (take k' (n_sent s))) b"
  shows "net_inv (s\<lparr>n_b := b, n_got := got\<rparr>)" (is "net_inv ?t")
proof (rule net_invI)
  have log: "net_log ?t = net_log s" by (simp add: net_log_def)
  show "api_inv (n_b ?t)" using api_step_inv [OF _ step] inv by (simp add: net_inv_def)
  assume small: "length (net_log ?t) < 4294967296"
  show "snd_log (net_log ?t) (n_a ?t)" "\<forall>d \<in> n_wire ?t. made_of (wire_ok (net_log ?t)) d"
    using inv small unfolding log net_inv_def by simp_all
  show "\<exists>k \<le> length (n_sent ?t). n_got ?t = take k (n_sent ?t) \<and> rcv_log (net_log ?t) (msg_log 1376 (take k (n_sent ?t))) (n_b ?t)"
    using inv small assms(3) unfolding log net_inv_def by fastforce
qed (use inv in \<open>auto simp: net_inv_def\<close>)

lemma net_recv_inv:
  assumes inv: "net_inv s" and run: "ikcp_recv (n_b s) True len = Some (r, out, b)"
  shows "net_inv (s\<lparr>n_b := b, n_got := (if 0 \<le> sint len \<and> 0 \<le> r then n_got s @ [out] else n_got s)\<rparr>)"
proof (rule net_receiver_inv [OF inv api_recv [OF run]])
  fix k
  assume small: "length (net_log s) < 4294967296" and k: "k \<le> length (n_sent s)" "n_got s = take k (n_sent s)"
    and log: "rcv_log (net_log s) (msg_log 1376 (take k (n_sent s))) (n_b s)"
  have wf: "rcv_wf (n_b s)" "\<forall>msg \<in> set (n_sent s). msg_ok 1376 msg"
    using inv by (simp_all add: net_inv_def api_inv_def kcp_wf_def)
  show "\<exists>k' \<le> length (n_sent s). (if 0 \<le> sint len \<and> 0 \<le> r then n_got s @ [out] else n_got s) = take k' (n_sent s) \<and>
      rcv_log (net_log s) (msg_log 1376 (take k' (n_sent s))) b"
  proof (cases "0 \<le> sint len \<and> 0 \<le> r")
    case True
    then have "k < length (n_sent s) \<and> out = n_sent s ! k \<and> rcv_log (net_log s) (msg_log 1376 (take (Suc k) (n_sent s))) b"
      using recv_deliver [OF wf(1) log [unfolded net_log_def] _ wf(2) small [unfolded net_log_def] k(1) run] unfolding net_log_def by simp
    moreover have "take (Suc k) (n_sent s) = take k (n_sent s) @ [n_sent s ! k]" if "k < length (n_sent s)"
      using that by (rule take_Suc_conv_app_nth)
    ultimately show ?thesis using True k(2) by (intro exI [of _ "Suc k"]) auto
  next
    case False
    then have "sint len < 0 \<or> r < 0" by linarith
    then have "rcv_log (net_log s) (msg_log 1376 (take k (n_sent s))) b"
      by (rule recv_fail_log [OF log small run])
    then show ?thesis using False k by auto
  qed
qed

lemma net_step_inv:
  assumes "net_inv s" "net_step s t" shows "net_inv t"
  using assms(2)
proof cases
  case (net_send alloc msg r a)
  then show ?thesis using net_send_inv [OF assms(1) net_send(3,2,4)] by simp
next
  case (net_flush current a out)
  have inv: "api_inv (n_a s)" "k_mss (n_a s) = 1376" using assms(1) by (simp_all add: net_inv_def)
  have "k_mss a = 1376" using cfg_mss [OF update_cfg [OF net_flush(2)]] inv(2) by simp
  then show ?thesis unfolding net_flush(1)
    using net_sender_inv [OF assms(1) api_update [OF net_flush(2)], where D = "set out"] update_stream [OF inv(1) _ net_flush(2)] by blast
next
  case (net_back alloc data sz r a)
  have "k_mss a = 1376" using cfg_mss [OF input_cfg [OF net_back(3)]] assms(1) by (simp add: net_inv_def)
  then show ?thesis unfolding net_back(1)
    using net_sender_inv [OF assms(1) api_input [OF net_back(2,3)], where D = "{}"] input_snd_log [OF _ net_back(3)] by simp
next
  case (net_read buffer len r out a)
  have "k_mss a = 1376" using cfg_mss [OF recv_cfg [OF net_read(2)]] assms(1) by (simp add: net_inv_def)
  moreover have "snd_view a = snd_view (n_a s)" using recv_result [OF net_read(2)] by (auto simp: stream_frame)
  ultimately show ?thesis unfolding net_read(1)
    using net_sender_inv [OF assms(1) api_recv [OF net_read(2)], where D = "{}"] snd_log_view [of a "n_a s"] by simp
next
  case (net_deliver alloc d r b)
  have wf: "kcp_wf (n_b s)" using assms(1) by (simp add: net_inv_def api_inv_def)
  have wire: "made_of (wire_ok (net_log s)) d" if "length (net_log s) < 4294967296"
    using assms(1) that net_deliver(3) by (auto simp: net_inv_def)
  have "net_inv (s\<lparr>n_b := b, n_got := n_got s\<rparr>)"
    by (rule net_receiver_inv [OF assms(1) api_input [OF net_deliver(2,4)]])
      (use input_rcv_log [OF net_deliver(2) wf _ _ wire net_deliver(4)] in blast)
  then show ?thesis unfolding net_deliver(1) by simp
next
  case (net_recv len r out b)
  then show ?thesis using net_recv_inv [OF assms(1) net_recv(2)] by simp
next
  case (net_reply alloc msg r b)
  have "cfg_wf (n_b s)" using assms(1) by (simp add: net_inv_def api_inv_def kcp_wf_def)
  then have "rcv_view b = rcv_view (n_b s)" using send_cases [OF _ net_reply(3,4)] by (auto simp: rcv_view_def)
  then have "net_inv (s\<lparr>n_b := b, n_got := n_got s\<rparr>)"
    using net_receiver_inv [OF assms(1) api_send_msg [OF net_reply(2,3,4)]] rcv_log_view [of b "n_b s"] by blast
  then show ?thesis unfolding net_reply(1) by simp
next
  case (net_tick current b out)
  have "kcp_wf (n_b s)" "k_output (n_b s)" using assms(1) by (simp_all add: net_inv_def api_inv_def)
  then have "rcv_view b = rcv_view (n_b s)" using update_ok [of "n_b s" current] net_tick(2) by auto
  then have "net_inv (s\<lparr>n_b := b, n_got := n_got s\<rparr>)"
    using net_receiver_inv [OF assms(1) api_update [OF net_tick(2)]] rcv_log_view [of b "n_b s"] by blast
  then show ?thesis unfolding net_tick(1) by simp
qed

interpretation net: step_system net_init net_step net_inv
  by unfold_locales (rule net_init_inv, assumption, rule net_step_inv)

lemma net_prefix:
  assumes "net_init s" "net_step\<^sup>*\<^sup>* s t" "length (net_log t) < 4294967296"
  shows "\<exists>rest. n_sent t = n_got t @ rest"
proof -
  obtain k where "n_got t = take k (n_sent t)"
    using net.reachable_inv [OF assms(1,2)] assms(3) by (auto simp: net_inv_def)
  then have "n_sent t = n_got t @ drop k (n_sent t)" by simp
  then show ?thesis by blast
qed

text \<open>The receive window stays 32, so no message of more than 32 fragments is ever returned.\<close>

definition got_small :: "net_state \<Rightarrow> bool" where
  "got_small s \<longleftrightarrow> net_inv s \<and> rcv_room 32 (n_b s) \<and>
     (length (net_log s) < 4294967296 \<longrightarrow> (\<forall>msg \<in> set (n_got s). length (chunks 1376 msg) \<le> 32))"

lemma ready_room: "ready_kcp k \<Longrightarrow> rcv_room 32 k"
proof -
  have "rcv_room 32 k0" if "fresh_kcp k0" for k0
    using that by (auto simp: fresh_kcp_def ikcp_create_def Let_def kcp_consts rcv_room_def split: if_splits)
  then show "ready_kcp k \<Longrightarrow> rcv_room 32 k" unfolding ready_kcp_def using room_view [OF nodelay_views(3)] by blast
qed

lemma net_recv_small:
  assumes "got_small s" "ikcp_recv (n_b s) True len = Some (r, out, b)" "0 \<le> sint len" "0 \<le> r"
    and "length (net_log s) < 4294967296"
  shows "length (chunks 1376 out) \<le> 32"
proof -
  have inv: "net_inv s" "length (k_rcv_queue (n_b s)) \<le> 32" using assms(1) by (simp_all add: got_small_def rcv_room_def)
  then have wf: "rcv_wf (n_b s)" "\<forall>msg \<in> set (n_sent s). msg_ok 1376 msg" by (simp_all add: net_inv_def api_inv_def kcp_wf_def)
  obtain k where "k \<le> length (n_sent s)" "rcv_log (msg_log 1376 (n_sent s)) (msg_log 1376 (take k (n_sent s))) (n_b s)"
    using inv(1) assms(5) by (auto simp: net_inv_def net_log_def)
  from recv_deliver [OF wf(1) this(2) _ wf(2) assms(5) [unfolded net_log_def] this(1) assms(2-4)] inv(2)
  show ?thesis by (auto intro: le_trans)
qed

lemma got_small_step:
  assumes "got_small s" "net_step s t" shows "got_small t"
proof -
  have inv: "net_inv t" using net_step_inv [OF _ assms(2)] assms(1) by (simp add: got_small_def)
  have old: "net_inv s" "rcv_room 32 (n_b s)"
    "length (net_log s) < 4294967296 \<Longrightarrow> \<forall>msg \<in> set (n_got s). length (chunks 1376 msg) \<le> 32"
    using assms(1) by (simp_all add: got_small_def)
  have wf: "kcp_wf (n_b s)" "k_output (n_b s)" "cfg_wf (n_b s)" using old(1) by (simp_all add: net_inv_def api_inv_def kcp_wf_def)
  have room: "rcv_room 32 (n_b t)" using assms(2)
  proof cases
    case (net_deliver alloc d r b)
    then show ?thesis using room_input [OF old(2) net_deliver(4)] by simp
  next
    case (net_recv len r out b)
    then show ?thesis using room_recv [OF old(2) net_recv(2)] by simp
  next
    case (net_reply alloc msg r b)
    have "rcv_view b = rcv_view (n_b s)" using send_cases [OF wf(3) net_reply(3,4)] by (auto simp: rcv_view_def)
    from room_view [OF this] show ?thesis using net_reply(1) old(2) by simp
  next
    case (net_tick current b out)
    have "rcv_view b = rcv_view (n_b s)" using update_ok [OF wf(1,2), of current] net_tick(2) by auto
    from room_view [OF this] show ?thesis using net_tick(1) old(2) by simp
  qed (use old(2) in simp_all)
  have "length (net_log s) \<le> length (net_log t)" using assms(2) by cases (simp_all add: net_log_def msg_log_def)
  moreover have "\<forall>msg \<in> set (n_got t). length (chunks 1376 msg) \<le> 32" if "length (net_log s) < 4294967296"
    using assms(2) old(3) [OF that] net_recv_small [OF assms(1) _ _ _ that] by cases auto
  ultimately show ?thesis using inv room by (simp add: got_small_def)
qed

interpretation small: step_system net_init net_step got_small
proof
  fix s assume "net_init s"
  then show "got_small s" using net_init_inv ready_room by (simp add: got_small_def net_init_def)
qed (rule got_small_step)

lemma oversized_blocks:
  assumes "net_init s" "net_step\<^sup>*\<^sup>* s t" "length (net_log t) < 4294967296" "i < length (n_sent t)" "44032 < length (n_sent t ! i)"
  shows "length (n_got t) \<le> i"
proof (rule ccontr)
  assume i: "\<not> length (n_got t) \<le> i"
  obtain rest where "n_sent t = n_got t @ rest" using net_prefix [OF assms(1-3)] by blast
  then have "n_sent t ! i \<in> set (n_got t)" using i by (simp add: nth_append)
  then have "length (chunks 1376 (n_sent t ! i)) \<le> 32"
    using small.reachable_inv [OF assms(1,2)] assms(3) by (simp add: got_small_def)
  moreover have "length (n_sent t ! i) \<le> 1376 * length (chunks 1376 (n_sent t ! i))" by (rule chunks_cover) simp
  ultimately show False using assms(5) by linarith
qed

end
