(* ===== verification/Iqueue.thy ===== *)
theory Iqueue
  imports Kcp_Prelude
begin

text \<open>
  The intrusive doubly linked queue of \<open>src/util/ikcp.h\<close> (the \<open>IQUEUE_*\<close> macros) on an explicit
  store: an address is a number, \<open>0\<close> is \<open>NULL\<close>, and the store gives the \<open>next\<close> and \<open>prev\<close> pointer
  of every address. Each macro is the sequence of assignments of its comma expression, in order,
  every right-hand side read from the store as the earlier assignments left it.

  \<open>queue_rep h q xs\<close> says that the ring through the head \<open>q\<close> holds exactly the entries \<open>xs\<close>, in order
  and in both directions. The lemmas show that the macros act on \<open>xs\<close> as the list operations the
  other theories use for the four queues of a control block; the locale \<open>queue_interface\<close> states
  that contract, and its client lemmas are the two loops of \<open>ikcp.c\<close> that move and free entries.
\<close>

type_synonym addr = nat

record iqheap =
  nxt :: "addr \<Rightarrow> addr"
  prv :: "addr \<Rightarrow> addr"

definition set_next :: "addr \<Rightarrow> addr \<Rightarrow> iqheap \<Rightarrow> iqheap" where
  "set_next p v h = h\<lparr>nxt := (nxt h)(p := v)\<rparr>"

definition set_prev :: "addr \<Rightarrow> addr \<Rightarrow> iqheap \<Rightarrow> iqheap" where
  "set_prev p v h = h\<lparr>prv := (prv h)(p := v)\<rparr>"

section \<open>The macros\<close>

definition IQUEUE_INIT :: "addr \<Rightarrow> iqheap \<Rightarrow> iqheap" where
  "IQUEUE_INIT ptr h = set_prev ptr ptr (set_next ptr ptr h)"

definition IQUEUE_ADD :: "addr \<Rightarrow> addr \<Rightarrow> iqheap \<Rightarrow> iqheap" where
  "IQUEUE_ADD node head h =
     (let h1 = set_prev node head h;
          h2 = set_next node (nxt h1 head) h1;
          h3 = set_prev (nxt h2 head) node h2
      in set_next head node h3)"

definition IQUEUE_ADD_TAIL :: "addr \<Rightarrow> addr \<Rightarrow> iqheap \<Rightarrow> iqheap" where
  "IQUEUE_ADD_TAIL node head h =
     (let h1 = set_prev node (prv h head) h;
          h2 = set_next node head h1;
          h3 = set_next (prv h2 head) node h2
      in set_prev head node h3)"

definition IQUEUE_DEL_BETWEEN :: "addr \<Rightarrow> addr \<Rightarrow> iqheap \<Rightarrow> iqheap" where
  "IQUEUE_DEL_BETWEEN p n h = set_next p n (set_prev n p h)"

definition IQUEUE_DEL :: "addr \<Rightarrow> iqheap \<Rightarrow> iqheap" where
  "IQUEUE_DEL entry h =
     (let h1 = set_prev (nxt h entry) (prv h entry) h;
          h2 = set_next (prv h1 entry) (nxt h1 entry) h1;
          h3 = set_next entry 0 h2
      in set_prev entry 0 h3)"

definition IQUEUE_DEL_INIT :: "addr \<Rightarrow> iqheap \<Rightarrow> iqheap" where
  "IQUEUE_DEL_INIT entry h = IQUEUE_INIT entry (IQUEUE_DEL entry h)"

definition IQUEUE_IS_EMPTY :: "addr \<Rightarrow> iqheap \<Rightarrow> bool" where
  "IQUEUE_IS_EMPTY entry h \<longleftrightarrow> entry = nxt h entry"

text \<open>\<open>IQUEUE_FOREACH\<close> visits entries from \<open>head->next\<close> until it is back at \<open>head\<close>. On a store that is
  no ring the walk need not end, so it is a partial function: \<open>None\<close> is a walk that never stops.\<close>

partial_function (option) iqueue_foreach_from :: "addr \<Rightarrow> iqheap \<Rightarrow> addr \<Rightarrow> addr list \<Rightarrow> addr list option" where
  "iqueue_foreach_from head h pos seen =
     (if pos = head then Some seen else iqueue_foreach_from head h (nxt h pos) (seen @ [pos]))"

definition IQUEUE_FOREACH :: "addr \<Rightarrow> iqheap \<Rightarrow> addr list option" where
  "IQUEUE_FOREACH head h = iqueue_foreach_from head h (nxt h head) []"

definition iqueue_splice_raw :: "addr \<Rightarrow> addr \<Rightarrow> iqheap \<Rightarrow> iqheap" where
  "iqueue_splice_raw lst head h =
     (let first = nxt h lst; last_e = prv h lst; at = nxt h head;
          h1 = set_prev first head h;
          h2 = set_next head first h1;
          h3 = set_next last_e at h2
      in set_prev at last_e h3)"

definition iqueue_splice :: "addr \<Rightarrow> addr \<Rightarrow> iqheap \<Rightarrow> iqheap" where
  "iqueue_splice lst head h = (if \<not> IQUEUE_IS_EMPTY lst h then iqueue_splice_raw lst head h else h)"

definition iqueue_splice_init :: "addr \<Rightarrow> addr \<Rightarrow> iqheap \<Rightarrow> iqheap" where
  "iqueue_splice_init lst head h = IQUEUE_INIT lst (iqueue_splice lst head h)"

lemmas iqueue_defs = IQUEUE_INIT_def IQUEUE_ADD_def IQUEUE_ADD_TAIL_def IQUEUE_DEL_BETWEEN_def
  IQUEUE_DEL_def IQUEUE_DEL_INIT_def IQUEUE_IS_EMPTY_def iqueue_splice_raw_def Let_def

section \<open>What a ring holds\<close>

primrec linked :: "iqheap \<Rightarrow> addr \<Rightarrow> addr list \<Rightarrow> addr \<Rightarrow> bool" where
  "linked h a [] b \<longleftrightarrow> nxt h a = b \<and> prv h b = a"
| "linked h a (x # xs) b \<longleftrightarrow> nxt h a = x \<and> prv h x = a \<and> linked h x xs b"

definition queue_rep :: "iqheap \<Rightarrow> addr \<Rightarrow> addr list \<Rightarrow> bool" where
  "queue_rep h q xs \<longleftrightarrow> q \<noteq> 0 \<and> 0 \<notin> set xs \<and> distinct (q # xs) \<and> linked h q xs q"

lemma next_set [simp]: "nxt (set_next p v h) = (nxt h)(p := v)" "nxt (set_prev p v h) = nxt h"
  by (simp_all add: set_next_def set_prev_def)

lemma prev_set [simp]: "prv (set_prev p v h) = (prv h)(p := v)" "prv (set_next p v h) = prv h"
  by (simp_all add: set_next_def set_prev_def)

lemma linked_append [simp]: "linked h a (xs @ p # ys) b \<longleftrightarrow> linked h a xs p \<and> linked h p ys b"
  by (induction xs arbitrary: a) auto

text \<open>A stretch of a ring depends only on the forward pointers of its left part and the backward
  pointers of its right part: the frame rule of every proof below.\<close>

lemma linked_cong:
  assumes "\<And>x. x \<in> insert a (set xs) \<Longrightarrow> nxt h' x = nxt h x"
    and "\<And>x. x \<in> insert b (set xs) \<Longrightarrow> prv h' x = prv h x"
  shows "linked h' a xs b \<longleftrightarrow> linked h a xs b"
  using assms by (induction xs arbitrary: a) auto

lemma linked_last: "linked h a xs b \<Longrightarrow> prv h b = last (a # xs)"
  by (induction xs arbitrary: a) auto

lemma linked_first: "linked h a xs b \<Longrightarrow> nxt h a = hd (xs @ [b])"
  by (cases xs) auto

lemma queue_rep_frame:
  assumes "queue_rep h q xs"
    and "\<And>x. x \<in> insert q (set xs) \<Longrightarrow> nxt h' x = nxt h x"
    and "\<And>x. x \<in> insert q (set xs) \<Longrightarrow> prv h' x = prv h x"
  shows "queue_rep h' q xs"
  using assms linked_cong [of q xs h' h q] by (auto simp: queue_rep_def)

section \<open>The macros act as list operations\<close>

lemma queue_rep_init: "q \<noteq> 0 \<Longrightarrow> queue_rep (IQUEUE_INIT q h) q []"
  by (simp add: queue_rep_def IQUEUE_INIT_def)

lemma queue_rep_is_empty: "queue_rep h q xs \<Longrightarrow> IQUEUE_IS_EMPTY q h \<longleftrightarrow> xs = []"
  by (cases xs) (auto simp: queue_rep_def IQUEUE_IS_EMPTY_def)

text \<open>Inserting after the head, after an entry \<open>p\<close> inside the ring, and before the head.\<close>

lemma linked_insert_after:
  assumes "linked h p ys b" "n \<notin> insert p (insert b (set ys))" "distinct (p # ys)" "b \<notin> set ys"
  shows "linked (IQUEUE_ADD n p h) p (n # ys) b"
proof (cases ys)
  case Nil
  then show ?thesis using assms by (auto simp: IQUEUE_ADD_def Let_def)
next
  case (Cons y zs)
  have "linked (IQUEUE_ADD n p h) y zs b \<longleftrightarrow> linked h y zs b"
    by (rule linked_cong) (use assms Cons in \<open>auto simp: IQUEUE_ADD_def Let_def\<close>)
  then show ?thesis using assms Cons by (auto simp: IQUEUE_ADD_def Let_def)
qed

lemma queue_rep_add_head:
  assumes "queue_rep h q xs" "n \<noteq> 0" "n \<notin> insert q (set xs)"
  shows "queue_rep (IQUEUE_ADD n q h) q (n # xs)"
  using assms linked_insert_after [of h q xs q n] by (auto simp: queue_rep_def)

lemma queue_rep_add_after:
  assumes "queue_rep h q (xs @ p # ys)" "n \<noteq> 0" "n \<notin> insert q (set (xs @ p # ys))"
  shows "queue_rep (IQUEUE_ADD n p h) q (xs @ p # n # ys)"
proof -
  have right: "linked (IQUEUE_ADD n p h) p (n # ys) q"
    by (rule linked_insert_after) (use assms in \<open>auto simp: queue_rep_def\<close>)
  have "nxt h p = hd (ys @ [q])"
    using assms linked_first by (auto simp: queue_rep_def)
  then have "linked (IQUEUE_ADD n p h) q xs p \<longleftrightarrow> linked h q xs p"
    by (intro linked_cong) (use assms in \<open>cases ys; auto simp: queue_rep_def IQUEUE_ADD_def Let_def\<close>)+
  with right assms show ?thesis by (auto simp: queue_rep_def)
qed

lemma queue_rep_add_tail:
  assumes "queue_rep h q xs" "n \<noteq> 0" "n \<notin> insert q (set xs)"
  shows "queue_rep (IQUEUE_ADD_TAIL n q h) q (xs @ [n])"
proof (cases xs rule: rev_cases)
  case Nil
  then show ?thesis using assms by (auto simp: queue_rep_def IQUEUE_ADD_TAIL_def Let_def)
next
  case (snoc ys y)
  then have "prv h q = y" using assms linked_last by (auto simp: queue_rep_def)
  then have "linked (IQUEUE_ADD_TAIL n q h) q ys y \<longleftrightarrow> linked h q ys y"
    by (intro linked_cong) (use assms snoc in \<open>auto simp: queue_rep_def IQUEUE_ADD_TAIL_def Let_def\<close>)
  with snoc \<open>prv h q = y\<close> assms show ?thesis
    by (auto simp: queue_rep_def IQUEUE_ADD_TAIL_def Let_def)
qed

lemma queue_rep_del:
  assumes rep: "queue_rep h q (xs @ e # ys)"
  shows "queue_rep (IQUEUE_DEL e h) q (xs @ ys)"
    and "nxt (IQUEUE_DEL e h) e = 0 \<and> prv (IQUEUE_DEL e h) e = 0"
proof -
  have nx: "nxt h e = hd (ys @ [q])" and pv: "prv h e = last (q # xs)"
    using rep linked_first linked_last by (auto simp: queue_rep_def)
  have left: "linked (IQUEUE_DEL e h) q xs (hd (ys @ [q]))"
  proof (cases xs rule: rev_cases)
    case Nil
    then show ?thesis using rep nx pv by (cases ys) (auto simp: queue_rep_def IQUEUE_DEL_def Let_def)
  next
    case (snoc zs z)
    have "linked (IQUEUE_DEL e h) q zs z \<longleftrightarrow> linked h q zs z"
      by (intro linked_cong)
        (use rep snoc nx pv in \<open>cases ys; auto simp: queue_rep_def IQUEUE_DEL_def Let_def\<close>)+
    then show ?thesis using rep snoc nx pv
      by (cases ys) (auto simp: queue_rep_def IQUEUE_DEL_def Let_def)
  qed
  show "queue_rep (IQUEUE_DEL e h) q (xs @ ys)"
  proof (cases ys)
    case Nil
    then show ?thesis using left rep by (auto simp: queue_rep_def)
  next
    case (Cons z zs)
    have "linked (IQUEUE_DEL e h) z zs q \<longleftrightarrow> linked h z zs q"
      by (intro linked_cong)
        (use rep Cons nx pv in \<open>cases xs rule: rev_cases; auto simp: queue_rep_def IQUEUE_DEL_def Let_def\<close>)+
    then show ?thesis using left Cons rep by (auto simp: queue_rep_def)
  qed
  show "nxt (IQUEUE_DEL e h) e = 0 \<and> prv (IQUEUE_DEL e h) e = 0"
    using rep nx pv by (auto simp: queue_rep_def IQUEUE_DEL_def Let_def)
qed

text \<open>A macro touches only addresses of the ring it works on, so a disjoint ring keeps its entries: the
  four queues of a control block live in one store.\<close>

definition rings_apart :: "addr \<Rightarrow> addr list \<Rightarrow> addr \<Rightarrow> addr list \<Rightarrow> bool" where
  "rings_apart q xs p ys \<longleftrightarrow> set (q # xs) \<inter> set (p # ys) = {}"

lemma linked_neighbours:
  assumes "queue_rep h q xs" "e \<in> set (q # xs)"
  shows "nxt h e \<in> set (q # xs)" "prv h e \<in> set (q # xs)"
proof -
  have "nxt h e \<in> set (q # xs) \<and> prv h e \<in> set (q # xs)"
  proof (cases "e = q")
    case True
    with assms(1) have "nxt h e = hd (xs @ [q])" "prv h e = last (q # xs)"
      using linked_first linked_last by (auto simp: queue_rep_def simp del: last.simps)
    moreover have "hd (xs @ [q]) \<in> set (q # xs)" by (cases xs) auto
    moreover have "last (q # xs) \<in> set (q # xs)" by (rule last_in_set) simp
    ultimately show ?thesis by simp
  next
    case False
    with assms(2) obtain as bs where xs: "xs = as @ e # bs" by (auto simp: in_set_conv_decomp)
    with assms(1) have "nxt h e = hd (bs @ [q])" "prv h e = last (q # as)"
      using linked_first linked_last by (auto simp: queue_rep_def)
    then show ?thesis using xs by (cases bs; cases as rule: rev_cases) auto
  qed
  then show "nxt h e \<in> set (q # xs)" "prv h e \<in> set (q # xs)" by blast+
qed

lemma queue_rep_del_other:
  assumes "queue_rep h q xs" "e \<in> set xs" "queue_rep h p ys" "rings_apart q xs p ys"
  shows "queue_rep (IQUEUE_DEL e h) p ys"
proof (rule queue_rep_frame [OF assms(3)])
  have nb: "nxt h e \<in> set (q # xs)" "prv h e \<in> set (q # xs)"
    using linked_neighbours assms(1,2) by auto
  have ne: "nxt h e \<noteq> e"
  proof -
    from assms(2) obtain as bs where xs: "xs = as @ e # bs" by (auto simp: in_set_conv_decomp)
    with assms(1) have "nxt h e = hd (bs @ [q])" using linked_first by (auto simp: queue_rep_def)
    then show ?thesis using assms(1) xs by (cases bs) (auto simp: queue_rep_def)
  qed
  show "nxt (IQUEUE_DEL e h) x = nxt h x" if "x \<in> insert p (set ys)" for x
    using that nb ne assms(2,4) by (auto simp: IQUEUE_DEL_def Let_def rings_apart_def)
  show "prv (IQUEUE_DEL e h) x = prv h x" if "x \<in> insert p (set ys)" for x
    using that nb ne assms(2,4) by (auto simp: IQUEUE_DEL_def Let_def rings_apart_def)
qed

lemma queue_rep_add_tail_other:
  assumes "queue_rep h q xs" "queue_rep h p ys" "rings_apart q xs p ys" "n \<notin> insert p (set ys)"
    "n \<notin> insert q (set xs)"
  shows "queue_rep (IQUEUE_ADD_TAIL n q h) p ys"
proof (rule queue_rep_frame [OF assms(2)])
  have nb: "prv h q \<in> set (q # xs)" using linked_neighbours assms(1) by auto
  show "nxt (IQUEUE_ADD_TAIL n q h) x = nxt h x" if "x \<in> insert p (set ys)" for x
    using that nb assms(3-5) by (auto simp: IQUEUE_ADD_TAIL_def Let_def rings_apart_def)
  show "prv (IQUEUE_ADD_TAIL n q h) x = prv h x" if "x \<in> insert p (set ys)" for x
    using that nb assms(3-5) by (auto simp: IQUEUE_ADD_TAIL_def Let_def rings_apart_def)
qed

section \<open>Walking and splicing\<close>

lemma foreach_from_linked:
  "linked h a xs q \<Longrightarrow> q \<notin> set xs \<Longrightarrow> iqueue_foreach_from q h (nxt h a) seen = Some (seen @ xs)"
  by (induction xs arbitrary: a seen) (auto simp: iqueue_foreach_from.simps)

lemma foreach_visits: "queue_rep h q xs \<Longrightarrow> IQUEUE_FOREACH q h = Some xs"
  using foreach_from_linked [of h q xs q "[]"] by (simp add: queue_rep_def IQUEUE_FOREACH_def)

lemma splice_raw_pointers:
  assumes "queue_rep h l (x # xs)" "queue_rep h q ys"
  shows "nxt (iqueue_splice_raw l q h) = (nxt h)(q := x, last (x # xs) := hd (ys @ [q]))"
    and "prv (iqueue_splice_raw l q h) = (prv h)(x := q, hd (ys @ [q]) := last (x # xs))"
proof -
  have "nxt h l = x" "prv h l = last (x # xs)" "nxt h q = hd (ys @ [q])"
    using assms linked_first [of h q ys q] linked_last [of h l "x # xs" l] by (auto simp: queue_rep_def)
  then show "nxt (iqueue_splice_raw l q h) = (nxt h)(q := x, last (x # xs) := hd (ys @ [q]))"
    and "prv (iqueue_splice_raw l q h) = (prv h)(x := q, hd (ys @ [q]) := last (x # xs))"
    by (simp_all add: iqueue_splice_raw_def Let_def)
qed

lemma splice_raw_linked:
  assumes l: "queue_rep h l (x # xs)" and q: "queue_rep h q ys" and ap: "rings_apart l (x # xs) q ys"
  shows "linked (iqueue_splice_raw l q h) q (x # xs) (hd (ys @ [q]))"
    and "ys \<noteq> [] \<Longrightarrow> linked (iqueue_splice_raw l q h) (hd ys) (tl ys) q"
proof -
  let ?h = "iqueue_splice_raw l q h" and ?at = "hd (ys @ [q])"
  note ptr = splice_raw_pointers [OF l q]
  have at: "?at \<in> set (q # ys)" by (cases ys) auto
  have apart: "set (x # xs) \<inter> set (q # ys) = {}" using ap by (auto simp: rings_apart_def)
  have dist: "distinct (x # xs)" "distinct (q # ys)" using l q by (auto simp: queue_rep_def)
  show "linked ?h q (x # xs) ?at"
  proof (cases xs rule: rev_cases)
    case Nil
    then show ?thesis using at apart by (auto simp: ptr)
  next
    case (snoc zs z)
    have "linked h x zs z" using l snoc by (simp add: queue_rep_def)
    moreover have "linked ?h x zs z \<longleftrightarrow> linked h x zs z"
      by (rule linked_cong) (use at apart dist snoc in \<open>auto simp: ptr\<close>)
    ultimately show ?thesis using at apart dist snoc by (auto simp: ptr)
  qed
  show "linked ?h (hd ys) (tl ys) q" if ne: "ys \<noteq> []"
  proof -
    obtain z zs where ys: "ys = z # zs" using ne by (cases ys) auto
    have lst: "last (x # xs) \<in> set (x # xs)" by (rule last_in_set) simp
    have "linked ?h z zs q \<longleftrightarrow> linked h z zs q"
      by (rule linked_cong) (use lst apart dist ys in \<open>auto simp: ptr\<close>)
    then show ?thesis using q ys by (auto simp: queue_rep_def)
  qed
qed

lemma queue_rep_splice_init:
  assumes l: "queue_rep h l xs" and q: "queue_rep h q ys" and ap: "rings_apart l xs q ys"
  shows "queue_rep (iqueue_splice_init l q h) q (xs @ ys)"
    and "queue_rep (iqueue_splice_init l q h) l []"
proof -
  show "queue_rep (iqueue_splice_init l q h) l []"
    unfolding iqueue_splice_init_def by (rule queue_rep_init) (use l in \<open>simp add: queue_rep_def\<close>)
  have "queue_rep (iqueue_splice l q h) q (xs @ ys)"
  proof (cases xs)
    case Nil
    then show ?thesis using q queue_rep_is_empty [OF l] by (simp add: iqueue_splice_def)
  next
    case (Cons x zs)
    let ?h = "iqueue_splice_raw l q h"
    have "linked ?h q (x # zs) (hd (ys @ [q]))" "ys \<noteq> [] \<Longrightarrow> linked ?h (hd ys) (tl ys) q"
      using splice_raw_linked l q ap Cons by blast+
    then have "linked ?h q (xs @ ys) q" using Cons by (cases ys) auto
    then show ?thesis using l q ap Cons queue_rep_is_empty [OF l]
      by (auto simp: iqueue_splice_def queue_rep_def rings_apart_def)
  qed
  then show "queue_rep (iqueue_splice_init l q h) q (xs @ ys)"
    unfolding iqueue_splice_init_def
    by (rule queue_rep_frame) (use ap l in \<open>auto simp: IQUEUE_INIT_def rings_apart_def queue_rep_def\<close>)
qed

section \<open>The interface and its clients\<close>

locale queue_interface =
  fixes rep :: "'h \<Rightarrow> addr \<Rightarrow> addr list \<Rightarrow> bool"
    and is_empty :: "addr \<Rightarrow> 'h \<Rightarrow> bool"
    and first :: "addr \<Rightarrow> 'h \<Rightarrow> addr"
    and add_tail :: "addr \<Rightarrow> addr \<Rightarrow> 'h \<Rightarrow> 'h"
    and del :: "addr \<Rightarrow> 'h \<Rightarrow> 'h"
  assumes rep_entries: "rep h q xs \<Longrightarrow> distinct (q # xs) \<and> 0 \<notin> set (q # xs)"
    and is_empty_iff: "rep h q xs \<Longrightarrow> is_empty q h \<longleftrightarrow> xs = []"
    and first_entry: "rep h q (x # xs) \<Longrightarrow> first q h = x"
    and rep_del: "rep h q (xs @ e # ys) \<Longrightarrow> rep (del e h) q (xs @ ys)"
    and rep_del_other: "rep h q xs \<Longrightarrow> e \<in> set xs \<Longrightarrow> rep h p ys \<Longrightarrow> rings_apart q xs p ys \<Longrightarrow> rep (del e h) p ys"
    and rep_add_tail: "rep h q xs \<Longrightarrow> n \<noteq> 0 \<Longrightarrow> n \<notin> set (q # xs) \<Longrightarrow> rep (add_tail n q h) q (xs @ [n])"
    and rep_add_tail_other: "rep h q xs \<Longrightarrow> rep h p ys \<Longrightarrow> rings_apart q xs p ys \<Longrightarrow> n \<notin> set (p # ys) \<Longrightarrow>
      n \<notin> set (q # xs) \<Longrightarrow> rep (add_tail n q h) p ys"
begin

text \<open>Taking the first entry of one queue to the end of another: \<open>iqueue_del\<close> then \<open>iqueue_add_tail\<close>.\<close>

lemma move_first:
  assumes "rep h q (x # xs)" "rep h p ys" "rings_apart q (x # xs) p ys"
  shows "rep (add_tail (first q h) p (del (first q h) h)) q xs"
    and "rep (add_tail (first q h) p (del (first q h) h)) p (ys @ [x])"
proof -
  have fx: "first q h = x" by (rule first_entry [OF assms(1)])
  have q1: "rep (del x h) q xs" using rep_del [of h q "[]" x xs] assms(1) by simp
  have p1: "rep (del x h) p ys" using rep_del_other [OF assms(1) _ assms(2,3)] by simp
  have x: "x \<noteq> 0" "x \<notin> set (q # xs)" "x \<notin> set (p # ys)"
    using rep_entries [OF assms(1)] assms(3) by (auto simp: rings_apart_def)
  show "rep (add_tail (first q h) p (del (first q h) h)) p (ys @ [x])"
    unfolding fx using rep_add_tail [OF p1] x by simp
  show "rep (add_tail (first q h) p (del (first q h) h)) q xs"
    unfolding fx by (rule rep_add_tail_other [OF p1 q1]) (use assms(3) x in \<open>auto simp: rings_apart_def\<close>)
qed

lemma move_n:
  assumes "rep h q xs" "rep h p ys" "rings_apart q xs p ys" "n \<le> length xs"
  shows "rep (((\<lambda>g. add_tail (first q g) p (del (first q g) g)) ^^ n) h) q (drop n xs) \<and>
         rep (((\<lambda>g. add_tail (first q g) p (del (first q g) g)) ^^ n) h) p (ys @ take n xs)"
  using assms(4)
proof (induction n)
  case 0
  then show ?case using assms by simp
next
  case (Suc n)
  let ?g = "((\<lambda>g. add_tail (first q g) p (del (first q g) g)) ^^ n) h"
  from Suc have IH: "rep ?g q (drop n xs)" "rep ?g p (ys @ take n xs)" by auto
  have split: "drop n xs = xs ! n # drop (Suc n) xs" "take (Suc n) xs = take n xs @ [xs ! n]"
    using Suc.prems by (simp_all add: Cons_nth_drop_Suc take_Suc_conv_app_nth)
  have "distinct xs" using rep_entries [OF assms(1)] by simp
  then have "set (drop n xs) \<inter> set (take n xs) = {}"
    by (metis append_take_drop_id distinct_append inf_commute)
  then have "rings_apart q (drop n xs) p (ys @ take n xs)"
    using assms(3) rep_entries [OF assms(1)]
    by (auto simp: rings_apart_def dest: in_set_dropD in_set_takeD)
  then have "rings_apart q (xs ! n # drop (Suc n) xs) p (ys @ take n xs)" by (simp only: split(1))
  from move_first [OF IH(1) [unfolded split(1)] IH(2) this] show ?case
    by (simp only: split(2) funpow.simps o_apply append_assoc)
qed

text \<open>Deleting the first entry until the queue is empty: the four loops of \<open>ikcp_release\<close>.\<close>

lemma drain:
  assumes "rep h q xs"
  shows "rep (((\<lambda>g. del (first q g) g) ^^ length xs) h) q []"
  using assms
proof (induction xs arbitrary: h)
  case Nil
  then show ?case by simp
next
  case (Cons x xs)
  have "rep (del (first q h) h) q xs"
    using rep_del [of h q "[]" x xs] Cons.prems first_entry [OF Cons.prems] by simp
  from Cons.IH [OF this] show ?case by (simp add: funpow_Suc_right del: funpow.simps)
qed

end

interpretation iq: queue_interface queue_rep IQUEUE_IS_EMPTY "\<lambda>q h. nxt h q" IQUEUE_ADD_TAIL IQUEUE_DEL
proof unfold_locales
  show "queue_rep h q xs \<Longrightarrow> distinct (q # xs) \<and> 0 \<notin> set (q # xs)" for h q xs
    by (auto simp: queue_rep_def)
  show "queue_rep h q (x # xs) \<Longrightarrow> nxt h q = x" for h q x xs
    by (simp add: queue_rep_def)
qed (simp_all add: queue_rep_is_empty queue_rep_del queue_rep_del_other queue_rep_add_tail
      queue_rep_add_tail_other)

end
