(* ===== verification/Kcp_Properties.thy ===== *)
theory Kcp_Properties
  imports Kcp_Protocol Iqueue
begin

text \<open>
  The properties of the KCP engine (\<open>src/util/ikcp.h\<close>, \<open>src/util/ikcp.c\<close>), stated over the definitions of the
  component theories and proved from their lemmas, each with a concrete instance where it has hypotheses.
\<close>

section \<open>A sample run\<close>

text \<open>A control block of conversation 7, the messages and states of a short exchange, used by the instances.\<close>

definition demo_alloc :: allocator where "demo_alloc i n \<longleftrightarrow> n < 1000"

definition demo_kcp :: IKCPCB where
  "demo_kcp = (the (ikcp_create (\<lambda>i n. True) 7 0))\<lparr>k_output := True\<rparr>"

definition demo_msg :: bytes where "demo_msg = [1, 2, 3]"

definition demo_a1 :: IKCPCB where
  "demo_a1 = snd (the (ikcp_send demo_alloc demo_kcp (Some demo_msg) (of_nat (length demo_msg))))"

definition demo_a2 :: IKCPCB where "demo_a2 = fst (the (ikcp_update demo_a1 0))"
definition demo_a3 :: IKCPCB where "demo_a3 = fst (the (ikcp_update demo_a2 100))"
definition demo_d :: bytes where "demo_d = hd (snd (the (ikcp_update demo_a2 100)))"

definition demo_b1 :: IKCPCB where
  "demo_b1 = snd (the (ikcp_input demo_alloc demo_kcp (Some demo_d) (int (length demo_d))))"

definition demo_b2 :: IKCPCB where "demo_b2 = snd (snd (the (ikcp_recv demo_b1 True 1000)))"

lemma demo_bounded: "alloc_bounded demo_alloc"
  by (simp add: alloc_bounded_def demo_alloc_def)

lemma demo_fresh: "fresh_kcp demo_kcp"
proof -
  have "ikcp_create (\<lambda>i n. True) 7 0 \<noteq> None" by (simp add: ikcp_create_def Let_def)
  then show ?thesis unfolding fresh_kcp_def demo_kcp_def by (metis option.collapse)
qed

lemma demo_wf: "kcp_wf demo_kcp" "k_output demo_kcp"
  using fresh_inv [OF demo_fresh] by (simp_all add: api_inv_def)

lemma option_parts: "map_option f x = Some y \<Longrightarrow> x = Some (the x) \<and> f (the x) = y"
  by (cases x) auto

lemma demo_send: "ikcp_send demo_alloc demo_kcp (Some demo_msg) (of_nat (length demo_msg)) = Some (0, demo_a1)"
proof -
  have "map_option fst (ikcp_send demo_alloc demo_kcp (Some demo_msg) (of_nat (length demo_msg))) = Some 0" by code_simp
  from option_parts [OF this] show ?thesis unfolding demo_a1_def by (metis prod.collapse)
qed

lemma demo_tick: "ikcp_update demo_a1 0 = Some (demo_a2, [])"
proof -
  have "map_option snd (ikcp_update demo_a1 0) = Some []" by code_simp
  from option_parts [OF this] show ?thesis unfolding demo_a2_def by (metis prod.collapse)
qed

lemma demo_flush: "ikcp_update demo_a2 100 = Some (demo_a3, [demo_d])"
proof -
  have "map_option (length \<circ> snd) (ikcp_update demo_a2 100) = Some 1" by code_simp
  note parts = option_parts [OF this]
  then have "snd (the (ikcp_update demo_a2 100)) = [demo_d]"
    unfolding demo_d_def by (cases "snd (the (ikcp_update demo_a2 100))") auto
  then show ?thesis using parts unfolding demo_a3_def by (metis prod.collapse)
qed

lemma demo_input: "ikcp_input demo_alloc demo_kcp (Some demo_d) (int (length demo_d)) = Some (0, demo_b1)"
proof -
  have "map_option fst (ikcp_input demo_alloc demo_kcp (Some demo_d) (int (length demo_d))) = Some 0" by code_simp
  from option_parts [OF this] show ?thesis unfolding demo_b1_def by (metis prod.collapse)
qed

lemma demo_recv: "ikcp_recv demo_b1 True 1000 = Some (3, demo_msg, demo_b2)"
proof -
  have "map_option (\<lambda>x. (fst x, fst (snd x))) (ikcp_recv demo_b1 True 1000) = Some (3, demo_msg)" by code_simp
  from option_parts [OF this] show ?thesis unfolding demo_b2_def by (metis prod.collapse prod.inject)
qed

lemma demo_push: "\<exists>k. ikcp_ack_push demo_alloc 0 demo_kcp 5 6 = Some k"
proof -
  have "map_option (\<lambda>k. ()) (ikcp_ack_push demo_alloc 0 demo_kcp 5 6) = Some ()" by code_simp
  then show ?thesis by auto
qed

lemma demo_reach: "api_inv demo_a3"
proof (rule api.reachable_inv [OF demo_fresh])
  have "api_step demo_kcp demo_a1" by (rule api_send_msg [OF demo_bounded demo_send]) (simp add: demo_msg_def)
  then show "api_step\<^sup>*\<^sup>* demo_kcp demo_a3" using api_update [OF demo_tick] api_update [OF demo_flush] by simp
qed

text \<open>One message goes across.\<close>

definition demo_net0 :: net_state where
  "demo_net0 = \<lparr>n_a = demo_kcp, n_b = demo_kcp, n_wire = {}, n_sent = [], n_got = []\<rparr>"

definition demo_net :: net_state where
  "demo_net = \<lparr>n_a = demo_a3, n_b = demo_b2, n_wire = {demo_d}, n_sent = [demo_msg], n_got = [demo_msg]\<rparr>"

lemma demo_net_run: "net_step\<^sup>*\<^sup>* demo_net0 demo_net"
proof -
  let ?s1 = "\<lparr>n_a = demo_a1, n_b = demo_kcp, n_wire = {}, n_sent = [demo_msg], n_got = []\<rparr>"
  let ?s2 = "?s1\<lparr>n_a := demo_a2\<rparr>"
  let ?s3 = "?s1\<lparr>n_a := demo_a3, n_wire := {demo_d}\<rparr>"
  let ?s4 = "?s3\<lparr>n_b := demo_b1\<rparr>"
  have "net_step demo_net0 ?s1"
    using net_send [OF demo_bounded, of demo_net0 demo_msg 0 demo_a1] demo_send by (simp add: demo_net0_def demo_msg_def)
  moreover have "net_step ?s1 ?s2" using net_flush [of ?s1 0 demo_a2 "[]"] demo_tick by simp
  moreover have "net_step ?s2 ?s3" using net_flush [of ?s2 100 demo_a3 "[demo_d]"] demo_flush by simp
  moreover have "net_step ?s3 ?s4" using net_deliver [OF demo_bounded, of demo_d ?s3 0 demo_b1] demo_input by simp
  moreover have "net_step ?s4 demo_net" using net_recv [of ?s4 1000 3 demo_msg demo_b2] demo_recv
    by (simp add: demo_net_def)
  ultimately show ?thesis by (meson converse_rtranclp_into_rtranclp rtranclp.rtrancl_refl)
qed

section \<open>The stream\<close>

text \<open>C1: Reliable, ordered delivery. Between two control blocks as created, or configured by \<open>ikcp_nodelay\<close>
  as the server and the client do: whatever the network does to the datagrams of a sender (loss, repetition,
  reordering), whatever bytes are fed back to the sender and however the calls that \<open>connection.cpp\<close> and
  \<open>kcp_client.cpp\<close> make during a conversation (\<open>ikcp_send\<close>, \<open>ikcp_recv\<close>, \<open>ikcp_input\<close>, \<open>ikcp_update\<close>) are interleaved, the
  messages that \<open>ikcp_recv\<close> returns at the receiver are, in order, an initial piece of the messages that
  \<open>ikcp_send\<close> accepted at the sender, as long as fewer than $2^{32}$ fragments were sent.\<close>

theorem stream_prefix:
  assumes "net_init s" "net_step\<^sup>*\<^sup>* s t" "length (net_log t) < 4294967296"
  shows "\<exists>rest. n_sent t = n_got t @ rest"
  by (rule net_prefix [OF assms])

theorem stream_prefix_witness: "\<exists>rest. n_sent demo_net = n_got demo_net @ rest"
proof (rule stream_prefix [OF _ demo_net_run])
  show "net_init demo_net0" using demo_fresh by (auto simp: net_init_def demo_net0_def ready_kcp_def)
  show "length (net_log demo_net) < 4294967296"
    by (simp add: demo_net_def net_log_def msg_log_def demo_msg_def chunks_small)
qed





section \<open>Sending and receiving messages\<close>

text \<open>\<open>ikcp_send\<close> cuts a message that needs at most 255 fragments into pieces of \<open>mss\<close> bytes (the last one
  shorter), numbered downwards to 0, and appends them to \<open>snd_queue\<close>.\<close>

theorem send_fragments:
  assumes "0 < unat (k_mss kcp)" "unat (k_mss kcp) < 2147483648" "length msg < 2147483648" "\<forall>i n. alloc i n"
    and "length (chunks (unat (k_mss kcp)) msg) \<le> 255"
  shows "ikcp_send alloc kcp (Some msg) (of_nat (length msg)) =
     Some (0, kcp\<lparr>k_snd_queue := k_snd_queue kcp @ fragments (unat (k_mss kcp)) msg,
                   k_nsnd_que := k_nsnd_que kcp + of_nat (length (chunks (unat (k_mss kcp)) msg))\<rparr>)"
  by (rule send_ok [OF assms])

definition small_kcp :: IKCPCB where
  "small_kcp = demo_kcp\<lparr>k_mtu := 26, k_mss := 2\<rparr>"

theorem send_fragments_witness:
  "ikcp_send (\<lambda>i n. True) small_kcp (Some [1, 2, 3]) (of_nat (length ([1, 2, 3] :: bytes))) =
     Some (0, small_kcp\<lparr>k_snd_queue := [fragment 1 [1, 2], fragment 0 [3]], k_nsnd_que := 2\<rparr>)"
proof -
  have two: "unat (2 :: u32) = 2" by simp
  have c: "chunks 2 ([1, 2, 3] :: bytes) = [[1, 2], [3]]" by code_simp
  have q: "k_snd_queue small_kcp = []" "k_nsnd_que small_kcp = 0" "k_mss small_kcp = 2" by code_simp+
  have f: "fragments 2 ([1, 2, 3] :: bytes) = [fragment 1 [1, 2], fragment 0 [3]]"
    by (simp add: fragments_def c)
  have "(0 :: nat) < unat (k_mss small_kcp)" "unat (k_mss small_kcp) < 2147483648" "length ([1, 2, 3] :: bytes) < 2147483648"
    "\<forall>i n :: nat. True" "length (chunks (unat (k_mss small_kcp)) ([1, 2, 3] :: bytes)) \<le> 255"
    by (simp_all add: q two c)
  from send_fragments [OF this] show ?thesis unfolding q two c f by simp
qed

text \<open>A message of more than 255 fragments is refused with -2 and changes nothing.\<close>

theorem send_refuses_long:
  assumes "0 < unat (k_mss kcp)" "unat (k_mss kcp) < 2147483648" "length msg < 2147483648"
    and "255 * unat (k_mss kcp) < length msg"
  shows "ikcp_send alloc kcp (Some msg) (of_nat (length msg)) = Some (-2, kcp)"
proof (rule send_too_long [OF assms(1-3)])
  let ?m = "unat (k_mss kcp)"
  have "length msg \<le> ?m * length (chunks ?m msg)" by (rule chunks_cover [OF assms(1)])
  then show "255 < length (chunks ?m msg)" using assms(4)
    by (metis less_le_trans mult.commute mult_less_cancel1)
qed

theorem send_refuses_long_witness:
  "ikcp_send (\<lambda>i n. True) small_kcp (Some (replicate 511 9)) (of_nat (length (replicate 511 (9 :: byte)))) = Some (-2, small_kcp)"
proof (rule send_refuses_long)
  have "k_mss small_kcp = 2" by code_simp
  then show "0 < unat (k_mss small_kcp)" "unat (k_mss small_kcp) < 2147483648"
    "255 * unat (k_mss small_kcp) < length (replicate 511 (9 :: byte))" by simp_all
qed simp

text \<open>C19: Round trip. When segments with the fragment numbers and bytes that \<open>ikcp_send\<close> gives to the pieces of a message
  stand at the head of \<open>rcv_queue\<close>, whatever their other fields say (sequence numbers, times, window), and the user's
  buffer is long enough, \<open>ikcp_recv\<close> returns the length and exactly the bytes of the message, and takes its fragments
  from the queue.\<close>

theorem recv_reassembles:
  assumes "rcv_wf kcp" "0 < m" "msg_ok m msg" "map view (k_rcv_queue kcp) = frags m msg @ rest" "int (length msg) \<le> sint len"
  shows "ikcp_recv kcp True len =
    Some (int (length msg), msg,
          fast_recover (k_rcv_wnd kcp \<le> k_nrcv_que kcp)
            (move_rcv (kcp\<lparr>k_rcv_queue := drop (length (chunks m msg)) (k_rcv_queue kcp),
                           k_nrcv_que := k_nrcv_que kcp - of_nat (length (chunks m msg))\<rparr>)))"
proof -
  let ?q = "k_rcv_queue kcp" and ?n = "length (chunks m msg)"
  have ch: "?n \<le> 255" "length msg < 2147483648" using assms(3) by (simp_all add: msg_ok_def)
  have fm: "map view (first_message ?q) = frags m msg" by (rule first_message_frags(1) [OF assms(4,2) ch(1)])
  then have n: "length (first_message ?q) = ?n" by (metis length_frags length_map)
  then have am: "after_message ?q = drop ?n ?q" using message_split [of ?q] by (metis append_eq_conv_conj)
  have ok: "\<forall>s \<in> set (first_message ?q). seg_ok s"
    using assms(1) message_split [of ?q] unfolding rcv_wf_def by (metis Un_iff set_append)
  have data: "concat (map payload (first_message ?q)) = msg" using payload_data [OF ok] fm frags_data by simp
  have pk: "ikcp_peeksize kcp = of_nat (length msg)" by (rule peeksize_frags [OF assms(1-4)])
  have ne: "?q \<noteq> []" using assms(4) frags_ne by auto
  show ?thesis using recv_take [OF ne, of len True] assms(5) sint_of_nat32 [OF ch(2)]
    by (simp add: pk data drop_message_def n am)
qed

text \<open>A sender with small datagrams and no congestion window sends a message of 30 bytes as two fragments, a receiver
  takes both datagrams.\<close>

definition two_a :: IKCPCB where
  "two_a = snd (ikcp_nodelay (snd (ikcp_setmtu (\<lambda>i n. True) demo_kcp 51)) 1 5 1 1)"

definition two_msg :: bytes where "two_msg = replicate 27 4 @ [5, 6, 7]"

definition two_out :: "bytes list" where
  "two_out = snd (the (ikcp_update (snd (the (ikcp_send demo_alloc two_a (Some two_msg) 30))) 9))"

definition two_b1 :: IKCPCB where
  "two_b1 = snd (the (ikcp_input demo_alloc demo_kcp (Some (two_out ! 0)) (int (length (two_out ! 0)))))"

definition two_b :: IKCPCB where
  "two_b = snd (the (ikcp_input demo_alloc two_b1 (Some (two_out ! 1)) (int (length (two_out ! 1)))))"

lemma two_reach: "api_inv two_b"
proof -
  have "ikcp_input demo_alloc demo_kcp (Some (two_out ! 0)) (int (length (two_out ! 0))) \<noteq> None"
    "ikcp_input demo_alloc two_b1 (Some (two_out ! 1)) (int (length (two_out ! 1))) \<noteq> None"
    by code_simp+
  then obtain r1 r2 where r: "ikcp_input demo_alloc demo_kcp (Some (two_out ! 0)) (int (length (two_out ! 0))) = Some (r1, two_b1)"
    "ikcp_input demo_alloc two_b1 (Some (two_out ! 1)) (int (length (two_out ! 1))) = Some (r2, two_b)"
    unfolding two_b_def two_b1_def by (metis option.collapse prod.collapse)
  show ?thesis
    by (rule api_step_inv [OF api_step_inv [OF fresh_inv [OF demo_fresh] api_input [OF demo_bounded r(1)]] api_input [OF demo_bounded r(2)]])
qed

theorem recv_reassembles_witness:
  "map seg_sn (k_rcv_queue two_b) = [0, 1] \<and> map_option (\<lambda>(r, out, k). (r, out, k_nrcv_que k)) (ikcp_recv two_b True 100) = Some (30, two_msg, 0)"
proof
  have "map seg_sn (k_rcv_queue two_b) = [0, 1]" by code_simp
  then show "map seg_sn (k_rcv_queue two_b) = [0, 1]" .
  have wf: "rcv_wf two_b" using two_reach by (simp add: api_inv_def kcp_wf_def)
  have c: "chunks 27 two_msg = [replicate 27 4, [5, 6, 7]]" by code_simp
  then have ok: "msg_ok 27 two_msg" by (simp add: msg_ok_def two_msg_def)
  have "map view (k_rcv_queue two_b) = [(1, replicate 27 4), (0, [5, 6, 7])]" by code_simp
  then have v: "map view (k_rcv_queue two_b) = frags 27 two_msg @ []" by (simp add: frags_def fragments_def c view_def fragment_def)
  have q: "k_rcv_wnd two_b = 32" "k_nrcv_que two_b = 2" "k_rcv_buf two_b = []" by code_simp+
  have len: "length two_msg = 30" "int (length two_msg) \<le> sint (100 :: i32)" by (simp_all add: two_msg_def)
  show "map_option (\<lambda>(r, out, k). (r, out, k_nrcv_que k)) (ikcp_recv two_b True 100) = Some (30, two_msg, 0)"
    unfolding recv_reassembles [OF wf _ ok v len(2), simplified]
    by (simp add: c q len(1) fast_recover_def move_rcv_def)
qed

section \<open>Acknowledgements\<close>

text \<open>\<open>ikcp_parse_una\<close> takes exactly the segments numbered before \<open>una\<close> off the send buffer, in whatever place
  of the wrapping sequence space the window lies, and \<open>nsnd_buf\<close> counts what is left.\<close>

theorem una_removes_exactly:
  assumes "snd_wf kcp" "unat (una - k_snd_una kcp) < 2147483648"
  shows "k_snd_buf (ikcp_parse_una kcp una) =
           filter (\<lambda>seg. unat (una - k_snd_una kcp) \<le> unat (seg_sn seg - k_snd_una kcp)) (k_snd_buf kcp) \<and>
         k_nsnd_buf (ikcp_parse_una kcp una) = of_nat (length (k_snd_buf (ikcp_parse_una kcp una)))"
proof
  have core: "snd_core kcp" using assms(1) by (simp add: snd_wf_def)
  then have srt: "sn_sorted (k_snd_una kcp) (k_snd_buf kcp)" by (simp add: snd_core_def)
  show "k_snd_buf (ikcp_parse_una kcp una) =
      filter (\<lambda>seg. unat (una - k_snd_una kcp) \<le> unat (seg_sn seg - k_snd_una kcp)) (k_snd_buf kcp)"
    using una_filter [OF srt assms(2)] by (simp add: ikcp_parse_una_def parse_una_loop_eq sn_off_def)
  show "k_nsnd_buf (ikcp_parse_una kcp una) = of_nat (length (k_snd_buf (ikcp_parse_una kcp una)))"
    using parse_una_core [OF core] by (simp add: snd_core_def)
qed

theorem una_removes_exactly_witness:
  "k_snd_buf (ikcp_parse_una demo_a3 1) = filter (\<lambda>seg. 1 \<le> unat (seg_sn seg - k_snd_una demo_a3)) (k_snd_buf demo_a3) \<and>
   length (k_snd_buf demo_a3) = 1"
proof -
  have "snd_wf demo_a3" using demo_reach by (simp add: api_inv_def kcp_wf_def)
  moreover have una: "k_snd_una demo_a3 = 0" "length (k_snd_buf demo_a3) = 1" by code_simp+
  ultimately show ?thesis using una_removes_exactly [of demo_a3 1] by simp
qed

text \<open>\<open>ikcp_parse_ack\<close> for a number inside the window removes exactly the segment with that number, counts one
  skipping acknowledgement on every segment before it and leaves those behind it alone.\<close>

theorem ack_removes_one:
  assumes "0 \<le> itimediff sn (k_snd_una kcp)" "itimediff sn (k_snd_nxt kcp) < 0"
    and "k_snd_buf kcp = xs @ seg # ys" "seg_sn seg = sn" "sn \<notin> seg_sn ` set xs"
  shows "ikcp_parse_ack kcp sn = kcp\<lparr>k_snd_buf := map (\<lambda>s. s\<lparr>seg_fastack := seg_fastack s + 1\<rparr>) xs @ ys,
           k_nsnd_buf := k_nsnd_buf kcp - 1\<rparr>"
proof -
  have tw: "takeWhile (\<lambda>s. seg_sn s \<noteq> sn) (xs @ seg # ys) = xs" "dropWhile (\<lambda>s. seg_sn s \<noteq> sn) (xs @ seg # ys) = seg # ys"
    using assms(4,5) by (induction xs) auto
  have "skip_ack = (\<lambda>s. s\<lparr>seg_fastack := seg_fastack s + 1\<rparr>)" by (simp add: skip_ack_def fun_eq_iff)
  then show ?thesis using assms tw
    by (simp add: ikcp_parse_ack_def parse_ack_loop_eq)
qed

theorem ack_removes_one_witness:
  "ikcp_parse_ack demo_a3 0 = demo_a3\<lparr>k_snd_buf := [], k_nsnd_buf := 0\<rparr>"
proof -
  have "length (k_snd_buf demo_a3) = 1 \<and> seg_sn (hd (k_snd_buf demo_a3)) = 0" by code_simp
  then obtain seg where b: "k_snd_buf demo_a3 = [] @ seg # []" "seg_sn seg = 0"
    by (cases "k_snd_buf demo_a3") auto
  have n: "k_snd_una demo_a3 = 0" "k_snd_nxt demo_a3 = 1" "k_nsnd_buf demo_a3 = 1" by code_simp+
  have "0 \<le> itimediff 0 (k_snd_una demo_a3)" "itimediff 0 (k_snd_nxt demo_a3) < 0" unfolding n by code_simp+
  from ack_removes_one [OF this b] show ?thesis by (simp add: n)
qed

text \<open>\<open>ikcp_ack_push\<close> never writes outside the acknowledgement array: it grows the array when it is full,
  keeps the acknowledgements that are waiting and appends the new one.\<close>

theorem ack_push_in_bounds:
  assumes "alloc_bounded alloc" "ack_wf kcp" "ikcp_ack_push alloc i kcp sn ts = Some kcp'"
  shows "unat (k_ackcount kcp) < length (k_acklist kcp') \<and> length (k_acklist kcp') = unat (k_ackblock kcp') \<and>
    take (unat (k_ackcount kcp')) (k_acklist kcp') = take (unat (k_ackcount kcp)) (k_acklist kcp) @ [(sn, ts)]"
proof -
  have wf: "ack_wf kcp'" and p: "pending_acks kcp' = pending_acks kcp @ [(sn, ts)]"
    using ack_push_wf [OF assms] by blast+
  have "length (pending_acks kcp) = unat (k_ackcount kcp)" using assms(2) by (simp add: pending_acks_def ack_wf_def)
  then have "Suc (unat (k_ackcount kcp)) \<le> length (k_acklist kcp')"
    using arg_cong [OF p, of length] by (simp add: pending_acks_def)
  then show ?thesis using wf p by (simp add: pending_acks_def ack_wf_def)
qed

theorem ack_push_in_bounds_witness:
  "take 1 (k_acklist (the (ikcp_ack_push demo_alloc 0 demo_kcp 5 6))) = [(5, 6)] \<and>
   length (k_acklist (the (ikcp_ack_push demo_alloc 0 demo_kcp 5 6))) = 8"
proof -
  have wf: "ack_wf demo_kcp" using demo_wf by (simp add: kcp_wf_def)
  obtain k where k: "ikcp_ack_push demo_alloc 0 demo_kcp 5 6 = Some k" using demo_push by blast
  have "map_option (\<lambda>k. (k_ackcount k, k_ackblock k)) (ikcp_ack_push demo_alloc 0 demo_kcp 5 6) = Some (1, 8)"
    "k_ackcount demo_kcp = 0" by code_simp+
  then show ?thesis using ack_push_in_bounds [OF demo_bounded wf k] k by simp
qed

text \<open>The retransmission timeout computed from a round-trip time lies between \<open>rx_minrto\<close> and
  \<open>IKCP_RTO_MAX\<close> (60 seconds), for every round-trip time and every earlier estimate.\<close>

theorem rto_bounds:
  assumes "k_rx_minrto kcp \<le> IKCP_RTO_MAX"
  shows "k_rx_minrto kcp \<le> k_rx_rto (ikcp_update_ack kcp rtt) \<and> k_rx_rto (ikcp_update_ack kcp rtt) \<le> IKCP_RTO_MAX"
  by (rule update_ack_rto_bounds [OF assms])

theorem rto_bounds_witness: "k_rx_rto (ikcp_update_ack demo_kcp 4000000000) \<le> IKCP_RTO_MAX"
proof -
  have "k_rx_minrto demo_kcp = 100" by code_simp
  then show ?thesis using rto_bounds [of demo_kcp 4000000000] by (simp add: IKCP_RTO_MAX_def)
qed

text \<open>With round-trip times below $2^{28}$ milliseconds the 32-bit arithmetic of the estimator does not overflow:
  \<open>rx_srtt\<close> and \<open>rx_rttval\<close> are the smoothed mean and deviation, rounded down, and stay below $2^{28}$.\<close>

theorem rtt_smoothing:
  assumes "rtt_small kcp" "k_rx_srtt kcp \<noteq> 0" "0 \<le> sint rtt" "sint rtt < 268435456"
  shows "sint (k_rx_srtt (ikcp_update_ack kcp rtt)) = max 1 ((7 * sint (k_rx_srtt kcp) + sint rtt) div 8) \<and>
    sint (k_rx_rttval (ikcp_update_ack kcp rtt)) =
      (3 * sint (k_rx_rttval kcp) + \<bar>sint rtt - sint (k_rx_srtt kcp)\<bar>) div 4 \<and>
    rtt_small (ikcp_update_ack kcp rtt)"
  using update_ack_smooth [OF assms] update_ack_small [OF assms(1,3,4)] by simp

theorem rtt_smoothing_witness:
  "sint (k_rx_srtt (ikcp_update_ack (demo_kcp\<lparr>k_rx_srtt := 80, k_rx_rttval := 10\<rparr>) 40)) = 75 \<and>
   sint (k_rx_rttval (ikcp_update_ack (demo_kcp\<lparr>k_rx_srtt := 80, k_rx_rttval := 10\<rparr>) 40)) = 17"
  using rtt_smoothing [of "demo_kcp\<lparr>k_rx_srtt := 80, k_rx_rttval := 10\<rparr>" 40] by (simp add: rtt_small_def)

section \<open>The wire\<close>

text \<open>C21: The two versions of the encoders and decoders, byte by byte for big-endian hosts and one native access for
  little-endian ones, write and read the same bytes.\<close>

theorem codec_host_independent:
  "ikcp_encode16u True p w = ikcp_encode16u False p w \<and> ikcp_encode32u True p l = ikcp_encode32u False p l \<and>
   ikcp_decode16u True d = ikcp_decode16u False d \<and> ikcp_decode32u True d = ikcp_decode32u False d"
  using decode16u_host [of True d] decode32u_host [of True d] by (simp add: encode16u_host encode32u_host)

text \<open>Round trip of a segment header: what \<open>ikcp_encode_seg\<close> writes is 24 bytes, and the reads of \<open>ikcp_input\<close>
  give back every field, the command, fragment number and window cut to their width on the wire, with the
  bytes behind the header left over.\<close>

theorem header_roundtrip:
  "length (ikcp_encode_seg [] seg) = 24 \<and>
   ikcp_decode32u IWORDS_BIG_ENDIAN (ikcp_encode_seg [] seg @ data) = Some (seg_conv seg, drop 4 (ikcp_encode_seg [] seg) @ data) \<and>
   decode_rest (seg_conv seg) (drop 4 (ikcp_encode_seg [] seg) @ data) =
     Some (\<lparr>h_conv = seg_conv seg, h_cmd = ucast (seg_cmd seg), h_frg = ucast (seg_frg seg), h_wnd = ucast (seg_wnd seg),
            h_ts = seg_ts seg, h_sn = seg_sn seg, h_una = seg_una seg, h_len = seg_len seg\<rparr>, data)"
proof -
  let ?h = "seg_header seg"
  have e: "ikcp_encode_seg [] seg = store_native32 (seg_conv seg) @ rest_bytes ?h" "drop 4 (ikcp_encode_seg [] seg) = rest_bytes ?h"
    by (simp_all add: encode_seg_eq header_split seg_header_def)
  have "decode_rest (seg_conv seg) (rest_bytes ?h @ data) = Some (?h, data)"
    using decode_rest_header [of ?h data] by (simp only: seg_header_def kcp_header.simps)
  moreover have "length (ikcp_encode_seg [] seg) = 24" by (simp add: encode_seg_eq)
  moreover have "ikcp_decode32u IWORDS_BIG_ENDIAN (ikcp_encode_seg [] seg @ data) = Some (seg_conv seg, rest_bytes ?h @ data)"
    unfolding e(1) by (simp add: codec_simps)
  ultimately show ?thesis unfolding e(2) by (simp only: seg_header_def simp_thms)
qed

text \<open>C22: Error paths of \<open>ikcp_input\<close>. Take a datagram that starts with complete segments of the conversation (possibly none)
  and goes on with a header of another conversation, with a segment that claims more data than the datagram holds, or
  with one of an unknown command: the call returns -1, -2 or -3 and the control block is what the segments before made
  of it, and nothing else; if the bad segment is the first one, the block is as before. When fewer than 24 bytes are left
  over, they are ignored, and the call returns 0 with the congestion window adjusted. \<open>None\<close> is a refused allocation in
  one of the segments. A size below 24 or a null pointer changes nothing.\<close>

theorem input_rejects:
  assumes "\<forall>w \<in> set ws. whole_seg (k_conv kcp) w"
  shows "(h_conv h \<noteq> k_conv kcp \<longrightarrow>
      ikcp_input alloc kcp (Some (segs_bytes ws @ header_bytes h @ p)) (int (length (segs_bytes ws @ header_bytes h @ p))) =
      map_option (\<lambda>k. (-1, k)) (input_segs alloc 0 kcp ws)) \<and>
   (h_conv h = k_conv kcp \<and> length p < unat (h_len h) \<longrightarrow>
      ikcp_input alloc kcp (Some (segs_bytes ws @ header_bytes h @ p)) (int (length (segs_bytes ws @ header_bytes h @ p))) =
      map_option (\<lambda>k. (-2, k)) (input_segs alloc 0 kcp ws)) \<and>
   (h_conv h = k_conv kcp \<and> unat (h_len h) \<le> length p \<and> h_cmd h \<notin> {81, 82, 83, 84} \<longrightarrow>
      ikcp_input alloc kcp (Some (segs_bytes ws @ header_bytes h @ p)) (int (length (segs_bytes ws @ header_bytes h @ p))) =
      map_option (\<lambda>k. (-3, k)) (input_segs alloc 0 kcp ws)) \<and>
   (length rest < 24 \<longrightarrow>
      ikcp_input alloc kcp (Some (segs_bytes ws @ rest)) (int (length (segs_bytes ws @ rest))) =
      map_option (\<lambda>k. (0, grow_cwnd (k_snd_una kcp) k)) (input_segs alloc 0 kcp ws)) \<and>
   (sz < 24 \<longrightarrow> ikcp_input alloc kcp (Some data) sz = Some (0, kcp)) \<and>
   ikcp_input alloc kcp None sz = Some (0, kcp)"
proof -
  let ?d = "header_bytes h @ p"
  have len: "int (length ?d) = 24 + int (length p)" "24 \<le> length ?d" by simp_all
  note bad = input_prefix [OF assms len(2), unfolded len(1) input_loop_header]
  have r: "(-1 :: int) \<noteq> 0" "(-2 :: int) \<noteq> 0" "(-3 :: int) \<noteq> 0" by simp_all
  have 1: "ikcp_input alloc kcp (Some (segs_bytes ws @ ?d)) (int (length (segs_bytes ws @ ?d))) =
      map_option (\<lambda>k. (-1, k)) (input_segs alloc 0 kcp ws)" if "h_conv h \<noteq> k_conv kcp"
    using bad [OF _ r(1)] that by simp
  have 2: "ikcp_input alloc kcp (Some (segs_bytes ws @ ?d)) (int (length (segs_bytes ws @ ?d))) =
      map_option (\<lambda>k. (-2, k)) (input_segs alloc 0 kcp ws)" if "h_conv h = k_conv kcp" "length p < unat (h_len h)"
    using bad [OF _ r(2)] that by simp
  have 3: "ikcp_input alloc kcp (Some (segs_bytes ws @ ?d)) (int (length (segs_bytes ws @ ?d))) =
      map_option (\<lambda>k. (-3, k)) (input_segs alloc 0 kcp ws)"
    if "h_conv h = k_conv kcp" "unat (h_len h) \<le> length p" "h_cmd h \<notin> {81, 82, 83, 84}"
    using bad [OF _ r(3)] that cmd_known_bytes [of "h_cmd h"] by simp
  have 4: "sz < 24 \<Longrightarrow> ikcp_input alloc kcp (Some data) sz = Some (0, kcp)" "ikcp_input alloc kcp None sz = Some (0, kcp)"
    by (simp_all add: ikcp_input_def)
  show ?thesis using 1 2 3 4 input_complete [OF assms, of rest alloc] by blast
qed

text \<open>A window question of the conversation, followed by a segment of conversation 8.\<close>

definition bad_ws :: "wire_seg list" where
  "bad_ws = [(\<lparr>h_conv = 7, h_cmd = 83, h_frg = 0, h_wnd = 5, h_ts = 0, h_sn = 0, h_una = 0, h_len = 0\<rparr>, [])]"

definition bad_h :: kcp_header where
  "bad_h = \<lparr>h_conv = 8, h_cmd = 81, h_frg = 0, h_wnd = 32, h_ts = 0, h_sn = 0, h_una = 0, h_len = 0\<rparr>"

theorem input_rejects_witness:
  "map_option (\<lambda>(r, k). (r, k_rmt_wnd k)) (ikcp_input demo_alloc demo_kcp
     (Some (segs_bytes bad_ws @ header_bytes bad_h @ [])) (int (length (segs_bytes bad_ws @ header_bytes bad_h @ [])))) = Some (-1, 5)"
proof -
  have w: "\<forall>w \<in> set bad_ws. whole_seg (k_conv demo_kcp) w"
    using cmd_known_bytes [of 83] by (simp add: bad_ws_def whole_seg_def) code_simp
  have "h_conv bad_h \<noteq> k_conv demo_kcp" by code_simp
  moreover have "map_option k_rmt_wnd (input_segs demo_alloc 0 demo_kcp bad_ws) = Some 5" by code_simp
  ultimately show ?thesis using input_rejects [OF w, of bad_h demo_alloc "[]"] by (auto simp: option.map_comp comp_def)
qed

section \<open>The receive buffer\<close>

text \<open>C20: The search of \<open>ikcp_parse_data\<close> from the tail of \<open>rcv_buf\<close> is insertion in sequence order: a segment
  outside the window is dropped, one that is already buffered only triggers the move to \<open>rcv_queue\<close>, any other
  is put in its place, whatever the wrap-around of the numbers; and the receive side stays well-formed.\<close>

theorem parse_data_inserts:
  assumes "rcv_wf kcp" "seg_ok newseg"
  shows "ikcp_parse_data kcp newseg =
     (if itimediff (seg_sn newseg) (k_rcv_nxt kcp + k_rcv_wnd kcp) \<ge> 0 \<or>
         itimediff (seg_sn newseg) (k_rcv_nxt kcp) < 0 then kcp
      else if seg_sn newseg \<in> seg_sn ` set (k_rcv_buf kcp) then move_rcv kcp
      else move_rcv (kcp\<lparr>k_rcv_buf := insert_by_off (k_rcv_nxt kcp) newseg (k_rcv_buf kcp),
                         k_nrcv_buf := k_nrcv_buf kcp + 1\<rparr>)) \<and>
    rcv_wf (ikcp_parse_data kcp newseg)"
  using parse_data_cases [OF assms(1)] parse_data_wf [OF assms] by blast

theorem parse_data_inserts_witness:
  "ikcp_parse_data demo_kcp ((fragment 0 [9])\<lparr>seg_sn := 1\<rparr>) =
     move_rcv (demo_kcp\<lparr>k_rcv_buf := [(fragment 0 [9])\<lparr>seg_sn := 1\<rparr>], k_nrcv_buf := 1\<rparr>)"
proof -
  have "rcv_wf demo_kcp" using demo_wf by (simp add: kcp_wf_def)
  moreover have "seg_ok ((fragment 0 [9])\<lparr>seg_sn := 1\<rparr>)" by (simp add: seg_ok_def)
  moreover have "k_rcv_buf demo_kcp = []" "k_rcv_nxt demo_kcp = 0" "k_rcv_wnd demo_kcp = 32" "k_nrcv_buf demo_kcp = 0"
    by code_simp+
  moreover have "itimediff 1 32 = -31" "itimediff 1 0 = 1" by code_simp+
  ultimately show ?thesis using parse_data_inserts [of demo_kcp "(fragment 0 [9])\<lparr>seg_sn := 1\<rparr>"] by simp
qed

section \<open>Flushing\<close>

text \<open>C16: Every datagram that \<open>ikcp_update\<close> hands to the output callback is between 1 and \<open>mtu\<close> bytes long, and the
  output buffer is never overrun; the control block stays well-formed.\<close>

theorem update_datagrams_fit:
  assumes "kcp_wf kcp" "k_output kcp"
  shows "\<exists>kcp' sent. ikcp_update kcp current = Some (kcp', sent) \<and> kcp_wf kcp' \<and>
     (\<forall>d \<in> set sent. 0 < length d \<and> length d \<le> unat (k_mtu kcp))"
  using update_ok [OF assms, of current] by blast

theorem update_datagrams_fit_witness:
  "\<exists>kcp' sent. ikcp_update demo_a2 100 = Some (kcp', sent) \<and> kcp_wf kcp' \<and>
     (\<forall>d \<in> set sent. 0 < length d \<and> length d \<le> unat (k_mtu demo_a2))"
proof (rule update_datagrams_fit)
  have "api_step demo_kcp demo_a1" by (rule api_send_msg [OF demo_bounded demo_send]) (simp add: demo_msg_def)
  then have "api_inv demo_a2"
    using api_step_inv [OF api_step_inv [OF fresh_inv [OF demo_fresh]] api_update [OF demo_tick]] by blast
  then show "kcp_wf demo_a2" "k_output demo_a2" by (simp_all add: api_inv_def)
qed

text \<open>C18: Flow control. A flush never raises the number of unacknowledged segments above the send window, the window
  announced by the peer and, unless it is switched off, the congestion window.\<close>

theorem flush_respects_window:
  assumes "kcp_wf kcp" "k_output kcp" "k_updated kcp \<noteq> 0" "ikcp_flush kcp = Some (kcp', sent)"
  shows "unat (k_snd_nxt kcp' - k_snd_una kcp') \<le>
    max (unat (k_snd_nxt kcp - k_snd_una kcp))
      (min (min (unat (k_snd_wnd kcp)) (unat (k_rmt_wnd kcp))) (if k_nocwnd kcp = 0 then unat (k_cwnd kcp) else unat (k_rmt_wnd kcp)))"
proof -
  let ?k = "probe_window (kcp\<lparr>k_ackcount := 0\<rparr>)\<lparr>k_probe := 0\<rparr>"
  have eq: "k_snd_nxt kcp' = k_snd_nxt (flushed kcp)" "k_snd_una kcp' = k_snd_una kcp"
    using flush_ok [OF assms(1-3)] assms(4) by auto
  have k: "k_snd_nxt ?k = k_snd_nxt kcp" "k_snd_una ?k = k_snd_una kcp" by (simp_all add: probe_window_def Let_def)
  have w: "unat (k_snd_nxt kcp - k_snd_una kcp) \<le> 65535" "unat (k_rmt_wnd kcp) \<le> 65535"
    using assms(1) unfolding kcp_wf_def snd_wf_def snd_core_def by blast+
  have win: "unat (flush_window kcp) = min (min (unat (k_snd_wnd kcp)) (unat (k_rmt_wnd kcp)))
      (if k_nocwnd kcp = 0 then unat (k_cwnd kcp) else unat (k_rmt_wnd kcp))"
    by (auto simp: flush_window_def imin_def Let_def word_le_nat_alt)
  have "unat (k_snd_nxt (flushed kcp) - k_snd_una ?k) \<le> max (unat (k_snd_nxt ?k - k_snd_una ?k)) (unat (flush_window kcp))"
    unfolding flushed_def move_snd_def by (rule move_snd_window) (use w flush_window_le k in simp_all)
  then show ?thesis unfolding eq k win .
qed

theorem flush_respects_window_witness:
  "unat (k_snd_nxt (fst (the (ikcp_flush demo_a3))) - k_snd_una (fst (the (ikcp_flush demo_a3)))) \<le> 1"
proof -
  have inv: "kcp_wf demo_a3" "k_output demo_a3" using demo_reach by (simp_all add: api_inv_def)
  have "k_updated demo_a3 = 1" by code_simp
  then have u: "k_updated demo_a3 \<noteq> 0" by simp
  obtain k sent where f: "ikcp_flush demo_a3 = Some (k, sent)" using flush_ok [OF inv u] by blast
  have n: "k_snd_nxt demo_a3 = 1" "k_snd_una demo_a3 = 0" "k_nocwnd demo_a3 = 0" "k_cwnd demo_a3 = 1" by code_simp+
  show ?thesis using flush_respects_window [OF inv u f] f n by simp
qed

section \<open>The clock\<close>

text \<open>C23: The answer of \<open>ikcp_check\<close> is at most one interval away, and until then nothing is due: a call of
  \<open>ikcp_update\<close> before that time sends nothing and only records the time, and no buffered segment reaches its
  retransmission time.\<close>

theorem check_is_safe:
  assumes "j < unat (ikcp_check kcp current - current)"
  shows "unat (ikcp_check kcp current - current) \<le> unat (k_interval kcp) \<and>
    ikcp_update kcp (current + of_nat j) = Some (fst (update_clock kcp (current + of_nat j)), []) \<and>
    (\<forall>seg \<in> set (k_snd_buf kcp). itimediff (seg_resendts seg) (current + of_nat j) > 0)"
  using check_bound check_quiet [OF assms] by (simp add: update_eq case_prod_beta)

theorem check_is_safe_witness:
  "ikcp_update demo_a2 (1 + of_nat 50) = Some (fst (update_clock demo_a2 (1 + of_nat 50)), [])"
proof -
  have "unat (ikcp_check demo_a2 1 - 1) = 99" by code_simp
  then show ?thesis using check_is_safe [of 50 demo_a2 1] by simp
qed

text \<open>After every call of \<open>ikcp_update\<close>, also when the clock of the caller has jumped, the next flush is due
  in more than 0 and at most 10000 milliseconds.\<close>

theorem update_schedules_next:
  assumes "kcp_wf kcp" "k_output kcp" "ikcp_update kcp current = Some (kcp', sent)"
  shows "0 < itimediff (k_ts_flush kcp') current \<and> itimediff (k_ts_flush kcp') current \<le> 10000"
proof -
  have "flush_view kcp' = flush_view (fst (update_clock kcp current))"
    using update_ok [OF assms(1,2), of current] assms(3) by auto
  then have "k_ts_flush kcp' = k_ts_flush (fst (update_clock kcp current))" by (simp add: flush_view_def)
  then show ?thesis using update_clock_next [of kcp current] assms(1) by (simp add: kcp_wf_def)
qed

theorem update_schedules_next_witness:
  "0 < itimediff (k_ts_flush (fst (the (ikcp_update demo_a3 4000000000)))) 4000000000 \<and>
   itimediff (k_ts_flush (fst (the (ikcp_update demo_a3 4000000000)))) 4000000000 \<le> 10000"
proof -
  have inv: "kcp_wf demo_a3" "k_output demo_a3" using demo_reach by (simp_all add: api_inv_def)
  obtain k sent where "ikcp_update demo_a3 4000000000 = Some (k, sent)" using update_ok [OF inv] by blast
  then show ?thesis using update_schedules_next [OF inv] by simp
qed

section \<open>The pointer queues\<close>

text \<open>C24: Refinement of the intrusive queues. In any heap where two disjoint rings represent two lists, taking the first
  entry off one (\<open>iqueue_del\<close>) and appending it to the other (\<open>iqueue_add_tail\<close>), \<open>n\<close> times, represents the lists
  with the first \<open>n\<close> entries moved: the list model of \<open>snd_queue\<close>, \<open>snd_buf\<close>, \<open>rcv_buf\<close> and \<open>rcv_queue\<close>.\<close>

theorem queue_move_refines:
  assumes "queue_rep h q xs" "queue_rep h p ys" "rings_apart q xs p ys" "n \<le> length xs"
  shows "queue_rep (((\<lambda>g. IQUEUE_ADD_TAIL (nxt g q) p (IQUEUE_DEL (nxt g q) g)) ^^ n) h) q (drop n xs) \<and>
         queue_rep (((\<lambda>g. IQUEUE_ADD_TAIL (nxt g q) p (IQUEUE_DEL (nxt g q) g)) ^^ n) h) p (ys @ take n xs)"
  by (rule iq.move_n [OF assms])

definition demo_heap :: iqheap where
  "demo_heap = IQUEUE_INIT 1 (IQUEUE_ADD_TAIL 3 2 (IQUEUE_INIT 2 \<lparr>nxt = \<lambda>p. 0, prv = \<lambda>p. 0\<rparr>))"

theorem queue_move_refines_witness:
  "queue_rep (IQUEUE_ADD_TAIL (nxt demo_heap 2) 1 (IQUEUE_DEL (nxt demo_heap 2) demo_heap)) 1 [3]"
proof -
  have "queue_rep demo_heap 2 [3]" "queue_rep demo_heap 1 []"
    by (simp_all add: demo_heap_def queue_rep_def iqueue_defs set_next_def set_prev_def)
  from queue_move_refines [OF this, of 1] show ?thesis by (simp add: rings_apart_def)
qed

end
