(* ===== verification/Kcp_Emission.thy ===== *)
theory Kcp_Emission
  imports Kcp_Protocol
begin

text \<open>
  What exactly \<open>ikcp_flush\<close> of \<open>src/util/ikcp.c\<close> puts on the wire. \<open>flush_wires\<close> lists, without any buffer, the
  segments a flush owes the peer: one acknowledgement per entry of the acknowledgement array, the window
  probes that are pending, and every buffered segment that is new, timed out or skipped. The lemmas show that
  the datagrams handed to the callback are a cut of exactly this list, in this order, between segments.
\<close>

section \<open>The reference list\<close>

definition wire_of :: "IKCPSEG \<Rightarrow> wire_seg" where
  "wire_of seg = (seg_header seg, payload seg)"

definition ack_wires :: "IKCPCB \<Rightarrow> wire_seg list" where
  "ack_wires kcp =
     map (\<lambda>(sn, ts). (seg_header ((control_segment kcp)\<lparr>seg_sn := sn, seg_ts := ts\<rparr>), [])) (pending_acks kcp)"

text \<open>The control segment as the acknowledgements leave it: it keeps the last number and time.\<close>

definition last_control :: "IKCPCB \<Rightarrow> IKCPSEG" where
  "last_control kcp =
     (if pending_acks kcp = [] then control_segment kcp
      else (control_segment kcp)\<lparr>seg_sn := fst (last (pending_acks kcp)), seg_ts := snd (last (pending_acks kcp))\<rparr>)"

definition probe_wires :: "u32 \<Rightarrow> IKCPSEG \<Rightarrow> wire_seg list" where
  "probe_wires probe seg =
     (if probe AND IKCP_ASK_SEND \<noteq> 0 then [(seg_header (seg\<lparr>seg_cmd := IKCP_CMD_WASK\<rparr>), [])] else []) @
     (if probe AND IKCP_ASK_TELL \<noteq> 0 then [(seg_header (seg\<lparr>seg_cmd := IKCP_CMD_WINS\<rparr>), [])] else [])"

text \<open>A buffered segment as it leaves, and the segments that do.\<close>

definition emitted :: "IKCPCB \<Rightarrow> u32 \<Rightarrow> IKCPSEG \<Rightarrow> IKCPSEG" where
  "emitted kcp wnd seg =
     (mark_segment kcp (k_current kcp) (flush_rtomin kcp) (why_send (k_current kcp) (flush_resent kcp) seg) seg)
       \<lparr>seg_ts := k_current kcp, seg_wnd := wnd, seg_una := k_rcv_nxt kcp\<rparr>"

definition due_segs :: "IKCPCB \<Rightarrow> IKCPSEG list" where
  "due_segs kcp = filter (\<lambda>seg. why_send (k_current kcp) (flush_resent kcp) seg \<noteq> Quiet) (k_snd_buf kcp)"

definition data_wires :: "IKCPCB \<Rightarrow> u32 \<Rightarrow> wire_seg list" where
  "data_wires kcp wnd = map (\<lambda>seg. wire_of (emitted kcp wnd seg)) (due_segs kcp)"

definition flush_wires :: "IKCPCB \<Rightarrow> wire_seg list" where
  "flush_wires kcp =
     ack_wires kcp @ probe_wires (k_probe (probe_window (kcp\<lparr>k_ackcount := 0\<rparr>))) (last_control kcp) @
     data_wires (flushed kcp) (ikcp_wnd_unused kcp)"

section \<open>Datagrams are cut between segments\<close>

text \<open>The datagrams sent so far and the bytes in the buffer are whole segments, together the list \<open>ws\<close>.\<close>

definition laid_out :: "outbuf \<Rightarrow> wire_seg list \<Rightarrow> bool" where
  "laid_out out ws \<longleftrightarrow> (\<exists>hss cur. snd out = map segs_bytes hss \<and> fst out = segs_bytes cur \<and> concat hss @ cur = ws)"

lemma segs_bytes_append: "segs_bytes (xs @ ys) = segs_bytes xs @ segs_bytes ys"
  by (simp add: segs_bytes_def)

lemma segs_bytes_Nil_iff [simp]: "segs_bytes ws = [] \<longleftrightarrow> ws = []"
proof (cases ws)
  case (Cons x ws')
  obtain h p where "x = (h, p)" by fastforce
  then have "24 \<le> length (segs_bytes ws)" using Cons by simp
  then show ?thesis using Cons by auto
qed simp

lemma laid_out_Nil: "laid_out ([], []) []"
  unfolding laid_out_def by (rule exI [of _ "[]"], rule exI [of _ "[]"]) simp

lemma laid_out_snoc:
  assumes "laid_out (ptr, sent) ws" shows "laid_out (ptr @ header_bytes h @ p, sent) (ws @ [(h, p)])"
proof -
  obtain hss cur where "sent = map segs_bytes hss" "ptr = segs_bytes cur" "concat hss @ cur = ws"
    using assms by (auto simp: laid_out_def)
  then show ?thesis unfolding laid_out_def
    by (intro exI [of _ hss] exI [of _ "cur @ [(h, p)]"]) (auto simp: segs_bytes_append)
qed

lemma output_all_laid:
  assumes "laid_out out ws" "output_all kcp out = Some out'"
  shows "laid_out out' ws \<and> fst out' = []"
proof -
  obtain hss cur where c: "snd out = map segs_bytes hss" "fst out = segs_bytes cur" "concat hss @ cur = ws"
    using assms(1) by (auto simp: laid_out_def)
  show ?thesis
  proof (cases "cur = []")
    case True
    then have "out' = ([], snd out)" using assms(2) c(2) by (auto simp: output_all_def ikcp_output_def split: if_splits)
    then show ?thesis using c True unfolding laid_out_def by (intro conjI exI [of _ hss] exI [of _ "[]"]) simp_all
  next
    case False
    then have "segs_bytes cur \<noteq> []" by simp
    then have "out' = ([], snd out @ [segs_bytes cur])"
      using assms(2) c(2) by (auto simp: output_all_def ikcp_output_def split: if_splits)
    then show ?thesis using c unfolding laid_out_def by (intro conjI exI [of _ "hss @ [cur]"] exI [of _ "[]"]) simp_all
  qed
qed

text \<open>The common start of both writers: hand over a full buffer, or go on in it.\<close>

lemma make_room_laid:
  assumes "laid_out out ws" "(if full then output_all kcp out else Some out) = Some out'" shows "laid_out out' ws"
  using assms output_all_laid by (cases full) auto

lemma put_control_laid:
  assumes "laid_out out ws" "put_control kcp seg out = Some out'" shows "laid_out out' (ws @ [(seg_header seg, [])])"
proof -
  obtain ptr sent where o: "(if (of_nat (length (fst out)) :: u32) + IKCP_OVERHEAD > k_mtu kcp then output_all kcp out else Some out)
      = Some (ptr, sent)" "checked kcp (ikcp_encode_seg ptr seg, sent) = Some out'"
    using assms(2) by (auto simp: put_control_def Let_def bind_eq_Some_conv)
  have "laid_out (ptr, sent) ws" by (rule make_room_laid [OF assms(1) o(1)])
  then have "laid_out (ptr @ header_bytes (seg_header seg) @ [], sent) (ws @ [(seg_header seg, [])])" by (rule laid_out_snoc)
  then show ?thesis using o(2) by (simp add: checked_def encode_seg_eq split: if_splits)
qed

lemma put_data_laid:
  assumes "laid_out out ws" "put_data kcp seg out = Some out'" shows "laid_out out' (ws @ [wire_of seg])"
proof -
  obtain ptr sent out1 where o: "(if sint ((of_nat (length (fst out)) :: i32) + (IKCP_OVERHEAD + seg_len seg)) > sint (k_mtu kcp)
      then output_all kcp out else Some out) = Some (ptr, sent)"
    "checked kcp (ikcp_encode_seg ptr seg, sent) = Some out1"
    "(if seg_len seg > 0
      then if length (seg_data seg) < unat (seg_len seg) then None
           else checked kcp (fst out1 @ take (unat (seg_len seg)) (seg_data seg), sent)
      else Some out1) = Some out'"
    using assms(2) by (auto simp: put_data_def Let_def bind_eq_Some_conv)
  have "laid_out (ptr, sent) ws" by (rule make_room_laid [OF assms(1) o(1)])
  then have "laid_out (ptr @ header_bytes (seg_header seg) @ payload seg, sent) (ws @ [(seg_header seg, payload seg)])"
    by (rule laid_out_snoc)
  moreover have "payload seg = []" if "\<not> seg_len seg > 0" using that by (simp add: payload_def word_gt_0)
  ultimately show ?thesis using o(2,3) by (auto simp: checked_def encode_seg_eq payload_def wire_of_def split: if_splits)
qed

lemma flush_acks_laid:
  assumes "laid_out out ws" "flush_acks kcp n i seg out = Some (seg', out')"
  shows "laid_out out' (ws @ map (\<lambda>(sn, ts). (seg_header (seg\<lparr>seg_sn := sn, seg_ts := ts\<rparr>), [])) (take n (drop i (k_acklist kcp))))
    \<and> seg' = (if n = 0 then seg else seg\<lparr>seg_sn := fst (k_acklist kcp ! (i + n - 1)), seg_ts := snd (k_acklist kcp ! (i + n - 1))\<rparr>)
    \<and> (n = 0 \<or> i + n \<le> length (k_acklist kcp))"
  using assms
proof (induction n arbitrary: i seg out ws)
  case (Suc n)
  let ?e = "k_acklist kcp ! i"
  let ?seg = "seg\<lparr>seg_sn := fst ?e, seg_ts := snd ?e\<rparr>"
  have i: "i < length (k_acklist kcp)" using Suc.prems(2) by (auto split: if_splits)
  obtain out1 where o: "put_control kcp ?seg out = Some out1" "flush_acks kcp n (Suc i) ?seg out1 = Some (seg', out')"
    using Suc.prems(2) i by (auto simp: Let_def ikcp_ack_get_def case_prod_beta split: option.splits)
  note IH = Suc.IH [OF put_control_laid [OF Suc.prems(1) o(1)] o(2)]
  have "take (Suc n) (drop i (k_acklist kcp)) = ?e # take n (drop (Suc i) (k_acklist kcp))"
    using i by (simp add: Cons_nth_drop_Suc [symmetric])
  then show ?case using IH i by (cases n) (auto simp: case_prod_beta)
qed simp

lemma flush_probes_laid:
  assumes "laid_out out ws" "flush_probes kcp seg out = Some out'" shows "laid_out out' (ws @ probe_wires (k_probe kcp) seg)"
proof -
  obtain out1 where o: "(if k_probe kcp AND IKCP_ASK_SEND \<noteq> 0
      then put_control kcp (seg\<lparr>seg_cmd := IKCP_CMD_WASK\<rparr>) out else Some out) = Some out1"
    "(if k_probe kcp AND IKCP_ASK_TELL \<noteq> 0
      then put_control kcp (seg\<lparr>seg_cmd := IKCP_CMD_WINS\<rparr>) out1 else Some out1) = Some out'"
    using assms(2) by (auto simp: flush_probes_def bind_eq_Some_conv)
  have "laid_out out1 (ws @ (if k_probe kcp AND IKCP_ASK_SEND \<noteq> 0 then [(seg_header (seg\<lparr>seg_cmd := IKCP_CMD_WASK\<rparr>), [])] else []))"
    using o(1) assms(1) put_control_laid by (auto split: if_splits)
  from put_control_laid [OF this] this show ?thesis using o(2) by (auto simp: probe_wires_def split: if_splits)
qed

text \<open>The loop over \<open>snd_buf\<close> sends the due segments in order and changes only those.\<close>

lemma flush_data_laid:
  fixes kcp wnd
  defines "rs \<equiv> flush_resent kcp" and "rm \<equiv> flush_rtomin kcp"
  assumes "laid_out (fs_out fs) ws" "flush_data kcp wnd rs rm buf fs = Some (buf', fs')"
  shows "laid_out (fs_out fs') (ws @ map (\<lambda>s. wire_of (emitted kcp wnd s))
           (filter (\<lambda>s. why_send (k_current kcp) rs s \<noteq> Quiet) buf))
    \<and> buf' = map (\<lambda>s. if why_send (k_current kcp) rs s = Quiet then s else emitted kcp wnd s) buf"
  using assms(3,4)
proof (induction buf arbitrary: fs ws buf')
  case (Cons s buf)
  obtain t fs1 buf1 where o: "flush_segment kcp wnd rs rm s fs = Some (t, fs1)" "flush_data kcp wnd rs rm buf fs1 = Some (buf1, fs')"
    "buf' = t # buf1"
    using Cons.prems(2) by (auto split: option.splits)
  show ?case
  proof (cases "why_send (k_current kcp) rs s = Quiet")
    case True
    then have "t = s" "fs1 = fs" using o(1) by (auto simp: flush_segment_def Let_def mark_segment_def)
    then show ?thesis using Cons.IH [OF Cons.prems(1), of buf1] o True by simp
  next
    case False
    have "t = emitted kcp wnd s \<and> put_data kcp t (fs_out fs) = Some (fs_out fs1)"
      using o(1) False by (auto simp: flush_segment_def Let_def emitted_def rs_def rm_def)
    then have t: "t = emitted kcp wnd s" "laid_out (fs_out fs1) (ws @ [wire_of t])" using put_data_laid [OF Cons.prems(1)] by blast+
    show ?thesis using Cons.IH [OF t(2) o(2)] t(1) o(3) False by simp
  qed
qed simp

section \<open>The whole flush\<close>

lemma flush_window_probe: "flush_window (probe_window (kcp\<lparr>k_ackcount := 0\<rparr>)\<lparr>k_probe := 0\<rparr>) = flush_window kcp"
  by (simp add: flush_window_def probe_window_def Let_def)

lemma flush_cwnd_buf [simp]: "k_snd_buf (flush_cwnd change lost resent cwnd kcp) = k_snd_buf kcp"
  by (simp add: flush_cwnd_def Let_def)

lemma flush_segments_elim:
  assumes "flush_segments kcp wnd out = Some (kcp', sent)" "move_snd (flush_window kcp) wnd kcp = m"
  obtains buf fs ptr where "flush_data m wnd (flush_resent m) (flush_rtomin m) (k_snd_buf m)
      \<lparr>fs_xmit = k_xmit m, fs_state = k_state m, fs_out = out, fs_change = False, fs_lost = False\<rparr> = Some (buf, fs)"
    "(if length (fst (fs_out fs)) > 0 then output_all m (fs_out fs) else Some (fs_out fs)) = Some (ptr, sent)"
    "k_snd_buf kcp' = buf"
  using assms(1) that unfolding flush_segments_def Let_def assms(2)
  by (auto simp: bind_eq_Some_conv simp del: length_greater_0_conv)

text \<open>The segment that goes on to the probes is the one of the last acknowledgement.\<close>

lemma last_control_acks:
  assumes "unat (k_ackcount kcp) \<le> length (k_acklist kcp)"
    and "flush_acks kcp (unat (k_ackcount kcp)) 0 (control_segment kcp) ([], []) = Some (seg, out)"
  shows "seg = last_control kcp" "seg_wnd seg = ikcp_wnd_unused kcp"
proof -
  note fa = flush_acks_laid [OF laid_out_Nil assms(2)]
  show "seg = last_control kcp"
  proof (cases "unat (k_ackcount kcp) = 0")
    case True
    then show ?thesis using fa by (simp add: last_control_def pending_acks_def)
  next
    case False
    then have ne: "pending_acks kcp \<noteq> []" using assms(1) by (auto simp: pending_acks_def)
    moreover have "last (pending_acks kcp) = k_acklist kcp ! (unat (k_ackcount kcp) - 1)"
      unfolding last_conv_nth [OF ne] using False assms(1) by (simp add: pending_acks_def)
    ultimately show ?thesis using fa False by (simp add: last_control_def)
  qed
  then show "seg_wnd seg = ikcp_wnd_unused kcp" by (simp add: last_control_def control_wnd)
qed

lemma flush_emits:
  assumes "kcp_wf kcp" "ikcp_flush kcp = Some (kcp', sent)" "k_updated kcp \<noteq> 0"
  shows "\<exists>hss. sent = map segs_bytes hss \<and> concat hss = flush_wires kcp"
    and "k_snd_buf kcp' = map (\<lambda>s. if why_send (k_current kcp) (flush_resent (flushed kcp)) s = Quiet then s
           else emitted (flushed kcp) (ikcp_wnd_unused kcp) s) (k_snd_buf (flushed kcp))"
proof -
  have n: "nat (sint (k_ackcount kcp)) = unat (k_ackcount kcp)" "unat (k_ackcount kcp) \<le> length (k_acklist kcp)"
    using assms(1) sint32_small [of "k_ackcount kcp"] by (simp_all add: kcp_wf_def ack_wf_def del: of_nat_unat)
  let ?k = "probe_window (kcp\<lparr>k_ackcount := 0\<rparr>)"
  obtain seg out1 out2 where o: "flush_acks kcp (unat (k_ackcount kcp)) 0 (control_segment kcp) ([], []) = Some (seg, out1)"
    "flush_probes ?k seg out1 = Some out2" "flush_segments (?k\<lparr>k_probe := 0\<rparr>) (seg_wnd seg) out2 = Some (kcp', sent)"
    using assms(2,3) n(1) by (auto simp: ikcp_flush_def Let_def bind_eq_Some_conv)
  note fa = flush_acks_laid [OF laid_out_Nil o(1)]
  note seg = last_control_acks [OF n(2) o(1)]
  have l1: "laid_out out1 (ack_wires kcp)" using fa by (simp add: ack_wires_def pending_acks_def)
  have l2: "laid_out out2 (ack_wires kcp @ probe_wires (k_probe ?k) (last_control kcp))"
    using flush_probes_laid [OF l1 o(2)] seg(1) by simp
  let ?f = "flushed kcp" and ?w = "ikcp_wnd_unused kcp"
  have f: "move_snd (flush_window (?k\<lparr>k_probe := 0\<rparr>)) ?w (?k\<lparr>k_probe := 0\<rparr>) = ?f"
    by (simp add: flushed_def flush_window_probe)
  have cur: "k_current ?f = k_current kcp" by (simp add: flushed_def move_snd_def probe_window_def Let_def)
  obtain buf fs ptr where d: "flush_data ?f ?w (flush_resent ?f) (flush_rtomin ?f) (k_snd_buf ?f)
      \<lparr>fs_xmit = k_xmit ?f, fs_state = k_state ?f, fs_out = out2, fs_change = False, fs_lost = False\<rparr> = Some (buf, fs)"
    "(if length (fst (fs_out fs)) > 0 then output_all ?f (fs_out fs) else Some (fs_out fs)) = Some (ptr, sent)"
    "k_snd_buf kcp' = buf"
    using flush_segments_elim [OF o(3) [unfolded seg(2)] f] .
  note fd = flush_data_laid [OF _ d(1)]
  have l3: "laid_out (fs_out fs) (flush_wires kcp)"
    using fd [of "ack_wires kcp @ probe_wires (k_probe ?k) (last_control kcp)"] l2 cur
    by (simp add: flush_wires_def data_wires_def due_segs_def)
  have "ptr = [] \<and> laid_out (ptr, sent) (flush_wires kcp)"
  proof (cases "length (fst (fs_out fs)) > 0")
    case True
    then show ?thesis using output_all_laid [OF l3] d(2) by auto
  qed (use d(2) l3 in auto)
  then obtain hss cur where "sent = map segs_bytes hss" "[] = segs_bytes cur" "concat hss @ cur = flush_wires kcp"
    by (auto simp: laid_out_def)
  then show "\<exists>hss. sent = map segs_bytes hss \<and> concat hss = flush_wires kcp"
    by (metis append_Nil2 segs_bytes_Nil_iff)
  show "k_snd_buf kcp' = map (\<lambda>s. if why_send (k_current kcp) (flush_resent ?f) s = Quiet then s
      else emitted ?f ?w s) (k_snd_buf ?f)"
    using fd [of "ack_wires kcp @ probe_wires (k_probe ?k) (last_control kcp)"] l2 cur d(3) by simp
qed

section \<open>A segment longer than the output buffer\<close>

lemma put_data_overrun:
  assumes "k_buffer kcp < 24 + unat (seg_len seg)" shows "put_data kcp seg out = None"
proof (rule ccontr)
  assume "put_data kcp seg out \<noteq> None"
  then obtain x where "put_data kcp seg out = Some x" by blast
  then obtain ptr sent out' where c: "checked kcp (ikcp_encode_seg ptr seg, sent) = Some out'"
    "(if seg_len seg > 0
      then if length (seg_data seg) < unat (seg_len seg) then None
           else checked kcp (fst out' @ take (unat (seg_len seg)) (seg_data seg), sent)
      else Some out') = Some x"
    unfolding put_data_def Let_def bind_eq_Some_conv case_prod_beta by metis
  have "fst out' = ikcp_encode_seg ptr seg" "length (ikcp_encode_seg ptr seg) \<le> k_buffer kcp"
    using c(1) by (auto simp: checked_def split: if_splits)
  then have "seg_len seg = 0 \<or> length ptr + 24 + unat (seg_len seg) \<le> k_buffer kcp" "length ptr + 24 \<le> k_buffer kcp"
    using c(2) by (auto simp: checked_def encode_seg_eq word_gt_0 split: if_splits)
  then show False using assms by auto
qed

lemma flush_data_overrun:
  assumes "seg \<in> set buf" "why_send (k_current kcp) resent seg \<noteq> Quiet" "k_buffer kcp < 24 + unat (seg_len seg)"
  shows "flush_data kcp wnd resent rtomin buf fs = None"
  using assms(1)
proof (induction buf arbitrary: fs)
  case (Cons s buf)
  show ?case
  proof (cases "s = seg")
    case True
    let ?t = "(mark_segment kcp (k_current kcp) rtomin (why_send (k_current kcp) resent seg) seg)
        \<lparr>seg_ts := k_current kcp, seg_wnd := wnd, seg_una := k_rcv_nxt kcp\<rparr>"
    have "seg_len ?t = seg_len seg" by (simp add: mark_segment_def Let_def split: need_send.split)
    then have "put_data kcp ?t (fs_out fs) = None" using assms(3) by (intro put_data_overrun) (simp only:)
    then have "flush_segment kcp wnd resent rtomin s fs = None"
      using True assms(2) by (simp add: flush_segment_def Let_def)
    then show ?thesis by simp
  next
    case False
    then show ?thesis using Cons by (simp split: option.split)
  qed
qed simp

lemma flush_overrun:
  assumes "ack_wf kcp" "k_updated kcp \<noteq> 0" "seg \<in> set (due_segs (flushed kcp))" "k_buffer kcp < 24 + unat (seg_len seg)"
  shows "ikcp_flush kcp = None"
proof (rule ccontr)
  assume "ikcp_flush kcp \<noteq> None"
  then obtain kcp' sent where some: "ikcp_flush kcp = Some (kcp', sent)" by auto
  have n: "nat (sint (k_ackcount kcp)) = unat (k_ackcount kcp)" "unat (k_ackcount kcp) \<le> length (k_acklist kcp)"
    using assms(1) sint32_small [of "k_ackcount kcp"] by (simp_all add: ack_wf_def del: of_nat_unat)
  let ?k = "probe_window (kcp\<lparr>k_ackcount := 0\<rparr>)" and ?f = "flushed kcp" and ?w = "ikcp_wnd_unused kcp"
  obtain c out1 out2 where o: "flush_acks kcp (unat (k_ackcount kcp)) 0 (control_segment kcp) ([], []) = Some (c, out1)"
    "flush_segments (?k\<lparr>k_probe := 0\<rparr>) (seg_wnd c) out2 = Some (kcp', sent)"
    using flush_elim [OF some assms(2)] n(1) by metis
  have f: "move_snd (flush_window (?k\<lparr>k_probe := 0\<rparr>)) ?w (?k\<lparr>k_probe := 0\<rparr>) = ?f"
    by (simp add: flushed_def flush_window_probe)
  obtain buf fs where "flush_data ?f ?w (flush_resent ?f) (flush_rtomin ?f) (k_snd_buf ?f)
      \<lparr>fs_xmit = k_xmit ?f, fs_state = k_state ?f, fs_out = out2, fs_change = False, fs_lost = False\<rparr> = Some (buf, fs)"
    using flush_segments_elim [OF o(2) [unfolded last_control_acks(2) [OF n(2) o(1)]] f] by metis
  moreover have "k_buffer (move_snd_from q cwnd wnd k) = k_buffer k" for q cwnd wnd k
    by (induction q arbitrary: k) simp_all
  then have "k_buffer ?f = k_buffer kcp" by (simp add: flushed_def move_snd_def probe_window_def Let_def)
  ultimately show False using flush_data_overrun [of seg "k_snd_buf ?f" ?f "flush_resent ?f" ?w] assms(3,4)
    by (simp add: due_segs_def)
qed

end
