(* ===== verification/Kcp_Held.thy ===== *)
theory Kcp_Held
  imports Kcp_Emission
begin

text \<open>
  What the receiver of a stream holds, and what the sender may forget. \<open>holds b sn\<close>: the receiving control
  block \<open>b\<close> has segment \<open>sn\<close>, passed on or waiting in \<open>rcv_buf\<close>. The lemmas show that no operation of the
  receiver loses a segment it holds, that it acknowledges only segments it holds, and that an acknowledgement
  makes the sender drop only such segments. Sequence numbers are compared as numbers here: the log of the
  sender stays below $2^{31}$ fragments, the range in which the wrapping comparisons of the code agree with
  the order of the numbers.
\<close>

section \<open>Numbers below $2^{31}$\<close>

lemma itimediff_small:
  assumes "unat a < 2147483648" "unat b < 2147483648"
  shows "itimediff a b > 0 \<longleftrightarrow> b < a" and "itimediff a b < 0 \<longleftrightarrow> a < b" and "itimediff a b \<ge> 0 \<longleftrightarrow> b \<le> a"
proof -
  have "unat (a - b) = (if unat b \<le> unat a then unat a - unat b else unat a + 4294967296 - unat b)" by (rule unat32_sub)
  then show "itimediff a b > 0 \<longleftrightarrow> b < a" "itimediff a b < 0 \<longleftrightarrow> a < b" "itimediff a b \<ge> 0 \<longleftrightarrow> b \<le> a"
    using assms unfolding itimediff_pos itimediff_neg itimediff_nonneg word_less_nat_alt word_le_nat_alt
    by (auto split: if_splits)
qed

lemma at_pos_small:
  assumes "at_pos log n sn f" "n < 4294967296" shows "unat sn < n"
  using assms unat32_of_nat_small by (auto simp: at_pos_def)

lemma snd_log_small:
  assumes "snd_log log kcp" "length log < 2147483648"
  shows "unat (k_snd_nxt kcp) \<le> length log" and "seg \<in> set (k_snd_buf kcp) \<Longrightarrow> seg_sn seg < k_snd_nxt kcp"
proof -
  obtain n where n: "n \<le> length log" "k_snd_nxt kcp = of_nat n" "\<forall>seg \<in> set (k_snd_buf kcp). logged log n seg"
    using assms(1) by (auto simp: snd_log_def)
  have u: "unat (k_snd_nxt kcp) = n" unfolding n(2) using n(1) assms(2) by (intro unat32_of_nat_small) simp
  show "unat (k_snd_nxt kcp) \<le> length log" using u n(1) by simp
  show "seg_sn seg < k_snd_nxt kcp" if "seg \<in> set (k_snd_buf kcp)"
    using n(1,3) that at_pos_small [of log n "seg_sn seg" "view seg"] u assms(2) by (auto simp: logged_def word_less_nat_alt)
qed

lemma rcv_log_small:
  assumes "rcv_log log got kcp" "length log < 2147483648"
  shows "unat (k_rcv_nxt kcp) \<le> length log"
    and "seg \<in> set (k_rcv_buf kcp) \<Longrightarrow> unat (seg_sn seg) < length log"
proof -
  obtain r where r: "r \<le> length log" "k_rcv_nxt kcp = of_nat r" "\<forall>seg \<in> set (k_rcv_buf kcp). logged log (length log) seg"
    using assms(1) by (auto simp: rcv_log_def)
  show "unat (k_rcv_nxt kcp) \<le> length log" unfolding r(2) using r(1) assms(2) by (simp add: unat32_of_nat)
  show "unat (seg_sn seg) < length log" if "seg \<in> set (k_rcv_buf kcp)"
    using r(3) that at_pos_small [of log "length log" "seg_sn seg" "view seg"] assms(2) by (auto simp: logged_def)
qed

section \<open>What the receiver holds\<close>

definition holds :: "IKCPCB \<Rightarrow> u32 \<Rightarrow> bool" where
  "holds b sn \<longleftrightarrow> sn < k_rcv_nxt b \<or> sn \<in> seg_sn ` set (k_rcv_buf b)"

text \<open>The number of the first segment of the stream that \<open>ikcp_recv\<close> has not taken yet.\<close>

definition read_pos :: "IKCPCB \<Rightarrow> u32" where
  "read_pos b = k_rcv_nxt b - k_nrcv_que b"

text \<open>Nothing in \<open>rcv_buf\<close> could be passed on.\<close>

definition settled :: "IKCPCB \<Rightarrow> bool" where
  "settled b \<longleftrightarrow> (case k_rcv_buf b of [] \<Rightarrow> True
     | seg # _ \<Rightarrow> \<not> (seg_sn seg = k_rcv_nxt b \<and> k_nrcv_que b < k_rcv_wnd b))"

definition acks_held :: "IKCPCB \<Rightarrow> bool" where
  "acks_held b \<longleftrightarrow> (\<forall>(sn, ts) \<in> set (pending_acks b). holds b sn)"

definition rcv_le :: "IKCPCB \<Rightarrow> IKCPCB \<Rightarrow> bool" where
  "rcv_le b b' \<longleftrightarrow> k_rcv_nxt b \<le> k_rcv_nxt b' \<and> (\<forall>sn. holds b sn \<longrightarrow> holds b' sn)"

lemma rcv_le_refl [simp]: "rcv_le b b"
  by (simp add: rcv_le_def)

lemma rcv_le_trans: "rcv_le a b \<Longrightarrow> rcv_le b c \<Longrightarrow> rcv_le a c"
  unfolding rcv_le_def using order.trans by blast

lemma rcv_view_le: "rcv_view b = rcv_view b' \<Longrightarrow> rcv_le b b'"
  by (simp add: rcv_view_def rcv_le_def holds_def)

lemma rcv_view_same:
  "rcv_view b = rcv_view b' \<Longrightarrow> settled b = settled b' \<and> read_pos b = read_pos b' \<and> k_rcv_wnd b = k_rcv_wnd b' \<and> holds b = holds b'"
  by (auto simp: rcv_view_def settled_def read_pos_def holds_def fun_eq_iff split: list.split)

lemma move_rcv_le:
  assumes "rcv_log log got (kcp\<lparr>k_rcv_buf := buf\<rparr>)" "length log < 2147483648"
  shows "rcv_le (kcp\<lparr>k_rcv_buf := buf\<rparr>) (move_rcv_from buf kcp) \<and> read_pos (move_rcv_from buf kcp) = read_pos kcp \<and>
    k_rcv_wnd (move_rcv_from buf kcp) = k_rcv_wnd kcp \<and> settled (move_rcv_from buf kcp)"
  using assms(1)
proof (induction buf arbitrary: kcp)
  case Nil
  then show ?case by (simp add: rcv_le_def holds_def read_pos_def settled_def)
next
  case (Cons seg buf)
  let ?k = "kcp\<lparr>k_nrcv_buf := k_nrcv_buf kcp - 1, k_rcv_queue := k_rcv_queue kcp @ [seg],
                k_nrcv_que := k_nrcv_que kcp + 1, k_rcv_nxt := k_rcv_nxt kcp + 1\<rparr>"
  show ?case
  proof (cases "seg_sn seg = k_rcv_nxt kcp \<and> k_nrcv_que kcp < k_rcv_wnd kcp")
    case True
    from Cons.prems obtain r where r: "r \<le> length log" "k_rcv_nxt kcp = of_nat r"
      "got @ map view (k_rcv_queue kcp) = take r log" "\<forall>t \<in> set (seg # buf). logged log (length log) t"
      by (auto simp: rcv_log_def)
    from r(4) obtain i where i: "i < length log" "seg_sn seg = of_nat i" "view seg = log ! i"
      by (auto simp: logged_def at_pos_def)
    have ir: "i = r" using i(1,2) r(1,2) True assms(2) of_nat32_inj [of i r] by simp
    then have log: "rcv_log log got (?k\<lparr>k_rcv_buf := buf\<rparr>)"
      using i r unfolding rcv_log_def
      by (intro exI [of _ "Suc r"]) (simp add: take_Suc_conv_app_nth add.commute flip: append_assoc)
    have lt: "k_rcv_nxt kcp < k_rcv_nxt kcp + 1"
    proof -
      have "unat (k_rcv_nxt kcp) = r" unfolding r(2) using r(1) assms(2) by (intro unat32_of_nat_small) simp
      then show ?thesis using unat32_add_small [of "k_rcv_nxt kcp" 1] i(1) ir assms(2) by (simp add: word_less_nat_alt)
    qed
    have "rcv_le (kcp\<lparr>k_rcv_buf := seg # buf\<rparr>) (?k\<lparr>k_rcv_buf := buf\<rparr>)"
      using lt True by (auto simp: rcv_le_def holds_def intro: order.strict_trans)
    then show ?thesis using Cons.IH [OF log] True rcv_le_trans by (auto simp: read_pos_def)
  next
    case False
    then show ?thesis by (auto simp: settled_def read_pos_def rcv_le_def holds_def)
  qed
qed

lemma move_rcv_held:
  assumes "rcv_log log got kcp" "length log < 2147483648"
  shows "rcv_le kcp (move_rcv kcp)" "read_pos (move_rcv kcp) = read_pos kcp" "k_rcv_wnd (move_rcv kcp) = k_rcv_wnd kcp"
    "settled (move_rcv kcp)"
  using move_rcv_le [where buf = "k_rcv_buf kcp" and kcp = kcp, OF _ assms(2)] assms(1) by (simp_all add: move_rcv_def)

section \<open>One segment arrives\<close>

text \<open>What every operation of the receiving side guarantees.\<close>

definition rcv_prog :: "IKCPCB \<Rightarrow> IKCPCB \<Rightarrow> bool" where
  "rcv_prog b b' \<longleftrightarrow> rcv_le b b' \<and> read_pos b' = read_pos b \<and> k_rcv_wnd b' = k_rcv_wnd b \<and>
     (settled b \<longrightarrow> settled b') \<and> (acks_held b \<longrightarrow> acks_held b')"

lemma rcv_prog_refl [simp]: "rcv_prog b b"
  by (simp add: rcv_prog_def)

lemma rcv_prog_trans: "rcv_prog a b \<Longrightarrow> rcv_prog b c \<Longrightarrow> rcv_prog a c"
  unfolding rcv_prog_def using rcv_le_trans by metis

lemma rcv_view_prog: "rcv_view b' = rcv_view b \<Longrightarrow> pending_acks b' = pending_acks b \<Longrightarrow> rcv_prog b b'"
  using rcv_view_same [of b' b] rcv_view_le [of b b'] by (simp add: rcv_prog_def acks_held_def)

lemma acks_held_mono: "acks_held b \<Longrightarrow> rcv_le b b' \<Longrightarrow> pending_acks b' = pending_acks b \<Longrightarrow> acks_held b'"
  by (auto simp: acks_held_def rcv_le_def)

named_theorems ack_frame "operations that leave the acknowledgement array alone"

lemma move_rcv_acks [ack_frame]: "pending_acks (move_rcv kcp) = pending_acks kcp"
proof -
  have "pending_acks (move_rcv_from buf kcp) = pending_acks kcp" for buf
    by (induction buf kcp rule: move_rcv_from.induct) (simp_all add: pending_acks_def)
  then show ?thesis by (simp add: move_rcv_def)
qed

lemma ops_acks [ack_frame]:
  "pending_acks (ikcp_shrink_buf kcp) = pending_acks kcp" "pending_acks (ikcp_parse_una kcp una) = pending_acks kcp"
  "pending_acks (ikcp_parse_ack kcp sn) = pending_acks kcp" "pending_acks (ikcp_update_ack kcp rtt) = pending_acks kcp"
  "pending_acks (kcp\<lparr>k_rmt_wnd := w\<rparr>) = pending_acks kcp" "pending_acks (kcp\<lparr>k_probe := p\<rparr>) = pending_acks kcp"
  "pending_acks (fast_recover f kcp) = pending_acks kcp" "pending_acks (drop_message kcp) = pending_acks kcp"
  "pending_acks (grow_cwnd u kcp) = pending_acks kcp"
  by (simp_all add: pending_acks_def shrink_buf_eq ikcp_parse_una_def ikcp_parse_ack_def ikcp_update_ack_def
      fast_recover_def drop_message_def grow_cwnd_def case_prod_beta Let_def)

lemma parse_data_acks [ack_frame]: "pending_acks (ikcp_parse_data kcp seg) = pending_acks kcp"
  by (simp add: ikcp_parse_data_def Let_def ack_frame split: option.split) (simp add: pending_acks_def)

lemma parse_data_prog:
  assumes wf: "rcv_wf kcp" and log: "rcv_log log got kcp" "length log < 2147483648" "logged log (length log) seg"
  shows "rcv_le kcp (ikcp_parse_data kcp seg)" "read_pos (ikcp_parse_data kcp seg) = read_pos kcp"
    "k_rcv_wnd (ikcp_parse_data kcp seg) = k_rcv_wnd kcp" "settled kcp \<Longrightarrow> settled (ikcp_parse_data kcp seg)"
    "itimediff (seg_sn seg) (k_rcv_nxt kcp + k_rcv_wnd kcp) < 0 \<Longrightarrow> itimediff (seg_sn seg) (k_rcv_nxt kcp) \<ge> 0 \<Longrightarrow>
       holds (ikcp_parse_data kcp seg) (seg_sn seg)"
proof -
  let ?n = "k_rcv_nxt kcp"
  let ?ins = "kcp\<lparr>k_rcv_buf := insert_by_off ?n seg (k_rcv_buf kcp), k_nrcv_buf := k_nrcv_buf kcp + 1\<rparr>"
  have ins: "rcv_log log got ?ins" "rcv_le kcp ?ins" "read_pos ?ins = read_pos kcp" "holds ?ins (seg_sn seg)"
    using log(1,3) by (auto simp: rcv_log_def rcv_le_def holds_def read_pos_def)
  note m1 = move_rcv_held [OF log(1,2)] and m2 = move_rcv_held [OF ins(1) log(2)]
  note cases = parse_data_cases [OF wf, of seg]
  show "rcv_le kcp (ikcp_parse_data kcp seg)" "read_pos (ikcp_parse_data kcp seg) = read_pos kcp"
    "k_rcv_wnd (ikcp_parse_data kcp seg) = k_rcv_wnd kcp" "settled kcp \<Longrightarrow> settled (ikcp_parse_data kcp seg)"
    using m1 m2 rcv_le_trans [OF ins(2) m2(1)] ins(3) unfolding cases by simp_all
  assume win: "itimediff (seg_sn seg) (?n + k_rcv_wnd kcp) < 0" "itimediff (seg_sn seg) ?n \<ge> 0"
  have "holds kcp (seg_sn seg)" if "seg_sn seg \<in> seg_sn ` set (k_rcv_buf kcp)" using that by (simp add: holds_def)
  then show "holds (ikcp_parse_data kcp seg) (seg_sn seg)"
    using win ins(4) m1(1) m2(1) unfolding cases rcv_le_def by simp
qed

lemma ack_push_held:
  assumes "alloc_bounded alloc" "ack_wf kcp" "ikcp_ack_push alloc i kcp sn ts = Some k" "acks_held kcp" "rcv_le k k'"
    and "holds k' sn" "pending_acks k' = pending_acks k"
  shows "acks_held k'"
proof -
  have "pending_acks k = pending_acks kcp @ [(sn, ts)]" using ack_push_wf(2) [OF assms(1-3)] .
  moreover have "holds k = holds kcp" using rcv_view_same [OF ack_push_view(2) [OF assms(3)]] by simp
  ultimately show ?thesis using assms(4-7) by (auto simp: acks_held_def rcv_le_def)
qed

lemma input_push_prog:
  assumes "alloc_bounded alloc" "kcp_wf kcp" "rcv_log log got kcp" "length log < 2147483648" "wire_ok log (h, p)" "h_cmd h = 81"
    and run: "input_push alloc j kcp h (p @ rest) = Some kcp'"
  shows "rcv_prog kcp kcp'"
    and "itimediff (h_sn h) (k_rcv_nxt kcp + k_rcv_wnd kcp) < 0 \<Longrightarrow> holds kcp' (h_sn h)"
proof -
  have "rcv_prog kcp kcp' \<and> (itimediff (h_sn h) (k_rcv_nxt kcp + k_rcv_wnd kcp) < 0 \<longrightarrow> holds kcp' (h_sn h))"
  proof (cases "itimediff (h_sn h) (k_rcv_nxt kcp + k_rcv_wnd kcp) < 0")
    case True
    then obtain k where k: "ikcp_ack_push alloc (2 * j) kcp (h_sn h) (h_ts h) = Some k"
      using run by (auto simp: input_push_def split: option.splits)
    have v: "rcv_view k = rcv_view kcp" by (rule ack_push_view(2) [OF k])
    have wf: "rcv_wf k" "ack_wf kcp" "rcv_log log got k" "k_rcv_nxt k = k_rcv_nxt kcp" "k_rcv_wnd k = k_rcv_wnd kcp"
    proof -
      obtain n xs c where "k = kcp\<lparr>k_ackblock := n, k_acklist := xs, k_ackcount := c\<rparr>" by (rule ack_push_fields [OF k])
      then show "rcv_wf k" "ack_wf kcp" using assms(2) by (simp_all add: kcp_wf_def kcp_frame)
    qed (use v assms(3) rcv_log_view [of k kcp] in \<open>simp_all add: rcv_view_def\<close>)
    note same = rcv_view_same [OF v] and le = rcv_view_le [OF v [symmetric]]
    let ?seg = "input_segment h (p @ rest)"
    show ?thesis
    proof (cases "itimediff (h_sn h) (k_rcv_nxt kcp) \<ge> 0")
      case new: True
      have k': "kcp' = ikcp_parse_data k ?seg" using run True k new wf(4) by (auto simp: input_push_def split: if_splits)
      have "logged log (length log) ?seg" using assms(5,6) by (simp add: logged_def wire_ok_def segment_view)
      note pd = parse_data_prog [OF wf(1,3) assms(4) this]
      have h: "holds kcp' (h_sn h)" using pd(5) True new wf(4,5) k' by (simp add: segment_view)
      have "acks_held kcp'" if "acks_held kcp"
        using ack_push_held [OF assms(1) wf(2) k that pd(1)] h k' by (simp add: ack_frame)
      then show ?thesis using pd(1-4) same le rcv_le_trans h unfolding k' rcv_prog_def by (metis v wf(5))
    next
      case old: False
      then have k': "kcp' = k" using run True k wf(4) by (simp add: input_push_def)
      have "unat (h_sn h) < 2147483648"
        using assms(4-6) at_pos_small [of log "length log" "h_sn h"] by (fastforce simp: wire_ok_def)
      then have "h_sn h < k_rcv_nxt kcp"
        using old itimediff_small(3) rcv_log_small(1) [OF assms(3,4)] assms(4) by (meson le_less_trans not_le)
      then have h: "holds kcp' (h_sn h)" using wf(4) k' by (simp add: holds_def)
      have "acks_held kcp'" if "acks_held kcp"
        using ack_push_held [OF assms(1) wf(2) k that, of k] h k' by simp
      then show ?thesis using same le h k' by (simp add: rcv_prog_def)
    qed
  qed (use run in \<open>simp add: input_push_def\<close>)
  then show "rcv_prog kcp kcp'" and "itimediff (h_sn h) (k_rcv_nxt kcp + k_rcv_wnd kcp) < 0 \<Longrightarrow> holds kcp' (h_sn h)" by blast+
qed

lemma input_one_prog:
  assumes "alloc_bounded alloc" "kcp_wf kcp" "rcv_log log got kcp" "length log < 2147483648" "wire_ok log (h, p)"
    and run: "input_one alloc j kcp h (p @ rest) = Some kcp'"
  shows "rcv_prog kcp kcp'"
    and "h_cmd h = 81 \<Longrightarrow> itimediff (h_sn h) (k_rcv_nxt kcp + k_rcv_wnd kcp) < 0 \<Longrightarrow> holds kcp' (h_sn h)"
proof -
  let ?k = "ikcp_shrink_buf (ikcp_parse_una (kcp\<lparr>k_rmt_wnd := ucast (h_wnd h)\<rparr>) (h_una h))"
  have v: "rcv_view ?k = rcv_view kcp" "pending_acks ?k = pending_acks kcp" by (simp_all add: stream_frame ack_frame)
  have k: "kcp_wf ?k" "rcv_log log got ?k" "rcv_prog kcp ?k"
    using una_keeps_wf [OF assms(2)] rcv_log_view [OF v(1)] assms(3) rcv_view_prog [OF v] by simp_all
  have nxt: "k_rcv_nxt ?k = k_rcv_nxt kcp" "k_rcv_wnd ?k = k_rcv_wnd kcp" using v(1) by (simp_all add: rcv_view_def)
  have same: "rcv_prog kcp k'" if "rcv_view k' = rcv_view ?k" "pending_acks k' = pending_acks ?k" for k'
    using rcv_prog_trans [OF k(3) rcv_view_prog [OF that]] .
  have "rcv_prog kcp (input_ack ?k h)" by (rule same) (simp_all add: stream_frame ack_frame input_ack_def Let_def)
  moreover have "rcv_prog kcp (?k\<lparr>k_probe := q\<rparr>)" for q by (rule same) (simp_all add: rcv_view_def ack_frame)
  moreover have push: "rcv_prog kcp kcp' \<and> (itimediff (h_sn h) (k_rcv_nxt kcp + k_rcv_wnd kcp) < 0 \<longrightarrow> holds kcp' (h_sn h))"
    if "h_cmd h = 81" "input_push alloc j ?k h (p @ rest) = Some kcp'"
    using input_push_prog [OF assms(1) k(1,2) assms(4,5) that] rcv_prog_trans [OF k(3)] nxt by metis
  ultimately show "rcv_prog kcp kcp'" using run k(3) push_byte [of "h_cmd h"]
    by (auto simp: input_one_def Let_def split: if_splits)
  assume "h_cmd h = 81" "itimediff (h_sn h) (k_rcv_nxt kcp + k_rcv_wnd kcp) < 0"
  then show "holds kcp' (h_sn h)" using run push
    by (simp add: input_one_def Let_def kcp_consts split: if_splits)
qed

end
