(* ===== verification/Kcp_Link.thy ===== *)
theory Kcp_Link
  imports Kcp_Held
begin

text \<open>
  Two control blocks of \<open>src/util/ikcp.c\<close> joined by a network in both directions. As in theory
  \<open>Kcp_Protocol\<close> the network loses, repeats and reorders datagrams as it likes; here the acknowledgements of the
  receiver travel over it as well, and nothing else reaches the sender. The invariant \<open>link_inv\<close> says that
  the sender keeps every segment until the receiver holds it. From it follows that losses are repaired (theories
  \<open>Kcp_Delivery\<close> and \<open>Kcp_Rounds\<close>).
\<close>

section \<open>What the sender may forget\<close>

text \<open>A segment that came back from the receiver \<open>b\<close>, now or earlier.\<close>

definition back_ok :: "IKCPCB \<Rightarrow> wire_seg \<Rightarrow> bool" where
  "back_ok b x \<longleftrightarrow>
     (case x of (h, p) \<Rightarrow> length p = unat (h_len h) \<and> h_una h \<le> k_rcv_nxt b \<and> (h_cmd h = 82 \<longrightarrow> holds b (h_sn h)))"

definition acked_held :: "IKCPCB \<Rightarrow> IKCPCB \<Rightarrow> bool" where
  "acked_held a b \<longleftrightarrow> (\<forall>sn < k_snd_nxt a. sn \<in> seg_sn ` set (k_snd_buf a) \<or> holds b sn)"

lemma acked_held_view: "snd_view a = snd_view a' \<Longrightarrow> acked_held a b = acked_held a' b"
  by (simp add: acked_held_def snd_view_def)

lemma acked_held_mono: "acked_held a b \<Longrightarrow> rcv_le b b' \<Longrightarrow> acked_held a b'"
  unfolding acked_held_def rcv_le_def by blast

lemma back_ok_mono: "back_ok b x \<Longrightarrow> rcv_le b b' \<Longrightarrow> back_ok b' x"
  unfolding back_ok_def rcv_le_def using order.trans by (auto split: prod.splits)

text \<open>Dropping segments the receiver holds.\<close>

lemma acked_held_drop:
  assumes "acked_held a b" "k_snd_nxt a' = k_snd_nxt a"
    and "\<And>sn. sn \<in> seg_sn ` set (k_snd_buf a) \<Longrightarrow> sn \<in> seg_sn ` set (k_snd_buf a') \<or> holds b sn"
  shows "acked_held a' b"
  using assms unfolding acked_held_def by metis

lemma parse_una_held:
  assumes "acked_held a b" "snd_log log a" "length log < 2147483648" "una \<le> k_rcv_nxt b" "unat (k_rcv_nxt b) < 2147483648"
  shows "acked_held (ikcp_parse_una a una) b"
proof (rule acked_held_drop [OF assms(1)])
  show "k_snd_nxt (ikcp_parse_una a una) = k_snd_nxt a" by (simp add: ikcp_parse_una_def case_prod_beta)
  let ?P = "\<lambda>seg. itimediff una (seg_sn seg) > 0"
  fix sn assume "sn \<in> seg_sn ` set (k_snd_buf a)"
  then obtain seg where seg: "seg \<in> set (k_snd_buf a)" "sn = seg_sn seg" by auto
  have lt: "unat una < 2147483648" "unat (seg_sn seg) < 2147483648"
    using assms(4,5) snd_log_small [OF assms(2,3)] seg(1) assms(3) by (fastforce simp: word_le_nat_alt word_less_nat_alt)+
  have "seg \<in> set (takeWhile ?P (k_snd_buf a)) \<or> seg \<in> set (dropWhile ?P (k_snd_buf a))"
    using seg(1) by (metis Un_iff set_append takeWhile_dropWhile_id)
  then show "sn \<in> seg_sn ` set (k_snd_buf (ikcp_parse_una a una)) \<or> holds b sn"
  proof
    assume "seg \<in> set (takeWhile ?P (k_snd_buf a))"
    then have "seg_sn seg < una" using set_takeWhileD itimediff_small(1) [OF lt] by fastforce
    then show ?thesis using assms(4) seg(2) by (auto simp: holds_def)
  next
    assume "seg \<in> set (dropWhile ?P (k_snd_buf a))"
    then show ?thesis using seg(2) by (simp add: ikcp_parse_una_def parse_una_loop_eq)
  qed
qed

lemma parse_ack_held:
  assumes "acked_held a b" "holds b sn" shows "acked_held (ikcp_parse_ack a sn) b"
proof (rule acked_held_drop [OF assms(1)])
  show "k_snd_nxt (ikcp_parse_ack a sn) = k_snd_nxt a" by (simp add: ikcp_parse_ack_def case_prod_beta)
  obtain xs ys where p: "k_snd_buf a = xs @ ys" "snd (parse_ack_loop sn (k_snd_buf a)) = map skip_ack xs @ tl ys"
    "ys \<noteq> [] \<Longrightarrow> seg_sn (hd ys) = sn"
    using parse_ack_parts by metis
  fix m assume m: "m \<in> seg_sn ` set (k_snd_buf a)"
  have "m \<in> seg_sn ` set (map skip_ack xs @ tl ys) \<or> m = sn"
  proof (cases ys)
    case (Cons y ys')
    then show ?thesis using m p(1,3) by (auto simp: image_Un image_image)
  qed (use m p(1) in \<open>auto simp: image_image\<close>)
  then show "m \<in> seg_sn ` set (k_snd_buf (ikcp_parse_ack a sn)) \<or> holds b m"
    using assms(2) m p(2) by (auto simp: ikcp_parse_ack_def case_prod_beta)
qed

lemma input_one_held:
  assumes "acked_held a b" "snd_log log a" "length log < 2147483648" "back_ok b (h, p)" "unat (k_rcv_nxt b) < 2147483648"
    and run: "input_one alloc j a h data = Some a'"
  shows "acked_held a' b"
proof -
  let ?a1 = "a\<lparr>k_rmt_wnd := ucast (h_wnd h)\<rparr>"
  let ?k = "ikcp_shrink_buf (ikcp_parse_una ?a1 (h_una h))"
  have a1: "acked_held ?a1 b" "snd_log log ?a1"
    using assms(1,2) acked_held_view [of ?a1 a] snd_log_view [of ?a1 a] by (simp_all add: stream_frame)
  have "acked_held (ikcp_parse_una ?a1 (h_una h)) b"
    by (rule parse_una_held [OF a1 assms(3) _ assms(5)]) (use assms(4) in \<open>simp add: back_ok_def\<close>)
  then have k: "acked_held ?k b" using acked_held_view shrink_buf_view(1) by metis
  have "acked_held (input_ack ?k h) b" if "ucast (h_cmd h) = IKCP_CMD_ACK"
  proof -
    have "h_cmd h = 82" using that byte_id [of "h_cmd h"] by simp
    then have "holds b (h_sn h)" using assms(4) by (simp add: back_ok_def)
    moreover have "acked_held (ikcp_update_ack ?k r) b" for r using k acked_held_view update_ack_view(1) by metis
    ultimately have "acked_held (ikcp_parse_ack (if itimediff (k_current ?k) (h_ts h) \<ge> 0
        then ikcp_update_ack ?k (k_current ?k - h_ts h) else ?k) (h_sn h)) b"
      using parse_ack_held k by simp
    then show ?thesis using acked_held_view [OF shrink_buf_view(1)] by (simp add: input_ack_def Let_def)
  qed
  moreover have "acked_held k' b" if "input_push alloc j ?k h data = Some k'" for k'
    using k acked_held_view [OF input_push_view [OF that]] by simp
  moreover have "acked_held (?k\<lparr>k_probe := q\<rparr>) b" for q using k acked_held_view [OF rmt_wnd_view(3)] by simp
  ultimately show ?thesis using run k by (auto simp: input_one_def Let_def split: if_splits)
qed

lemma input_held:
  assumes "acked_held a b" "snd_log log a" "length log < 2147483648" "made_of (back_ok b) d" "unat (k_rcv_nxt b) < 2147483648"
    and run: "ikcp_input alloc a (Some d) (int (length d)) = Some (r, a')"
  shows "acked_held a' b"
proof -
  obtain hs where hs: "d = segs_bytes hs" "\<forall>x \<in> set hs. back_ok b x" using assms(4) by (auto simp: made_of_def)
  have "acked_held k b \<and> snd_log log k" if "input_loop alloc 0 a d (int (length d)) = Some (x, k)" for x k
  proof (rule input_loop_segs [where P = "\<lambda>k. acked_held k b \<and> snd_log log k" and Q = "back_ok b", OF _ _ hs(2) _ that [unfolded hs(1)]])
    show "acked_held a b \<and> snd_log log a" using assms(1,2) by simp
    fix kcp j h p rest kcp'
    assume "acked_held kcp b \<and> snd_log log kcp" "back_ok b (h, p)" "input_one alloc j kcp h (p @ rest) = Some kcp'"
    then show "acked_held kcp' b \<and> snd_log log kcp'"
      using input_one_held [OF _ _ assms(3) _ assms(5)] input_one_snd_log by blast
  qed (simp add: back_ok_def)
  then show ?thesis using assms(1) run acked_held_view [OF grow_cwnd_view(1)]
    by (auto simp: ikcp_input_def Let_def split: option.splits if_splits)
qed

lemma move_snd_held:
  assumes "acked_held (kcp\<lparr>k_snd_queue := queue\<rparr>) b" shows "acked_held (move_snd_from queue cwnd wnd kcp) b"
  using assms
proof (induction queue arbitrary: kcp)
  case (Cons newseg queue)
  let ?k = "kcp\<lparr>k_snd_buf := k_snd_buf kcp @ [fresh_segment kcp wnd newseg], k_nsnd_que := k_nsnd_que kcp - 1,
      k_nsnd_buf := k_nsnd_buf kcp + 1, k_snd_nxt := k_snd_nxt kcp + 1\<rparr>"
  have "sn < k_snd_nxt kcp \<or> sn = k_snd_nxt kcp" if "sn < k_snd_nxt kcp + 1" for sn
    using that inc_le [of "k_snd_nxt kcp" sn] by (metis leD linorder_cases)
  then have "acked_held (?k\<lparr>k_snd_queue := queue\<rparr>) b" using Cons.prems by (auto simp: acked_held_def)
  then show ?case using Cons.IH [of ?k] Cons.prems by simp
qed simp

text \<open>What a flush of the receiver sends back.\<close>

lemma sent_back_ok: "sent_ok b buf x \<Longrightarrow> acks_held b \<Longrightarrow> back_ok b x"
  by (auto simp: sent_ok_def back_ok_def acks_held_def split: prod.splits)

lemma flush_acks_cleared:
  assumes "ikcp_flush b = Some (b', sent)" "k_updated b \<noteq> 0" shows "pending_acks b' = []"
proof -
  have "k_ackcount (move_snd_from q c w k) = k_ackcount k" for q c w k by (induction q arbitrary: k) simp_all
  then have fs: "k_ackcount k' = k_ackcount k" if "flush_segments k wnd out = Some (k', sent)" for k wnd out k' sent
    using that by (auto simp: flush_segments_def Let_def bind_eq_Some_conv flush_cwnd_def move_snd_def)
  show ?thesis
  proof (rule flush_elim [OF assms])
    fix seg out2
    assume "flush_segments (probe_window (b\<lparr>k_ackcount := 0\<rparr>)\<lparr>k_probe := 0\<rparr>) (seg_wnd seg) out2 = Some (b', sent)"
    then show ?thesis using fs by (fastforce simp: pending_acks_def probe_window_def Let_def)
  qed
qed

lemma update_back:
  assumes "api_inv b" "ikcp_update b current = Some (b', sent)" "acks_held b"
  shows "rcv_view b' = rcv_view b" "acks_held b'" "\<forall>d \<in> set sent. made_of (back_ok b') d"
proof -
  have wf: "kcp_wf b" "k_output b" using assms(1) by (simp_all add: api_inv_def)
  obtain k due where k: "update_clock b current = (k, due)" by fastforce
  have kv: "rcv_view k = rcv_view b" "pending_acks k = pending_acks b"
    using k by (auto simp: update_clock_def Let_def rcv_view_def pending_acks_def)
  have kw: "kcp_wf k" "k_output k" "k_updated k \<noteq> 0"
    using update_clock_wf [OF wf(1), of current] update_clock_updated [of b current] k wf(2) by simp_all
  have hk: "acks_held k" using assms(3) kv rcv_view_same [OF kv(1)] by (simp add: acks_held_def)
  show v: "rcv_view b' = rcv_view b" using update_ok [OF wf, of current] assms(2) by auto
  have same: "back_ok b' = back_ok k" using rcv_view_same [of b' k] v kv(1) by (simp add: fun_eq_iff back_ok_def rcv_view_def)
  show "acks_held b'" "\<forall>d \<in> set sent. made_of (back_ok b') d"
  proof (atomize (full), cases due)
    case True
    then have f: "ikcp_flush k = Some (b', sent)" using assms(2) k by (simp add: update_eq)
    have "\<forall>d \<in> set sent. made_of (sent_ok k (k_snd_buf (flushed k))) d" using flush_ok [OF kw] f by auto
    then have "\<forall>d \<in> set sent. made_of (back_ok k) d" using made_of_mono sent_back_ok [OF _ hk] by blast
    then show "acks_held b' \<and> (\<forall>d \<in> set sent. made_of (back_ok b') d)"
      using flush_acks_cleared [OF f kw(3)] same by (simp add: acks_held_def)
  next
    case False
    then show "acks_held b' \<and> (\<forall>d \<in> set sent. made_of (back_ok b') d)" using assms(2) k hk by (simp add: update_eq)
  qed
qed

lemma flush_sns:
  assumes "kcp_wf k" "k_output k" "k_updated k \<noteq> 0" "ikcp_flush k = Some (k', sent)"
  shows "seg_sn ` set (k_snd_buf k') = seg_sn ` set (k_snd_buf (flushed k))"
proof -
  have "list_all2 same_seg (k_snd_buf (flushed k)) (k_snd_buf k')" using flush_ok [OF assms(1-3)] assms(4) by auto
  then have "map seg_sn (k_snd_buf k') = map seg_sn (k_snd_buf (flushed k))"
    by (auto simp: list_all2_conv_all_nth same_seg_def intro!: nth_equalityI)
  then show ?thesis by (metis set_map)
qed

lemma update_held:
  assumes "api_inv a" "ikcp_update a current = Some (a', sent)" "acked_held a b" shows "acked_held a' b"
proof -
  obtain k due where k: "update_clock a current = (k, due)" by fastforce
  have kw: "kcp_wf k" "k_output k" "k_updated k \<noteq> 0"
    using update_clock_wf [of a current] update_clock_updated [of a current] k assms(1) by (simp_all add: api_inv_def)
  have "snd_view k = snd_view a" using k by (auto simp: update_clock_def Let_def snd_view_def)
  then have hk: "acked_held k b" using assms(3) acked_held_view by metis
  show ?thesis
  proof (cases due)
    case True
    then have f: "ikcp_flush k = Some (a', sent)" using assms(2) k by (simp add: update_eq)
    have nxt: "k_snd_nxt a' = k_snd_nxt (flushed k)" using flush_ok [OF kw] f by auto
    define k1 where "k1 = probe_window (k\<lparr>k_ackcount := 0\<rparr>)\<lparr>k_probe := 0\<rparr>"
    have "snd_view k1 = snd_view k" by (simp add: k1_def snd_view_def probe_window_def Let_def)
    then have "acked_held (k1\<lparr>k_snd_queue := k_snd_queue k1\<rparr>) b" 
      using acked_held_view [of k1 k b] hk by (simp add: acked_held_def)
    then have "acked_held (flushed k) b" unfolding flushed_def move_snd_def k1_def [symmetric] by (rule move_snd_held)
    then show ?thesis using nxt flush_sns [OF kw f] by (simp add: acked_held_def)
  qed (use assms(2) k hk in \<open>simp add: update_eq\<close>)
qed

section \<open>The two ends and the network between them\<close>

text \<open>\<open>lk_net\<close> has the two ends and what the sender put on the wire; \<open>lk_back\<close> holds every datagram the receiver
  has handed to its callback.\<close>

record link_state =
  lk_net :: net_state
  lk_back :: "bytes set"

definition link_init :: "link_state \<Rightarrow> bool" where
  "link_init s \<longleftrightarrow> net_init (lk_net s) \<and> lk_back s = {} \<and> k_conv (n_b (lk_net s)) = k_conv (n_a (lk_net s))"

inductive link_step :: "link_state \<Rightarrow> link_state \<Rightarrow> bool" where
  link_send: "alloc_bounded alloc \<Longrightarrow> ikcp_send alloc (n_a n) (Some msg) (of_nat (length msg)) = Some (r, a) \<Longrightarrow>
     length msg < 2147483648 \<Longrightarrow>
     link_step \<lparr>lk_net = n, lk_back = w\<rparr>
       \<lparr>lk_net = n\<lparr>n_a := a, n_sent := (if r = 0 then n_sent n @ [msg] else n_sent n)\<rparr>, lk_back = w\<rparr>"
| link_flush: "ikcp_update (n_a n) current = Some (a, out) \<Longrightarrow>
     link_step \<lparr>lk_net = n, lk_back = w\<rparr> \<lparr>lk_net = n\<lparr>n_a := a, n_wire := n_wire n \<union> set out\<rparr>, lk_back = w\<rparr>"
| link_ack: "alloc_bounded alloc \<Longrightarrow> d \<in> w \<Longrightarrow> ikcp_input alloc (n_a n) (Some d) (int (length d)) = Some (r, a) \<Longrightarrow>
     link_step \<lparr>lk_net = n, lk_back = w\<rparr> \<lparr>lk_net = n\<lparr>n_a := a\<rparr>, lk_back = w\<rparr>"
| link_read: "ikcp_recv (n_a n) buffer len = Some (r, out, a) \<Longrightarrow>
     link_step \<lparr>lk_net = n, lk_back = w\<rparr> \<lparr>lk_net = n\<lparr>n_a := a\<rparr>, lk_back = w\<rparr>"
| link_deliver: "alloc_bounded alloc \<Longrightarrow> d \<in> n_wire n \<Longrightarrow>
     ikcp_input alloc (n_b n) (Some d) (int (length d)) = Some (r, b) \<Longrightarrow>
     link_step \<lparr>lk_net = n, lk_back = w\<rparr> \<lparr>lk_net = n\<lparr>n_b := b\<rparr>, lk_back = w\<rparr>"
| link_recv: "ikcp_recv (n_b n) True len = Some (r, out, b) \<Longrightarrow>
     link_step \<lparr>lk_net = n, lk_back = w\<rparr>
       \<lparr>lk_net = n\<lparr>n_b := b, n_got := (if 0 \<le> sint len \<and> 0 \<le> r then n_got n @ [out] else n_got n)\<rparr>, lk_back = w\<rparr>"
| link_reply: "alloc_bounded alloc \<Longrightarrow> ikcp_send alloc (n_b n) (Some msg) (of_nat (length msg)) = Some (r, b) \<Longrightarrow>
     length msg < 2147483648 \<Longrightarrow> link_step \<lparr>lk_net = n, lk_back = w\<rparr> \<lparr>lk_net = n\<lparr>n_b := b\<rparr>, lk_back = w\<rparr>"
| link_tick: "ikcp_update (n_b n) current = Some (b, out) \<Longrightarrow>
     link_step \<lparr>lk_net = n, lk_back = w\<rparr> \<lparr>lk_net = n\<lparr>n_b := b\<rparr>, lk_back = w \<union> set out\<rparr>"

text \<open>Every step is a step of the one-way system of \<open>Kcp_Protocol\<close>, whose invariant therefore holds.\<close>

lemma link_net: "link_step s t \<Longrightarrow> net_step (lk_net s) (lk_net t)"
  by (induction rule: link_step.induct) (simp_all only: link_state.select_convs net_step.intros)

definition link_inv :: "link_state \<Rightarrow> bool" where
  "link_inv s \<longleftrightarrow>
     (let n = lk_net s; a = n_a n; b = n_b n
      in net_inv n \<and> k_conv b = k_conv a \<and>
         (length (net_log n) < 2147483648 \<longrightarrow>
            k_rcv_wnd b = 32 \<and> settled b \<and> acks_held b \<and> acked_held a b \<and> (\<forall>d \<in> lk_back s. made_of (back_ok b) d)))"

lemma link_invI:
  assumes "net_inv n" "k_conv (n_b n) = k_conv (n_a n)"
    and "length (net_log n) < 2147483648 \<Longrightarrow> k_rcv_wnd (n_b n) = 32 \<and> settled (n_b n) \<and> acks_held (n_b n) \<and> acked_held (n_a n) (n_b n)"
    and "length (net_log n) < 2147483648 \<Longrightarrow> \<forall>d \<in> w. made_of (back_ok (n_b n)) d"
  shows "link_inv \<lparr>lk_net = n, lk_back = w\<rparr>"
  using assms by (simp add: link_inv_def Let_def)

lemma link_invD:
  assumes "link_inv \<lparr>lk_net = n, lk_back = w\<rparr>"
  shows "net_inv n" "k_conv (n_b n) = k_conv (n_a n)"
    and "length (net_log n) < 2147483648 \<Longrightarrow> k_rcv_wnd (n_b n) = 32" "length (net_log n) < 2147483648 \<Longrightarrow> settled (n_b n)"
    "length (net_log n) < 2147483648 \<Longrightarrow> acks_held (n_b n)" "length (net_log n) < 2147483648 \<Longrightarrow> acked_held (n_a n) (n_b n)"
    "length (net_log n) < 2147483648 \<Longrightarrow> \<forall>d \<in> w. made_of (back_ok (n_b n)) d"
  using assms by (simp_all add: link_inv_def Let_def)

lemma net_logs:
  assumes "net_inv n" "length (net_log n) < 2147483648"
  obtains got where "snd_log (net_log n) (n_a n)" "rcv_log (net_log n) got (n_b n)" "unat (k_rcv_nxt (n_b n)) < 2147483648"
    "\<forall>d \<in> n_wire n. made_of (wire_ok (net_log n)) d"
proof -
  from assms obtain k where k: "snd_log (net_log n) (n_a n)" "\<forall>d \<in> n_wire n. made_of (wire_ok (net_log n)) d"
    "rcv_log (net_log n) (msg_log 1376 (take k (n_sent n))) (n_b n)"
    unfolding net_inv_def by auto
  show thesis by (rule that [OF k(1,3) _ k(2)]) (use rcv_log_small(1) [OF k(3) assms(2)] assms(2) in simp)
qed

lemma ready_link:
  assumes "ready_kcp k" shows "k_rcv_wnd k = 32" "settled k" "acks_held k" "k_snd_nxt k = 0"
proof -
  obtain k0 where k: "fresh_kcp k0" "k = k0 \<or> (\<exists>nodelay interval resend nc. k = snd (ikcp_nodelay k0 nodelay interval resend nc))"
    using assms unfolding ready_kcp_def by blast
  have "k_rcv_wnd k0 = 32" "k_rcv_buf k0 = []" "k_ackcount k0 = 0" "k_snd_nxt k0 = 0"
    using k(1) by (auto simp: fresh_kcp_def ikcp_create_def Let_def kcp_consts split: if_splits)
  then have "k_rcv_wnd k = 32" "k_rcv_buf k = []" "k_ackcount k = 0" "k_snd_nxt k = 0"
    using k(2) by (auto simp: ikcp_nodelay_def Let_def)
  then show "k_rcv_wnd k = 32" "settled k" "acks_held k" "k_snd_nxt k = 0"
    by (simp_all add: settled_def acks_held_def pending_acks_def)
qed

lemma link_init_inv: "link_init s \<Longrightarrow> link_inv s"
  using net_init_inv ready_link by (simp add: link_init_def link_inv_def Let_def net_init_def acked_held_def word_less_nat_alt)

text \<open>A step of the sender that keeps what the receiver has not.\<close>

lemma link_sender_inv:
  assumes inv: "link_inv \<lparr>lk_net = n, lk_back = w\<rparr>" and "net_inv n'" "n_b n' = n_b n" "k_conv (n_a n') = k_conv (n_a n)"
    and small: "length (net_log n) \<le> length (net_log n')"
    and "length (net_log n) < 2147483648 \<Longrightarrow> acked_held (n_a n) (n_b n) \<Longrightarrow> acked_held (n_a n') (n_b n)"
  shows "link_inv \<lparr>lk_net = n', lk_back = w\<rparr>"
  by (rule link_invI) (use assms link_invD [OF inv] in \<open>simp_all add: order.strict_trans1 [OF small]\<close>)

text \<open>A step of the receiver that loses nothing.\<close>

lemma link_receiver_inv:
  assumes inv: "link_inv \<lparr>lk_net = n, lk_back = w\<rparr>" and "net_inv n'" "n_a n' = n_a n" "k_conv (n_b n') = k_conv (n_b n)"
    "net_log n' = net_log n"
    and prog: "length (net_log n) < 2147483648 \<Longrightarrow> settled (n_b n) \<Longrightarrow> acks_held (n_b n) \<Longrightarrow>
      rcv_le (n_b n) (n_b n') \<and> k_rcv_wnd (n_b n') = k_rcv_wnd (n_b n) \<and> settled (n_b n') \<and> acks_held (n_b n')"
    and out: "length (net_log n) < 2147483648 \<Longrightarrow> acks_held (n_b n) \<Longrightarrow> \<forall>d \<in> D. made_of (back_ok (n_b n')) d"
  shows "link_inv \<lparr>lk_net = n', lk_back = w \<union> D\<rparr>"
proof (rule link_invI)
  note old = link_invD [OF inv]
  assume "length (net_log n') < 2147483648"
  then have s: "length (net_log n) < 2147483648" using assms(5) by simp
  note p = prog [OF s old(4) [OF s] old(5) [OF s]]
  show "k_rcv_wnd (n_b n') = 32 \<and> settled (n_b n') \<and> acks_held (n_b n') \<and> acked_held (n_a n') (n_b n')"
    using p old(3) [OF s] acked_held_mono [OF old(6) [OF s]] assms(3) by simp
  show "\<forall>d \<in> w \<union> D. made_of (back_ok (n_b n')) d"
    using old(7) [OF s] out [OF s old(5) [OF s]] back_ok_mono p made_of_mono by blast
qed (use assms link_invD [OF inv] in simp_all)

lemma input_prog:
  assumes "alloc_bounded alloc" "kcp_wf b" "rcv_log log got b" "length log < 2147483648" "made_of (wire_ok log) d"
    and run: "ikcp_input alloc b (Some d) (int (length d)) = Some (r, b')"
  shows "rcv_prog b b'"
proof -
  obtain hs where hs: "d = segs_bytes hs" "\<forall>x \<in> set hs. wire_ok log x" using assms(5) by (auto simp: made_of_def)
  have "kcp_wf k \<and> rcv_log log got k \<and> rcv_prog b k" if "input_loop alloc 0 b d (int (length d)) = Some (x, k)" for x k
  proof (rule input_loop_segs [where P = "\<lambda>k. kcp_wf k \<and> rcv_log log got k \<and> rcv_prog b k" and Q = "wire_ok log",
        OF _ _ hs(2) _ that [unfolded hs(1)]])
    show "kcp_wf b \<and> rcv_log log got b \<and> rcv_prog b b" using assms(2,3) by simp
    fix k j h p rest k'
    assume a: "kcp_wf k \<and> rcv_log log got k \<and> rcv_prog b k" "wire_ok log (h, p)" "input_one alloc j k h (p @ rest) = Some k'"
    then have k: "kcp_wf k" "rcv_wf k" "rcv_log log got k" by (simp_all add: kcp_wf_def)
    have "length log < 4294967296" using assms(4) by simp
    then have "kcp_wf k'" "rcv_log log got k'" "rcv_prog k k'"
      using one_keeps_wf [OF assms(1) k(1) a(3)] input_one_rcv_log [OF k(2,3) _ a(2,3)]
        input_one_prog(1) [OF assms(1) k(1,3) assms(4) a(2,3)] by blast+
    then show "kcp_wf k' \<and> rcv_log log got k' \<and> rcv_prog b k'" using a(1) rcv_prog_trans by blast
  qed (simp add: wire_ok_def)
  moreover have "rcv_prog k (grow_cwnd una k)" for una k by (rule rcv_view_prog) (simp_all add: stream_frame ack_frame)
  ultimately show ?thesis using run rcv_prog_trans
    by (fastforce simp: ikcp_input_def Let_def split: option.splits if_splits)
qed

lemma recv_held:
  assumes "rcv_wf b" "rcv_log log got b" "length log < 2147483648" "settled b" "acks_held b"
    and run: "ikcp_recv b buffer len = Some (r, out, b')"
  shows "rcv_le b b' \<and> k_rcv_wnd b' = k_rcv_wnd b \<and> settled b' \<and> acks_held b'"
proof -
  have fr: "rcv_view (fast_recover f k) = rcv_view k" for f k by (rule recv_ops_view(3))
  have main: "rcv_le k (fast_recover f (move_rcv k)) \<and> k_rcv_wnd (fast_recover f (move_rcv k)) = k_rcv_wnd k \<and>
      settled (fast_recover f (move_rcv k)) \<and> pending_acks (fast_recover f (move_rcv k)) = pending_acks k"
    if "rcv_log log g k" for k f g
    using move_rcv_held [OF that assms(3)] rcv_view_same [OF fr, of f "move_rcv k"] rcv_le_trans rcv_view_le [OF fr [symmetric]]
    by (simp add: ack_frame)
  let ?d = "drop_message b"
  have d: "rcv_log log (got @ map view (first_message (k_rcv_queue b))) ?d" "rcv_le b ?d" "k_rcv_wnd ?d = k_rcv_wnd b"
    "pending_acks ?d = pending_acks b"
  proof -
    have "map view (first_message q) @ map view (after_message q) = map view q" for q by (metis map_append message_split)
    then show "rcv_log log (got @ map view (first_message (k_rcv_queue b))) ?d"
      using assms(2) by (simp add: rcv_log_def drop_message_def)
  qed (simp_all add: rcv_le_def holds_def drop_message_def pending_acks_def)
  from recv_result [OF run] show ?thesis
  proof (elim disjE exE)
    fix f assume "b' = fast_recover f (move_rcv b)"
    then show ?thesis using main [OF assms(2), of f] acks_held_mono [OF assms(5)] by simp
  next
    fix f assume b': "b' = fast_recover f (move_rcv ?d)"
    have "rcv_le b b'" using main [OF d(1), of f] rcv_le_trans [OF d(2)] b' by simp
    then show ?thesis using main [OF d(1), of f] acks_held_mono [OF assms(5)] d(3,4) b' by simp
  qed (use assms(4,5) in simp)
qed

lemma cfg_conv: "cfg_view k = cfg_view k' \<Longrightarrow> k_conv k = k_conv k'"
  by (simp add: cfg_view_def)

text \<open>The three steps that use the logs: an acknowledgement reaches the sender, a datagram reaches the receiver, a
  message is taken.\<close>

lemma link_ack_inv:
  assumes inv: "link_inv \<lparr>lk_net = n, lk_back = w\<rparr>" and "net_inv (n\<lparr>n_a := a\<rparr>)" "d \<in> w"
    and run: "ikcp_input alloc (n_a n) (Some d) (int (length d)) = Some (r, a)"
  shows "link_inv \<lparr>lk_net = n\<lparr>n_a := a\<rparr>, lk_back = w\<rparr>"
proof -
  note D = link_invD [OF inv]
  have keep: "acked_held a (n_b n)" if "length (net_log n) < 2147483648" "acked_held (n_a n) (n_b n)"
  proof (rule net_logs [OF D(1) that(1)])
    fix got assume l: "snd_log (net_log n) (n_a n)" "unat (k_rcv_nxt (n_b n)) < 2147483648"
    have "made_of (back_ok (n_b n)) d" using D(7) assms(3) that(1) by simp
    then show ?thesis by (rule input_held [OF that(2) l(1) that(1) _ l(2) run])
  qed
  have log: "net_log (n\<lparr>n_a := a\<rparr>) = net_log n" by (simp add: net_log_def)
  show ?thesis
    by (rule link_sender_inv [where n = n])
      (use inv assms(2) cfg_conv [OF input_cfg [OF run]] keep in \<open>simp_all add: log\<close>)
qed

lemma link_deliver_inv:
  assumes inv: "link_inv \<lparr>lk_net = n, lk_back = w\<rparr>" and "net_inv (n\<lparr>n_b := b\<rparr>)" "alloc_bounded alloc" "d \<in> n_wire n"
    and run: "ikcp_input alloc (n_b n) (Some d) (int (length d)) = Some (r, b)"
  shows "link_inv \<lparr>lk_net = n\<lparr>n_b := b\<rparr>, lk_back = w\<rparr>"
proof -
  note D = link_invD [OF inv]
  have "rcv_prog (n_b n) b" if "length (net_log n) < 2147483648"
  proof (rule net_logs [OF D(1) that])
    fix got assume l: "rcv_log (net_log n) got (n_b n)" "\<forall>d \<in> n_wire n. made_of (wire_ok (net_log n)) d"
    show ?thesis by (rule input_prog [OF assms(3) _ l(1) that _ run])
      (use l(2) assms(4) D(1) in \<open>simp_all add: net_inv_def api_inv_def\<close>)
  qed
  then have "link_inv \<lparr>lk_net = n\<lparr>n_b := b\<rparr>, lk_back = w \<union> {}\<rparr>"
    by (intro link_receiver_inv [where n = n])
      (use inv assms(2) cfg_conv [OF input_cfg [OF run]] in \<open>simp_all add: net_log_def rcv_prog_def\<close>)
  then show ?thesis by simp
qed

lemma link_recv_inv:
  assumes inv: "link_inv \<lparr>lk_net = n, lk_back = w\<rparr>" and "net_inv (n\<lparr>n_b := b, n_got := got'\<rparr>)"
    and run: "ikcp_recv (n_b n) True len = Some (r, out, b)"
  shows "link_inv \<lparr>lk_net = n\<lparr>n_b := b, n_got := got'\<rparr>, lk_back = w\<rparr>"
proof -
  note D = link_invD [OF inv]
  have "rcv_le (n_b n) b \<and> k_rcv_wnd b = k_rcv_wnd (n_b n) \<and> settled b \<and> acks_held b"
    if "length (net_log n) < 2147483648" "settled (n_b n)" "acks_held (n_b n)"
  proof (rule net_logs [OF D(1) that(1)])
    fix got assume l: "rcv_log (net_log n) got (n_b n)"
    show ?thesis by (rule recv_held [OF _ l that run]) (use D(1) in \<open>simp add: net_inv_def api_inv_def kcp_wf_def\<close>)
  qed
  then have "link_inv \<lparr>lk_net = n\<lparr>n_b := b, n_got := got'\<rparr>, lk_back = w \<union> {}\<rparr>"
    by (intro link_receiver_inv [where n = n])
      (use inv assms(2) cfg_conv [OF recv_cfg [OF run]] in \<open>simp_all add: net_log_def\<close>)
  then show ?thesis by simp
qed

lemma link_step_inv:
  assumes "link_inv s" "link_step s t" shows "link_inv t"
proof -
  have net: "net_inv (lk_net t)" using net_step_inv [OF _ link_net [OF assms(2)]] assms(1) by (simp add: link_inv_def Let_def)
  have wf: "api_inv (n_a (lk_net s))" "api_inv (n_b (lk_net s))" "cfg_wf (n_a (lk_net s))" "cfg_wf (n_b (lk_net s))"
    "rcv_wf (n_b (lk_net s))" "kcp_wf (n_b (lk_net s))" "net_inv (lk_net s)"
    using assms(1) by (simp_all add: link_inv_def net_inv_def Let_def api_inv_def kcp_wf_def)
  from assms(2,1) net wf show ?thesis
  proof (cases rule: link_step.cases)
    case (link_send alloc n msg r a w)
    have "acked_held a b = acked_held (n_a n) b" for b
      using send_cases [OF _ link_send(4,5)] wf(3) link_send(1) by (auto simp: acked_held_def)
    moreover have "length (net_log n) \<le> length (net_log (lk_net t))"
      using link_send(2) by (simp add: net_log_def msg_log_def)
    ultimately show ?thesis using link_sender_inv [of n w "lk_net t"] cfg_conv [OF send_cfg [OF _ link_send(4,5)]] assms(1) net wf(3) link_send
      by simp
  next
    case (link_flush n current a out w)
    show ?thesis unfolding link_flush(2)
      by (rule link_sender_inv [where n = n])
        (use link_flush assms(1) net wf(1) update_held [OF _ link_flush(3)] cfg_conv [OF update_cfg [OF link_flush(3)]] in
          \<open>simp_all add: net_log_def\<close>)
  next
    case (link_ack alloc d w n r a)
    then show ?thesis using link_ack_inv [OF _ _ link_ack(4,5)] assms(1) net by simp
  next
    case (link_read n buffer len r out a w)
    have "snd_view a = snd_view (n_a n)" using recv_result [OF link_read(3)] by (auto simp: stream_frame)
    then have keep: "acked_held a (n_b n) = acked_held (n_a n) (n_b n)" by (rule acked_held_view)
    have log: "net_log (n\<lparr>n_a := a\<rparr>) = net_log n" by (simp add: net_log_def)
    show ?thesis unfolding link_read(2)
      by (rule link_sender_inv [where n = n])
        (use link_read(1,2) assms(1) net cfg_conv [OF recv_cfg [OF link_read(3)]] keep in \<open>simp_all add: log\<close>)
  next
    case (link_deliver alloc d n r b w)
    then show ?thesis using link_deliver_inv [OF _ _ link_deliver(3-5)] assms(1) net by simp
  next
    case (link_recv n len r out b w)
    then show ?thesis using link_recv_inv [OF _ _ link_recv(3)] assms(1) net by simp
  next
    case (link_reply alloc n msg r b w)
    have v: "rcv_view b = rcv_view (n_b n)" "pending_acks b = pending_acks (n_b n)"
      using send_cases [OF _ link_reply(4,5)] wf(4) link_reply(1) by (auto simp: rcv_view_def pending_acks_def)
    have "link_inv \<lparr>lk_net = lk_net t, lk_back = w \<union> {}\<rparr>"
      by (rule link_receiver_inv [where n = n])
        (use link_reply assms(1) net cfg_conv [OF send_cfg [OF _ link_reply(4,5)]] wf(4) rcv_view_prog [OF v] in
          \<open>simp_all add: net_log_def rcv_prog_def\<close>)
    then show ?thesis using link_reply(2) by simp
  next
    case (link_tick n current b out w)
    note ub = update_back [OF _ link_tick(3)]
    show ?thesis unfolding link_tick(2)
      by (rule link_receiver_inv [where n = n])
        (use link_tick assms(1) net wf(2) cfg_conv [OF update_cfg [OF link_tick(3)]] ub rcv_view_same [OF ub(1)] rcv_view_le [of "n_b n" b] in
          \<open>simp_all add: net_log_def\<close>)
  qed
qed

interpretation link: step_system link_init link_step link_inv
  by unfold_locales (rule link_init_inv, assumption, rule link_step_inv)

end
