(* ===== verification/Kcp_Recovery.thy ===== *)
theory Kcp_Recovery
  imports Kcp_Link
begin

text \<open>
  Two ingredients of the proof that losses are repaired (theory \<open>Kcp_Delivery\<close>). First, when memory is granted, a
  datagram of the peer is processed to its end, and the receiver holds every data segment of it that lies in
  its window. Second, the sender of a link never has more than a window of 32 segments in flight.
\<close>

definition granting :: "allocator \<Rightarrow> bool" where
  "granting alloc \<longleftrightarrow> (\<forall>i n. n < 17179869184 \<longrightarrow> alloc i n)"

text \<open>Then \<open>ikcp_send\<close> gets every segment it asks for.\<close>

lemma send_granted:
  assumes "granting alloc" shows "ikcp_send alloc kcp buf len = ikcp_send (\<lambda>i n. True) kcp buf len"
proof -
  have "sizeof_IKCPSEG + unat (w :: u32) < 17179869184" for w
    unfolding sizeof_IKCPSEG_def using unat32_less [of w] by linarith
  then have "alloc i (sizeof_IKCPSEG + unat (w :: u32))" for i w using assms unfolding granting_def by blast
  then have "send_loop alloc count rem b l k = send_loop (\<lambda>i n. True) count rem b l k" for count rem b l k
    by (induction rem arbitrary: b l k) (simp_all only: send_loop.simps Let_def not_True_eq_False if_False)
  then show ?thesis by (simp add: ikcp_send_def Let_def)
qed

section \<open>A datagram that arrives is processed to its end\<close>

lemma grow_block_le: "0 < b \<Longrightarrow> grow_block b n < max (Suc b) (2 * n)"
proof (induction b n rule: grow_block.induct)
  case (1 b n)
  then show ?case by (cases "b < n") (auto simp: grow_block.simps [of b n])
qed

lemma ack_push_total:
  assumes "granting alloc" "ack_wf kcp" "unat (k_ackcount kcp) < 1073741823"
  shows "\<exists>k. ikcp_ack_push alloc i kcp sn ts = Some k"
proof -
  have "unat (k_ackcount kcp + 1) = Suc (unat (k_ackcount kcp))" using assms(3) unat32_add_small [of "k_ackcount kcp" 1] by simp
  moreover have "grow_block 8 (Suc (unat (k_ackcount kcp))) * 4 * 2 < 17179869184"
    using grow_block_le [of 8 "Suc (unat (k_ackcount kcp))"] assms(3) by simp
  ultimately show ?thesis using assms(1) by (simp add: ikcp_ack_push_def Let_def granting_def)
qed

lemma ack_wf_pending: "ack_wf kcp \<Longrightarrow> length (pending_acks kcp) = unat (k_ackcount kcp)"
  by (simp add: ack_wf_def pending_acks_def)

lemma input_one_granted:
  assumes "granting alloc" "alloc_bounded alloc" "kcp_wf kcp" "length (pending_acks kcp) < 1073741823" "length p = unat (h_len h)"
  shows "\<exists>kcp'. input_one alloc j kcp h (p @ rest) = Some kcp' \<and> kcp_wf kcp' \<and> k_conv kcp' = k_conv kcp \<and>
    length (pending_acks kcp') \<le> length (pending_acks kcp) + (if h_cmd h = 81 then 1 else 0)"
proof -
  let ?k = "ikcp_shrink_buf (ikcp_parse_una (kcp\<lparr>k_rmt_wnd := ucast (h_wnd h)\<rparr>) (h_una h))"
  have k: "kcp_wf ?k" "pending_acks ?k = pending_acks kcp" using una_keeps_wf [OF assms(3)] by (simp_all add: ack_frame)
  then have aw: "ack_wf ?k" by (simp add: kcp_wf_def)
  have "unat (k_ackcount ?k) < 1073741823" using ack_wf_pending [OF aw] k(2) assms(4) by simp
  then obtain k2 where k2: "ikcp_ack_push alloc (2 * j) ?k (h_sn h) (h_ts h) = Some k2"
    using ack_push_total [OF assms(1) aw] by blast
  have p2: "length (pending_acks k2) = Suc (length (pending_acks kcp))" using ack_push_wf(2) [OF assms(2) aw k2] k(2) by simp
  have "sizeof_IKCPSEG + unat (h_len h) < 17179869184"
    using unat32_less [of "h_len h"] unfolding sizeof_IKCPSEG_def by linarith
  then have len: "alloc (2 * j + 1) (sizeof_IKCPSEG + unat (h_len h))" using assms(1) by (simp add: granting_def)
  have push: "\<exists>k'. input_push alloc j ?k h (p @ rest) = Some k' \<and> length (pending_acks k') \<le> Suc (length (pending_acks kcp))"
    using k2 p2 len assms(5) k(2) by (auto simp: input_push_def ack_frame)
  have "h_cmd h = 81" if "ucast (h_cmd h) = IKCP_CMD_PUSH" using that byte_id [of "h_cmd h"] by simp
  then have "\<exists>kcp'. input_one alloc j kcp h (p @ rest) = Some kcp' \<and>
      length (pending_acks kcp') \<le> length (pending_acks kcp) + (if h_cmd h = 81 then 1 else 0)"
    using push k(2) by (auto simp: input_one_def Let_def input_ack_def ack_frame)
  then show ?thesis using one_keeps_wf [OF assms(2,3)] cfg_conv [OF input_one_cfg] by blast
qed

text \<open>What has to be true of a datagram for all its segments to be processed.\<close>

definition is_push :: "wire_seg \<Rightarrow> bool" where "is_push x \<longleftrightarrow> h_cmd (fst x) = 81"

definition for_b :: "frag list \<Rightarrow> u32 \<Rightarrow> wire_seg \<Rightarrow> bool" where
  "for_b log conv x \<longleftrightarrow> wire_ok log x \<and> h_conv (fst x) = conv \<and> cmd_known (h_cmd (fst x))"

text \<open>Data segments with these numbers, if they are inside the window, are held afterwards.\<close>

definition got_all :: "IKCPCB \<Rightarrow> IKCPCB \<Rightarrow> wire_seg list \<Rightarrow> bool" where
  "got_all b b' ws \<longleftrightarrow> (\<forall>x \<in> set ws. h_cmd (fst x) = 81 \<and> unat (h_sn (fst x)) < unat (k_rcv_nxt b) + 32 \<longrightarrow> holds b' (h_sn (fst x)))"

lemma window_itimediff:
  assumes "unat sn < 2147483648" "unat nxt < 2147483648" "\<not> sn < nxt" "unat sn < unat nxt + 32"
  shows "itimediff sn (nxt + 32) < 0"
proof -
  have n: "unat (nxt + 32) = unat nxt + 32" using assms(2) unat32_add_small [of nxt 32] by simp
  have "unat (sn - (nxt + 32)) = unat sn + 4294967296 - (unat nxt + 32)" unfolding unat32_sub n using assms(4) by simp
  moreover have "unat nxt \<le> unat sn" using assms(3) by (simp add: word_less_nat_alt)
  ultimately show ?thesis unfolding itimediff_neg using assms(1,2) by linarith
qed

text \<open>The check of the window takes a number far behind it for one before it, as long as it is less than $2^{31}$ away.\<close>

lemma window_behind:
  assumes "unat nxt < 2147483616" "unat sn < unat nxt + 32" shows "itimediff sn (nxt + 32) < 0"
proof -
  have n: "unat (nxt + 32) = unat nxt + 32" using assms(1) unat32_add_small [of nxt 32] by simp
  have "unat (sn - (nxt + 32)) = unat sn + 4294967296 - (unat nxt + 32)" unfolding unat32_sub n using assms(2) by simp
  then show ?thesis unfolding itimediff_neg using assms(1) by linarith
qed

text \<open>One turn of the loop, when the segment is complete and of the right conversation.\<close>

lemma input_loop_turn:
  assumes "h_conv h = k_conv b" "cmd_known (h_cmd h)" "length p = unat (h_len h)"
    and "input_one alloc j b h (p @ segs_bytes hs) = Some b'"
  shows "input_loop alloc j b (segs_bytes ((h, p) # hs)) (int (length (segs_bytes ((h, p) # hs)))) =
    input_loop alloc (Suc j) b' (segs_bytes hs) (int (length (segs_bytes hs)))"
proof -
  let ?d = "segs_bytes ((h, p) # hs)"
  have dec: "ikcp_decode32u IWORDS_BIG_ENDIAN ?d = Some (h_conv h, rest_bytes h @ p @ segs_bytes hs)"
    "decode_rest (h_conv h) (rest_bytes h @ p @ segs_bytes hs) = Some (h, p @ segs_bytes hs)"
    by (simp_all add: header_split codec_simps)
  have sz: "int (length ?d) - 24 - uint (h_len h) = int (length (segs_bytes hs))"
    using assms(3) int_unat32 [of "h_len h"] by (simp del: of_nat_unat)
  have big: "\<not> int (length ?d) < 24" "\<not> int (length ?d) - 24 < uint (h_len h)" using sz by simp_all
  have conv: "(h_conv h \<noteq> k_conv b) = False" using assms(1) by simp
  have "input_loop alloc j b ?d (int (length ?d)) =
      input_loop alloc (Suc j) b' (drop (unat (h_len h)) (p @ segs_bytes hs)) (int (length (segs_bytes hs)))"
    unfolding sz [symmetric]
    by (subst input_loop.simps) (simp only: overhead big dec conv assms(2,4) if_False option.case prod.case Let_def not_True_eq_False)
  then show ?thesis using assms(3) by simp
qed

text \<open>A data segment inside the window is held once its turn is over.\<close>

lemma input_one_holds:
  assumes "alloc_bounded alloc" "kcp_wf b" "rcv_log log got b" "length log < 2147483648" "wire_ok log (h, p)"
    and run: "input_one alloc j b h (p @ rest) = Some b'"
    and "k_rcv_wnd b = 32" "h_cmd h = 81" "unat (h_sn h) < unat (k_rcv_nxt b) + 32"
  shows "holds b' (h_sn h)"
proof -
  note pr = input_one_prog [OF assms(1-5) run]
  have "unat (h_sn h) < 2147483648" using assms(5,8) at_pos_small [of log "length log" "h_sn h"] assms(4)
    by (fastforce simp: wire_ok_def)
  moreover have "unat (k_rcv_nxt b) < 2147483648" using rcv_log_small(1) [OF assms(3,4)] assms(4) by simp
  ultimately have "h_sn h < k_rcv_nxt b \<or> itimediff (h_sn h) (k_rcv_nxt b + k_rcv_wnd b) < 0"
    using window_itimediff assms(7,9) by metis
  then show ?thesis using pr(2) [OF assms(8)] pr(1) by (auto simp: rcv_prog_def rcv_le_def holds_def)
qed

text \<open>The whole loop. \<open>P ws k\<close> says what is true of the control block \<open>k\<close> once the segments \<open>ws\<close> were processed.\<close>

lemma input_loop_granted:
  assumes "granting alloc" "alloc_bounded alloc"
    and step: "\<And>ws k j h p rest k'. P ws k \<Longrightarrow> kcp_wf k \<Longrightarrow> Q (h, p) \<Longrightarrow> input_one alloc j k h (p @ rest) = Some k' \<Longrightarrow>
      P (ws @ [(h, p)]) k'"
    and Q: "\<And>h p. Q (h, p) \<Longrightarrow> h_conv h = conv \<and> cmd_known (h_cmd h) \<and> length p = unat (h_len h)"
    and "kcp_wf k" "k_conv k = conv" "P ws k" "\<forall>x \<in> set hs. Q x"
    "length (pending_acks k) + length (filter is_push hs) < 1073741823"
  shows "\<exists>k'. input_loop alloc j k (segs_bytes hs) (int (length (segs_bytes hs))) = Some (0, k') \<and> kcp_wf k' \<and>
    k_conv k' = conv \<and> P (ws @ hs) k' \<and> length (pending_acks k') \<le> length (pending_acks k) + length (filter is_push hs)"
  using assms(5-)
proof (induction hs arbitrary: j k ws)
  case Nil
  then show ?case by (simp add: input_loop.simps)
next
  case (Cons x hs)
  obtain h p where x: "x = (h, p)" by fastforce
  have ok: "h_conv h = k_conv k" "cmd_known (h_cmd h)" "length p = unat (h_len h)"
    using Q [of h p] Cons.prems(2,4) x by simp_all
  obtain k1 where k1: "input_one alloc j k h (p @ segs_bytes hs) = Some k1" "kcp_wf k1" "k_conv k1 = k_conv k"
    "length (pending_acks k1) \<le> length (pending_acks k) + (if h_cmd h = 81 then 1 else 0)"
    using input_one_granted [OF assms(1,2) Cons.prems(1) _ ok(3)] Cons.prems(5) by fastforce
  have push: "is_push x \<longleftrightarrow> h_cmd h = 81" by (simp add: is_push_def x)
  have "P (ws @ [x]) k1" using step [OF Cons.prems(3,1) _ k1(1)] Cons.prems(4) x by simp
  then obtain k' where "input_loop alloc (Suc j) k1 (segs_bytes hs) (int (length (segs_bytes hs))) = Some (0, k')"
    "kcp_wf k'" "k_conv k' = conv" "P ((ws @ [x]) @ hs) k'"
    "length (pending_acks k') \<le> length (pending_acks k1) + length (filter is_push hs)"
    using Cons.IH [OF k1(2) _, of "ws @ [x]" "Suc j"] Cons.prems(2,4,5) k1(3,4) push by (auto split: if_splits)
  then show ?case using input_loop_turn [OF ok k1(1)] k1(4) push by (auto simp: x split: if_splits)
qed

text \<open>The datagrams handed to an engine one after the other.\<close>

fun deliver_all :: "allocator \<Rightarrow> IKCPCB \<Rightarrow> bytes list \<Rightarrow> IKCPCB option" where
  "deliver_all alloc b [] = Some b"
| "deliver_all alloc b (d # ds) =
     (case ikcp_input alloc b (Some d) (int (length d)) of
        None \<Rightarrow> None
      | Some (r, b) \<Rightarrow> deliver_all alloc b ds)"

lemma deliver_total:
  assumes "granting alloc" "alloc_bounded alloc"
    and step: "\<And>ws k j h p rest k'. P ws k \<Longrightarrow> kcp_wf k \<Longrightarrow> Q (h, p) \<Longrightarrow> input_one alloc j k h (p @ rest) = Some k' \<Longrightarrow>
      P (ws @ [(h, p)]) k'"
    and grow: "\<And>ws k u. P ws k \<Longrightarrow> P ws (grow_cwnd u k)"
    and Q: "\<And>h p. Q (h, p) \<Longrightarrow> h_conv h = conv \<and> cmd_known (h_cmd h) \<and> length p = unat (h_len h)"
    and "kcp_wf k" "k_conv k = conv" "P ws k" "\<forall>x \<in> set (concat hss). Q x"
    "length (pending_acks k) + length (filter is_push (concat hss)) < 1073741823"
  shows "\<exists>k'. deliver_all alloc k (map segs_bytes hss) = Some k' \<and> kcp_wf k' \<and> k_conv k' = conv \<and> P (ws @ concat hss) k' \<and>
    length (pending_acks k') \<le> length (pending_acks k) + length (filter is_push (concat hss))"
  using assms(6-)
proof (induction hss arbitrary: k ws)
  case (Cons hs hss)
  show ?case
  proof (cases "hs = []")
    case True
    then show ?thesis using Cons.IH [OF Cons.prems(1-3)] Cons.prems(4,5) by (simp add: ikcp_input_def)
  next
    case False
    have "\<exists>k1. input_loop alloc 0 k (segs_bytes hs) (int (length (segs_bytes hs))) = Some (0, k1) \<and> kcp_wf k1 \<and>
      k_conv k1 = conv \<and> P (ws @ hs) k1 \<and> length (pending_acks k1) \<le> length (pending_acks k) + length (filter is_push hs)"
      by (rule input_loop_granted [where P = P and Q = Q, OF assms(1,2) _ _ Cons.prems(1-3)])
        (fact step | fact Q | use Cons.prems(4,5) in simp)+
    then obtain k1 where k1: "input_loop alloc 0 k (segs_bytes hs) (int (length (segs_bytes hs))) = Some (0, k1)" "kcp_wf k1"
      "k_conv k1 = conv" "P (ws @ hs) k1" "length (pending_acks k1) \<le> length (pending_acks k) + length (filter is_push hs)"
      by blast
    let ?g = "grow_cwnd (k_snd_una k) k1"
    have g: "kcp_wf ?g" "k_conv ?g = conv" "P (ws @ hs) ?g" "pending_acks ?g = pending_acks k1"
      using k1(2-4) grow cfg_conv [OF cfg_view_upd(9)] by (simp_all add: ack_frame)
    have "24 \<le> length (segs_bytes hs)" using False by (cases hs) auto
    then have "ikcp_input alloc k (Some (segs_bytes hs)) (int (length (segs_bytes hs))) = Some (0, ?g)"
      using k1(1) by (simp add: ikcp_input_def Let_def)
    then show ?thesis using Cons.IH [OF g(1-3)] Cons.prems(4,5) k1(5) g(4) by fastforce
  qed
qed simp

text \<open>At the receiver: every data segment inside the window is held, and a data segment or a probe makes it owe an
  answer.\<close>

definition owes :: "IKCPCB \<Rightarrow> bool" where
  "owes b \<longleftrightarrow> pending_acks b \<noteq> [] \<or> k_probe b AND IKCP_ASK_TELL \<noteq> 0"

definition calls :: "IKCPCB \<Rightarrow> wire_seg \<Rightarrow> bool" where
  "calls b x \<longleftrightarrow> h_cmd (fst x) = 83 \<or> h_cmd (fst x) = 81 \<and> unat (h_sn (fst x)) < unat (k_rcv_nxt b) + 32"

lemma ops_probe:
  "k_probe (ikcp_parse_una k una) = k_probe k" "k_probe (ikcp_shrink_buf k) = k_probe k"
  "k_probe (ikcp_parse_ack k sn) = k_probe k" "k_probe (ikcp_update_ack k rtt) = k_probe k"
  "k_probe (move_rcv k) = k_probe k" "k_probe (ikcp_parse_data k seg) = k_probe k" "k_probe (grow_cwnd u k) = k_probe k"
proof -
  have m: "k_probe (move_rcv_from buf k) = k_probe k" for buf k by (induction buf k rule: move_rcv_from.induct) simp_all
  then show "k_probe (move_rcv k) = k_probe k" by (simp add: move_rcv_def)
  show "k_probe (ikcp_parse_data k seg) = k_probe k"
    by (simp add: ikcp_parse_data_def Let_def move_rcv_def m split: option.split)
qed (simp_all add: ikcp_parse_una_def shrink_buf_eq ikcp_parse_ack_def ikcp_update_ack_def grow_cwnd_def case_prod_beta Let_def)

lemma tell_bit: "(x OR IKCP_ASK_TELL) AND IKCP_ASK_TELL \<noteq> 0"
proof -
  have "bit ((x OR IKCP_ASK_TELL) AND IKCP_ASK_TELL) 1" by (simp add: bit_simps kcp_consts)
  then show ?thesis by (metis bit_0_eq bot_apply bot_bool_def)
qed

lemma input_push_owes:
  assumes "alloc_bounded alloc" "ack_wf k" "input_push alloc j k h data = Some k'"
  shows "owes k \<Longrightarrow> owes k'" "itimediff (h_sn h) (k_rcv_nxt k + k_rcv_wnd k) < 0 \<Longrightarrow> owes k'"
proof -
  have push: "pending_acks k2 \<noteq> []" if "ikcp_ack_push alloc i k sn ts = Some k2" for i sn ts k2
    using ack_push_wf(2) [OF assms(1,2) that] by simp
  then show "owes k \<Longrightarrow> owes k'" "itimediff (h_sn h) (k_rcv_nxt k + k_rcv_wnd k) < 0 \<Longrightarrow> owes k'"
    using assms(3) by (auto simp: input_push_def owes_def ack_frame split: if_splits option.splits)
qed

lemma input_one_owes:
  assumes "alloc_bounded alloc" "kcp_wf k" "input_one alloc j k h data = Some k'"
  shows "owes k \<Longrightarrow> owes k'"
    and "h_cmd h = 83 \<or> h_cmd h = 81 \<and> itimediff (h_sn h) (k_rcv_nxt k + k_rcv_wnd k) < 0 \<Longrightarrow> owes k'"
proof -
  let ?k = "ikcp_shrink_buf (ikcp_parse_una (k\<lparr>k_rmt_wnd := ucast (h_wnd h)\<rparr>) (h_una h))"
  have aw: "ack_wf ?k" using una_keeps_wf [OF assms(2)] by (simp add: kcp_wf_def)
  have same: "owes ?k = owes k" "owes (input_ack ?k h) = owes k" by (simp_all add: owes_def input_ack_def Let_def ack_frame ops_probe)
  have tell: "owes (?k\<lparr>k_probe := k_probe ?k OR IKCP_ASK_TELL\<rparr>)" using tell_bit by (simp add: owes_def)
  have v: "k_rcv_nxt ?k = k_rcv_nxt k" "k_rcv_wnd ?k = k_rcv_wnd k" by (simp_all add: ikcp_parse_una_def shrink_buf_eq case_prod_beta)
  note po = input_push_owes [OF assms(1) aw]
  show "owes k \<Longrightarrow> owes k'" using assms(3) same tell po by (auto simp: input_one_def Let_def split: if_splits)
  show "h_cmd h = 83 \<or> h_cmd h = 81 \<and> itimediff (h_sn h) (k_rcv_nxt k + k_rcv_wnd k) < 0 \<Longrightarrow> owes k'"
    using assms(3) tell po(2) [of j h data k'] v by (auto simp: input_one_def Let_def kcp_consts)
qed

text \<open>What is true of the receiver \<open>k\<close> after the segments \<open>ws\<close>, when it was \<open>b\<close> before.\<close>

definition taken :: "frag list \<Rightarrow> frag list \<Rightarrow> IKCPCB \<Rightarrow> wire_seg list \<Rightarrow> IKCPCB \<Rightarrow> bool" where
  "taken log got b ws k \<longleftrightarrow> rcv_log log got k \<and> k_rcv_wnd k = 32 \<and> rcv_prog b k \<and> got_all b k ws \<and>
     (length log < 2147483616 \<longrightarrow> (\<forall>x \<in> set ws. calls b x \<longrightarrow> owes k))"

lemma taken_step:
  assumes "alloc_bounded alloc" "length log < 2147483648" "taken log got b ws k" "kcp_wf k" "wire_ok log (h, p)"
    and run: "input_one alloc j k h (p @ rest) = Some k'"
  shows "taken log got b (ws @ [(h, p)]) k'"
proof -
  have t: "rcv_log log got k" "k_rcv_wnd k = 32" "rcv_prog b k" "got_all b k ws"
    "length log < 2147483616 \<Longrightarrow> \<forall>x \<in> set ws. calls b x \<longrightarrow> owes k"
    using assms(3) by (simp_all add: taken_def)
  note pr = input_one_prog(1) [OF assms(1,4) t(1) assms(2,5) run]
  have le: "unat (k_rcv_nxt b) \<le> unat (k_rcv_nxt k)" using t(3) by (simp add: rcv_prog_def rcv_le_def word_le_nat_alt)
  have win: "itimediff (h_sn h) (k_rcv_nxt k + k_rcv_wnd k) < 0"
    if "length log < 2147483616" "unat (h_sn h) < unat (k_rcv_nxt b) + 32"
    using window_behind [of "k_rcv_nxt k" "h_sn h"] rcv_log_small(1) [OF t(1) assms(2)] that le t(2) by simp
  have "got_all b k' (ws @ [(h, p)])"
  proof -
    have "holds k' sn" if "holds k sn" for sn using that pr by (simp add: rcv_prog_def rcv_le_def)
    then have "got_all b k' ws" using t(4) by (auto simp: got_all_def)
    moreover have "holds k' (h_sn h)" if "h_cmd h = 81" "unat (h_sn h) < unat (k_rcv_nxt b) + 32"
      using input_one_holds [OF assms(1,4) t(1) assms(2,5) run t(2) that(1)] that(2) le by simp
    ultimately show ?thesis by (auto simp: got_all_def)
  qed
  moreover have "rcv_log log got k'" using input_one_rcv_log [OF _ t(1) _ assms(5) run] assms(2,4) by (simp add: kcp_wf_def)
  moreover have "owes k'" if "x \<in> set (ws @ [(h, p)])" "calls b x" "length log < 2147483616" for x
    using that t(5) input_one_owes [OF assms(1,4) run] win by (auto simp: calls_def)
  ultimately show ?thesis using t(2) pr rcv_prog_trans [OF t(3) pr] by (simp add: taken_def rcv_prog_def)
qed

lemma taken_grow: "taken log got b ws k \<Longrightarrow> taken log got b ws (grow_cwnd u k)"
proof -
  assume t: "taken log got b ws k"
  let ?g = "grow_cwnd u k"
  have v: "rcv_view ?g = rcv_view k" "pending_acks ?g = pending_acks k" by (simp_all add: stream_frame ack_frame)
  have "owes ?g = owes k" by (simp add: owes_def v(2) ops_probe)
  then show ?thesis using t rcv_log_view [OF v(1)] rcv_prog_trans [OF _ rcv_view_prog [OF v]] rcv_view_same [OF v(1)]
    by (simp add: taken_def got_all_def)
qed

lemma deliver_all_ok:
  assumes "granting alloc" "alloc_bounded alloc" "length log < 2147483648"
    and "kcp_wf b" "rcv_log log got b" "k_rcv_wnd b = 32" "\<forall>x \<in> set (concat hss). for_b log (k_conv b) x"
    and "length (pending_acks b) + length (concat hss) < 1073741823"
  shows "\<exists>b'. deliver_all alloc b (map segs_bytes hss) = Some b' \<and> kcp_wf b' \<and> taken log got b (concat hss) b' \<and>
    length (pending_acks b') \<le> length (pending_acks b) + length (concat hss)"
proof -
  have few: "length (filter is_push (concat hss)) \<le> length (concat hss)" by simp
  have "\<exists>b'. deliver_all alloc b (map segs_bytes hss) = Some b' \<and> kcp_wf b' \<and> k_conv b' = k_conv b \<and>
      taken log got b ([] @ concat hss) b' \<and> length (pending_acks b') \<le> length (pending_acks b) + length (filter is_push (concat hss))"
  proof (rule deliver_total [where P = "taken log got b" and Q = "for_b log (k_conv b)", OF assms(1,2) _ _ _ assms(4) refl])
    show "taken log got b [] b" using assms(5,6) by (simp add: taken_def got_all_def)
    show "length (pending_acks b) + length (filter is_push (concat hss)) < 1073741823" using few assms(8) by linarith
  qed (use taken_step [OF assms(2,3)] taken_grow assms(7) in \<open>auto simp: for_b_def wire_ok_def\<close>)
  then obtain b' where b': "deliver_all alloc b (map segs_bytes hss) = Some b'" "kcp_wf b'" "taken log got b (concat hss) b'"
    "length (pending_acks b') \<le> length (pending_acks b) + length (filter is_push (concat hss))" by auto
  have "length (pending_acks b') \<le> length (pending_acks b) + length (concat hss)" using b'(4) few by linarith
  then show ?thesis using b'(1-3) by blast
qed

section \<open>Segments in flight\<close>

text \<open>The sender of a \<open>link\<close> keeps at most a window of 32 segments in flight.\<close>

definition flight_ok :: "IKCPCB \<Rightarrow> bool" where
  "flight_ok a \<longleftrightarrow> k_snd_wnd a = 32 \<and> unat (k_snd_nxt a - k_snd_una a) \<le> 32"

lemma shrink_flight:
  assumes "snd_core k" shows "unat (k_snd_nxt k - first_unacked k) \<le> unat (k_snd_nxt k - k_snd_una k)"
proof (cases "k_snd_buf k")
  case (Cons s q)
  then have "unat (seg_sn s - k_snd_una k) < unat (k_snd_nxt k - k_snd_una k)"
    using assms by (simp add: snd_core_def sn_off_def)
  then show ?thesis using Cons unat_rebase [of "seg_sn s" "k_snd_una k" "k_snd_nxt k"] by (simp add: first_unacked_def)
qed (simp add: first_unacked_def)

lemma ops_snd_wnd:
  "k_snd_wnd (ikcp_parse_una k una) = k_snd_wnd k" "k_snd_wnd (ikcp_parse_ack k sn) = k_snd_wnd k"
  "k_snd_wnd (ikcp_update_ack k rtt) = k_snd_wnd k" "k_snd_wnd (grow_cwnd u k) = k_snd_wnd k"
  by (simp_all add: ikcp_parse_una_def ikcp_parse_ack_def ikcp_update_ack_def grow_cwnd_def case_prod_beta Let_def)

lemma parse_nxt_una:
  "k_snd_nxt (ikcp_parse_una k una) = k_snd_nxt k" "k_snd_una (ikcp_parse_una k una) = k_snd_una k"
  "k_snd_nxt (ikcp_parse_ack k sn) = k_snd_nxt k" "k_snd_una (ikcp_parse_ack k sn) = k_snd_una k"
  "k_snd_nxt (ikcp_update_ack k rtt) = k_snd_nxt k" "k_snd_una (ikcp_update_ack k rtt) = k_snd_una k"
  "k_snd_nxt (grow_cwnd u k) = k_snd_nxt k" "k_snd_una (grow_cwnd u k) = k_snd_una k"
  by (simp_all add: ikcp_parse_una_def ikcp_parse_ack_def ikcp_update_ack_def grow_cwnd_def case_prod_beta Let_def)

lemma flight_cong:
  "k_snd_wnd k' = k_snd_wnd k \<Longrightarrow> k_snd_nxt k' = k_snd_nxt k \<Longrightarrow> k_snd_una k' = k_snd_una k \<Longrightarrow> flight_ok k' = flight_ok k"
  by (simp add: flight_ok_def)

lemma shrink_flight_ok: "snd_core k \<Longrightarrow> flight_ok k \<Longrightarrow> flight_ok (ikcp_shrink_buf k)"
  using shrink_flight [of k] by (simp add: flight_ok_def shrink_buf_eq)

lemma move_rcv_flight: "flight_ok (move_rcv k) = flight_ok k"
proof -
  have "flight_ok (move_rcv_from buf k) = flight_ok k" for buf
    by (induction buf k rule: move_rcv_from.induct) (simp_all add: flight_ok_def)
  then show ?thesis by (simp add: move_rcv_def)
qed

lemma input_push_flight:
  assumes "input_push alloc j k h data = Some k'" shows "flight_ok k' = flight_ok k"
proof -
  have push: "flight_ok k2 = flight_ok k" if "ikcp_ack_push alloc i k sn ts = Some k2" for i sn ts k2
    by (rule ack_push_fields [OF that]) (simp add: flight_ok_def)
  have "flight_ok (ikcp_parse_data k2 seg) = flight_ok k2" for k2 seg
    by (auto simp: ikcp_parse_data_def Let_def move_rcv_flight split: option.split) (simp_all add: flight_ok_def)
  then show ?thesis using assms push by (auto simp: input_push_def split: if_splits option.splits)
qed

lemma input_one_flight:
  assumes "kcp_wf a" "flight_ok a" "input_one alloc j a h data = Some a'" shows "flight_ok a'"
proof -
  let ?a1 = "ikcp_parse_una (a\<lparr>k_rmt_wnd := ucast (h_wnd h)\<rparr>) (h_una h)"
  let ?k = "ikcp_shrink_buf ?a1"
  have wf: "kcp_wf ?k" by (rule una_keeps_wf [OF assms(1)])
  have "unat (k_snd_nxt a - first_unacked ?a1) \<le> unat (k_snd_nxt a - k_snd_una a)"
  proof -
    have "snd_core a" using assms(1) by (simp add: kcp_wf_def snd_wf_def)
    then have "snd_core (a\<lparr>k_rmt_wnd := 0\<rparr>)" by (simp add: snd_core_def)
    moreover have "first_unacked ?a1 = first_unacked (ikcp_parse_una (a\<lparr>k_rmt_wnd := 0\<rparr>) (h_una h))"
      by (simp add: first_unacked_def ikcp_parse_una_def case_prod_beta split: list.split)
    ultimately show ?thesis using shrink_flight [OF parse_una_core, of "a\<lparr>k_rmt_wnd := 0\<rparr>" "h_una h"]
      by (simp add: parse_nxt_una)
  qed
  then have k: "flight_ok ?k" using assms(2) by (simp add: flight_ok_def shrink_buf_eq ops_snd_wnd parse_nxt_una)
  let ?k1 = "if itimediff (k_current ?k) (h_ts h) \<ge> 0 then ikcp_update_ack ?k (k_current ?k - h_ts h) else ?k"
  have "snd_wf ?k1" using wf by (simp add: kcp_wf_def kcp_frame)
  then have "snd_core (ikcp_parse_ack ?k1 (h_sn h))" by (intro parse_ack_core) (simp add: snd_wf_def)
  moreover have "flight_ok (ikcp_parse_ack ?k1 (h_sn h)) = flight_ok ?k" by (rule flight_cong) (simp_all add: ops_snd_wnd parse_nxt_una)
  ultimately have "flight_ok (input_ack ?k h)" using k shrink_flight_ok by (simp add: input_ack_def Let_def)
  moreover have "flight_ok (?k\<lparr>k_probe := p\<rparr>)" for p using k by (simp add: flight_ok_def)
  ultimately show ?thesis using assms(3) k input_push_flight by (auto simp: input_one_def Let_def split: if_splits)
qed

lemma input_flight:
  assumes "alloc_bounded alloc" "kcp_wf a" "flight_ok a" "ikcp_input alloc a data sz = Some (r, a')" shows "flight_ok a'"
proof -
  have "kcp_wf k \<and> flight_ok k" if "input_loop alloc 0 a d sz = Some (x, k)" for d x k
    by (rule input_loop_keeps [of "\<lambda>k. kcp_wf k \<and> flight_ok k" alloc, OF _ _ that])
      (use assms(2,3) one_keeps_wf [OF assms(1)] input_one_flight in blast)+
  moreover have "flight_ok (grow_cwnd u k) = flight_ok k" for u k by (rule flight_cong) (simp_all add: ops_snd_wnd parse_nxt_una)
  ultimately show ?thesis using assms(3,4) by (auto simp: ikcp_input_def Let_def split: option.splits if_splits)
qed

lemma flush_segments_wnd:
  assumes "flush_segments k wnd out = Some (k', sent)" shows "k_snd_wnd k' = k_snd_wnd k"
proof -
  have "k_snd_wnd (move_snd_from q c w k) = k_snd_wnd k" for q c w k by (induction q arbitrary: k) simp_all
  moreover have "k_snd_wnd (flush_cwnd change lost resent cwnd k) = k_snd_wnd k" for change lost resent cwnd k
    by (simp add: flush_cwnd_def Let_def)
  ultimately show ?thesis using assms by (auto simp: flush_segments_def Let_def bind_eq_Some_conv move_snd_def)
qed

lemma update_flight:
  assumes "kcp_wf a" "k_output a" "flight_ok a" "ikcp_update a current = Some (a', out)" shows "flight_ok a'"
proof -
  obtain k due where k: "update_clock a current = (k, due)" by fastforce
  have kw: "kcp_wf k" "k_output k" "k_updated k \<noteq> 0" "flight_ok k"
    using update_clock_wf [OF assms(1), of current] update_clock_updated [of a current] k assms(2,3)
    by (auto simp: update_clock_def Let_def flight_ok_def)
  show ?thesis
  proof (cases due)
    case True
    then have f: "ikcp_flush k = Some (a', out)" using assms(4) k by (simp add: update_eq)
    have nxt: "k_snd_nxt a' = k_snd_nxt (flushed k)" "k_snd_una a' = k_snd_una k" using flush_ok [OF kw(1-3)] f by auto
    have w: "unat (flush_window k) \<le> 32"
      using kw(4) by (auto simp: flight_ok_def flush_window_def imin_def Let_def word_le_nat_alt)
    let ?p = "probe_window (k\<lparr>k_ackcount := 0\<rparr>)\<lparr>k_probe := 0\<rparr>"
    have p: "k_snd_nxt ?p = k_snd_nxt k" "k_snd_una ?p = k_snd_una k" by (simp_all add: probe_window_def Let_def)
    have "unat (k_snd_nxt (flushed k) - k_snd_una k) \<le> 32"
      unfolding flushed_def move_snd_def
      by (rule order.trans [OF move_snd_window [of ?p "flush_window k" "k_snd_queue ?p" "ikcp_wnd_unused k", unfolded p]])
        (use kw(4) w in \<open>simp_all add: flight_ok_def\<close>)
    moreover have "k_snd_wnd a' = 32"
    proof (rule flush_elim [OF f kw(3)])
      fix seg out2
      assume "flush_segments ?p (seg_wnd seg) out2 = Some (a', out)"
      from flush_segments_wnd [OF this] show ?thesis using kw(4) by (simp add: flight_ok_def probe_window_def Let_def)
    qed
    ultimately show ?thesis using nxt by (simp add: flight_ok_def)
  qed (use assms(4) k kw(4) in \<open>simp add: update_eq\<close>)
qed

definition link_inv2 :: "link_state \<Rightarrow> bool" where
  "link_inv2 s \<longleftrightarrow> link_inv s \<and> flight_ok (n_a (lk_net s)) \<and> flight_ok (n_b (lk_net s))"

lemma ready_flight: "ready_kcp k \<Longrightarrow> flight_ok k"
proof -
  assume "ready_kcp k"
  then obtain k0 where k: "fresh_kcp k0" "k = k0 \<or> (\<exists>nodelay interval resend nc. k = snd (ikcp_nodelay k0 nodelay interval resend nc))"
    unfolding ready_kcp_def by blast
  have "flight_ok k0" using k(1) by (auto simp: fresh_kcp_def ikcp_create_def Let_def kcp_consts flight_ok_def split: if_splits)
  then show ?thesis using k(2) by (auto simp: ikcp_nodelay_def Let_def flight_ok_def)
qed

lemma link_init_inv2: "link_init s \<Longrightarrow> link_inv2 s"
  using link_init_inv [of s] ready_flight by (simp add: link_inv2_def link_init_def net_init_def)

lemma send_flight:
  assumes "cfg_wf k" "ikcp_send alloc k (Some msg) (of_nat (length msg)) = Some (r, k')" "length msg < 2147483648" "flight_ok k"
  shows "flight_ok k'"
  using send_cases [OF assms(1-3)] assms(4) by (auto simp: flight_ok_def)

lemma recv_flight:
  assumes "ikcp_recv k buffer len = Some (r, out, k')" shows "flight_ok k' = flight_ok k"
proof -
  have "flight_ok (fast_recover f k) = flight_ok k" "flight_ok (drop_message k) = flight_ok k" for f k
    by (simp_all add: flight_ok_def fast_recover_def drop_message_def)
  then show ?thesis using recv_result [OF assms] move_rcv_flight by auto
qed

lemma link_step_inv2:
  assumes "link_inv2 s" "link_step s t" shows "link_inv2 t"
proof -
  have inv: "link_inv s" "flight_ok (n_a (lk_net s))" "flight_ok (n_b (lk_net s))" using assms(1) by (simp_all add: link_inv2_def)
  have wf: "kcp_wf (n_a (lk_net s))" "k_output (n_a (lk_net s))" "cfg_wf (n_a (lk_net s))"
    "kcp_wf (n_b (lk_net s))" "k_output (n_b (lk_net s))" "cfg_wf (n_b (lk_net s))"
    using inv(1) by (simp_all add: link_inv_def net_inv_def Let_def api_inv_def kcp_wf_def)
  from assms(2) have "flight_ok (n_a (lk_net t)) \<and> flight_ok (n_b (lk_net t))"
  proof cases
    case (link_send alloc n msg r a w)
    then show ?thesis using send_flight [OF _ link_send(4,5)] inv(2,3) wf(3) by simp
  next
    case (link_flush n current a out w)
    then show ?thesis using update_flight [OF _ _ _ link_flush(3)] inv(2,3) wf(1,2) by simp
  next
    case (link_ack alloc d w n r a)
    then show ?thesis using input_flight [OF link_ack(3) _ _ link_ack(5)] inv(2,3) wf(1) by simp
  next
    case (link_read n buffer len r out a w)
    then show ?thesis using recv_flight [OF link_read(3)] inv(2,3) by simp
  next
    case (link_deliver alloc d n r b w)
    then show ?thesis using input_flight [OF link_deliver(3) _ _ link_deliver(5)] inv(2,3) wf(4) by simp
  next
    case (link_recv n len r out b w)
    then show ?thesis using recv_flight [OF link_recv(3)] inv(2,3) by simp
  next
    case (link_reply alloc n msg r b w)
    then show ?thesis using send_flight [OF _ link_reply(4,5)] inv(2,3) wf(6) by simp
  next
    case (link_tick n current b out w)
    then show ?thesis using update_flight [OF _ _ _ link_tick(3)] inv(2,3) wf(4,5) by simp
  qed
  then show ?thesis using link_step_inv [OF inv(1) assms(2)] by (simp add: link_inv2_def)
qed

interpretation link2: step_system link_init link_step link_inv2
  by unfold_locales (rule link_init_inv2, assumption, rule link_step_inv2)

end
