(* ===== verification/Kcp_Delivery.thy ===== *)
theory Kcp_Delivery
  imports Kcp_Recovery
begin

text \<open>
  Losses are repaired. The network has done what it liked with the datagrams so far; once every segment in
  flight has timed out, the reader has taken what was there, and the datagrams of one further
  \<open>ikcp_update\<close> arrive, the receiver has every segment the sender ever put on the wire, and \<open>ikcp_recv\<close> returns every
  message that was not returned before. Requests of less than 16 GiB of memory are granted.
\<close>

section \<open>What the round puts on the wire\<close>

lemma emitted_same: "same_seg seg (emitted kcp wnd seg)" "seg_una (emitted kcp wnd seg) = k_rcv_nxt kcp" "seg_wnd (emitted kcp wnd seg) = wnd"
  using mark_same unfolding emitted_def same_seg_def by simp_all

lemma flushed_fields:
  "k_rcv_nxt (flushed kcp) = k_rcv_nxt kcp" "k_current (flushed kcp) = k_current kcp" "k_fastresend (flushed kcp) = k_fastresend kcp"
  "k_snd_una (flushed kcp) = k_snd_una kcp"
proof -
  have "k_fastresend (move_snd_from q c w k) = k_fastresend k" for q c w k by (induction q arbitrary: k) simp_all
  then show "k_rcv_nxt (flushed kcp) = k_rcv_nxt kcp" "k_current (flushed kcp) = k_current kcp"
    "k_fastresend (flushed kcp) = k_fastresend kcp" "k_snd_una (flushed kcp) = k_snd_una kcp"
    by (simp_all add: flushed_def move_snd_def probe_window_def Let_def)
qed

lemma flush_wires_sent_ok:
  assumes "kcp_wf kcp" "x \<in> set (flush_wires kcp)" shows "sent_ok kcp (k_snd_buf (flushed kcp)) x"
proof -
  let ?buf = "k_snd_buf (flushed kcp)"
  have ack: "sent_ok kcp ?buf x" if "x \<in> set (ack_wires kcp)" for x
    using that control_ok(1) [OF refl] by (auto simp: ack_wires_def)
  have lc: "\<exists>sn ts. last_control kcp = (control_segment kcp)\<lparr>seg_sn := sn, seg_ts := ts\<rparr>"
  proof (cases "pending_acks kcp = []")
    case True
    then have "last_control kcp = (control_segment kcp)\<lparr>seg_sn := seg_sn (control_segment kcp), seg_ts := seg_ts (control_segment kcp)\<rparr>"
      by (simp add: last_control_def)
    then show ?thesis by blast
  qed (auto simp: last_control_def)
  then have probe: "sent_ok kcp ?buf x" if "x \<in> set (probe_wires p (last_control kcp))" for x p
    using that control_ok(2,3) by (fastforce simp: probe_wires_def split: if_splits)
  have data: "sent_ok kcp ?buf x" if mem: "x \<in> set (data_wires (flushed kcp) (ikcp_wnd_unused kcp))" for x
  proof -
    let ?e = "emitted (flushed kcp) (ikcp_wnd_unused kcp)"
    obtain seg where seg: "seg \<in> set ?buf" "x = wire_of (?e seg)"
      using mem by (auto simp: data_wires_def due_segs_def)
    have "snd_seg_ok (k_conv kcp) seg" using flushed_wf [OF assms(1)] seg(1) by (auto simp: snd_wf_def snd_core_def)
    then show ?thesis using seg emitted_same [where seg = seg and kcp = "flushed kcp" and wnd = "ikcp_wnd_unused kcp"]
      by (auto simp: sent_ok_def wire_of_def seg_header_def same_seg_def snd_seg_ok_def seg_ok_def payload_def flushed_fields intro!: bexI [of _ seg])
  qed
  show ?thesis using assms(2) ack probe data unfolding flush_wires_def set_append by blast
qed

lemma move_snd_new:
  "\<exists>new. k_snd_buf (move_snd_from queue cwnd wnd kcp) = k_snd_buf kcp @ new \<and> (\<forall>seg \<in> set new. seg_xmit seg = 0)"
proof (induction queue arbitrary: kcp)
  case (Cons newseg queue)
  let ?k = "kcp\<lparr>k_snd_buf := k_snd_buf kcp @ [fresh_segment kcp wnd newseg], k_nsnd_que := k_nsnd_que kcp - 1,
      k_nsnd_buf := k_nsnd_buf kcp + 1, k_snd_nxt := k_snd_nxt kcp + 1\<rparr>"
  obtain new where "k_snd_buf (move_snd_from queue cwnd wnd ?k) = k_snd_buf ?k @ new" "\<forall>seg \<in> set new. seg_xmit seg = 0"
    using Cons.IH [of ?k] by blast
  then show ?case by (auto intro: exI [of _ "fresh_segment kcp wnd newseg # new"])
qed simp

text \<open>When everything in flight has timed out, everything that is or comes into flight is sent.\<close>

definition all_due :: "u32 \<Rightarrow> IKCPCB \<Rightarrow> bool" where
  "all_due current kcp \<longleftrightarrow> (\<forall>seg \<in> set (k_snd_buf kcp). seg_xmit seg = 0 \<or> 0 \<le> itimediff current (seg_resendts seg))"

lemma due_wires:
  assumes "all_due (k_current kcp) kcp" "kcp_wf kcp" "seg \<in> set (k_snd_buf (flushed kcp))"
  shows "\<exists>x \<in> set (flush_wires kcp). h_cmd (fst x) = 81 \<and> h_sn (fst x) = seg_sn seg"
proof -
  let ?f = "flushed kcp" and ?w = "ikcp_wnd_unused kcp"
  have "k_snd_buf (probe_window (kcp\<lparr>k_ackcount := 0\<rparr>)\<lparr>k_probe := 0\<rparr>) = k_snd_buf kcp" by (simp add: probe_window_def Let_def)
  then obtain new where "k_snd_buf ?f = k_snd_buf kcp @ new" "\<forall>seg \<in> set new. seg_xmit seg = 0"
    unfolding flushed_def move_snd_def using move_snd_new by metis
  then have "seg_xmit seg = 0 \<or> 0 \<le> itimediff (k_current ?f) (seg_resendts seg)"
    using assms(1,3) by (auto simp: all_due_def flushed_fields)
  then have "seg \<in> set (due_segs ?f)" using assms(3) by (auto simp: due_segs_def why_send_def)
  then have "wire_of (emitted ?f ?w seg) \<in> set (flush_wires kcp)" by (simp add: flush_wires_def data_wires_def)
  moreover have "snd_seg_ok (k_conv kcp) seg" using flushed_wf [OF assms(2)] assms(3) by (auto simp: snd_wf_def snd_core_def)
  then have "h_cmd (fst (wire_of (emitted ?f ?w seg))) = 81" "h_sn (fst (wire_of (emitted ?f ?w seg))) = seg_sn seg"
    using emitted_same(1) [where seg = seg and kcp = ?f and wnd = ?w] by (simp_all add: wire_of_def seg_header_def same_seg_def snd_seg_ok_def)
  ultimately show ?thesis by blast
qed

section \<open>The receiver is never behind what it holds\<close>

lemma settled_next:
  assumes "rcv_wf b" "settled b" "holds b (k_rcv_nxt b)" shows "\<not> k_nrcv_que b < k_rcv_wnd b"
proof -
  obtain seg where seg: "seg \<in> set (k_rcv_buf b)" "seg_sn seg = k_rcv_nxt b" using assms(3) by (auto simp: holds_def)
  obtain s q where q: "k_rcv_buf b = s # q" using seg(1) by (cases "k_rcv_buf b") auto
  have "sn_sorted (k_rcv_nxt b) (s # q)" using assms(1) q by (simp add: rcv_wf_def)
  moreover have "sn_off (k_rcv_nxt b) seg = 0" using seg(2) by (simp add: sn_off_def)
  ultimately have "seg = s" using seg(1) q by (auto simp: sn_sorted_Cons)
  then show ?thesis using assms(2) q seg(2) by (simp add: settled_def)
qed

lemma una_below:
  assumes "snd_wf a" "snd_log log a" "length log < 2147483648"
  shows "k_snd_una a \<le> k_snd_nxt a" and "seg \<in> set (k_snd_buf a) \<Longrightarrow> k_snd_una a \<le> seg_sn seg"
proof -
  have una: "k_snd_una a = first_unacked a" "snd_core a" using assms(1) by (simp_all add: snd_wf_def)
  have small: "unat (k_snd_nxt a) < 2147483648" using snd_log_small(1) [OF assms(2,3)] assms(3) by simp
  have lt: "seg_sn seg < k_snd_nxt a" if "seg \<in> set (k_snd_buf a)" for seg using snd_log_small(2) [OF assms(2,3) that] .
  show le: "k_snd_una a \<le> k_snd_nxt a" using una(1) lt by (cases "k_snd_buf a") (auto simp: first_unacked_def intro: order.strict_implies_order)
  assume seg: "seg \<in> set (k_snd_buf a)"
  have "sn_off (k_snd_una a) seg < 2147483648" using una(2) seg by (auto simp: snd_core_def sn_sorted_def)
  then show "k_snd_una a \<le> seg_sn seg" using le lt [OF seg] small
    by (auto simp: sn_off_def unat32_sub word_le_nat_alt word_less_nat_alt split: if_splits)
qed

text \<open>A receiver with room in its queue has everything below \<open>snd_una\<close>.\<close>

lemma una_le_rcv_nxt:
  assumes "rcv_wf b" "settled b" "k_nrcv_que b < k_rcv_wnd b" "acked_held a b"
    and "snd_wf a" "snd_log log a" "length log < 2147483648"
  shows "k_snd_una a \<le> k_rcv_nxt b"
proof (cases "k_rcv_nxt b < k_snd_nxt a")
  case True
  have "\<not> holds b (k_rcv_nxt b)" using settled_next [OF assms(1,2)] assms(3) by auto
  then have "k_rcv_nxt b \<in> seg_sn ` set (k_snd_buf a)" using assms(4) True by (auto simp: acked_held_def)
  then show ?thesis using una_below(2) [OF assms(5-7)] by auto
next
  case False
  then show ?thesis using una_below(1) [OF assms(5-7)] by simp
qed

lemma snd_buf_length:
  assumes "snd_wf a" "flight_ok a" shows "length (k_snd_buf a) \<le> 32"
proof -
  let ?off = "map (sn_off (k_snd_una a)) (k_snd_buf a)"
  have "sorted_wrt (<) ?off" "set ?off \<subseteq> {..<32}"
    using assms by (auto simp: snd_wf_def snd_core_def sn_sorted_def flight_ok_def)
  then have "distinct ?off" "card (set ?off) \<le> 32" using card_mono [of "{..<32}" "set ?off"] strict_sorted_iff by auto
  then show ?thesis using distinct_card [of ?off] by simp
qed

section \<open>One round after a loss\<close>

text \<open>The sender updates, its datagrams arrive in order, and the receiver has everything up to \<open>snd_nxt\<close>.\<close>

lemma round_holds:
  assumes k: "kcp_wf k" "k_output k" "k_updated k \<noteq> 0" "ikcp_flush k = Some (a', out)" "snd_log log k" "all_due (k_current k) k"
    and b: "granting alloc" "alloc_bounded alloc" "length log < 2147483648" "kcp_wf b" "rcv_log log got b" "k_rcv_wnd b = 32"
      "k_conv b = k_conv k" "acked_held k b" "length (pending_acks b) + length (flush_wires k) < 1073741823"
    and room: "unat (k_snd_nxt a') \<le> unat (k_rcv_nxt b) + 32"
  shows "\<exists>b'. deliver_all alloc b out = Some b' \<and> kcp_wf b' \<and> rcv_log log got b' \<and> rcv_prog b b' \<and>
    (\<forall>sn < k_snd_nxt a'. holds b' sn) \<and> taken log got b (flush_wires k) b' \<and>
    length (pending_acks b') \<le> length (pending_acks b) + length (flush_wires k)"
proof -
  obtain hss where hss: "out = map segs_bytes hss" "concat hss = flush_wires k" using flush_emits(1) [OF k(1,4,3)] by blast
  define k1 where "k1 = probe_window (k\<lparr>k_ackcount := 0\<rparr>)\<lparr>k_probe := 0\<rparr>"
  have "snd_view k1 = snd_view k" by (simp add: k1_def snd_view_def probe_window_def Let_def)
  then have "snd_log log (k1\<lparr>k_snd_queue := k_snd_queue k1\<rparr>)" "acked_held (k1\<lparr>k_snd_queue := k_snd_queue k1\<rparr>) b"
    using snd_log_view [of k1 k log] acked_held_view [of k1 k b] k(5) b(8) by (simp_all add: snd_log_def acked_held_def)
  then have f: "snd_log log (flushed k)" "acked_held (flushed k) b"
    unfolding flushed_def move_snd_def k1_def [symmetric] using move_snd_log move_snd_held by blast+
  have nxt: "k_snd_nxt a' = k_snd_nxt (flushed k)" using flush_ok [OF k(1-3)] k(4) by auto
  have "for_b log (k_conv b) x" if "x \<in> set (concat hss)" for x
  proof -
    have s: "sent_ok k (k_snd_buf (flushed k)) x" using flush_wires_sent_ok [OF k(1)] that hss(2) by simp
    then show ?thesis using sent_wire_ok [OF flushed_wf(1) [OF k(1)] f(1) s] b(7)
      by (auto simp: for_b_def sent_ok_def cmd_known_bytes split: prod.splits)
  qed
  then obtain b' where b': "deliver_all alloc b out = Some b'" "kcp_wf b'" "rcv_log log got b'" "rcv_prog b b'"
    "got_all b b' (flush_wires k)" "taken log got b (flush_wires k) b'"
    "length (pending_acks b') \<le> length (pending_acks b) + length (flush_wires k)"
    using deliver_all_ok [OF b(1-6), of hss] b(9) unfolding hss(1) hss(2) [symmetric] taken_def by auto
  have "holds b' sn" if sn: "sn < k_snd_nxt a'" for sn
  proof (cases "holds b sn")
    case False
    then obtain seg where "seg \<in> set (k_snd_buf (flushed k))" "sn = seg_sn seg" using f(2) sn nxt by (auto simp: acked_held_def)
    then obtain x where "x \<in> set (flush_wires k)" "h_cmd (fst x) = 81" "h_sn (fst x) = sn"
      using due_wires [OF k(6,1)] by blast
    moreover have "unat sn < unat (k_rcv_nxt b) + 32" using sn room by (simp add: word_less_nat_alt)
    ultimately show ?thesis using b'(5) by (auto simp: got_all_def)
  qed (use b'(4) in \<open>simp add: rcv_prog_def rcv_le_def\<close>)
  then show ?thesis using b' by blast
qed

lemma caught_up:
  assumes b: "rcv_wf b" "settled b" "k_rcv_wnd b = 32" "k_rcv_queue b = []" "unat (k_rcv_nxt b) < 2147483648"
    and b': "rcv_wf b'" "rcv_prog b b'" "\<forall>sn < nxt. holds b' sn"
    and room: "unat nxt \<le> unat (k_rcv_nxt b) + 32"
  shows "nxt \<le> k_rcv_nxt b'"
proof (rule ccontr)
  assume "\<not> nxt \<le> k_rcv_nxt b'"
  then have lt: "k_rcv_nxt b' < nxt" by simp
  have pr: "k_rcv_nxt b \<le> k_rcv_nxt b'" "read_pos b' = read_pos b" "k_rcv_wnd b' = 32" "settled b'"
    using b'(2) b(2,3) by (simp_all add: rcv_prog_def rcv_le_def)
  have full: "\<not> k_nrcv_que b' < 32" using settled_next [OF b'(1) pr(4)] b'(3) lt pr(3) by simp
  have "k_nrcv_que b = 0" using b(1,4) by (simp add: rcv_wf_def)
  then have "k_nrcv_que b' = k_rcv_nxt b' - k_rcv_nxt b" using pr(2) by (simp add: read_pos_def algebra_simps)
  then have "unat (k_nrcv_que b') = unat (k_rcv_nxt b') - unat (k_rcv_nxt b)" using pr(1) by (simp add: unat32_sub word_le_nat_alt)
  then show False using full lt room by (simp add: word_less_nat_alt)
qed

section \<open>Messages\<close>

text \<open>Up to \<open>n\<close> messages, as long as \<open>ikcp_recv\<close> returns one; the buffer takes any message.\<close>

fun recv_msgs :: "nat \<Rightarrow> IKCPCB \<Rightarrow> bytes list" where
  "recv_msgs 0 b = []"
| "recv_msgs (Suc n) b =
     (case ikcp_recv b True 0x7fffffff of
        None \<Rightarrow> []
      | Some (r, out, b) \<Rightarrow> if r < 0 then [] else out # recv_msgs n b)"

lemma peeksize_views:
  assumes "rcv_wf kcp" "map view (k_rcv_queue kcp) = frags m msg @ rest" "0 < m" "msg_ok m msg"
  shows "ikcp_peeksize kcp = of_nat (length msg)"
proof -
  let ?q = "k_rcv_queue kcp"
  have ok: "\<forall>s \<in> set ?q. seg_ok s" "k_nrcv_que kcp = of_nat (length ?q)" "length ?q < 2147483648"
    using assms(1) by (simp_all add: rcv_wf_def)
  note fm = first_message_frags [OF assms(2,3)]
  have view: "map view (first_message ?q) = frags m msg" using fm assms(4) by (simp add: msg_ok_def)
  obtain s q where q: "?q = s # q" using assms(2) frags_ne [of m msg] by (cases ?q) auto
  have "view s = hd (frags m msg)" using assms(2) q frags_ne [of m msg] by (metis hd_append2 list.sel(1) list.simps(9))
  then have sf: "seg_frg s = of_nat (length (chunks m msg) - 1)" using frags_hd [of m msg] by (metis fst_conv view_def)
  have n: "0 < length (chunks m msg)" "length (chunks m msg) \<le> 255" "length (chunks m msg) \<le> length ?q"
  proof -
    show "0 < length (chunks m msg)" using chunks_ne by simp
    show "length (chunks m msg) \<le> 255" using assms(4) by (simp add: msg_ok_def)
    have "length (map view ?q) = length (frags m msg) + length rest" by (simp only: assms(2) length_append)
    then show "length (chunks m msg) \<le> length ?q" by simp
  qed
  have "(of_nat (length (chunks m msg) - 1) + 1 :: u32) = of_nat (length (chunks m msg))"
    using n(1) by (metis Suc_pred' of_nat_Suc add.commute)
  moreover have "\<not> (of_nat (length ?q) :: u32) < of_nat (length (chunks m msg))"
    using n ok(3) unat32_of_nat_small [of "length ?q"] unat32_of_nat_small [of "length (chunks m msg)"]
    by (simp add: word_less_nat_alt)
  ultimately have "\<not> k_nrcv_que kcp < seg_frg s + 1" using ok(2) sf by simp
  then have pk: "ikcp_peeksize kcp = sum_list (map seg_len (first_message ?q))" using q by (auto simp: ikcp_peeksize_def peek_sum_eq)
  have len: "map seg_len (first_message ?q) = map (\<lambda>f. of_nat (length (snd f))) (map view (first_message ?q))"
  proof -
    have "seg_len t = of_nat (length (seg_data t))" if "t \<in> set ?q" for t
      using ok(1) that by (simp add: seg_ok_def)
    moreover have "set (first_message ?q) \<subseteq> set ?q" by (metis message_split set_append Un_upper1)
    ultimately show ?thesis by (auto simp: view_def)
  qed
  have "sum_list (map (\<lambda>f. of_nat (length (snd f))) fs) = (of_nat (length (concat (map snd fs))) :: u32)" for fs :: "frag list"
    by (induction fs) simp_all
  then show ?thesis unfolding pk len view by (simp add: frags_data)
qed

lemma recv_ready:
  assumes "rcv_wf b" "map view (k_rcv_queue b) = frags m msg @ rest" "0 < m" "msg_ok m msg"
  shows "\<exists>out f. ikcp_recv b True 0x7fffffff = Some (int (length msg), out, fast_recover f (move_rcv (drop_message b)))"
proof -
  have len: "length msg < 2147483648" using assms(4) by (simp add: msg_ok_def)
  have "sint (ikcp_peeksize b) = int (length msg)" unfolding peeksize_views [OF assms] using len by (rule sint_of_nat32)
  moreover have "k_rcv_queue b \<noteq> []" using assms(2) frags_ne [of m msg] by auto
  moreover have "sint (0x7fffffff :: i32) = 2147483647" by simp
  ultimately show ?thesis using recv_take [of b "0x7fffffff" True] len by auto
qed

text \<open>When every fragment of the log has arrived, the remaining messages can be read, one after the other.\<close>

lemma recv_rest:
  assumes "0 < m" "\<forall>msg \<in> set msgs. msg_ok m msg" "length (msg_log m msgs) < 2147483648"
    and "rcv_wf b" "rcv_log (msg_log m msgs) (msg_log m (take k msgs)) b" "k \<le> length msgs"
    and "of_nat (length (msg_log m msgs)) \<le> k_rcv_nxt b"
  shows "recv_msgs (length msgs - k) b = drop k msgs"
  using assms(4-)
proof (induction "length msgs - k" arbitrary: k b)
  case (Suc n)
  let ?log = "msg_log m msgs"
  have k: "k < length msgs" "n = length msgs - Suc k" using Suc.hyps(2) by auto
  have ok: "msg_ok m (msgs ! k)" using assms(2) k(1) by simp
  have all: "unat (k_rcv_nxt b) = length ?log"
    using rcv_log_small(1) [OF Suc.prems(2) assms(3)] Suc.prems(4) assms(3) by (simp add: word_le_nat_alt unat32_of_nat)
  obtain r where r: "r \<le> length ?log" "k_rcv_nxt b = of_nat r" "msg_log m (take k msgs) @ map view (k_rcv_queue b) = take r ?log"
    using Suc.prems(2) by (auto simp: rcv_log_def)
  have "r = length ?log" using all r(1,2) assms(3) by (simp add: unat32_of_nat)
  moreover have "msg_log m (take k msgs) @ msg_log m (drop k msgs) = ?log"
    unfolding msg_log_def by (metis append_take_drop_id concat_append map_append)
  ultimately have "map view (k_rcv_queue b) = msg_log m (drop k msgs)" using r(3) by (metis append_eq_append_conv order.refl take_all)
  also have "\<dots> = frags m (msgs ! k) @ msg_log m (drop (Suc k) msgs)"
    using k(1) by (simp add: msg_log_def Cons_nth_drop_Suc [symmetric])
  finally have q: "map view (k_rcv_queue b) = frags m (msgs ! k) @ msg_log m (drop (Suc k) msgs)" .
  have mx: "sint (0x7fffffff :: i32) = 2147483647" by simp
  obtain out b1 where run: "ikcp_recv b True 0x7fffffff = Some (int (length (msgs ! k)), out, b1)"
    "\<exists>f. b1 = fast_recover f (move_rcv (drop_message b))"
    using recv_ready [OF Suc.prems(1) q assms(1) ok] by auto
  have del: "out = msgs ! k" "rcv_log ?log (msg_log m (take (Suc k) msgs)) b1"
    using recv_deliver [OF Suc.prems(1,2) assms(1,2) _ Suc.prems(3) run(1)] assms(3) mx by simp_all
  have wf: "rcv_wf b1" using recv_wf [OF Suc.prems(1) run(1)] .
  have "k_rcv_nxt b \<le> k_rcv_nxt b1"
  proof -
    have "rcv_log ?log (msg_log m (take k msgs) @ map view (first_message (k_rcv_queue b))) (drop_message b)"
      using Suc.prems(2) by (simp add: rcv_log_def drop_message_def) (metis map_append message_split)
    from move_rcv_held(1) [OF this assms(3)] show ?thesis using run(2) by (auto simp: rcv_le_def drop_message_def fast_recover_def)
  qed
  then have "recv_msgs n b1 = drop (Suc k) msgs"
    using Suc.hyps(1) [OF k(2) wf del(2)] Suc.prems(4) k by simp
  then show ?case using Suc.hyps(2) run(1) del(1) k(1) by (simp add: Suc.hyps(2) [symmetric] Cons_nth_drop_Suc)
qed simp

end
