(* ===== verification/Kcp_Rounds.thy ===== *)
theory Kcp_Rounds
  imports Kcp_Delivery
begin

text \<open>
  Everything arrives. A round is a period in which the network does its job: the reader takes what is there, the
  sender updates and its datagrams arrive, the reader takes the new messages, the receiver updates and its
  datagrams arrive at the sender. From any state the two engines of theory \<open>Kcp_Link\<close> can reach, a number of
  rounds deliver every message that was accepted, provided that no message has more fragments than the receive
  window. The proof follows the send queue: after one round nothing is in flight and the sender may send, and from
  then on every round takes at least one segment from the queue.
\<close>

section \<open>A reader that takes everything\<close>

lemma move_rcv_length: "length (k_rcv_queue (move_rcv k)) + length (k_rcv_buf (move_rcv k)) = length (k_rcv_queue k) + length (k_rcv_buf k)"
proof -
  have "length (k_rcv_queue (move_rcv_from buf k)) + length (k_rcv_buf (move_rcv_from buf k)) = length (k_rcv_queue k) + length buf" for buf
    by (induction buf k rule: move_rcv_from.induct) simp_all
  then show ?thesis by (simp add: move_rcv_def)
qed

lemma recv_shrinks:
  assumes "ikcp_recv b True 0x7fffffff = Some (r, out, b')" "\<not> r < 0"
  shows "length (k_rcv_queue b') + length (k_rcv_buf b') < length (k_rcv_queue b) + length (k_rcv_buf b)"
proof -
  have max: "0 \<le> sint (0x7fffffff :: i32)" by simp
  obtain f where b': "k_rcv_queue b \<noteq> []" "b' = fast_recover f (move_rcv (drop_message b))"
    using recv_success(1,4) [OF assms(1) max] assms(2) by auto
  have "length (after_message q) \<le> length q" for q by (induction q) auto
  then have "length (after_message (k_rcv_queue b)) < length (k_rcv_queue b)"
    using b'(1) by (cases "k_rcv_queue b") (auto simp: less_Suc_eq_le)
  then show ?thesis using move_rcv_length [of "drop_message b"] by (simp add: b'(2) fast_recover_def drop_message_def)
qed

function recv_all :: "IKCPCB \<Rightarrow> bytes list \<times> IKCPCB" where
  "recv_all b =
     (case ikcp_recv b True 0x7fffffff of
        None \<Rightarrow> ([], b)
      | Some (r, out, b') \<Rightarrow> if r < 0 then ([], b') else (case recv_all b' of (msgs, b'') \<Rightarrow> (out # msgs, b'')))"
  by auto
termination by (relation "measure (\<lambda>b. length (k_rcv_queue b) + length (k_rcv_buf b))") (use recv_shrinks in auto)

declare recv_all.simps [simp del]

text \<open>It stops when a call returns no message.\<close>

definition read_out :: "IKCPCB \<Rightarrow> bool" where
  "read_out b \<longleftrightarrow> (\<exists>r. r < 0 \<and> ikcp_recv b True 0x7fffffff = Some (r, [], b))"

lemma recv_cases:
  obtains (none) "read_out b" | (message) r out b' where "ikcp_recv b True 0x7fffffff = Some (r, out, b')" "0 \<le> r"
proof (cases "k_rcv_queue b = [] \<or> sint (ikcp_peeksize b) < 0 \<or> sint (ikcp_peeksize b) > sint (0x7fffffff :: i32)")
  case True
  then have "read_out b" by (auto simp: read_out_def ikcp_recv_def Let_def)
  then show thesis by (rule none)
next
  case False
  then show thesis using recv_take [of b "0x7fffffff" True] message by auto
qed

lemma recv_all_induct [consumes 1, case_names stop more]:
  assumes "recv_all b = (msgs, b')"
    and "\<And>b. read_out b \<Longrightarrow> P b [] b"
    and "\<And>b r out b1 msgs b'. ikcp_recv b True 0x7fffffff = Some (r, out, b1) \<Longrightarrow> 0 \<le> r \<Longrightarrow> recv_all b1 = (msgs, b') \<Longrightarrow>
      P b1 msgs b' \<Longrightarrow> P b (out # msgs) b'"
  shows "P b msgs b'"
  using assms(1)
proof (induction b arbitrary: msgs rule: recv_all.induct)
  case (1 b)
  show ?case
  proof (cases rule: recv_cases [of b])
    case none
    then show ?thesis using 1(2) assms(2) by (auto simp: recv_all.simps [of b] read_out_def)
  next
    case (message r out b1)
    then obtain ms where "msgs = out # ms" "recv_all b1 = (ms, b')"
      using 1(2) by (auto simp: recv_all.simps [of b] split: prod.splits)
    then show ?thesis using 1(1) [OF message(1)] message assms(3) by auto
  qed
qed

lemma recv_all_out: "recv_all b = (msgs, b') \<Longrightarrow> read_out b'"
  by (induction rule: recv_all_induct)

text \<open>What reading leaves alone, and what it keeps.\<close>

definition clock_view :: "IKCPCB \<Rightarrow> u32 \<times> u32" where
  "clock_view k = (k_updated k, k_ts_flush k)"

lemma clock_due: "clock_view k = clock_view k' \<Longrightarrow> snd (update_clock k t) = snd (update_clock k' t)"
  by (simp add: clock_view_def update_clock_def Let_def)

lemma ops_clock:
  "clock_view (ikcp_parse_una k una) = clock_view k" "clock_view (ikcp_shrink_buf k) = clock_view k"
  "clock_view (ikcp_parse_ack k sn) = clock_view k" "clock_view (ikcp_update_ack k rtt) = clock_view k"
  "clock_view (move_rcv k) = clock_view k" "clock_view (ikcp_parse_data k seg) = clock_view k" "clock_view (grow_cwnd u k) = clock_view k"
  "clock_view (k\<lparr>k_rmt_wnd := w\<rparr>) = clock_view k" "clock_view (k\<lparr>k_probe := w\<rparr>) = clock_view k"
proof -
  have m: "clock_view (move_rcv_from buf k) = clock_view k" for buf k
    by (induction buf k rule: move_rcv_from.induct) (simp_all add: clock_view_def)
  then show "clock_view (move_rcv k) = clock_view k" by (simp add: move_rcv_def)
  show "clock_view (ikcp_parse_data k seg) = clock_view k"
    by (simp add: ikcp_parse_data_def Let_def move_rcv_def m split: option.split) (simp add: clock_view_def)
qed (simp_all add: ikcp_parse_una_def shrink_buf_eq ikcp_parse_ack_def ikcp_update_ack_def grow_cwnd_def case_prod_beta Let_def clock_view_def)

lemma input_one_clock:
  assumes "input_one alloc j k h data = Some k'" shows "clock_view k' = clock_view k"
proof -
  have push: "clock_view k2 = clock_view k1" if "ikcp_ack_push alloc i k1 sn ts = Some k2" for i k1 sn ts k2
    by (rule ack_push_fields [OF that]) (simp add: clock_view_def)
  have "clock_view k2 = clock_view k1" if "input_push alloc j k1 h data = Some k2" for k1 k2
    using that push by (auto simp: input_push_def ops_clock split: if_splits option.splits)
  then show ?thesis using assms by (auto simp: input_one_def input_ack_def Let_def ops_clock split: if_splits)
qed

lemma recv_keeps:
  assumes "ikcp_recv b True len = Some (r, out, b')"
  shows "clock_view b' = clock_view b" "pending_acks b' = pending_acks b" "owes b \<Longrightarrow> owes b'"
proof -
  have fr: "clock_view (fast_recover f k) = clock_view k" "pending_acks (fast_recover f k) = pending_acks k"
    "owes k \<Longrightarrow> owes (fast_recover f k)" for f k
    using tell_bit [of "k_probe k"] by (auto simp: fast_recover_def clock_view_def owes_def pending_acks_def)
  have dm: "clock_view (drop_message k) = clock_view k" "pending_acks (drop_message k) = pending_acks k" "owes (drop_message k) = owes k" for k
    by (simp_all add: drop_message_def clock_view_def owes_def pending_acks_def)
  have mr: "owes (move_rcv k) = owes k" for k by (simp add: owes_def ops_probe ack_frame)
  show "clock_view b' = clock_view b" "pending_acks b' = pending_acks b" "owes b \<Longrightarrow> owes b'"
    using recv_result [OF assms] fr dm mr by (auto simp: ops_clock ack_frame)
qed

lemma recv_all_keeps:
  assumes "recv_all b = (msgs, b')"
  shows "clock_view b' = clock_view b \<and> pending_acks b' = pending_acks b \<and> (owes b \<longrightarrow> owes b')"
  using assms by (induction rule: recv_all_induct) (auto dest: recv_keeps)

section \<open>The parts of a round are steps of the link\<close>

lemma recv_all_steps:
  assumes "recv_all b = (msgs, b')" "n_b n = b"
  shows "link_step\<^sup>*\<^sup>* \<lparr>lk_net = n, lk_back = w\<rparr> \<lparr>lk_net = n\<lparr>n_b := b', n_got := n_got n @ msgs\<rparr>, lk_back = w\<rparr>"
  using assms
proof (induction arbitrary: n rule: recv_all_induct)
  case (stop b)
  then show ?case by (metis append_Nil2 net_state.surjective net_state.update_convs rtranclp.rtrancl_refl)
next
  case (more b r out b1 msgs b')
  let ?n = "n\<lparr>n_b := b1, n_got := n_got n @ [out]\<rparr>"
  have "link_step \<lparr>lk_net = n, lk_back = w\<rparr> \<lparr>lk_net = ?n, lk_back = w\<rparr>"
    using link_step.link_recv [of n "0x7fffffff" r out b1 w] more(1,2,5) by simp
  moreover have "link_step\<^sup>*\<^sup>* \<lparr>lk_net = ?n, lk_back = w\<rparr> \<lparr>lk_net = n\<lparr>n_b := b', n_got := n_got n @ out # msgs\<rparr>, lk_back = w\<rparr>"
    using more(4) [of ?n] by simp
  ultimately show ?case by (rule converse_rtranclp_into_rtranclp)
qed

lemma deliver_steps:
  assumes "alloc_bounded alloc" "deliver_all alloc (n_b n) out = Some b'" "set out \<subseteq> n_wire n"
  shows "link_step\<^sup>*\<^sup>* \<lparr>lk_net = n, lk_back = w\<rparr> \<lparr>lk_net = n\<lparr>n_b := b'\<rparr>, lk_back = w\<rparr>"
  using assms(2,3)
proof (induction out arbitrary: n)
  case Nil
  then have "n\<lparr>n_b := b'\<rparr> = n" by auto
  then show ?case by simp
next
  case (Cons d out)
  obtain r b1 where b1: "ikcp_input alloc (n_b n) (Some d) (int (length d)) = Some (r, b1)" "deliver_all alloc b1 out = Some b'"
    using Cons.prems(1) by (auto split: option.splits)
  have "link_step \<lparr>lk_net = n, lk_back = w\<rparr> \<lparr>lk_net = n\<lparr>n_b := b1\<rparr>, lk_back = w\<rparr>"
    using link_step.link_deliver [OF assms(1) _ b1(1)] Cons.prems(2) by simp
  moreover have "link_step\<^sup>*\<^sup>* \<lparr>lk_net = n\<lparr>n_b := b1\<rparr>, lk_back = w\<rparr> \<lparr>lk_net = n\<lparr>n_b := b'\<rparr>, lk_back = w\<rparr>"
    using Cons.IH [of "n\<lparr>n_b := b1\<rparr>"] b1(2) Cons.prems(2) by simp
  ultimately show ?case by (rule converse_rtranclp_into_rtranclp)
qed

lemma ack_steps:
  assumes "alloc_bounded alloc" "deliver_all alloc (n_a n) datas = Some a'" "set datas \<subseteq> w"
  shows "link_step\<^sup>*\<^sup>* \<lparr>lk_net = n, lk_back = w\<rparr> \<lparr>lk_net = n\<lparr>n_a := a'\<rparr>, lk_back = w\<rparr>"
  using assms(2,3)
proof (induction datas arbitrary: n)
  case Nil
  then have "n\<lparr>n_a := a'\<rparr> = n" by auto
  then show ?case by simp
next
  case (Cons d datas)
  obtain r a1 where a1: "ikcp_input alloc (n_a n) (Some d) (int (length d)) = Some (r, a1)" "deliver_all alloc a1 datas = Some a'"
    using Cons.prems(1) by (auto split: option.splits)
  have "link_step \<lparr>lk_net = n, lk_back = w\<rparr> \<lparr>lk_net = n\<lparr>n_a := a1\<rparr>, lk_back = w\<rparr>"
    using link_step.link_ack [OF assms(1) _ a1(1)] Cons.prems(2) by simp
  moreover have "link_step\<^sup>*\<^sup>* \<lparr>lk_net = n\<lparr>n_a := a1\<rparr>, lk_back = w\<rparr> \<lparr>lk_net = n\<lparr>n_a := a'\<rparr>, lk_back = w\<rparr>"
    using Cons.IH [of "n\<lparr>n_a := a1\<rparr>"] a1(2) Cons.prems(2) by simp
  ultimately show ?case by (rule converse_rtranclp_into_rtranclp)
qed

section \<open>The sender's half of a round\<close>

lemma push_wires:
  assumes "kcp_wf k" "ikcp_flush k = Some (a', out)" "k_updated k \<noteq> 0" "flight_ok a'" "snd_wf a'"
  shows "length (flush_wires k) \<le> length (pending_acks k) + 34" "length (filter is_push (flush_wires k)) \<le> 32"
proof -
  have "length (k_snd_buf a') \<le> 32" by (rule snd_buf_length [OF assms(5,4)])
  moreover have "length (k_snd_buf a') = length (k_snd_buf (flushed k))" using flush_emits(2) [OF assms(1-3)] by simp
  moreover have "length (due_segs (flushed k)) \<le> length (k_snd_buf (flushed k))" by (simp add: due_segs_def)
  ultimately have d: "length (data_wires (flushed k) (ikcp_wnd_unused k)) \<le> 32" by (simp add: data_wires_def)
  then show "length (flush_wires k) \<le> length (pending_acks k) + 34" by (simp add: flush_wires_def ack_wires_def probe_wires_def)
  have "filter is_push (ack_wires k) = []"
    by (auto simp: filter_empty_conv is_push_def ack_wires_def seg_header_def control_segment_def)
  moreover have "filter is_push (probe_wires p seg) = []" for p seg by (simp add: is_push_def probe_wires_def seg_header_def)
  ultimately show "length (filter is_push (flush_wires k)) \<le> 32"
    using order.trans [OF length_filter_le d] by (simp add: flush_wires_def)
qed

lemma due_flush:
  assumes wf: "kcp_wf a" "k_output a" and "flight_ok a" "snd (update_clock a current)"
  obtains k a' out where "ikcp_update a current = Some (a', out)" "ikcp_flush k = Some (a', out)"
    "kcp_wf k" "k_output k" "k_updated k \<noteq> 0" "k_current k = current" "snd_view k = snd_view a" "k_conv k = k_conv a"
    "rcv_view k = rcv_view a" "pending_acks k = pending_acks a" "k_probe k = k_probe a"
    "kcp_wf a'" "flight_ok a'" "k_snd_una a' = k_snd_una a" "k_cwnd a' \<noteq> 0" "pending_acks a' = []"
    "length (flush_wires k) \<le> length (pending_acks a) + 34" "length (filter is_push (flush_wires k)) \<le> 32"
    "k = fst (update_clock a current)"
proof -
  obtain k where k: "update_clock a current = (k, True)" using assms(4) by (cases "update_clock a current") simp
  have kf: "kcp_wf k" "k_output k" "k_updated k \<noteq> 0" "k_current k = current" "snd_view k = snd_view a" "k_conv k = k_conv a"
    "rcv_view k = rcv_view a" "pending_acks k = pending_acks a" "k_probe k = k_probe a"
    using update_clock_wf [OF wf(1), of current] update_clock_updated [of a current] k wf(2)
    by (auto simp: update_clock_def Let_def snd_view_def rcv_view_def pending_acks_def)
  obtain a' out where u: "ikcp_update a current = Some (a', out)" "kcp_wf a'" using update_ok [OF wf] by blast
  then have f: "ikcp_flush k = Some (a', out)" using k by (simp add: update_eq)
  have a': "flight_ok a'" "k_snd_una a' = k_snd_una a" "k_cwnd a' \<noteq> 0"
    using update_flight [OF wf assms(3) u(1)] flush_ok [OF kf(1-3)] f k by (auto simp: update_clock_def Let_def)
  have sw: "snd_wf a'" using u(2) by (simp add: kcp_wf_def)
  note pw = push_wires [OF kf(1) f kf(3) a'(1) sw]
  show thesis by (rule that [OF u(1) f kf u(2) a' flush_acks_cleared [OF f kf(3)] _ pw(2)]) (use pw(1) kf(8) k in simp_all)
qed

lemma send_half:
  assumes inv: "link_inv2 \<lparr>lk_net = n, lk_back = w\<rparr>" and small: "length (net_log n) < 2147483648"
    and room: "k_nrcv_que (n_b n) < 32" and due: "snd (update_clock (n_a n) current)" "all_due current (n_a n)"
    and mem: "granting alloc" "alloc_bounded alloc"
    and few: "length (pending_acks (n_a n)) + length (pending_acks (n_b n)) < 1000000000"
    and rlog: "rcv_log (net_log n) got (n_b n)"
  obtains k a' out b' where "ikcp_update (n_a n) current = Some (a', out)" "ikcp_flush k = Some (a', out)"
    "kcp_wf k" "k_output k" "k_updated k \<noteq> 0" "k_current k = current" "snd_view k = snd_view (n_a n)"
    "deliver_all alloc (n_b n) out = Some b'" "kcp_wf b'" "rcv_prog (n_b n) b'" "\<forall>sn < k_snd_nxt a'. holds b' sn"
    "unat (k_snd_nxt a') \<le> unat (k_rcv_nxt (n_b n)) + 32" "taken (net_log n) got (n_b n) (flush_wires k) b'"
    "length (pending_acks b') \<le> length (pending_acks (n_a n)) + length (pending_acks (n_b n)) + 34"
    "all_due (k_current k) k" "snd_log (net_log n) a'" "k_cwnd a' \<noteq> 0" "pending_acks a' = []"
    "k = fst (update_clock (n_a n) current)"
proof -
  let ?a = "n_a n" and ?b = "n_b n"
  have li: "link_inv \<lparr>lk_net = n, lk_back = w\<rparr>" "flight_ok ?a" using inv by (simp_all add: link_inv2_def)
  note D = link_invD [OF li(1)]
  have wf: "kcp_wf ?a" "k_output ?a" "api_inv ?a" "kcp_wf ?b" "snd_wf ?a" "rcv_wf ?b"
    using D(1) by (simp_all add: net_inv_def api_inv_def kcp_wf_def)
  have log: "snd_log (net_log n) ?a" by (rule net_logs [OF D(1) small])
  obtain k a' out where u: "ikcp_update ?a current = Some (a', out)" and f: "ikcp_flush k = Some (a', out)"
    and kf: "kcp_wf k" "k_output k" "k_updated k \<noteq> 0" "k_current k = current" "snd_view k = snd_view ?a" "k_conv k = k_conv ?a"
    and a'0: "kcp_wf a'" "flight_ok a'" "k_snd_una a' = k_snd_una ?a" "k_cwnd a' \<noteq> 0" "pending_acks a' = []"
    and wires: "length (flush_wires k) \<le> length (pending_acks ?a) + 34" and clock: "k = fst (update_clock ?a current)"
    by (rule due_flush [OF wf(1,2) li(2) due(1)])
  note a' = a'0(1) update_stream(1) [OF wf(3) log u] a'0(2,3)
  have una: "k_snd_una ?a \<le> k_rcv_nxt ?b"
    using una_le_rcv_nxt [OF wf(6) _ _ _ wf(5) log small] D(3,4,6) [OF small] room by simp
  have rm: "unat (k_snd_nxt a') \<le> unat (k_rcv_nxt ?b) + 32"
    using una a'(3,4) una_below(1) [OF _ a'(2) small] a'(1)
    by (auto simp: flight_ok_def kcp_wf_def unat32_sub word_le_nat_alt split: if_splits)
  have ad: "all_due (k_current k) k" using due(2) kf(4,5) by (simp add: all_due_def snd_view_def)
  have fw: "length (pending_acks ?b) + length (flush_wires k) < 1073741823" using few wires by simp
  obtain b' where b': "deliver_all alloc ?b out = Some b'" "kcp_wf b'" "rcv_prog ?b b'" "\<forall>sn < k_snd_nxt a'. holds b' sn"
    "taken (net_log n) got ?b (flush_wires k) b'" "length (pending_acks b') \<le> length (pending_acks ?b) + length (flush_wires k)"
    using round_holds [OF kf(1-3) f _ ad mem small wf(4) rlog _ _ _ fw rm] kf(6) snd_log_view [OF kf(5)]
      acked_held_view [OF kf(5)] log D(2) D(3,6) [OF small] by auto
  show thesis by (rule that [OF u f kf(1-5) b'(1-4) rm b'(5) _ ad a'(2) a'0(4,5) clock]) (use b'(6) wires in simp)
qed

section \<open>The receiver's half of a round\<close>

text \<open>When the reader has stopped, only the beginning of a message is in the queue.\<close>

lemma read_out_partial:
  assumes "rcv_wf b" "rcv_log (msg_log m msgs) (msg_log m (take k msgs)) b" "0 < m" "\<forall>msg \<in> set msgs. msg_ok m msg"
    and "read_out b" "k \<le> length msgs"
  shows "k < length msgs \<Longrightarrow> length (k_rcv_queue b) < length (chunks m (msgs ! k))" and "k = length msgs \<Longrightarrow> k_rcv_queue b = []"
proof -
  let ?log = "msg_log m msgs" and ?got = "msg_log m (take k msgs)"
  obtain r where r: "r \<le> length ?log" "?got @ map view (k_rcv_queue b) = take r ?log" using assms(2) by (auto simp: rcv_log_def)
  have "?got @ msg_log m (drop k msgs) = ?log" unfolding msg_log_def by (metis append_take_drop_id concat_append map_append)
  then have "drop (length ?got) ?log = msg_log m (drop k msgs)" by (metis append_eq_conv_conj)
  moreover have "map view (k_rcv_queue b) = drop (length ?got) (take r ?log)" using r(2) by (metis append_eq_conv_conj)
  ultimately have q: "map view (k_rcv_queue b) = take (r - length ?got) (msg_log m (drop k msgs))" by (simp add: drop_take)
  show "k_rcv_queue b = []" if "k = length msgs" using q that by (simp add: msg_log_def)
  assume k: "k < length msgs"
  have d: "msg_log m (drop k msgs) = frags m (msgs ! k) @ msg_log m (drop (Suc k) msgs)"
    using k by (simp add: msg_log_def Cons_nth_drop_Suc [symmetric])
  show "length (k_rcv_queue b) < length (chunks m (msgs ! k))"
  proof (rule ccontr)
    assume "\<not> ?thesis"
    then have "length (frags m (msgs ! k)) \<le> r - length ?got" using q by (metis length_frags length_map length_take min.cobounded2 not_le order.trans)
    then obtain rest where "map view (k_rcv_queue b) = frags m (msgs ! k) @ rest" using q d by simp
    from recv_ready [OF assms(1) this assms(3)] show False using assms(4,5) k by (auto simp: read_out_def)
  qed
qed

lemma read_out_room:
  assumes "rcv_wf b" "rcv_log (msg_log m msgs) (msg_log m (take k msgs)) b" "0 < m" "\<forall>msg \<in> set msgs. msg_ok m msg"
    and "read_out b" "k \<le> length msgs" "\<forall>msg \<in> set msgs. length (chunks m msg) \<le> 32"
  shows "k_nrcv_que b < 32"
proof -
  have "length (k_rcv_queue b) < 32"
    using read_out_partial [OF assms(1-6)] assms(6,7) by (cases "k = length msgs") (auto dest: nth_mem intro: less_le_trans)
  then show ?thesis using assms(1) by (simp add: rcv_wf_def word_less_nat_alt unat32_of_nat_small)
qed

lemma read_out_done:
  assumes "rcv_wf b" "rcv_log (msg_log m msgs) (msg_log m (take k msgs)) b" "0 < m" "\<forall>msg \<in> set msgs. msg_ok m msg"
    and "read_out b" "k \<le> length msgs" "length (msg_log m msgs) < 2147483648" "of_nat (length (msg_log m msgs)) \<le> k_rcv_nxt b"
  shows "k = length msgs"
proof (rule ccontr)
  assume "k \<noteq> length msgs"
  then have k: "k < length msgs" using assms(6) by simp
  let ?log = "msg_log m msgs" and ?got = "msg_log m (take k msgs)"
  obtain r where r: "r \<le> length ?log" "k_rcv_nxt b = of_nat r" "?got @ map view (k_rcv_queue b) = take r ?log"
    using assms(2) by (auto simp: rcv_log_def)
  have "length ?log \<le> r" using assms(7,8) r(1,2) by (simp add: word_le_nat_alt unat32_of_nat)
  then have "length ?got + length (k_rcv_queue b) = length ?log" using r(1,3) by (metis length_append length_map take_all)
  moreover have "length ?log = length ?got + length (msg_log m (drop k msgs))"
    unfolding msg_log_def by (metis append_take_drop_id concat_append length_append map_append)
  moreover have "msg_log m (drop k msgs) = frags m (msgs ! k) @ msg_log m (drop (Suc k) msgs)"
    using k by (simp add: msg_log_def Cons_nth_drop_Suc [symmetric])
  ultimately have "length (chunks m (msgs ! k)) \<le> length (k_rcv_queue b)" by simp
  then show False using read_out_partial(1) [OF assms(1-6) k] by simp
qed

text \<open>What is true of the sender \<open>k\<close> after the segments \<open>ws\<close> of the receiver, when it was \<open>a\<close> before. Each of them says
  that everything was received, and announces the window \<open>wnd\<close>.\<close>

definition told :: "frag list \<Rightarrow> IKCPCB \<Rightarrow> u32 \<Rightarrow> wire_seg list \<Rightarrow> IKCPCB \<Rightarrow> bool" where
  "told log a wnd ws k \<longleftrightarrow> snd_log log k \<and> k_snd_nxt k = k_snd_nxt a \<and> k_snd_queue k = k_snd_queue a \<and> k_cwnd k \<noteq> 0 \<and>
     (if ws = [] then k_snd_buf k = k_snd_buf a \<and> k_rmt_wnd k = k_rmt_wnd a else k_snd_buf k = [] \<and> k_rmt_wnd k = wnd)"

definition flow_view :: "IKCPCB \<Rightarrow> u32 \<times> u32" where
  "flow_view k = (k_cwnd k, k_rmt_wnd k)"

lemma ops_flow:
  "flow_view (ikcp_parse_una k una) = flow_view k" "flow_view (ikcp_shrink_buf k) = flow_view k"
  "flow_view (ikcp_parse_ack k sn) = flow_view k" "flow_view (ikcp_update_ack k rtt) = flow_view k"
  "flow_view (ikcp_parse_data k seg) = flow_view k" "flow_view (k\<lparr>k_probe := p\<rparr>) = flow_view k"
proof -
  have m: "flow_view (move_rcv_from buf k) = flow_view k" for buf k
    by (induction buf k rule: move_rcv_from.induct) (simp_all add: flow_view_def)
  then show "flow_view (ikcp_parse_data k seg) = flow_view k"
    by (simp add: ikcp_parse_data_def Let_def move_rcv_def split: option.split) (simp add: flow_view_def)
qed (simp_all add: ikcp_parse_una_def shrink_buf_eq ikcp_parse_ack_def ikcp_update_ack_def case_prod_beta Let_def flow_view_def)

lemma input_one_flow:
  assumes "input_one alloc j k h data = Some k'" shows "flow_view k' = (k_cwnd k, ucast (h_wnd h))"
proof -
  have push: "flow_view k2 = flow_view k1" if "ikcp_ack_push alloc i k1 sn ts = Some k2" for i k1 sn ts k2
    by (rule ack_push_fields [OF that]) (simp add: flow_view_def)
  have "flow_view k2 = flow_view k1" if "input_push alloc j k1 h data = Some k2" for k1 k2
    using that push by (auto simp: input_push_def ops_flow split: if_splits option.splits)
  then show ?thesis using assms
    by (auto simp: input_one_def input_ack_def Let_def ops_flow split: if_splits) (simp_all add: flow_view_def)
qed

lemma grow_cwnd_pos: "k_cwnd k \<noteq> 0 \<Longrightarrow> k_cwnd (grow_cwnd u k) \<noteq> 0" "k_rmt_wnd (grow_cwnd u k) = k_rmt_wnd k"
proof -
  assume c: "k_cwnd k \<noteq> 0"
  have "k_cwnd k + 1 \<noteq> 0" if "k_cwnd k < k_rmt_wnd k"
  proof -
    have "unat (k_cwnd k) + 1 < 4294967296" using that unat32_less [of "k_rmt_wnd k"] unfolding word_less_nat_alt by linarith
    then have "unat (k_cwnd k + 1) \<noteq> 0" using unat32_add_small [of "k_cwnd k" 1] by simp
    then show ?thesis by auto
  qed
  then show "k_cwnd (grow_cwnd u k) \<noteq> 0" using c by (auto simp: grow_cwnd_def Let_def)
qed (simp add: grow_cwnd_def Let_def)

lemma told_step:
  assumes "told log a (ucast wnd) ws k" "length log < 2147483648"
    and h: "k_snd_nxt a \<le> h_una h" "unat (h_una h) < 2147483648" "h_wnd h = wnd"
    and run: "input_one alloc j k h data = Some k'"
  shows "told log a (ucast wnd) (ws @ [(h, p)]) k'"
proof -
  have t: "snd_log log k" "k_snd_nxt k = k_snd_nxt a" "k_snd_queue k = k_snd_queue a" "k_cwnd k \<noteq> 0" using assms(1) by (simp_all add: told_def)
  let ?k = "ikcp_shrink_buf (ikcp_parse_una (k\<lparr>k_rmt_wnd := ucast (h_wnd h)\<rparr>) (h_una h))"
  have "itimediff (h_una h) (seg_sn seg) > 0" if "seg \<in> set (k_snd_buf k)" for seg
  proof -
    have "seg_sn seg < k_snd_nxt k" "unat (k_snd_nxt k) < 2147483648" using snd_log_small [OF t(1) assms(2)] that assms(2) by fastforce+
    then have "seg_sn seg < h_una h" "unat (seg_sn seg) < 2147483648" using h(1) t(2) by (auto simp: word_less_nat_alt word_le_nat_alt)
    then show ?thesis using itimediff_small(1) [OF h(2)] by simp
  qed
  then have k: "k_snd_buf ?k = []" by (simp add: shrink_buf_eq ikcp_parse_una_def parse_una_loop_eq dropWhile_eq_Nil_conv case_prod_beta)
  have kq: "k_snd_nxt ?k = k_snd_nxt k" "k_snd_queue ?k = k_snd_queue k" by (simp_all add: shrink_buf_eq ikcp_parse_una_def case_prod_beta)
  have ack: "k_snd_buf (input_ack ?k h) = []" "k_snd_nxt (input_ack ?k h) = k_snd_nxt k" "k_snd_queue (input_ack ?k h) = k_snd_queue k"
    using k kq by (simp_all add: input_ack_def Let_def shrink_buf_eq ikcp_parse_ack_def ikcp_update_ack_def case_prod_beta)
  have "k_snd_buf k' = [] \<and> k_snd_nxt k' = k_snd_nxt k \<and> k_snd_queue k' = k_snd_queue k"
    using run k kq ack input_push_view [of alloc j ?k h data k'] by (auto simp: input_one_def Let_def snd_view_def split: if_splits)
  then show ?thesis using t input_one_snd_log [OF t(1) run] input_one_flow [OF run] h(3) by (simp add: told_def flow_view_def)
qed

lemma told_grow: "told log a wnd ws k \<Longrightarrow> told log a wnd ws (grow_cwnd u k)"
  using grow_cwnd_pos [where k = k and u = u] grow_cwnd_view(1) [of u k] snd_log_view [OF grow_cwnd_view(1)] by (simp add: told_def snd_view_def)

lemma owes_wires: "owes k \<Longrightarrow> flush_wires k \<noteq> []"
proof -
  have "IKCP_ASK_SEND AND IKCP_ASK_TELL = 0" by (simp add: kcp_consts)
  then have "(x OR IKCP_ASK_SEND) AND IKCP_ASK_TELL = x AND IKCP_ASK_TELL" for x by (simp only: bit.conj_disj_distrib2 or.right_neutral)
  then have "k_probe (probe_window k') AND IKCP_ASK_TELL = k_probe k' AND IKCP_ASK_TELL" for k' by (simp add: probe_window_def Let_def)
  then show "owes k \<Longrightarrow> flush_wires k \<noteq> []" by (auto simp: owes_def flush_wires_def ack_wires_def probe_wires_def)
qed

lemma back_half:
  assumes a: "kcp_wf a" "snd_log log a" "length log < 2147483648" "k_cwnd a \<noteq> 0" "pending_acks a = []"
    and b: "kcp_wf b" "k_output b" "flight_ok b" "snd (update_clock b current)" "k_conv b = k_conv a"
    and caught: "k_snd_nxt a \<le> k_rcv_nxt b" "unat (k_rcv_nxt b) < 2147483648" "k_nrcv_que b < 32" "k_rcv_wnd b = 32"
    and mem: "granting alloc" "alloc_bounded alloc"
  obtains b' acks a' where "ikcp_update b current = Some (b', acks)" "deliver_all alloc a acks = Some a'"
    "pending_acks b' = []" "length (pending_acks a') \<le> 32"
    "k_snd_nxt a' = k_snd_nxt a" "k_snd_queue a' = k_snd_queue a" "k_cwnd a' \<noteq> 0"
    "owes b \<or> k_snd_buf a = [] \<and> k_rmt_wnd a \<noteq> 0 \<Longrightarrow> k_snd_buf a' = [] \<and> k_rmt_wnd a' \<noteq> 0"
proof -
  obtain k b' acks where u: "ikcp_update b current = Some (b', acks)" and f: "ikcp_flush k = Some (b', acks)"
    and kf: "kcp_wf k" "k_updated k \<noteq> 0" "k_conv k = k_conv b" "rcv_view k = rcv_view b" "pending_acks k = pending_acks b" "k_probe k = k_probe b"
    and b': "pending_acks b' = []" and few: "length (filter is_push (flush_wires k)) \<le> 32"
    by (rule due_flush [OF b(1-4)])
  obtain hss where hss: "acks = map segs_bytes hss" "concat hss = flush_wires k" using flush_emits(1) [OF kf(1) f kf(2)] by blast
  let ?w = "ucast (ikcp_wnd_unused k) :: 16 word" and ?Q = "sent_ok k (k_snd_buf (flushed k))"
  have r: "k_rcv_nxt k = k_rcv_nxt b" "k_nrcv_que k = k_nrcv_que b" "k_rcv_wnd k = 32" using kf(4) caught(4) by (simp_all add: rcv_view_def)
  have "\<exists>a'. deliver_all alloc a (map segs_bytes hss) = Some a' \<and> kcp_wf a' \<and> k_conv a' = k_conv a \<and> told log a (ucast ?w) ([] @ concat hss) a' \<and>
      length (pending_acks a') \<le> length (pending_acks a) + length (filter is_push (concat hss))"
  proof (rule deliver_total [where P = "told log a (ucast ?w)" and Q = ?Q, OF mem _ _ _ a(1) refl])
    show "told log a (ucast ?w) [] a" using a(2,4) by (simp add: told_def)
    show "\<forall>x \<in> set (concat hss). ?Q x" using flush_wires_sent_ok [OF kf(1)] hss(2) by simp
    show "h_conv h = k_conv a \<and> cmd_known (h_cmd h) \<and> length p = unat (h_len h)" if "?Q (h, p)" for h p
      using that b(5) kf(3) by (auto simp: sent_ok_def cmd_known_bytes)
    show "length (pending_acks a) + length (filter is_push (concat hss)) < 1073741823" using few a(5) hss(2) by simp
    show "told log a (ucast ?w) (ws @ [(h, p)]) k'"
      if "told log a (ucast ?w) ws ka" "?Q (h, p)" "input_one alloc j ka h (p @ rest) = Some k'" for ws ka j h p rest k'
      by (rule told_step [OF that(1) a(3) _ _ _ that(3)]) (use that(2) caught(1,2) r(1) in \<open>auto simp: sent_ok_def\<close>)
  qed (rule told_grow)
  then obtain a' where a': "deliver_all alloc a acks = Some a'" "told log a (ucast ?w) (flush_wires k) a'" "length (pending_acks a') \<le> 32"
    using hss few a(5) by auto
  have "ikcp_wnd_unused k = 32 - k_nrcv_que b" using r caught(3) by (simp add: ikcp_wnd_unused_def)
  then have "unat (ikcp_wnd_unused k) = 32 - unat (k_nrcv_que b)" using caught(3) by (simp add: unat32_sub word_less_nat_alt)
  then have "unat (ucast ?w :: u32) = 32 - unat (k_nrcv_que b)" by (simp add: unsigned_ucast_eq unsigned_take_bit_eq take_bit_nat_eq_self)
  then have "(ucast ?w :: u32) \<noteq> 0" using caught(3) by (auto simp: word_less_nat_alt)
  then have "k_snd_buf a' = [] \<and> k_rmt_wnd a' \<noteq> 0" if "owes b \<or> k_snd_buf a = [] \<and> k_rmt_wnd a \<noteq> 0"
    using a'(2) that owes_wires [of k] kf(5,6) by (auto simp: told_def owes_def split: if_splits)
  then show thesis using that [OF u a'(1) b' a'(3)] a'(2) by (simp add: told_def)
qed

section \<open>What keeps the send queue moving\<close>

definition idle :: "IKCPCB \<Rightarrow> bool" where
  "idle a \<longleftrightarrow> k_snd_buf a = [] \<and> k_rmt_wnd a \<noteq> 0 \<and> k_cwnd a \<noteq> 0"

definition probe_due :: "u32 \<Rightarrow> IKCPCB \<Rightarrow> bool" where
  "probe_due current a \<longleftrightarrow> (k_rmt_wnd a = 0 \<longrightarrow> k_probe_wait a \<noteq> 0 \<and> itimediff current (k_ts_probe a) \<ge> 0)"

lemma move_snd_queue: "length (k_snd_queue (move_snd_from q c w k)) \<le> length q"
  by (induction q arbitrary: k) (auto simp: le_SucI)

lemma flushed_queue:
  shows "length (k_snd_queue (flushed k)) \<le> length (k_snd_queue k)"
    and "idle k \<Longrightarrow> flight_ok k \<Longrightarrow> snd_wf k \<Longrightarrow> k_snd_queue k \<noteq> [] \<Longrightarrow> length (k_snd_queue (flushed k)) < length (k_snd_queue k)"
proof -
  define p where "p = probe_window (k\<lparr>k_ackcount := 0\<rparr>)\<lparr>k_probe := 0\<rparr>"
  have p: "k_snd_queue p = k_snd_queue k" "k_snd_nxt p = k_snd_nxt k" "k_snd_una p = k_snd_una k"
    by (simp_all add: p_def probe_window_def Let_def)
  have f: "flushed k = move_snd_from (k_snd_queue k) (flush_window k) (ikcp_wnd_unused k) p"
    using p(1) by (simp add: flushed_def move_snd_def p_def)
  show "length (k_snd_queue (flushed k)) \<le> length (k_snd_queue k)" unfolding f by (rule move_snd_queue)
  assume i: "idle k" "flight_ok k" "snd_wf k" "k_snd_queue k \<noteq> []"
  then obtain seg q where q: "k_snd_queue k = seg # q" by (cases "k_snd_queue k") auto
  have w: "flush_window k \<noteq> 0" "unat (flush_window k) \<le> 32"
    using i(1,2) by (auto simp: idle_def flight_ok_def flush_window_def imin_def Let_def word_le_nat_alt)
  have "k_snd_una k = k_snd_nxt k" using i(1,3) by (simp add: idle_def snd_wf_def first_unacked_def)
  moreover have "itimediff n (n + flush_window k) < 0" for n :: u32
  proof -
    have "0 < unat (flush_window k)" using w(1) by (simp add: unat_gt_0)
    then have "unat (n - (n + flush_window k)) = 4294967296 - unat (flush_window k)" using unat32_sub [of 0 "flush_window k"] by simp
    then show ?thesis using w(2) by (simp add: itimediff_neg)
  qed
  ultimately have "itimediff (k_snd_nxt p) (k_snd_una p + flush_window k) < 0" using p by simp
  then show "length (k_snd_queue (flushed k)) < length (k_snd_queue k)" unfolding f q by (simp add: le_imp_less_Suc move_snd_queue)
qed

lemma flush_rmt_wnd:
  assumes "ikcp_flush k = Some (k', sent)" "k_updated k \<noteq> 0" shows "k_rmt_wnd k' = k_rmt_wnd k"
proof -
  have "k_rmt_wnd (move_snd_from q c w k) = k_rmt_wnd k" for q c w k by (induction q arbitrary: k) simp_all
  moreover have "k_rmt_wnd (flush_cwnd change lost resent cwnd k) = k_rmt_wnd k" for change lost resent cwnd k
    by (simp add: flush_cwnd_def Let_def)
  ultimately have fs: "k_rmt_wnd k' = k_rmt_wnd k" if "flush_segments k wnd out = Some (k', sent)" for k wnd out k' sent
    using that by (auto simp: flush_segments_def Let_def bind_eq_Some_conv move_snd_def)
  show ?thesis
  proof (rule flush_elim [OF assms])
    fix seg out2
    assume "flush_segments (probe_window (k\<lparr>k_ackcount := 0\<rparr>)\<lparr>k_probe := 0\<rparr>) (seg_wnd seg) out2 = Some (k', sent)"
    from fs [OF this] show ?thesis by (simp add: probe_window_def Let_def)
  qed
qed

text \<open>A sender that has anything in flight, or is shut out by a window of zero, sends something that has to be answered.\<close>

lemma flush_calls:
  assumes "kcp_wf k" "ikcp_flush k = Some (a', out)" "k_updated k \<noteq> 0" "all_due (k_current k) k" "probe_due (k_current k) k"
    and room: "\<And>seg. seg \<in> set (k_snd_buf (flushed k)) \<Longrightarrow> unat (seg_sn seg) < unat (k_rcv_nxt b) + 32"
  shows "(\<exists>x \<in> set (flush_wires k). calls b x) \<or> k_snd_buf a' = [] \<and> k_rmt_wnd a' \<noteq> 0"
proof (cases "k_rmt_wnd k = 0")
  case True
  have "k_probe (probe_window (k\<lparr>k_ackcount := 0\<rparr>)) = k_probe k OR IKCP_ASK_SEND"
    using True assms(5) by (simp add: probe_due_def probe_window_def Let_def)
  moreover have "(x OR IKCP_ASK_SEND) AND IKCP_ASK_SEND \<noteq> 0" for x :: u32
  proof -
    have "bit ((x OR IKCP_ASK_SEND) AND IKCP_ASK_SEND) 0" by (simp add: bit_simps kcp_consts)
    then show ?thesis by (metis bit_0_eq bot_apply bot_bool_def)
  qed
  ultimately have "(seg_header ((last_control k)\<lparr>seg_cmd := IKCP_CMD_WASK\<rparr>), []) \<in> set (flush_wires k)"
    by (simp add: flush_wires_def probe_wires_def)
  moreover have "calls b (seg_header ((last_control k)\<lparr>seg_cmd := IKCP_CMD_WASK\<rparr>), [])" by (simp add: calls_def seg_header_def)
  ultimately show ?thesis by blast
next
  case False
  have rw: "k_rmt_wnd a' \<noteq> 0" using False flush_rmt_wnd [OF assms(2,3)] by simp
  show ?thesis
  proof (cases "k_snd_buf (flushed k)")
    case Nil
    then show ?thesis using rw flush_emits(2) [OF assms(1-3)] by simp
  next
    case (Cons seg q)
    then obtain x where "x \<in> set (flush_wires k)" "h_cmd (fst x) = 81" "h_sn (fst x) = seg_sn seg"
      using due_wires [OF assms(4,1), of seg] by auto
    then show ?thesis using room [of seg] Cons by (auto simp: calls_def)
  qed
qed

section \<open>A round\<close>

text \<open>\<open>ta\<close> and \<open>tb\<close> are the times at which the two ends are updated.\<close>

definition link_round :: "allocator \<Rightarrow> u32 \<Rightarrow> u32 \<Rightarrow> link_state \<Rightarrow> link_state option" where
  "link_round alloc ta tb s = do {
     let n = lk_net s;
     let (msgs, b) = recv_all (n_b n);
     (a, out) \<leftarrow> ikcp_update (n_a n) ta;
     b \<leftarrow> deliver_all alloc b out;
     let (msgs', b) = recv_all b;
     (b, acks) \<leftarrow> ikcp_update b tb;
     a \<leftarrow> deliver_all alloc a acks;
     Some \<lparr>lk_net = n\<lparr>n_a := a, n_b := b, n_wire := n_wire n \<union> set out, n_got := n_got n @ msgs @ msgs'\<rparr>,
           lk_back = lk_back s \<union> set acks\<rparr>
   }"

text \<open>Everything in flight has timed out, a sender that is shut out may probe, and both updates flush.\<close>

definition round_due :: "u32 \<Rightarrow> u32 \<Rightarrow> link_state \<Rightarrow> bool" where
  "round_due ta tb s \<longleftrightarrow>
     snd (update_clock (n_a (lk_net s)) ta) \<and> all_due ta (n_a (lk_net s)) \<and> probe_due ta (n_a (lk_net s)) \<and>
     snd (update_clock (n_b (lk_net s)) tb)"

lemma recv_all_le:
  assumes "recv_all b = (msgs, b')" "link_inv \<lparr>lk_net = n, lk_back = w\<rparr>" "n_b n = b" "length (net_log n) < 2147483648"
  shows "rcv_le b b'"
  using assms
proof (induction arbitrary: n rule: recv_all_induct)
  case (more b r out b1 msgs b')
  let ?n = "n\<lparr>n_b := b1, n_got := n_got n @ [out]\<rparr>"
  note D = link_invD [OF more(5)]
  have step: "link_step \<lparr>lk_net = n, lk_back = w\<rparr> \<lparr>lk_net = ?n, lk_back = w\<rparr>"
    using link_step.link_recv [of n "0x7fffffff" r out b1 w] more(1,2,6) by simp
  obtain got where "rcv_log (net_log n) got (n_b n)" by (rule net_logs [OF D(1) more(7)])
  then have "rcv_le b b1" using recv_held [OF _ _ more(7) D(4,5) [OF more(7)] more(1) [folded more(6)]] D(1) more(6)
    by (simp add: net_inv_def api_inv_def kcp_wf_def)
  moreover have "rcv_le b1 b'" using more(4) [OF link_step_inv [OF more(5) step]] more(7) by (simp add: net_log_def)
  ultimately show ?case by (rule rcv_le_trans)
qed simp

lemma read_out_net:
  assumes "link_inv \<lparr>lk_net = n, lk_back = w\<rparr>" "length (net_log n) < 2147483648" "read_out (n_b n)"
  shows "\<forall>msg \<in> set (n_sent n). length (chunks 1376 msg) \<le> 32 \<Longrightarrow> k_nrcv_que (n_b n) < 32"
    and "of_nat (length (net_log n)) \<le> k_rcv_nxt (n_b n) \<Longrightarrow> n_got n = n_sent n"
proof -
  note D = link_invD [OF assms(1)]
  obtain k where k: "k \<le> length (n_sent n)" "n_got n = take k (n_sent n)"
    "rcv_log (msg_log 1376 (n_sent n)) (msg_log 1376 (take k (n_sent n))) (n_b n)"
    using D(1) assms(2) by (auto simp: net_inv_def net_log_def)
  have ok: "rcv_wf (n_b n)" "\<forall>msg \<in> set (n_sent n). msg_ok 1376 msg" using D(1) by (simp_all add: net_inv_def api_inv_def kcp_wf_def)
  show "k_nrcv_que (n_b n) < 32" if "\<forall>msg \<in> set (n_sent n). length (chunks 1376 msg) \<le> 32"
    by (rule read_out_room [OF ok(1) k(3) _ ok(2) assms(3) k(1) that]) simp
  show "n_got n = n_sent n" if "of_nat (length (net_log n)) \<le> k_rcv_nxt (n_b n)"
    using read_out_done [OF ok(1) k(3) _ ok(2) assms(3) k(1)] assms(2) that k(2) by (simp add: net_log_def)
qed

lemma net_log_upd [simp]:
  "net_log (n\<lparr>n_a := a\<rparr>) = net_log n" "net_log (n\<lparr>n_b := b\<rparr>) = net_log n"
  "net_log (n\<lparr>n_wire := w\<rparr>) = net_log n" "net_log (n\<lparr>n_got := g\<rparr>) = net_log n"
  by (simp_all add: net_log_def)

text \<open>What a round does.\<close>

definition round_result :: "link_state \<Rightarrow> link_state \<Rightarrow> bool" where
  "round_result s t \<longleftrightarrow>
     (let n = lk_net s; n' = lk_net t; q = k_snd_queue (n_a n); q' = k_snd_queue (n_a n')
      in n_sent n' = n_sent n \<and> idle (n_a n') \<and> length (pending_acks (n_a n')) + length (pending_acks (n_b n')) \<le> 32 \<and>
         length q' \<le> length q \<and> (idle (n_a n) \<and> q \<noteq> [] \<longrightarrow> length q' < length q) \<and>
         (q' = [] \<longrightarrow> n_got n' = n_sent n'))"

lemma deliver_clock:
  assumes "deliver_all alloc b out = Some b'" shows "clock_view b' = clock_view b"
  using assms
proof (induction out arbitrary: b)
  case (Cons d out)
  obtain r b1 where b1: "ikcp_input alloc b (Some d) (int (length d)) = Some (r, b1)" "deliver_all alloc b1 out = Some b'"
    using Cons.prems by (auto split: option.splits)
  have "clock_view k = clock_view b" if "input_loop alloc 0 b d sz = Some (x, k)" for sz x k
    using input_loop_keeps [of "\<lambda>k. clock_view k = clock_view b" alloc, OF _ _ that] input_one_clock by metis
  then have "clock_view b1 = clock_view b" using b1(1) by (auto simp: ikcp_input_def Let_def ops_clock split: option.splits if_splits)
  then show ?case using Cons.IH [OF b1(2)] by simp
qed simp

text \<open>The first half: what the sender had in flight has arrived and was read as far as it can be.\<close>

lemma send_calls:
  assumes inv: "link_inv2 \<lparr>lk_net = n, lk_back = w\<rparr>" and small: "length (net_log n) < 2147483616"
    and room: "k_nrcv_que (n_b n) < 32"
    and due: "snd (update_clock (n_a n) ta)" "all_due ta (n_a n)" "probe_due ta (n_a n)"
    and mem: "granting alloc" "alloc_bounded alloc"
    and few: "length (pending_acks (n_a n)) + length (pending_acks (n_b n)) < 1000000000"
  obtains a1 out b2 where "ikcp_update (n_a n) ta = Some (a1, out)" "deliver_all alloc (n_b n) out = Some b2"
    "\<forall>sn < k_snd_nxt a1. holds b2 sn" "owes b2 \<or> k_snd_buf a1 = [] \<and> k_rmt_wnd a1 \<noteq> 0"
    "snd_log (net_log n) a1" "k_cwnd a1 \<noteq> 0" "pending_acks a1 = []" "length (k_snd_queue a1) \<le> length (k_snd_queue (n_a n))"
    "idle (n_a n) \<Longrightarrow> k_snd_queue (n_a n) \<noteq> [] \<Longrightarrow> length (k_snd_queue a1) < length (k_snd_queue (n_a n))"
proof -
  have sm: "length (net_log n) < 2147483648" using small by simp
  have li: "link_inv \<lparr>lk_net = n, lk_back = w\<rparr>" using inv by (simp add: link_inv2_def)
  obtain got where rl: "rcv_log (net_log n) got (n_b n)" by (rule net_logs [OF link_invD(1) [OF li] sm])
  obtain k a1 out b2 where u: "ikcp_update (n_a n) ta = Some (a1, out)" and f: "ikcp_flush k = Some (a1, out)"
    and kf: "kcp_wf k" "k_updated k \<noteq> 0" "k_current k = ta" "k = fst (update_clock (n_a n) ta)" "k_output k"
    and b2: "deliver_all alloc (n_b n) out = Some b2" "\<forall>sn < k_snd_nxt a1. holds b2 sn"
      "unat (k_snd_nxt a1) \<le> unat (k_rcv_nxt (n_b n)) + 32" "taken (net_log n) got (n_b n) (flush_wires k) b2"
    and a1: "all_due (k_current k) k" "snd_log (net_log n) a1" "k_cwnd a1 \<noteq> 0" "pending_acks a1 = []"
    by (rule send_half [OF inv sm room due(1,2) mem few rl])
  have ko: "snd_view k = snd_view (n_a n)" "flow_view k = flow_view (n_a n)" "k_snd_una k = k_snd_una (n_a n)" "k_snd_wnd k = k_snd_wnd (n_a n)"
    "k_probe_wait k = k_probe_wait (n_a n)" "k_ts_probe k = k_ts_probe (n_a n)"
    using kf(4) by (simp_all add: update_clock_def Let_def snd_view_def flow_view_def)
  have "(\<exists>x \<in> set (flush_wires k). calls (n_b n) x) \<or> k_snd_buf a1 = [] \<and> k_rmt_wnd a1 \<noteq> 0"
  proof (rule flush_calls [OF kf(1) f kf(2) a1(1)])
    show "probe_due (k_current k) k" using due(3) ko kf(3) by (simp add: probe_due_def flow_view_def)
    fix seg assume "seg \<in> set (k_snd_buf (flushed k))"
    then have "seg_sn seg \<in> seg_sn ` set (k_snd_buf a1)" using flush_sns [OF kf(1,5,2) f] by simp
    then obtain seg' where "seg' \<in> set (k_snd_buf a1)" "seg_sn seg = seg_sn seg'" by auto
    then show "unat (seg_sn seg) < unat (k_rcv_nxt (n_b n)) + 32"
      using snd_log_small(2) [OF a1(2), of seg'] b2(3) sm by (simp add: word_less_nat_alt)
  qed
  then have owe: "owes b2 \<or> k_snd_buf a1 = [] \<and> k_rmt_wnd a1 \<noteq> 0" using b2(4) small by (auto simp: taken_def)
  have q: "k_snd_queue a1 = k_snd_queue (flushed k)" "k_snd_queue k = k_snd_queue (n_a n)"
    using flush_queue [OF f kf(2)] ko(1) by (simp_all add: snd_view_def)
  have fl: "flight_ok k" "idle k = idle (n_a n)" "snd_wf k"
    using inv ko kf(1) by (simp_all add: link_inv2_def flight_ok_def snd_view_def flow_view_def idle_def kcp_wf_def)
  show thesis by (rule that [OF u b2(1,2) owe a1(2-4)]) (use q fl flushed_queue [of k] in simp_all)
qed

text \<open>A receiver that has been read out has no gap before what it holds.\<close>

lemma read_out_caught:
  assumes "rcv_wf b" "settled b" "k_rcv_wnd b = 32" "k_nrcv_que b < 32" "\<forall>sn < nxt. holds b sn"
  shows "nxt \<le> k_rcv_nxt b"
proof (rule ccontr)
  assume "\<not> nxt \<le> k_rcv_nxt b"
  then have "holds b (k_rcv_nxt b)" using assms(5) by simp
  then show False using settled_next [OF assms(1,2)] assms(3,4) by simp
qed

lemma round_out:
  assumes inv: "link_inv2 \<lparr>lk_net = n, lk_back = w\<rparr>" and small: "length (net_log n) < 2147483616"
    and short: "\<forall>msg \<in> set (n_sent n). length (chunks 1376 msg) \<le> 32"
    and due: "snd (update_clock (n_a n) ta)" "all_due ta (n_a n)" "probe_due ta (n_a n)"
    and mem: "granting alloc" "alloc_bounded alloc"
    and few: "length (pending_acks (n_a n)) + length (pending_acks (n_b n)) < 1000000000"
  obtains msgs b1 a1 out b2 msgs' b3 where "recv_all (n_b n) = (msgs, b1)" "ikcp_update (n_a n) ta = Some (a1, out)"
    "deliver_all alloc b1 out = Some b2" "recv_all b2 = (msgs', b3)"
    "link_step\<^sup>*\<^sup>* \<lparr>lk_net = n, lk_back = w\<rparr>
       \<lparr>lk_net = n\<lparr>n_a := a1, n_b := b3, n_wire := n_wire n \<union> set out, n_got := n_got n @ msgs @ msgs'\<rparr>, lk_back = w\<rparr>"
    "k_snd_nxt a1 \<le> k_rcv_nxt b3" "owes b3 \<or> k_snd_buf a1 = [] \<and> k_rmt_wnd a1 \<noteq> 0" "clock_view b3 = clock_view (n_b n)"
    "snd_log (net_log n) a1" "k_cwnd a1 \<noteq> 0" "pending_acks a1 = []" "length (k_snd_queue a1) \<le> length (k_snd_queue (n_a n))"
    "idle (n_a n) \<Longrightarrow> k_snd_queue (n_a n) \<noteq> [] \<Longrightarrow> length (k_snd_queue a1) < length (k_snd_queue (n_a n))"
proof -
  have sm: "length (net_log n) < 2147483648" using small by simp
  obtain msgs b1 where r1: "recv_all (n_b n) = (msgs, b1)" by fastforce
  define n1 where "n1 = n\<lparr>n_b := b1, n_got := n_got n @ msgs\<rparr>"
  have st1: "link_step\<^sup>*\<^sup>* \<lparr>lk_net = n, lk_back = w\<rparr> \<lparr>lk_net = n1, lk_back = w\<rparr>" unfolding n1_def by (rule recv_all_steps [OF r1 refl])
  have inv1: "link_inv2 \<lparr>lk_net = n1, lk_back = w\<rparr>" by (rule link2.run_inv [OF st1 inv])
  have k1: "clock_view b1 = clock_view (n_b n)" "pending_acks b1 = pending_acks (n_b n)" using recv_all_keeps [OF r1] by simp_all
  have room1: "k_nrcv_que (n_b n1) < 32"
    using read_out_net(1) [of n1 w] inv1 sm recv_all_out [OF r1] short by (simp add: n1_def link_inv2_def)
  obtain a1 out b2 where u: "ikcp_update (n_a n1) ta = Some (a1, out)" "deliver_all alloc (n_b n1) out = Some b2"
    and h: "\<forall>sn < k_snd_nxt a1. holds b2 sn" "owes b2 \<or> k_snd_buf a1 = [] \<and> k_rmt_wnd a1 \<noteq> 0"
      "snd_log (net_log n1) a1" "k_cwnd a1 \<noteq> 0" "pending_acks a1 = []" "length (k_snd_queue a1) \<le> length (k_snd_queue (n_a n1))"
      "idle (n_a n1) \<Longrightarrow> k_snd_queue (n_a n1) \<noteq> [] \<Longrightarrow> length (k_snd_queue a1) < length (k_snd_queue (n_a n1))"
    by (rule send_calls [OF inv1 _ room1 _ _ _ mem, of ta]) (use small due few k1 in \<open>simp_all add: n1_def\<close>)
  obtain msgs' b3 where r2: "recv_all b2 = (msgs', b3)" by fastforce
  define n2 n3 n4 where "n2 = n1\<lparr>n_a := a1, n_wire := n_wire n1 \<union> set out\<rparr>" and "n3 = n2\<lparr>n_b := b2\<rparr>"
    and "n4 = n3\<lparr>n_b := b3, n_got := n_got n3 @ msgs'\<rparr>"
  have "link_step \<lparr>lk_net = n1, lk_back = w\<rparr> \<lparr>lk_net = n2, lk_back = w\<rparr>"
    unfolding n2_def by (rule link_step.link_flush [OF u(1)])
  moreover have st3: "link_step\<^sup>*\<^sup>* \<lparr>lk_net = n2, lk_back = w\<rparr> \<lparr>lk_net = n3, lk_back = w\<rparr>"
    unfolding n3_def by (rule deliver_steps [OF mem(2)]) (use u(2) in \<open>auto simp: n2_def\<close>)
  ultimately have st: "link_step\<^sup>*\<^sup>* \<lparr>lk_net = n, lk_back = w\<rparr> \<lparr>lk_net = n3, lk_back = w\<rparr>"
    using st1 by (meson converse_rtranclp_into_rtranclp rtranclp_trans)
  have st4: "link_step\<^sup>*\<^sup>* \<lparr>lk_net = n3, lk_back = w\<rparr> \<lparr>lk_net = n4, lk_back = w\<rparr>"
    unfolding n4_def by (rule recv_all_steps [OF r2]) (simp add: n3_def)
  have n4: "n4 = n\<lparr>n_a := a1, n_b := b3, n_wire := n_wire n \<union> set out, n_got := n_got n @ msgs @ msgs'\<rparr>"
    by (simp add: n4_def n3_def n2_def n1_def)
  have li: "link_inv \<lparr>lk_net = n3, lk_back = w\<rparr>" "link_inv \<lparr>lk_net = n4, lk_back = w\<rparr>"
    using link2.run_inv [OF st inv] link2.run_inv [OF rtranclp_trans [OF st st4] inv] by (simp_all add: link_inv2_def)
  note D4 = link_invD [OF li(2)]
  have le: "rcv_le b2 b3" by (rule recv_all_le [OF r2 li(1)]) (use sm in \<open>simp_all add: n3_def n2_def n1_def\<close>)
  have caught: "k_snd_nxt a1 \<le> k_rcv_nxt b3"
    by (rule read_out_caught) (use D4(1,3,4) sm h(1) le read_out_net(1) [OF li(2)] recv_all_out [OF r2] short in
      \<open>simp_all add: n4 net_inv_def api_inv_def kcp_wf_def rcv_le_def\<close>)
  have keep: "owes b3 \<or> k_snd_buf a1 = [] \<and> k_rmt_wnd a1 \<noteq> 0" "clock_view b3 = clock_view (n_b n)"
    using h(2) recv_all_keeps [OF r2] deliver_clock [OF u(2)] k1(1) by (auto simp: n1_def)
  show thesis
    by (rule that [OF r1 _ _ r2 rtranclp_trans [OF st st4, unfolded n4] caught keep]) (use u h in \<open>simp_all add: n1_def\<close>)
qed

lemma link_round_ok:
  assumes inv: "link_inv2 s" and small: "length (net_log (lk_net s)) < 2147483616"
    and short: "\<forall>msg \<in> set (n_sent (lk_net s)). length (chunks 1376 msg) \<le> 32" and due: "round_due ta tb s"
    and mem: "granting alloc" "alloc_bounded alloc"
    and few: "length (pending_acks (n_a (lk_net s))) + length (pending_acks (n_b (lk_net s))) < 1000000000"
  shows "\<exists>t. link_round alloc ta tb s = Some t \<and> link_step\<^sup>*\<^sup>* s t \<and> round_result s t"
proof -
  define n w where "n = lk_net s" and "w = lk_back s"
  have s: "s = \<lparr>lk_net = n, lk_back = w\<rparr>" by (simp add: n_def w_def)
  obtain msgs b1 a1 out b2 msgs' b3 where r: "recv_all (n_b n) = (msgs, b1)" "ikcp_update (n_a n) ta = Some (a1, out)"
    "deliver_all alloc b1 out = Some b2" "recv_all b2 = (msgs', b3)"
    and st: "link_step\<^sup>*\<^sup>* \<lparr>lk_net = n, lk_back = w\<rparr>
       \<lparr>lk_net = n\<lparr>n_a := a1, n_b := b3, n_wire := n_wire n \<union> set out, n_got := n_got n @ msgs @ msgs'\<rparr>, lk_back = w\<rparr>"
    and h: "k_snd_nxt a1 \<le> k_rcv_nxt b3" "owes b3 \<or> k_snd_buf a1 = [] \<and> k_rmt_wnd a1 \<noteq> 0" "clock_view b3 = clock_view (n_b n)"
    "snd_log (net_log n) a1" "k_cwnd a1 \<noteq> 0" "pending_acks a1 = []" "length (k_snd_queue a1) \<le> length (k_snd_queue (n_a n))"
    "idle (n_a n) \<Longrightarrow> k_snd_queue (n_a n) \<noteq> [] \<Longrightarrow> length (k_snd_queue a1) < length (k_snd_queue (n_a n))"
    by (rule round_out [of n w ta alloc]) (use inv small short due mem few in \<open>simp_all add: s round_due_def\<close>)
  define n4 where "n4 = n\<lparr>n_a := a1, n_b := b3, n_wire := n_wire n \<union> set out, n_got := n_got n @ msgs @ msgs'\<rparr>"
  have i4: "link_inv2 \<lparr>lk_net = n4, lk_back = w\<rparr>" using link2.run_inv [OF st] inv by (simp add: s n4_def)
  then have li4: "link_inv \<lparr>lk_net = n4, lk_back = w\<rparr>" and fb: "flight_ok b3" by (simp_all add: link_inv2_def n4_def)
  note D = link_invD [OF li4]
  have sm: "length (net_log n4) < 2147483648" "length (net_log n) < 2147483648" using small by (simp_all add: n4_def n_def)
  obtain got where rl: "rcv_log (net_log n4) got (n_b n4)" by (rule net_logs [OF D(1) sm(1)])
  have wf: "kcp_wf a1" "kcp_wf b3" "k_output b3" "k_conv b3 = k_conv a1" "k_rcv_wnd b3 = 32" "unat (k_rcv_nxt b3) < 2147483648"
    using D(1-3) sm rcv_log_small(1) [OF rl] by (simp_all add: n4_def net_inv_def api_inv_def)
  have out: "read_out (n_b n4)" using recv_all_out [OF r(4)] by (simp add: n4_def)
  have room: "k_nrcv_que b3 < 32" using read_out_net(1) [OF li4 sm(1) out] short by (simp add: n4_def n_def)
  have tb: "snd (update_clock b3 tb)" using due clock_due [OF h(3)] by (simp add: round_due_def n_def)
  obtain b4 acks a2 where u: "ikcp_update b3 tb = Some (b4, acks)" "deliver_all alloc a1 acks = Some a2"
    and e: "pending_acks b4 = []" "length (pending_acks a2) \<le> 32" "k_snd_nxt a2 = k_snd_nxt a1" "k_snd_queue a2 = k_snd_queue a1"
      "k_cwnd a2 \<noteq> 0" "k_snd_buf a2 = [] \<and> k_rmt_wnd a2 \<noteq> 0"
    using back_half [OF wf(1) h(4) sm(2) h(5,6) wf(2,3) fb tb wf(4) h(1) wf(6) room wf(5) mem] h(2) by metis
  define t where "t = \<lparr>lk_net = n4\<lparr>n_b := b4, n_a := a2\<rparr>, lk_back = w \<union> set acks\<rparr>"
  have "link_step \<lparr>lk_net = n4, lk_back = w\<rparr> \<lparr>lk_net = n4\<lparr>n_b := b4\<rparr>, lk_back = w \<union> set acks\<rparr>"
    by (rule link_step.link_tick) (use u(1) in \<open>simp add: n4_def\<close>)
  moreover have "link_step\<^sup>*\<^sup>* \<lparr>lk_net = n4\<lparr>n_b := b4\<rparr>, lk_back = w \<union> set acks\<rparr> t"
    unfolding t_def using ack_steps [OF mem(2), of "n4\<lparr>n_b := b4\<rparr>" acks a2 "w \<union> set acks"] u(2) by (simp add: n4_def)
  ultimately have "link_step\<^sup>*\<^sup>* s t" using st unfolding s n4_def [symmetric]
    by (meson converse_rtranclp_into_rtranclp rtranclp_trans)
  moreover have "link_round alloc ta tb s = Some t"
    using r u by (simp add: link_round_def s t_def n4_def)
  moreover have "round_result s t"
  proof -
    have "n_got n4 = n_sent n4" if "k_snd_queue a1 = []"
    proof (rule read_out_net(2) [OF li4 sm(1) out])
      have "k_snd_nxt a1 = of_nat (length (net_log n))" using h(4) that by (auto simp: snd_log_def)
      then show "of_nat (length (net_log n4)) \<le> k_rcv_nxt (n_b n4)" using h(1) by (simp add: n4_def)
    qed
    then show ?thesis using e h(7,8) by (simp add: round_result_def Let_def t_def n4_def s idle_def)
  qed
  ultimately show ?thesis by blast
qed

section \<open>Rounds until everything has arrived\<close>

fun link_rounds :: "allocator \<Rightarrow> (u32 \<times> u32) list \<Rightarrow> link_state \<Rightarrow> link_state option" where
  "link_rounds alloc [] s = Some s"
| "link_rounds alloc ((ta, tb) # ts) s =
     (case link_round alloc ta tb s of None \<Rightarrow> None | Some t \<Rightarrow> link_rounds alloc ts t)"

fun rounds_due :: "allocator \<Rightarrow> (u32 \<times> u32) list \<Rightarrow> link_state \<Rightarrow> bool" where
  "rounds_due alloc [] s \<longleftrightarrow> True"
| "rounds_due alloc ((ta, tb) # ts) s \<longleftrightarrow>
     round_due ta tb s \<and> (case link_round alloc ta tb s of None \<Rightarrow> True | Some t \<Rightarrow> rounds_due alloc ts t)"

text \<open>The first round may only clear the way; each of the others shortens the queue.\<close>

definition round_ready :: "link_state \<Rightarrow> bool" where
  "round_ready s \<longleftrightarrow> link_inv2 s \<and> length (net_log (lk_net s)) < 2147483616 \<and>
     (\<forall>msg \<in> set (n_sent (lk_net s)). length (chunks 1376 msg) \<le> 32) \<and>
     length (pending_acks (n_a (lk_net s))) + length (pending_acks (n_b (lk_net s))) < 1000000000"

lemma round_ready_round:
  assumes "round_ready s" "round_due ta tb s" "granting alloc" "alloc_bounded alloc"
  obtains t where "link_round alloc ta tb s = Some t" "round_result s t" "round_ready t"
proof -
  obtain t where t: "link_round alloc ta tb s = Some t" "link_step\<^sup>*\<^sup>* s t" "round_result s t"
    using link_round_ok [OF _ _ _ assms(2-4)] assms(1) unfolding round_ready_def by blast
  have "link_inv2 t" using link2.run_inv [OF t(2)] assms(1) by (simp add: round_ready_def)
  then have "round_ready t" using t(3) assms(1) by (simp add: round_ready_def round_result_def Let_def net_log_def)
  with t(1,3) that show thesis by blast
qed

lemma link_rounds_ok:
  assumes "granting alloc" "alloc_bounded alloc" "round_ready s" "rounds_due alloc ts s"
  shows "\<exists>t. link_rounds alloc ts s = Some t \<and> n_sent (lk_net t) = n_sent (lk_net s) \<and>
    (idle (n_a (lk_net s)) \<longrightarrow> length (k_snd_queue (n_a (lk_net t))) \<le> length (k_snd_queue (n_a (lk_net s))) - length ts) \<and>
    length (k_snd_queue (n_a (lk_net t))) \<le> length (k_snd_queue (n_a (lk_net s))) - (length ts - 1) \<and>
    (ts \<noteq> [] \<longrightarrow> k_snd_buf (n_a (lk_net t)) = [] \<and> (k_snd_queue (n_a (lk_net t)) = [] \<longrightarrow> n_got (lk_net t) = n_sent (lk_net t)))"
  using assms(3,4)
proof (induction ts arbitrary: s)
  case (Cons x ts)
  obtain ta tb where x: "x = (ta, tb)" by fastforce
  then have due: "round_due ta tb s" using Cons.prems(2) by simp
  obtain s1 where s1: "link_round alloc ta tb s = Some s1" "round_result s s1" "round_ready s1"
    by (rule round_ready_round [OF Cons.prems(1) due assms(1,2)])
  note r = s1(2) [unfolded round_result_def Let_def]
  have "rounds_due alloc ts s1" using Cons.prems(2) s1(1) x by simp
  then obtain t where t: "link_rounds alloc ts s1 = Some t" "n_sent (lk_net t) = n_sent (lk_net s1)"
    "length (k_snd_queue (n_a (lk_net t))) \<le> length (k_snd_queue (n_a (lk_net s1))) - length ts"
    "ts \<noteq> [] \<Longrightarrow> k_snd_buf (n_a (lk_net t)) = [] \<and> (k_snd_queue (n_a (lk_net t)) = [] \<longrightarrow> n_got (lk_net t) = n_sent (lk_net t))"
    using Cons.IH [OF s1(3)] r by auto
  have q: "idle (n_a (lk_net s)) \<longrightarrow> length (k_snd_queue (n_a (lk_net s1))) \<le> length (k_snd_queue (n_a (lk_net s))) - 1"
    "length (k_snd_queue (n_a (lk_net s1))) \<le> length (k_snd_queue (n_a (lk_net s)))"
    using r by (cases "k_snd_queue (n_a (lk_net s))"; auto)+
  have last: "k_snd_buf (n_a (lk_net t)) = [] \<and> (k_snd_queue (n_a (lk_net t)) = [] \<longrightarrow> n_got (lk_net t) = n_sent (lk_net t))"
    using t(1,4) r by (cases "ts = []") (auto simp: idle_def)
  show ?case using t(1-3) s1(1) r q last by (auto simp: x)
qed simp

lemma rounds_deliver:
  assumes "granting alloc" "alloc_bounded alloc" "round_ready s" "rounds_due alloc ts s"
    and "length (k_snd_queue (n_a (lk_net s))) < length ts"
  shows "\<exists>t. link_rounds alloc ts s = Some t \<and> n_got (lk_net t) = n_sent (lk_net s) \<and>
    k_snd_queue (n_a (lk_net t)) = [] \<and> k_snd_buf (n_a (lk_net t)) = []"
  using link_rounds_ok [OF assms(1-4)] assms(5) by fastforce

lemma reachable_ready:
  assumes "link_init s\<^sub>0" "link_step\<^sup>*\<^sup>* s\<^sub>0 s" "length (net_log (lk_net s)) < 2147483616"
    and "\<forall>msg \<in> set (n_sent (lk_net s)). length msg \<le> 44032"
    and "length (pending_acks (n_a (lk_net s))) + length (pending_acks (n_b (lk_net s))) < 1000000000"
  shows "round_ready s"
proof -
  have "length (chunks 1376 msg) \<le> 32" if "length msg \<le> 44032" for msg :: bytes
    using that div_le_mono [of "1375 + length msg" 45407 1376] by (simp add: chunks_count)
  then show ?thesis using link2.reachable_inv [OF assms(1,2)] assms(3-5) by (simp add: round_ready_def)
qed

text \<open>Once nothing is in flight there is always a time at which a round is due: when both flush timers have expired.\<close>

lemma idle_round_due:
  "idle (n_a (lk_net s)) \<Longrightarrow> round_due (k_ts_flush (n_a (lk_net s))) (k_ts_flush (n_b (lk_net s))) s"
  by (simp add: round_due_def idle_def all_due_def probe_due_def update_clock_def Let_def itimediff_def)

lemma rounds_due_exist:
  assumes "granting alloc" "alloc_bounded alloc" "round_ready s" "round_due ta tb s"
  shows "\<exists>ts. length ts = k \<and> rounds_due alloc ((ta, tb) # ts) s"
  using assms(3,4)
proof (induction k arbitrary: s ta tb)
  case 0
  obtain t where "link_round alloc ta tb s = Some t" by (rule round_ready_round [OF "0" assms(1,2)])
  then show ?case using 0(2) by simp
next
  case (Suc k)
  obtain t where t: "link_round alloc ta tb s = Some t" "round_result s t" "round_ready t"
    by (rule round_ready_round [OF Suc.prems assms(1,2)])
  then have "idle (n_a (lk_net t))" by (simp add: round_result_def Let_def)
  then obtain ts where "length ts = k"
    "rounds_due alloc ((k_ts_flush (n_a (lk_net t)), k_ts_flush (n_b (lk_net t))) # ts) t"
    using Suc.IH [OF t(3) idle_round_due] by blast
  then show ?case using t(1) Suc.prems(2)
    by (intro exI [of _ "(k_ts_flush (n_a (lk_net t)), k_ts_flush (n_b (lk_net t))) # ts"]) simp
qed

end
