(* ===== verification/Delivery_Properties.thy ===== *)
theory Delivery_Properties
  imports Kcp_Rounds Kcp_Properties
begin

text \<open>
  The properties of a conversation as a whole, over the two-way network of theory \<open>Kcp_Link\<close>: what a flush puts on
  the wire, that the sender forgets nothing the receiver does not have, that one round repairs every loss, and that
  some rounds later everything has arrived; and two limits of the engine: messages longer than the receive window and
  an \<open>mtu\<close> lowered too late.
\<close>

section \<open>A sample run with a loss\<close>

text \<open>The run of \<open>Kcp_Properties\<close> up to the datagram \<open>demo_d\<close>, which is then lost.\<close>

definition demo_link0 :: link_state where "demo_link0 = \<lparr>lk_net = demo_net0, lk_back = {}\<rparr>"

definition demo_link :: link_state where
  "demo_link = \<lparr>lk_net = \<lparr>n_a = demo_a3, n_b = demo_kcp, n_wire = {demo_d}, n_sent = [demo_msg], n_got = []\<rparr>, lk_back = {}\<rparr>"

definition demo_grant :: allocator where "demo_grant i n \<longleftrightarrow> n < 17179869184"

lemma demo_granting: "granting demo_grant" "alloc_bounded demo_grant"
  by (simp_all add: granting_def alloc_bounded_def demo_grant_def)

lemma demo_link_init: "link_init demo_link0"
  using demo_fresh by (auto simp: link_init_def net_init_def demo_link0_def demo_net0_def ready_kcp_def)

lemma demo_link_run: "link_step\<^sup>*\<^sup>* demo_link0 demo_link"
proof -
  let ?n1 = "\<lparr>n_a = demo_a1, n_b = demo_kcp, n_wire = {}, n_sent = [demo_msg], n_got = []\<rparr>"
  let ?n2 = "?n1\<lparr>n_a := demo_a2\<rparr>"
  have "link_step demo_link0 \<lparr>lk_net = ?n1, lk_back = {}\<rparr>"
    using link_send [OF demo_bounded, of demo_net0 demo_msg 0 demo_a1 "{}"] demo_send
    by (simp add: demo_link0_def demo_net0_def demo_msg_def)
  moreover have "link_step \<lparr>lk_net = ?n1, lk_back = {}\<rparr> \<lparr>lk_net = ?n2, lk_back = {}\<rparr>"
    using link_flush [of ?n1 0 demo_a2 "[]" "{}"] demo_tick by simp
  moreover have "link_step \<lparr>lk_net = ?n2, lk_back = {}\<rparr> demo_link"
    using link_flush [of ?n2 100 demo_a3 "[demo_d]" "{}"] demo_flush by (simp add: demo_link_def)
  ultimately show ?thesis by (meson converse_rtranclp_into_rtranclp rtranclp.rtrancl_refl)
qed

lemma demo_facts:
  "k_rcv_queue demo_kcp = [] \<and> snd (update_clock demo_a3 10000) \<and> all_due 10000 demo_a3 \<and> k_rmt_wnd demo_a3 = 32 \<and>
   snd (update_clock demo_kcp 10000) \<and> k_ackcount demo_a3 = 0 \<and> k_ackcount demo_kcp = 0 \<and> length (k_snd_queue demo_a3) = 0"
  by code_simp

section \<open>Properties\<close>

text \<open>C17: What a flush sends. The datagrams that \<open>ikcp_flush\<close> hands to the output callback are a cut, between whole
  segments, of exactly this list and in this order: one acknowledgement for every entry of the acknowledgement
  array, the window probe and the window announcement if they are pending, and every buffered segment that is new,
  has timed out or was skipped; the other segments of the send buffer are left as they are.\<close>

theorem flush_sends_exactly:
  assumes "kcp_wf kcp" "k_output kcp" "k_updated kcp \<noteq> 0"
  shows "\<exists>kcp' hss. ikcp_flush kcp = Some (kcp', map segs_bytes hss) \<and> concat hss = flush_wires kcp \<and>
    k_snd_buf kcp' = map (\<lambda>seg. if why_send (k_current kcp) (flush_resent (flushed kcp)) seg = Quiet then seg
      else emitted (flushed kcp) (ikcp_wnd_unused kcp) seg) (k_snd_buf (flushed kcp))"
proof -
  obtain kcp' sent where f: "ikcp_flush kcp = Some (kcp', sent)" using flush_ok [OF assms] by blast
  then show ?thesis using flush_emits [OF assms(1) f assms(3)] by blast
qed

theorem flush_sends_exactly_witness: "\<exists>hss. snd (the (ikcp_flush demo_a3)) = map segs_bytes hss \<and> concat hss = flush_wires demo_a3"
proof -
  have inv: "kcp_wf demo_a3" "k_output demo_a3" using demo_reach by (simp_all add: api_inv_def)
  have "k_updated demo_a3 = 1" by code_simp
  then have "k_updated demo_a3 \<noteq> 0" by simp
  from flush_sends_exactly [OF inv this] show ?thesis by auto
qed

text \<open>C3: Nothing is forgotten too early. Whatever the network does to the datagrams of either side, at every moment
  each segment the sender has ever put on the wire is either still in its send buffer, or the receiver has
  it, passed on or waiting in its receive buffer; as long as fewer than $2^{31}$ fragments were sent.\<close>

theorem sender_keeps_unreceived:
  assumes "link_init s" "link_step\<^sup>*\<^sup>* s t" "length (net_log (lk_net t)) < 2147483648" "sn < k_snd_nxt (n_a (lk_net t))"
  shows "sn \<in> seg_sn ` set (k_snd_buf (n_a (lk_net t))) \<or> holds (n_b (lk_net t)) sn"
  using link.reachable_inv [OF assms(1,2)] assms(3,4) by (simp add: link_inv_def Let_def acked_held_def)

theorem sender_keeps_unreceived_witness: "0 \<in> seg_sn ` set (k_snd_buf demo_a3) \<or> holds demo_kcp 0"
proof -
  have "0 \<in> seg_sn ` set (k_snd_buf (n_a (lk_net demo_link))) \<or> holds (n_b (lk_net demo_link)) 0"
  proof (rule sender_keeps_unreceived [OF demo_link_init demo_link_run])
    show "length (net_log (lk_net demo_link)) < 2147483648"
      by (simp add: demo_link_def net_log_def msg_log_def demo_msg_def chunks_small)
    show "0 < k_snd_nxt (n_a (lk_net demo_link))" by code_simp
  qed
  then show ?thesis by (simp add: demo_link_def)
qed

text \<open>One round repairs every loss. Take any state the two control blocks can reach, whatever datagrams were lost,
  repeated or reordered on the way there in both directions. Once the reader has taken what was complete, every
  segment in flight has timed out and the clock of the sender is due, one \<open>ikcp_update\<close> of the sender returns, and when
  its datagrams arrive the receiver takes them all and then has every segment the sender has ever put on the
  wire. If that update has emptied the send queue, \<open>ikcp_recv\<close> now returns, one after the other, exactly the
  messages that were accepted by \<open>ikcp_send\<close> and not yet returned.\<close>

theorem losses_repaired:
  assumes "link_init s\<^sub>0" "link_step\<^sup>*\<^sup>* s\<^sub>0 s" and s: "lk_net s = n" "n_a n = a" "n_b n = b"
    and "length (net_log n) < 2147483648" "k_rcv_queue b = []" "snd (update_clock a current)" "all_due current a"
    and "granting alloc" "alloc_bounded alloc" "length (pending_acks a) + length (pending_acks b) < 1000000000"
  shows "\<exists>a' out b'. ikcp_update a current = Some (a', out) \<and> deliver_all alloc b out = Some b' \<and>
    k_snd_nxt a' \<le> k_rcv_nxt b' \<and>
    (k_snd_queue a' = [] \<longrightarrow> n_got n @ recv_msgs (length (n_sent n) - length (n_got n)) b' = n_sent n)"
proof -
  have inv: "link_inv2 \<lparr>lk_net = n, lk_back = lk_back s\<rparr>" using link2.reachable_inv [OF assms(1,2)] s(1) by (cases s) simp
  then have li: "link_inv \<lparr>lk_net = n, lk_back = lk_back s\<rparr>" by (simp add: link_inv2_def)
  note D = link_invD [OF li]
  have wf: "rcv_wf b" "\<forall>msg \<in> set (n_sent n). msg_ok 1376 msg" using D(1) s by (simp_all add: net_inv_def api_inv_def kcp_wf_def)
  obtain m where m: "snd_log (net_log n) a" "m \<le> length (n_sent n)" "n_got n = take m (n_sent n)"
    "rcv_log (net_log n) (msg_log 1376 (take m (n_sent n))) b"
    using D(1) assms(6) s unfolding net_inv_def by auto
  have empty: "k_nrcv_que (n_b n) < 32" using wf(1) assms(7) s(3) by (simp add: rcv_wf_def word_less_nat_alt)
  have rlog: "rcv_log (net_log n) (msg_log 1376 (take m (n_sent n))) (n_b n)" using m(4) s(3) by simp
  obtain k a' out b' where u: "ikcp_update (n_a n) current = Some (a', out)"
    and b': "deliver_all alloc (n_b n) out = Some b'" "kcp_wf b'" "rcv_prog (n_b n) b'" "\<forall>sn < k_snd_nxt a'. holds b' sn"
      "unat (k_snd_nxt a') \<le> unat (k_rcv_nxt (n_b n)) + 32" "taken (net_log n) (msg_log 1376 (take m (n_sent n))) (n_b n) (flush_wires k) b'"
    and slog: "snd_log (net_log n) a'"
    by (rule send_half [OF inv assms(6) empty _ _ assms(10,11) _ rlog, of current]) (use assms(8,9,12) s in simp_all)
  have small: "unat (k_rcv_nxt b) < 2147483648" using rcv_log_small(1) [OF m(4) assms(6)] assms(6) by simp
  have up: "k_snd_nxt a' \<le> k_rcv_nxt b'"
    using caught_up [OF wf(1) _ _ assms(7) small _ _ b'(4)] D(3,4) [OF assms(6)] b'(2,3,5) s by (simp add: kcp_wf_def)
  have rl: "rcv_log (net_log n) (msg_log 1376 (take m (n_sent n))) b'" using b'(6) by (simp add: taken_def)
  have "n_got n @ recv_msgs (length (n_sent n) - length (n_got n)) b' = n_sent n" if "k_snd_queue a' = []"
  proof -
    have "k_snd_nxt a' = of_nat (length (net_log n))" using slog that by (auto simp: snd_log_def)
    then have "recv_msgs (length (n_sent n) - m) b' = drop m (n_sent n)"
      using recv_rest [of 1376 "n_sent n" b' m] wf(2) b'(2) rl assms(6) m(2) up by (simp add: net_log_def kcp_wf_def)
    then show ?thesis using m(2,3) by simp
  qed
  then show ?thesis using u b'(1) up s by blast
qed

theorem losses_repaired_witness:
  "\<exists>a' out b'. ikcp_update demo_a3 10000 = Some (a', out) \<and> deliver_all demo_grant demo_kcp out = Some b' \<and>
     recv_msgs 1 b' = [demo_msg]"
proof -
  let ?n = "lk_net demo_link"
  have small: "length (net_log ?n) < 2147483648"
    by (simp add: demo_link_def net_log_def msg_log_def demo_msg_def chunks_small)
  have n: "n_a ?n = demo_a3" "n_b ?n = demo_kcp" "n_sent ?n = [demo_msg]" "n_got ?n = []" by (simp_all add: demo_link_def)
  have c: "k_rcv_queue demo_kcp = []" "snd (update_clock demo_a3 10000)" "all_due 10000 demo_a3"
    "k_ackcount demo_a3 = 0" "k_ackcount demo_kcp = 0" using demo_facts by simp_all
  then have few: "length (pending_acks demo_a3) + length (pending_acks demo_kcp) < 1000000000" by (simp add: pending_acks_def)
  have "map_option (\<lambda>x. k_snd_queue (fst x)) (ikcp_update demo_a3 10000) = Some []" by code_simp
  then show ?thesis
    using losses_repaired [OF demo_link_init demo_link_run refl n(1,2) small c(1-3) demo_granting few] n(3,4) by auto
qed

text \<open>C2: Everything arrives. Take any state the two control blocks can reach, whatever datagrams were lost, repeated or
  reordered on the way there in both directions, and let the network do its job from then on: in each round the
  datagrams of one \<open>ikcp_update\<close> of the sender and one of the receiver arrive, and the reader takes what it can. Then
  all calls return, and after at most one round more than there are segments in the send queue \<open>ikcp_recv\<close> has
  returned every message that \<open>ikcp_send\<close> accepted, in order and once, and the sender has nothing left. A round waits
  until what is in flight has timed out and, if the peer's window was closed, until the window may be probed.
  Messages have at most 32 fragments, the size of the receive window.\<close>

theorem all_delivered:
  assumes "link_init s\<^sub>0" "link_step\<^sup>*\<^sup>* s\<^sub>0 s" "length (net_log (lk_net s)) < 2147483616"
    and "\<forall>msg \<in> set (n_sent (lk_net s)). length msg \<le> 44032" "granting alloc" "alloc_bounded alloc"
    and "length (pending_acks (n_a (lk_net s))) + length (pending_acks (n_b (lk_net s))) < 1000000000"
    and "rounds_due alloc ts s" "length (k_snd_queue (n_a (lk_net s))) < length ts"
  shows "\<exists>t. link_rounds alloc ts s = Some t \<and> n_got (lk_net t) = n_sent (lk_net s) \<and>
    k_snd_queue (n_a (lk_net t)) = [] \<and> k_snd_buf (n_a (lk_net t)) = []"
  using rounds_deliver [OF assms(5,6) reachable_ready [OF assms(1-4,7)] assms(8,9)] .

theorem all_delivered_witness:
  "\<exists>t. link_rounds demo_grant [(10000, 10000)] demo_link = Some t \<and> n_got (lk_net t) = [demo_msg]"
proof -
  have small: "length (net_log (lk_net demo_link)) < 2147483616"
    by (simp add: demo_link_def net_log_def msg_log_def demo_msg_def chunks_small)
  have short: "\<forall>msg \<in> set (n_sent (lk_net demo_link)). length msg \<le> 44032" by (simp add: demo_link_def demo_msg_def)
  have due: "rounds_due demo_grant [(10000, 10000)] demo_link"
    using demo_facts by (simp add: round_due_def probe_due_def demo_link_def split: option.split)
  show ?thesis
    using all_delivered [OF demo_link_init demo_link_run small short demo_granting _ due] demo_facts
    by (auto simp: demo_link_def pending_acks_def)
qed

section \<open>What the engine does not do\<close>

text \<open>C37: A message of more than 44032 bytes, 32 full fragments, blocks the conversation: with the default windows, which no
  call in the repository changes, in no state that the sender, the receiver and the network can reach has \<open>ikcp_recv\<close>
  returned that message or any message accepted after it, although \<open>ikcp_send\<close> accepts messages of up to 255 fragments.
  As in the first property fewer than $2^{32}$ fragments were sent.\<close>

theorem oversized_message_blocks:
  assumes "net_init s" "net_step\<^sup>*\<^sup>* s t" "length (net_log t) < 4294967296"
    and "i < length (n_sent t)" "44032 < length (n_sent t ! i)"
  shows "length (n_got t) \<le> i"
  by (rule oversized_blocks [OF assms])

theorem oversized_message_blocks_witness:
  "\<exists>t. net_step\<^sup>*\<^sup>* demo_net0 t \<and> n_sent t = [replicate 44033 1] \<and> length (n_got t) \<le> 0"
proof -
  let ?msg = "replicate 44033 1 :: bytes"
  have m: "unat (k_mss demo_kcp) = 1376" using fresh_fields(1) [OF demo_fresh] by simp
  have c: "length (chunks 1376 ?msg) = 33" by (simp add: chunks_count)
  obtain a where a: "ikcp_send demo_grant demo_kcp (Some ?msg) (of_nat (length ?msg)) = Some (0, a)"
    using send_ok [of demo_kcp ?msg "\<lambda>i n. True"] m c unfolding send_granted [OF demo_granting(1)] by simp
  let ?t = "demo_net0\<lparr>n_a := a, n_sent := [?msg]\<rparr>"
  have "net_step demo_net0 ?t"
    using net_send [OF demo_granting(2), of demo_net0 ?msg 0 a] a by (simp add: demo_net0_def)
  then have run: "net_step\<^sup>*\<^sup>* demo_net0 ?t" by simp
  have "length (n_got ?t) \<le> 0"
    by (rule oversized_message_blocks [OF _ run])
      (use demo_fresh c in \<open>auto simp: net_init_def demo_net0_def ready_kcp_def net_log_def msg_log_def\<close>)
  then show ?thesis using run by (intro exI [of _ ?t]) simp
qed

text \<open>C40: Lowering the \<open>mtu\<close> while longer segments wait overruns the output buffer. \<open>ikcp_setmtu\<close> leaves a buffer of three
  times the \<open>mtu\<close> and 72 bytes more; when a segment that the next flush has to send needs more than that with its header of
  24 bytes, the flush writes behind the buffer (the model's \<open>None\<close>). A message of 300 bytes and an \<open>mtu\<close> of 50 are an
  example.\<close>

theorem setmtu_overruns:
  assumes "kcp_wf kcp" "ikcp_setmtu alloc kcp mtu = (0, k)" "k_updated k \<noteq> 0"
    and "seg \<in> set (due_segs (flushed k))" "3 * (unat mtu + 24) < 24 + unat (seg_len seg)"
  shows "ikcp_flush k = None"
proof (rule flush_overrun [OF _ assms(3,4)])
  have k: "k = kcp\<lparr>k_mtu := mtu, k_mss := mtu - IKCP_OVERHEAD, k_buffer := unat ((mtu + IKCP_OVERHEAD) * 3)\<rparr>"
    using assms(2) by (auto simp: ikcp_setmtu_def Let_def split: if_splits)
  show "ack_wf k" using assms(1) by (simp add: k kcp_wf_def ack_wf_def)
  have "unat (x * 3 :: u32) \<le> unat x * 3" for x by (simp add: unat_word_ariths)
  then have "unat ((mtu + IKCP_OVERHEAD) * 3) \<le> unat (mtu + IKCP_OVERHEAD) * 3" .
  moreover have "unat (mtu + IKCP_OVERHEAD) \<le> unat mtu + 24" by (simp add: unat_word_ariths IKCP_OVERHEAD_def)
  ultimately show "k_buffer k < 24 + unat (seg_len seg)" using assms(5) by (simp add: k)
qed

definition long_k1 :: IKCPCB where
  "long_k1 = snd (the (ikcp_send demo_alloc demo_kcp (Some (replicate 300 1)) (of_nat (length (replicate 300 (1 :: byte))))))"

definition long_k2 :: IKCPCB where "long_k2 = fst (the (ikcp_update long_k1 0))"

lemma long_wf: "kcp_wf long_k2"
proof -
  have "ikcp_send demo_alloc demo_kcp (Some (replicate 300 1)) (of_nat (length (replicate 300 (1 :: byte)))) \<noteq> None"
    "ikcp_update long_k1 0 \<noteq> None" by code_simp+
  then obtain r sent where r: "ikcp_send demo_alloc demo_kcp (Some (replicate 300 1)) (of_nat (length (replicate 300 (1 :: byte)))) = Some (r, long_k1)"
    "ikcp_update long_k1 0 = Some (long_k2, sent)"
    unfolding long_k1_def long_k2_def by (metis option.collapse prod.collapse)
  have "api_step demo_kcp long_k1" by (rule api_send_msg [OF demo_bounded r(1)]) simp
  then have "api_inv long_k2" using api_step_inv [OF api_step_inv [OF fresh_inv [OF demo_fresh]] api_update [OF r(2)]] by blast
  then show ?thesis by (simp add: api_inv_def)
qed

theorem setmtu_overruns_witness: "ikcp_flush (snd (ikcp_setmtu demo_alloc long_k2 50)) = None"
proof -
  let ?k = "snd (ikcp_setmtu demo_alloc long_k2 50)"
  have "fst (ikcp_setmtu demo_alloc long_k2 50) = 0" by code_simp
  then have s: "ikcp_setmtu demo_alloc long_k2 50 = (0, ?k)" by (metis prod.collapse)
  have u: "k_updated ?k \<noteq> 0" by code_simp
  have "map seg_len (due_segs (flushed ?k)) = [300]" by code_simp
  then obtain seg where seg: "due_segs (flushed ?k) = [seg]" "seg_len seg = 300" by auto
  show ?thesis by (rule setmtu_overruns [OF long_wf s u, of seg]) (simp_all add: seg)
qed

end
