(* ===== verification/C_Lib.thy ===== *)
theory C_Lib
  imports Kcp_Prelude
begin

text \<open>
  The parts of the C library that the C++ sources call on text: decimal printing (\<open>%u\<close> of
  \<open>snprintf\<close>, \<open>std::to_string\<close>), reading a number (\<open>atol\<close>), character classes in the "C" locale,
  \<open>memcmp\<close> with zero, and fixed-size character arrays. A \<open>char\<close> array and a \<open>std::string\<close> are lists
  of bytes. Reading past the memory that is known to exist is the result \<^const>\<open>None\<close>.
\<close>

section \<open>Characters\<close>

definition ascii :: "string \<Rightarrow> bytes" where
  "ascii s = map of_char s"

definition isdigit :: "byte \<Rightarrow> bool" where
  "isdigit c \<longleftrightarrow> 48 \<le> c \<and> c \<le> 57"

definition isspace :: "byte \<Rightarrow> bool" where
  "isspace c \<longleftrightarrow> c = 32 \<or> 9 \<le> c \<and> c \<le> 13"

definition tolower :: "byte \<Rightarrow> byte" where
  "tolower c = (if 65 \<le> c \<and> c \<le> 90 then c + 32 else c)"

text \<open>A \<open>char\<close> is signed on the platform of the sources.\<close>

definition char_value :: "byte \<Rightarrow> int" where
  "char_value c = sint c"

text \<open>\<open>memcmp(p, q, n) == 0\<close>, where \<open>p\<close> and \<open>q\<close> hold at least \<open>n\<close> bytes.\<close>

definition mem_equal :: "bytes \<Rightarrow> bytes \<Rightarrow> nat \<Rightarrow> bool" where
  "mem_equal p q n \<longleftrightarrow> take n p = take n q"

text \<open>The bytes of a C string up to its terminator.\<close>

definition c_str :: "bytes \<Rightarrow> bytes" where
  "c_str m = takeWhile (\<lambda>c. c \<noteq> 0) m"

section \<open>Decimal numbers\<close>

definition digit_char :: "nat \<Rightarrow> byte" where
  "digit_char d = of_nat (48 + d)"

fun print_nat :: "nat \<Rightarrow> bytes" where
  "print_nat n = (if n < 10 then [digit_char n] else print_nat (n div 10) @ [digit_char (n mod 10)])"

declare print_nat.simps [simp del]

definition print_u32 :: "u32 \<Rightarrow> bytes" where
  "print_u32 w = print_nat (unat w)"

text \<open>The digits from the start of \<open>m\<close>, up to the first byte that is no digit.\<close>

fun read_digits :: "nat \<Rightarrow> bytes \<Rightarrow> nat option" where
  "read_digits acc [] = None"
| "read_digits acc (c # m) =
     (if isdigit c then read_digits (acc * 10 + (unat c - 48)) m else Some acc)"

definition clamp_long :: "int \<Rightarrow> int" where
  "clamp_long v = max (- 9223372036854775808) (min 9223372036854775807 v)"

definition atol :: "bytes \<Rightarrow> int option" where
  "atol m =
     (case dropWhile isspace m of
        [] \<Rightarrow> None
      | c # m' \<Rightarrow>
          if c = 45 then map_option (\<lambda>v. clamp_long (- int v)) (read_digits 0 m')
          else map_option (\<lambda>v. clamp_long (int v)) (read_digits 0 (if c = 43 then m' else c # m')))"

section \<open>Character arrays\<close>

text \<open>\<open>char buf[n] = ""\<close> followed by \<open>snprintf(buf, n, ...)\<close> with output \<open>s\<close>: the array and the value
  returned, which is the length of the whole output even when it was cut.\<close>

definition snprintf_buf :: "nat \<Rightarrow> bytes \<Rightarrow> bytes \<times> nat" where
  "snprintf_buf n s = (take n (take (n - 1) s @ replicate n 0), length s)"

text \<open>\<open>std::string(buf, k)\<close>: a copy of \<open>k\<close> bytes.\<close>

definition string_of_buf :: "bytes \<Rightarrow> nat \<Rightarrow> bytes option" where
  "string_of_buf buf k = (if k \<le> length buf then Some (take k buf) else None)"

lemma mem_equal_nth: "mem_equal p q n \<Longrightarrow> i < n \<Longrightarrow> p ! i = q ! i"
  by (metis mem_equal_def nth_take)

lemma mem_equal_take: "mem_equal p q n \<Longrightarrow> k \<le> n \<Longrightarrow> take k p = take k q"
  by (metis mem_equal_def min.absorb1 take_take)

lemma c_str_terminated: "0 \<notin> set s \<Longrightarrow> c_str (s @ 0 # m) = s"
  unfolding c_str_def by (induction s) auto

section \<open>Printing and reading agree\<close>

lemma unat_digit_char: "d < 10 \<Longrightarrow> unat (digit_char d) = 48 + d"
  by (simp add: digit_char_def unat_of_nat take_bit_eq_mod del: of_nat_add)

lemma isdigit_digit_char [simp]: "d < 10 \<Longrightarrow> isdigit (digit_char d)"
  using unat_digit_char [of d] by (simp add: isdigit_def word_le_nat_alt)

lemma print_nat_digits: "list_all isdigit (print_nat n)"
  by (induction n rule: print_nat.induct) (subst print_nat.simps, simp)

lemma print_nat_not_Nil [simp]: "print_nat n \<noteq> []"
  by (subst print_nat.simps) simp

lemma read_digits_step: "d < 10 \<Longrightarrow> read_digits acc (digit_char d # m) = read_digits (acc * 10 + d) m"
  by (simp add: unat_digit_char)

lemma read_print_nat: "read_digits 0 (print_nat n @ m) = read_digits n m"
proof (induction n arbitrary: m rule: print_nat.induct)
  case (1 n)
  show ?case
  proof (cases "n < 10")
    case True
    then show ?thesis by (subst print_nat.simps) (simp add: unat_digit_char)
  next
    case False
    then have "read_digits 0 (print_nat n @ m) = read_digits (n div 10) (digit_char (n mod 10) # m)"
      using 1 by (subst print_nat.simps) (simp del: read_digits.simps)
    also have "\<dots> = read_digits (n div 10 * 10 + n mod 10) m" by (simp add: read_digits_step del: read_digits.simps)
    finally show ?thesis by simp
  qed
qed

lemma digit_not_space: "isdigit c \<Longrightarrow> \<not> isspace c \<and> c \<noteq> 45 \<and> c \<noteq> 43"
  by (auto simp: isdigit_def isspace_def word_le_nat_alt)

lemma print_nat_head: "\<exists>c cs. print_nat n = c # cs \<and> isdigit c"
  using print_nat_digits [of n] print_nat_not_Nil [of n] by (cases "print_nat n") auto

lemma atol_print_nat:
  assumes "n < 9223372036854775808" "\<not> isdigit c"
  shows "atol (print_nat n @ c # m) = Some (int n)"
proof -
  obtain d ds where d: "print_nat n = d # ds" "isdigit d" using print_nat_head by blast
  have "read_digits 0 (print_nat n @ c # m) = Some n" using assms(2) by (simp add: read_print_nat)
  then show ?thesis using d digit_not_space [OF d(2)] assms(1)
    by (simp add: atol_def clamp_long_def del: read_digits.simps)
qed

lemma print_nat_length_aux: "n < 10 ^ Suc k \<Longrightarrow> length (print_nat n) \<le> Suc k"
proof (induction k arbitrary: n)
  case 0
  then show ?case by (subst print_nat.simps) simp
next
  case (Suc k)
  then have "n div 10 < 10 ^ Suc k" by (simp add: less_mult_imp_div_less)
  then show ?case using Suc.IH by (subst print_nat.simps) simp
qed

lemma print_u32_length: "length (print_u32 w) \<le> 10"
proof -
  have "unat w < 10 ^ Suc 9" using unat32_less [of w] by (rule less_trans) simp
  from print_nat_length_aux [OF this] show ?thesis by (simp add: print_u32_def)
qed

lemma print_u32_nonempty: "0 < length (print_u32 w)"
  by (simp add: print_u32_def)

lemma snprintf_fits:
  assumes "length s < n"
  shows "string_of_buf (fst (snprintf_buf n s)) (snd (snprintf_buf n s)) = Some s"
proof -
  have "take n (take (n - 1) s @ replicate n 0) = s @ replicate (n - length s) 0"
    using assms by (simp add: min_def)
  then show ?thesis using assms by (simp add: snprintf_buf_def string_of_buf_def)
qed

lemma length_ascii [simp]: "length (ascii s) = length s"
  by (simp add: ascii_def)

end
