(* ===== verification/Check_Function.thy ===== *)
theory Check_Function
  imports C_Lib
begin

text \<open>
  Failures of the C++ components and \<open>src/essential/_src/check_function.cpp\<close>, whose \<open>assert_check\<close>
  throws. A handler's result is a sum: \<open>Inl\<close> the way it failed, \<open>Inr\<close> the state it left.
\<close>

datatype failure =
    Aborted  \<comment> \<open>a failed \<open>assert\<close> or undefined behaviour: a null pointer, an overrun\<close>
  | AssertException bytes  \<comment> \<open>thrown by \<open>assert_check\<close>, with the text it keeps\<close>
  | SystemError  \<comment> \<open>thrown by a socket operation\<close>
  | BadFunctionCall  \<comment> \<open>an empty \<open>std::function\<close> was called\<close>
  | OutOfRange  \<comment> \<open>thrown by \<open>std::string\<close> for a position past its end, by \<open>std::stoi\<close> for a number no \<open>int\<close> holds\<close>
  | InvalidArgument  \<comment> \<open>thrown by \<open>std::stoi\<close> for a text without a number\<close>
  | LengthError  \<comment> \<open>thrown by \<open>std::string::reserve\<close> for more than can be had\<close>

type_synonym 'a outcome = "failure + 'a"

definition bindE :: "'a outcome \<Rightarrow> ('a \<Rightarrow> 'b outcome) \<Rightarrow> 'b outcome" where
  "bindE r f = (case r of Inl e \<Rightarrow> Inl e | Inr x \<Rightarrow> f x)"

text \<open>The engine reports undefined behaviour as \<^const>\<open>None\<close>.\<close>

definition orAbort :: "'a option \<Rightarrow> 'a outcome" where
  "orAbort r = (case r of None \<Rightarrow> Inl Aborted | Some x \<Rightarrow> Inr x)"

lemma bindE_simps [simp]: "bindE (Inr x) f = f x" "bindE (Inl e) f = Inl e"
  by (simp_all add: bindE_def)

lemma orAbort_simps [simp]: "orAbort (Some x) = Inr x" "orAbort None = Inl Aborted"
  by (simp_all add: orAbort_def)

lemma bindE_Inr_iff: "bindE r f = Inr y \<longleftrightarrow> (\<exists>x. r = Inr x \<and> f x = Inr y)"
  by (cases r) auto

lemma bindE_Inl_iff: "bindE r f = Inl e \<longleftrightarrow> r = Inl e \<or> (\<exists>x. r = Inr x \<and> f x = Inl e)"
  by (cases r) auto

lemma orAbort_Inr_iff [simp]: "orAbort r = Inr x \<longleftrightarrow> r = Some x"
  by (cases r) auto

lemma orAbort_Inl_iff [simp]: "orAbort r = Inl e \<longleftrightarrow> r = None \<and> e = Aborted"
  by (cases r) auto

section \<open>assert_check\<close>

definition print_int :: "int \<Rightarrow> bytes" where
  "print_int i = (if i < 0 then 45 # print_nat (nat (- i)) else print_nat (nat i))"

definition crlf :: bytes where "crlf = [13, 10]"

text \<open>\<open>snprintf\<close> into an array of 4096 characters; the string that is returned ends at the first
  terminator. The module name is an empty array.\<close>

definition make_check_message :: "bytes \<Rightarrow> bytes \<Rightarrow> i32 \<Rightarrow> bytes \<Rightarrow> bytes" where
  "make_check_message expression fileName line message =
     c_str (fst (snprintf_buf 4096
       (crlf @ ascii ''ASSERT: ------------------------------------'' @ crlf @ crlf
        @ ascii ''Moudle Name: '' @ [] @ crlf
        @ ascii ''File:        '' @ c_str fileName @ crlf
        @ ascii ''Line:        ['' @ print_int (sint line) @ ascii '']'' @ crlf
        @ crlf
        @ ascii ''Expression:  '' @ c_str expression @ crlf
        @ ascii ''Message:     '' @ c_str message @ crlf
        @ ascii ''--------------------------------------------- ASSERT END'' @ crlf @ crlf)))"

text \<open>The second component is what is printed.\<close>

definition assert_check_printf_msg :: "bytes \<Rightarrow> bytes \<Rightarrow> i32 \<Rightarrow> bytes \<Rightarrow> bytes \<times> bytes" where
  "assert_check_printf_msg expression fileName line message =
     (let msg = make_check_message expression fileName line message in (msg, c_str msg))"

text \<open>\<open>strncpy\<close> into \<open>m_What[1024]\<close>, whose last byte is then cleared: the text as a C string.\<close>

definition AssertException_new :: "bytes \<Rightarrow> failure" where
  "AssertException_new what = AssertException (c_str (take 1023 (take 1024 (c_str what @ replicate 1024 0))))"

definition do_assert :: "bytes \<Rightarrow> bytes \<Rightarrow> i32 \<Rightarrow> bytes \<Rightarrow> unit outcome" where
  "do_assert expression fileName line message =
     Inl (AssertException_new (c_str (fst (assert_check_printf_msg expression fileName line message))))"

definition assert_check :: "bool \<Rightarrow> bytes \<Rightarrow> bytes \<Rightarrow> i32 \<Rightarrow> bytes \<Rightarrow> unit outcome" where
  "assert_check condition expression fileName line message =
     (if \<not> condition then do_assert expression fileName line message else Inr ())"

lemma c_str_nonzero: "x \<in> set (c_str s) \<Longrightarrow> x \<noteq> 0"
  by (auto simp: c_str_def dest: set_takeWhileD)

lemma c_str_id: "0 \<notin> set s \<Longrightarrow> c_str s = s"
  by (auto simp: c_str_def takeWhile_eq_all_conv)

lemma c_str_idem [simp]: "c_str (c_str s) = c_str s"
  using c_str_nonzero by (intro c_str_id) blast

lemma c_str_take_c_str [simp]: "c_str (take n (c_str s)) = take n (c_str s)"
  using c_str_nonzero by (intro c_str_id) (blast dest: in_set_takeD)

lemma c_str_padded: "0 \<notin> set s \<Longrightarrow> c_str (s @ replicate n 0) = s"
  using c_str_terminated [of s] by (cases n) (simp_all add: c_str_id)

lemma exception_text: "AssertException_new s = AssertException (take 1023 (c_str s))"
proof -
  have "0 \<notin> set (take 1023 (c_str s))" using c_str_nonzero by (blast dest: in_set_takeD)
  then have "c_str (take 1023 (c_str s) @ replicate (min (1023 - length (c_str s)) 1024) 0) = take 1023 (c_str s)"
    by (rule c_str_padded)
  then have "c_str (take 1023 (c_str s @ replicate 1024 0)) = take 1023 (c_str s)"
    by (simp only: take_append take_replicate)
  moreover have "take 1023 (take 1024 xs) = take 1023 xs" for xs :: bytes by simp
  ultimately show ?thesis unfolding AssertException_new_def by metis
qed

text \<open>\<open>assert_check\<close> passes or throws, and the exception keeps the message up to 1023 characters.\<close>

lemma assert_check_cases:
  "assert_check condition e f l m =
     (if condition then Inr () else Inl (AssertException (take 1023 (make_check_message e f l m))))"
proof -
  have "c_str (make_check_message e f l m) = make_check_message e f l m"
    by (simp add: make_check_message_def)
  then show ?thesis
    by (simp add: assert_check_def do_assert_def exception_text assert_check_printf_msg_def Let_def)
qed

section \<open>Exceptions that reach main\<close>

text \<open>The \<open>main\<close> functions of the programs do their work inside a \<open>try\<close> block that catches \<open>std::exception\<close>, prints it and
  returns 0. \<open>AssertException\<close> has no base class, so that it is not caught.\<close>

datatype 'a process =
    Running 'a
  | Exit int
  | Terminated  \<comment> \<open>an exception nobody catches, or \<open>abort\<close>\<close>

definition is_std_exception :: "failure \<Rightarrow> bool" where
  "is_std_exception e =
     (case e of Aborted \<Rightarrow> False | AssertException _ \<Rightarrow> False | SystemError \<Rightarrow> True | BadFunctionCall \<Rightarrow> True
      | OutOfRange \<Rightarrow> True | InvalidArgument \<Rightarrow> True | LengthError \<Rightarrow> True)"

text \<open>What becomes of the process when a piece of the \<open>try\<close> block has this outcome.\<close>

definition in_try :: "'a outcome \<Rightarrow> 'a process" where
  "in_try r = (case r of Inr s \<Rightarrow> Running s | Inl e \<Rightarrow> if is_std_exception e then Exit 0 else Terminated)"

lemma in_try_Running [simp]: "in_try r = Running s \<longleftrightarrow> r = Inr s"
  by (cases r) (auto simp: in_try_def)

lemma in_try_assert [simp]: "in_try (Inl (AssertException what)) = Terminated"
  by (simp add: in_try_def is_std_exception_def)

end
