(* ===== verification/Connect_Packet.thy ===== *)
theory Connect_Packet
  imports C_Lib
begin

text \<open>
  The control datagrams of \<open>src/util/connect_packet.cpp\<close>: asking for a conversation, the answer that
  names it, and the end of a conversation. They are text, sent on the socket that also carries the
  segments of \<open>ikcp.c\<close>.

  A \<open>const char* data\<close> is the list of bytes readable from the pointer; \<open>len\<close> may be smaller than that
  list, since the sources read datagrams into larger arrays. The two functions that read a number call
  \<open>atol\<close>, which goes on past \<open>len\<close> until a byte that is no digit; they answer \<^const>\<open>None\<close> when the
  readable memory ends first.
\<close>

definition ASIO_KCP_CONNECT_PACKET :: bytes where
  "ASIO_KCP_CONNECT_PACKET = ascii ''asio_kcp_connect_package get_conv'' @ [0]"

definition ASIO_KCP_SEND_BACK_CONV_PACKET :: bytes where
  "ASIO_KCP_SEND_BACK_CONV_PACKET = ascii ''asio_kcp_connect_back_package get_conv:'' @ [0]"

definition ASIO_KCP_DISCONNECT_PACKET :: bytes where
  "ASIO_KCP_DISCONNECT_PACKET = ascii ''asio_kcp_disconnect_package'' @ [0]"

text \<open>The literals with their terminator, so that \<open>sizeof\<close> is \<^const>\<open>length\<close>.\<close>

lemmas packet_texts = ASIO_KCP_CONNECT_PACKET_def ASIO_KCP_SEND_BACK_CONV_PACKET_def
  ASIO_KCP_DISCONNECT_PACKET_def

definition making_connect_packet :: bytes where
  "making_connect_packet = take (length ASIO_KCP_CONNECT_PACKET) ASIO_KCP_CONNECT_PACKET"

definition is_connect_packet :: "bytes \<Rightarrow> nat \<Rightarrow> bool" where
  "is_connect_packet data len \<longleftrightarrow>
     len = length ASIO_KCP_CONNECT_PACKET \<and>
     mem_equal data ASIO_KCP_CONNECT_PACKET (length ASIO_KCP_CONNECT_PACKET - 1)"

definition is_send_back_conv_packet :: "bytes \<Rightarrow> nat \<Rightarrow> bool" where
  "is_send_back_conv_packet data len \<longleftrightarrow>
     len > length ASIO_KCP_SEND_BACK_CONV_PACKET \<and>
     mem_equal data ASIO_KCP_SEND_BACK_CONV_PACKET (length ASIO_KCP_SEND_BACK_CONV_PACKET - 1)"

text \<open>\<open>snprintf\<close> with the format \<open>"%s %u"\<close> into an array of 256 characters.\<close>

definition print_packet :: "bytes \<Rightarrow> u32 \<Rightarrow> bytes option" where
  "print_packet prefix conv =
     (case snprintf_buf 256 (c_str prefix @ [32] @ print_u32 conv) of
        (buf, n) \<Rightarrow> string_of_buf buf n)"

definition making_send_back_conv_packet :: "u32 \<Rightarrow> bytes option" where
  "making_send_back_conv_packet conv = print_packet ASIO_KCP_SEND_BACK_CONV_PACKET conv"

definition grab_conv_from_send_back_conv_packet :: "bytes \<Rightarrow> nat \<Rightarrow> u32 option" where
  "grab_conv_from_send_back_conv_packet data len =
     map_option word_of_int (atol (drop (length ASIO_KCP_SEND_BACK_CONV_PACKET) data))"

definition making_disconnect_packet :: "u32 \<Rightarrow> bytes option" where
  "making_disconnect_packet conv = print_packet ASIO_KCP_DISCONNECT_PACKET conv"

definition is_disconnect_packet :: "bytes \<Rightarrow> nat \<Rightarrow> bool" where
  "is_disconnect_packet data len \<longleftrightarrow>
     len > length ASIO_KCP_DISCONNECT_PACKET \<and>
     mem_equal data ASIO_KCP_DISCONNECT_PACKET (length ASIO_KCP_DISCONNECT_PACKET - 1)"

definition grab_conv_from_disconnect_packet :: "bytes \<Rightarrow> nat \<Rightarrow> u32 option" where
  "grab_conv_from_disconnect_packet data len =
     map_option word_of_int (atol (drop (length ASIO_KCP_DISCONNECT_PACKET) data))"

section \<open>What the packets look like\<close>

definition packet_text :: "bytes \<Rightarrow> bool" where
  "packet_text prefix \<longleftrightarrow> (\<exists>s. prefix = s @ [0] \<and> 0 \<notin> set s \<and> length s < 240)"

lemma packet_text_consts:
  "packet_text ASIO_KCP_SEND_BACK_CONV_PACKET" "packet_text ASIO_KCP_DISCONNECT_PACKET"
  by (simp_all add: packet_text_def packet_texts ascii_def)

lemma print_packet_eq:
  assumes "packet_text prefix"
  shows "print_packet prefix conv = Some (c_str prefix @ [32] @ print_u32 conv)"
proof -
  obtain s where s: "prefix = s @ [0]" "0 \<notin> set s" "length s < 240" using assms by (auto simp: packet_text_def)
  then have "length (c_str prefix @ [32] @ print_u32 conv) < 256"
    using print_u32_length [of conv] by (simp add: c_str_terminated)
  from snprintf_fits [OF this] show ?thesis by (simp add: print_packet_def snprintf_buf_def)
qed

lemma making_packets:
  "making_send_back_conv_packet conv = Some (ascii ''asio_kcp_connect_back_package get_conv:'' @ [32] @ print_u32 conv)"
  "making_disconnect_packet conv = Some (ascii ''asio_kcp_disconnect_package'' @ [32] @ print_u32 conv)"
  by (simp_all add: making_send_back_conv_packet_def making_disconnect_packet_def
      print_packet_eq packet_text_consts) (simp_all add: packet_texts ascii_def c_str_def)

lemma grab_printed:
  assumes "length prefix = n" "\<not> isdigit c"
  shows "map_option word_of_int (atol (drop (Suc n) (prefix @ [32] @ print_u32 conv @ c # m))) = Some conv"
proof -
  have "unat conv < 9223372036854775808" using unat32_less [of conv] by linarith
  then have "atol (print_u32 conv @ c # m) = Some (int (unat conv))"
    using atol_print_nat assms(2) by (simp add: print_u32_def)
  then show ?thesis using assms(1) by simp
qed

text \<open>The text every control datagram starts with. Read as the little-endian conversation number of a
  segment, its first four bytes are 1869181793.\<close>

lemma control_head:
  assumes "is_connect_packet data len \<or> is_send_back_conv_packet data len \<or> is_disconnect_packet data len"
  shows "take 4 data = ascii ''asio''"
proof -
  have texts: "take 4 ASIO_KCP_CONNECT_PACKET = ascii ''asio''"
    "take 4 ASIO_KCP_SEND_BACK_CONV_PACKET = ascii ''asio''" "take 4 ASIO_KCP_DISCONNECT_PACKET = ascii ''asio''"
    by (simp_all add: packet_texts ascii_def)
  have lens: "4 \<le> length ASIO_KCP_CONNECT_PACKET - 1" "4 \<le> length ASIO_KCP_SEND_BACK_CONV_PACKET - 1"
    "4 \<le> length ASIO_KCP_DISCONNECT_PACKET - 1"
    by (simp_all add: packet_texts)
  show ?thesis using assms mem_equal_take [OF _ lens(1)] mem_equal_take [OF _ lens(2)] mem_equal_take [OF _ lens(3)]
    unfolding is_connect_packet_def is_send_back_conv_packet_def is_disconnect_packet_def by (metis texts)
qed

text \<open>The texts differ at the eleventh character, or in length.\<close>

lemma packet_kinds_disjoint:
  "\<not> (is_connect_packet data len \<and> is_send_back_conv_packet data len)"
  "\<not> (is_connect_packet data len \<and> is_disconnect_packet data len)"
  "\<not> (is_send_back_conv_packet data len \<and> is_disconnect_packet data len)"
proof -
  have diff: "ASIO_KCP_CONNECT_PACKET ! 10 \<noteq> ASIO_KCP_DISCONNECT_PACKET ! 10"
    "ASIO_KCP_SEND_BACK_CONV_PACKET ! 10 \<noteq> ASIO_KCP_DISCONNECT_PACKET ! 10"
    by (simp_all add: packet_texts ascii_def)
  have lens: "10 < length ASIO_KCP_CONNECT_PACKET - 1" "10 < length ASIO_KCP_SEND_BACK_CONV_PACKET - 1"
    "10 < length ASIO_KCP_DISCONNECT_PACKET - 1" "length ASIO_KCP_CONNECT_PACKET < length ASIO_KCP_SEND_BACK_CONV_PACKET"
    by (simp_all add: packet_texts)
  note at = mem_equal_nth [OF _ lens(1)] mem_equal_nth [OF _ lens(2)] mem_equal_nth [OF _ lens(3)]
  show "\<not> (is_connect_packet data len \<and> is_send_back_conv_packet data len)"
    using lens(4) by (simp add: is_connect_packet_def is_send_back_conv_packet_def)
  show "\<not> (is_connect_packet data len \<and> is_disconnect_packet data len)"
    unfolding is_connect_packet_def is_disconnect_packet_def using diff(1) at by metis
  show "\<not> (is_send_back_conv_packet data len \<and> is_disconnect_packet data len)"
    unfolding is_send_back_conv_packet_def is_disconnect_packet_def using diff(2) at by metis
qed

lemma made_packets_recognised:
  "is_connect_packet making_connect_packet (length making_connect_packet)"
  "making_send_back_conv_packet conv = Some p \<Longrightarrow> is_send_back_conv_packet (p @ m) (length p)"
  "making_disconnect_packet conv = Some p \<Longrightarrow> is_disconnect_packet (p @ m) (length p)"
  using print_u32_nonempty [of conv]
  by (auto simp: is_connect_packet_def making_connect_packet_def is_send_back_conv_packet_def
      is_disconnect_packet_def making_packets mem_equal_def packet_texts ascii_def)

lemma grab_made_packets:
  "making_send_back_conv_packet conv = Some p \<Longrightarrow> \<not> isdigit c \<Longrightarrow>
     grab_conv_from_send_back_conv_packet (p @ c # m) len = Some conv"
  "making_disconnect_packet conv = Some p \<Longrightarrow> \<not> isdigit c \<Longrightarrow>
     grab_conv_from_disconnect_packet (p @ c # m) len = Some conv"
proof -
  have len: "length ASIO_KCP_SEND_BACK_CONV_PACKET = Suc (length (ascii ''asio_kcp_connect_back_package get_conv:''))"
    "length ASIO_KCP_DISCONNECT_PACKET = Suc (length (ascii ''asio_kcp_disconnect_package''))"
    by (simp_all add: packet_texts)
  note grab = grab_printed [OF refl, unfolded append_assoc]
  show "making_send_back_conv_packet conv = Some p \<Longrightarrow> \<not> isdigit c \<Longrightarrow>
     grab_conv_from_send_back_conv_packet (p @ c # m) len = Some conv"
    unfolding making_packets grab_conv_from_send_back_conv_packet_def len option.inject
    by (drule sym) (simp only: append_assoc grab not_False_eq_True)
  show "making_disconnect_packet conv = Some p \<Longrightarrow> \<not> isdigit c \<Longrightarrow>
     grab_conv_from_disconnect_packet (p @ c # m) len = Some conv"
    unfolding making_packets grab_conv_from_disconnect_packet_def len option.inject
    by (drule sym) (simp only: append_assoc grab not_False_eq_True)
qed

end
