(* ===== verification/Connection.thy ===== *)
theory Connection
  imports Check_Function Connect_Packet Kcp_Protocol
begin

text \<open>
  One conversation of the server: \<open>class connection\<close> of \<open>src/server_lib/connection.cpp\<close>, on top of the
  control block of \<open>ikcp.c\<close> and the control datagrams.

  A connection reaches its manager through a weak pointer and uses three things of it: the clock, the
  socket and the event callback. They form the record \<open>host\<close>, which \<open>Connection_Manager\<close> extends to the
  whole manager; \<open>h_alive\<close> says whether the weak pointer can still be locked. Datagrams handed to the
  socket and events handed to the callback are logged in order. \<open>sock\<close> is the network: whether
  \<open>send_to\<close> accepts a datagram; a refusal is an exception. The callback itself is code of the user; it
  is called and returns. \<open>alloc\<close> is the allocator of the engine. Log output is left out.
\<close>

type_synonym endpoint = "u32 \<times> u16"
type_synonym socket = "bytes \<Rightarrow> endpoint \<Rightarrow> bool"

datatype eEventType = eConnect | eDisconnect | eRcvMsg | eLagNotify | eCountOfEventType

definition eventTypeStr :: "eEventType \<Rightarrow> string" where
  "eventTypeStr t =
     (case t of eConnect \<Rightarrow> ''eConnect'' | eDisconnect \<Rightarrow> ''eDisconnect'' | eRcvMsg \<Rightarrow> ''eRcvMsg''
      | eLagNotify \<Rightarrow> ''eLagNotify'' | _ \<Rightarrow> ''unknown'')"

definition ASIO_KCP_CONNECTION_TIMEOUT_TIME :: u32 where
  "ASIO_KCP_CONNECTION_TIMEOUT_TIME = 10 * 1000"

record host =
  h_alive :: bool
  h_open :: bool
  h_callback :: bool
  h_clock :: u32
  h_sent :: "(bytes \<times> endpoint) list"
  h_events :: "(u32 \<times> eEventType \<times> bytes) list"

text \<open>\<open>connection_manager::send_udp_packet\<close>, \<open>call_event_callback_func\<close> and \<open>get_cur_clock\<close>.\<close>

definition send_udp_packet :: "socket \<Rightarrow> bytes \<Rightarrow> endpoint \<Rightarrow> 'a host_scheme \<Rightarrow> 'a host_scheme outcome" where
  "send_udp_packet sock msg ep h =
     (if h_open h \<and> sock msg ep then Inr (h\<lparr>h_sent := h_sent h @ [(msg, ep)]\<rparr>) else Inl SystemError)"

definition call_event_callback_func :: "u32 \<Rightarrow> eEventType \<Rightarrow> bytes \<Rightarrow> 'a host_scheme \<Rightarrow> 'a host_scheme outcome" where
  "call_event_callback_func conv event_type msg h =
     (if h_callback h then Inr (h\<lparr>h_events := h_events h @ [(conv, event_type, msg)]\<rparr>) else Inl BadFunctionCall)"

section \<open>The connection\<close>

record connection =
  c_conv :: u32
  c_kcp :: "IKCPCB option"
  c_endpoint :: endpoint
  c_last_recv :: u32

text \<open>The constructor; the endpoint is default-constructed.\<close>

definition connection_new :: connection where
  "connection_new = \<lparr>c_conv = 0, c_kcp = None, c_endpoint = (0, 0), c_last_recv = 0\<rparr>"

definition connection_send_udp_package ::
    "socket \<Rightarrow> connection \<Rightarrow> bytes \<Rightarrow> 'a host_scheme \<Rightarrow> 'a host_scheme outcome" where
  "connection_send_udp_package sock c buf h =
     (if h_alive h then send_udp_packet sock buf (c_endpoint c) h else Inr h)"

text \<open>The output callback of the engine, called once for each datagram of a flush.\<close>

fun connection_udp_output ::
    "socket \<Rightarrow> connection \<Rightarrow> bytes list \<Rightarrow> 'a host_scheme \<Rightarrow> 'a host_scheme outcome" where
  "connection_udp_output sock c [] h = Inr h"
| "connection_udp_output sock c (d # ds) h =
     bindE (connection_send_udp_package sock c d h) (connection_udp_output sock c ds)"

text \<open>\<open>clean\<close>. \<open>ikcp_release\<close> asserts that the control block is there.\<close>

definition connection_clean :: "socket \<Rightarrow> connection \<Rightarrow> 'a host_scheme \<Rightarrow> (connection \<times> 'a host_scheme) outcome" where
  "connection_clean sock c h =
     bindE (orAbort (making_disconnect_packet (c_conv c))) (\<lambda>disconnect_msg.
     bindE (connection_send_udp_package sock c disconnect_msg h) (\<lambda>h.
     bindE (orAbort (map_option ikcp_release (c_kcp c))) (\<lambda>_.
     Inr (c\<lparr>c_kcp := None, c_conv := 0\<rparr>, h))))"

text \<open>The destructor is \<open>clean\<close>. It is \<open>noexcept\<close>, as every destructor of C++11 that does not say otherwise, so
  an exception that leaves it ends the process.\<close>

definition connection_destroy :: "socket \<Rightarrow> connection \<Rightarrow> 'a host_scheme \<Rightarrow> (connection \<times> 'a host_scheme) outcome" where
  "connection_destroy sock c h = (case connection_clean sock c h of Inl _ \<Rightarrow> Inl Aborted | Inr r \<Rightarrow> Inr r)"

definition connection_init_kcp :: "allocator \<Rightarrow> connection \<Rightarrow> u32 \<Rightarrow> connection outcome" where
  "connection_init_kcp alloc c conv =
     (let c = c\<lparr>c_conv := conv\<rparr>
      in bindE (orAbort (ikcp_create alloc conv 0)) (\<lambda>kcp.
         let kcp = kcp\<lparr>k_output := True\<rparr>
         in Inr (c\<lparr>c_kcp := Some (snd (ikcp_nodelay kcp 1 5 1 1))\<rparr>)))"

definition set_udp_remote_endpoint :: "connection \<Rightarrow> endpoint \<Rightarrow> connection" where
  "set_udp_remote_endpoint c ep = c\<lparr>c_endpoint := ep\<rparr>"

definition connection_create :: "allocator \<Rightarrow> u32 \<Rightarrow> endpoint \<Rightarrow> connection outcome" where
  "connection_create alloc conv ep =
     bindE (connection_init_kcp alloc connection_new conv) (\<lambda>c. Inr (set_udp_remote_endpoint c ep))"

definition connection_send_kcp_msg :: "allocator \<Rightarrow> connection \<Rightarrow> bytes \<Rightarrow> connection outcome" where
  "connection_send_kcp_msg alloc c msg =
     bindE (orAbort (c_kcp c)) (\<lambda>kcp.
     bindE (orAbort (ikcp_send alloc kcp (Some msg) (of_nat (length msg)))) (\<lambda>(send_ret, kcp).
     Inr (c\<lparr>c_kcp := Some kcp\<rparr>)))"

definition connection_get_cur_clock :: "'a host_scheme \<Rightarrow> u32" where
  "connection_get_cur_clock h = (if h_alive h then h_clock h else 0)"

text \<open>\<open>connection::input\<close>: the datagram goes to the engine, then at most one message is taken out, into a
  buffer of 1024000 bytes.\<close>

definition connection_input ::
    "allocator \<Rightarrow> connection \<Rightarrow> bytes \<Rightarrow> endpoint \<Rightarrow> 'a host_scheme \<Rightarrow> (connection \<times> 'a host_scheme) outcome" where
  "connection_input alloc c udp_data ep h =
     (let c = c\<lparr>c_last_recv := connection_get_cur_clock h, c_endpoint := ep\<rparr>
      in bindE (orAbort (c_kcp c)) (\<lambda>kcp.
         bindE (orAbort (ikcp_input alloc kcp (Some udp_data) (int (length udp_data)))) (\<lambda>(_, kcp).
         bindE (orAbort (ikcp_recv kcp True (1024 * 1000))) (\<lambda>(kcp_recvd_bytes, kcp_buf, kcp).
         let c = c\<lparr>c_kcp := Some kcp\<rparr>
         in if kcp_recvd_bytes \<le> 0 then Inr (c, h)
            else if h_alive h
            then bindE (call_event_callback_func (c_conv c) eRcvMsg (take (nat kcp_recvd_bytes) kcp_buf) h)
                   (\<lambda>h. Inr (c, h))
            else Inr (c, h)))))"

definition connection_update_kcp ::
    "socket \<Rightarrow> connection \<Rightarrow> u32 \<Rightarrow> 'a host_scheme \<Rightarrow> (connection \<times> 'a host_scheme) outcome" where
  "connection_update_kcp sock c clock h =
     bindE (orAbort (c_kcp c)) (\<lambda>kcp.
     bindE (orAbort (ikcp_update kcp clock)) (\<lambda>(kcp, out).
     bindE (connection_udp_output sock c out h) (\<lambda>h.
     Inr (c\<lparr>c_kcp := Some kcp\<rparr>, h))))"

definition get_timeout_time :: u32 where
  "get_timeout_time = ASIO_KCP_CONNECTION_TIMEOUT_TIME"

definition is_timeout :: "connection \<Rightarrow> 'a host_scheme \<Rightarrow> bool" where
  "is_timeout c h =
     (if c_last_recv c = 0 then False
      else connection_get_cur_clock h - c_last_recv c > get_timeout_time)"

definition do_timeout :: "connection \<Rightarrow> 'a host_scheme \<Rightarrow> 'a host_scheme outcome" where
  "do_timeout c h =
     (if h_alive h then call_event_callback_func (c_conv c) eDisconnect (ascii ''timeout'') h else Inr h)"

section \<open>The invariant of a connection\<close>

text \<open>Between creation and destruction a connection owns a well-formed control block of its own number.\<close>

definition conn_inv :: "u32 \<Rightarrow> connection \<Rightarrow> bool" where
  "conn_inv conv c \<longleftrightarrow> c_conv c = conv \<and> (\<exists>kcp. c_kcp c = Some kcp \<and> api_inv kcp \<and> k_conv kcp = conv)"

text \<open>What the host keeps, whatever a connection does with it.\<close>

definition host_view :: "'a host_scheme \<Rightarrow> bool \<times> bool \<times> bool \<times> u32 \<times> 'a" where
  "host_view h = (h_alive h, h_open h, h_callback h, h_clock h, host.more h)"

named_theorems host_frame "what the calls of a connection leave of its host"

lemma send_udp_packet_Inr [host_frame]:
  "send_udp_packet sock msg ep h = Inr h' \<longleftrightarrow>
     h_open h \<and> sock msg ep \<and> h' = h\<lparr>h_sent := h_sent h @ [(msg, ep)]\<rparr>"
  by (auto simp: send_udp_packet_def)

lemma callback_Inr [host_frame]:
  "call_event_callback_func conv t msg h = Inr h' \<longleftrightarrow>
     h_callback h \<and> h' = h\<lparr>h_events := h_events h @ [(conv, t, msg)]\<rparr>"
  by (auto simp: call_event_callback_func_def)

lemma udp_output_Inr:
  "connection_udp_output sock c ds h = Inr h' \<Longrightarrow>
     h' = (if h_alive h then h\<lparr>h_sent := h_sent h @ map (\<lambda>d. (d, c_endpoint c)) ds\<rparr> else h)"
proof (induction ds arbitrary: h)
  case (Cons d ds)
  obtain h1 where h1: "connection_send_udp_package sock c d h = Inr h1" "connection_udp_output sock c ds h1 = Inr h'"
    using Cons.prems by (auto simp: bindE_Inr_iff)
  then have "h1 = (if h_alive h then h\<lparr>h_sent := h_sent h @ [(d, c_endpoint c)]\<rparr> else h)"
    by (auto simp: connection_send_udp_package_def host_frame split: if_splits)
  then show ?case using Cons.IH [OF h1(2)] by auto
qed simp

lemma create_conn_inv:
  assumes "connection_create alloc conv ep = Inr c"
  shows "conn_inv conv c" "c_endpoint c = ep" "c_last_recv c = 0"
proof -
  obtain kcp where kcp: "ikcp_create alloc conv 0 = Some kcp"
    and c: "c = \<lparr>c_conv = conv, c_kcp = Some (snd (ikcp_nodelay (kcp\<lparr>k_output := True\<rparr>) 1 5 1 1)), c_endpoint = ep, c_last_recv = 0\<rparr>"
    using assms by (auto simp: connection_create_def connection_init_kcp_def connection_new_def
        set_udp_remote_endpoint_def Let_def bindE_Inr_iff)
  have "fresh_kcp (kcp\<lparr>k_output := True\<rparr>)" using kcp by (auto simp: fresh_kcp_def)
  then have "api_inv (snd (ikcp_nodelay (kcp\<lparr>k_output := True\<rparr>) 1 5 1 1))"
    using api_step_inv [OF fresh_inv api_nodelay] by blast
  moreover have "k_conv kcp = conv" using kcp by (auto simp: ikcp_create_def Let_def split: if_splits)
  then have "k_conv (snd (ikcp_nodelay (kcp\<lparr>k_output := True\<rparr>) 1 5 1 1)) = conv"
    by (simp add: ikcp_nodelay_def Let_def)
  ultimately show "conn_inv conv c" "c_endpoint c = ep" "c_last_recv c = 0"
    unfolding c by (simp_all add: conn_inv_def)
qed

lemma create_ready:
  assumes "connection_create alloc conv ep = Inr c"
  shows "\<exists>kcp. c_kcp c = Some kcp \<and> ready_kcp kcp \<and> k_conv kcp = conv"
proof -
  obtain kcp where kcp: "ikcp_create alloc conv 0 = Some kcp"
    and c: "c_kcp c = Some (snd (ikcp_nodelay (kcp\<lparr>k_output := True\<rparr>) 1 5 1 1))"
    using assms by (auto simp: connection_create_def connection_init_kcp_def connection_new_def
        set_udp_remote_endpoint_def Let_def bindE_Inr_iff)
  have "fresh_kcp (kcp\<lparr>k_output := True\<rparr>)" using kcp by (auto simp: fresh_kcp_def)
  then have "ready_kcp (snd (ikcp_nodelay (kcp\<lparr>k_output := True\<rparr>) 1 5 1 1))" unfolding ready_kcp_def by blast
  moreover have "k_conv (the (c_kcp c)) = conv" using create_conn_inv(1) [OF assms] by (auto simp: conn_inv_def)
  ultimately show ?thesis using c by simp
qed

lemma api_conv:
  assumes "cfg_view k' = cfg_view k" shows "k_conv k' = k_conv k"
  using assms by (simp add: cfg_view_def)

lemma send_msg_inv:
  assumes "conn_inv conv c" "connection_send_kcp_msg alloc c msg = Inr c'" "alloc_bounded alloc" "length msg < 2147483648"
  shows "conn_inv conv c'" "c_endpoint c' = c_endpoint c" "c_last_recv c' = c_last_recv c"
proof -
  obtain kcp r kcp' where k: "c_kcp c = Some kcp" "ikcp_send alloc kcp (Some msg) (of_nat (length msg)) = Some (r, kcp')"
    "c' = c\<lparr>c_kcp := Some kcp'\<rparr>"
    using assms(2) by (auto simp: connection_send_kcp_msg_def bindE_Inr_iff)
  have inv: "api_inv kcp" "k_conv kcp = conv" using assms(1) k(1) by (auto simp: conn_inv_def)
  have "api_inv kcp'" by (rule api_step_inv [OF inv(1) api_send_msg [OF assms(3) k(2) assms(4)]])
  moreover have "k_conv kcp' = conv"
    using api_conv [OF send_cfg [OF _ k(2) assms(4)]] inv by (simp add: api_inv_def kcp_wf_def)
  ultimately show "conn_inv conv c'" "c_endpoint c' = c_endpoint c" "c_last_recv c' = c_last_recv c"
    using assms(1) k(3) by (simp_all add: conn_inv_def)
qed

lemma input_conn_inv:
  assumes "conn_inv conv c" "connection_input alloc c d ep h = Inr (c', h')" "alloc_bounded alloc"
  shows "conn_inv conv c'" "c_endpoint c' = ep" "c_last_recv c' = connection_get_cur_clock h"
    "h' = h \<or> (\<exists>msg. h' = h\<lparr>h_events := h_events h @ [(conv, eRcvMsg, msg)]\<rparr>)"
proof -
  obtain kcp r k1 n out k2 where k: "c_kcp c = Some kcp" "ikcp_input alloc kcp (Some d) (int (length d)) = Some (r, k1)"
    "ikcp_recv k1 True (1024 * 1000) = Some (n, out, k2)"
    and c': "c' = c\<lparr>c_last_recv := connection_get_cur_clock h, c_endpoint := ep, c_kcp := Some k2\<rparr>"
    and h': "h' = h \<or> (\<exists>msg. h' = h\<lparr>h_events := h_events h @ [(c_conv c, eRcvMsg, msg)]\<rparr>)"
    using assms(2) by (fastforce simp: connection_input_def Let_def bindE_Inr_iff callback_Inr split: if_splits)
  have inv: "api_inv kcp" "k_conv kcp = conv" using assms(1) k(1) by (auto simp: conn_inv_def)
  have "api_inv k2"
    using api_step_inv [OF api_step_inv [OF inv(1) api_input [OF assms(3) k(2)]] api_recv [OF k(3)]] .
  moreover have "k_conv k2 = conv" using api_conv [OF input_cfg [OF k(2)]] api_conv [OF recv_cfg [OF k(3)]] inv(2) by simp
  ultimately show "conn_inv conv c'" "c_endpoint c' = ep" "c_last_recv c' = connection_get_cur_clock h"
    "h' = h \<or> (\<exists>msg. h' = h\<lparr>h_events := h_events h @ [(conv, eRcvMsg, msg)]\<rparr>)"
    using assms(1) c' h' by (simp_all add: conn_inv_def)
qed

lemma update_conn_inv:
  assumes "conn_inv conv c" "connection_update_kcp sock c clock h = Inr (c', h')"
  shows "conn_inv conv c'" "c_endpoint c' = c_endpoint c" "c_last_recv c' = c_last_recv c"
    "\<exists>out. h' = h\<lparr>h_sent := h_sent h @ map (\<lambda>d. (d, c_endpoint c)) out\<rparr> \<and> (\<forall>d \<in> set out. 0 < length d \<and> length d \<le> unat (k_mtu (the (c_kcp c))))"
proof -
  obtain kcp out k1 where k: "c_kcp c = Some kcp" "ikcp_update kcp clock = Some (k1, out)"
    and h': "connection_udp_output sock c out h = Inr h'" and c': "c' = c\<lparr>c_kcp := Some k1\<rparr>"
    using assms(2) by (auto simp: connection_update_kcp_def bindE_Inr_iff)
  have inv: "api_inv kcp" "k_conv kcp = conv" using assms(1) k(1) by (auto simp: conn_inv_def)
  have "api_inv k1" "k_conv k1 = conv"
    using api_step_inv [OF inv(1) api_update [OF k(2)]] api_conv [OF update_cfg [OF k(2)]] inv(2) by simp_all
  then show "conn_inv conv c'" "c_endpoint c' = c_endpoint c" "c_last_recv c' = c_last_recv c"
    using assms(1) c' by (simp_all add: conn_inv_def)
  have fit: "\<forall>d \<in> set out. 0 < length d \<and> length d \<le> unat (k_mtu kcp)"
    using update_ok [of kcp clock] inv(1) k(2) by (auto simp: api_inv_def)
  show "\<exists>out. h' = h\<lparr>h_sent := h_sent h @ map (\<lambda>d. (d, c_endpoint c)) out\<rparr> \<and> (\<forall>d \<in> set out. 0 < length d \<and> length d \<le> unat (k_mtu (the (c_kcp c))))"
  proof (cases "h_alive h")
    case True
    then show ?thesis using udp_output_Inr [OF h'] fit k(1) by auto
  next
    case False
    then show ?thesis using udp_output_Inr [OF h'] by (intro exI [of _ "[]"]) simp
  qed
qed

text \<open>Destroying a connection sends exactly one datagram, the end of its conversation.\<close>

lemma destroy_conn:
  assumes "conn_inv conv c" "h_alive h" "connection_destroy sock c h = Inr (c', h')"
  shows "\<exists>p. making_disconnect_packet conv = Some p \<and> h' = h\<lparr>h_sent := h_sent h @ [(p, c_endpoint c)]\<rparr>"
proof -
  have "connection_clean sock c h = Inr (c', h')" using assms(3) by (auto simp: connection_destroy_def split: sum.splits)
  then show ?thesis using assms(1,2)
    by (auto simp: connection_clean_def connection_send_udp_package_def bindE_Inr_iff host_frame conn_inv_def)
qed

lemma destroy_total:
  assumes "conn_inv conv c" "h_open h" "\<forall>p. sock p (c_endpoint c)"
  shows "\<exists>c' h'. connection_destroy sock c h = Inr (c', h')"
  using assms by (auto simp: connection_destroy_def connection_clean_def connection_send_udp_package_def
      send_udp_packet_def conn_inv_def making_packets)

lemma udp_output_failure:
  "connection_udp_output sock c ds h = Inl e \<Longrightarrow> e = SystemError"
  by (induction ds arbitrary: h)
    (auto simp: bindE_Inl_iff connection_send_udp_package_def send_udp_packet_def split: if_splits)

text \<open>With memory granted, the engine never aborts under a connection.\<close>

lemma update_not_aborted:
  assumes "conn_inv conv c" shows "connection_update_kcp sock c clock h \<noteq> Inl Aborted"
proof -
  obtain kcp where kcp: "c_kcp c = Some kcp" "api_inv kcp" using assms by (auto simp: conn_inv_def)
  then have "ikcp_update kcp clock \<noteq> None" using update_ok [of kcp clock] by (auto simp: api_inv_def)
  then show ?thesis using kcp udp_output_failure [of sock c _ h Aborted]
    by (auto simp: connection_update_kcp_def bindE_Inl_iff)
qed

lemma input_not_aborted:
  assumes "conn_inv conv c" "\<forall>i n. alloc i n" "h_callback h"
  shows "\<exists>c' h'. connection_input alloc c d ep h = Inr (c', h')"
proof -
  obtain kcp where kcp: "c_kcp c = Some kcp" using assms by (auto simp: conn_inv_def)
  obtain r k1 where k1: "ikcp_input alloc kcp (Some d) (int (length d)) = Some (r, k1)"
    using input_total [OF assms(2)] by fastforce
  obtain n out k2 where "ikcp_recv k1 True (1024 * 1000) = Some (n, out, k2)"
    using recv_no_assert [of k1 True "1024 * 1000"] by (cases "ikcp_recv k1 True (1024 * 1000)") auto
  then show ?thesis using kcp k1 assms(3) by (simp add: connection_input_def Let_def call_event_callback_func_def)
qed

end
