(* ===== verification/Connection_Manager.thy ===== *)
theory Connection_Manager
  imports Connection
begin

text \<open>
  The server side: \<open>connection_container\<close>, \<open>connection_manager\<close> of \<open>src/server_lib\<close>. The manager extends
  the record \<open>host\<close> by its own fields; \<open>m_connections\<close> is the \<open>unordered_map\<close> of the container and
  \<open>m_cur_conv\<close> the static counter of \<open>get_new_conv\<close>. \<open>m_recv_armed\<close> and \<open>m_timer_armed\<close> say whether an
  asynchronous receive or wait is pending, so that a handler that does not hook itself again is seen.

  A handler of the event loop is a function from manager to manager. What the loop supplies is an argument:
  the datagram and its sender, the time of day, and, where the code iterates over the \<open>unordered_map\<close>, the
  order in which it meets the keys, which the standard leaves open. Erasing an entry runs the destructor of
  the connection, which sends a datagram.
\<close>

record connection_manager = host +
  m_stopped :: bool
  m_connections :: "u32 \<rightharpoonup> connection"
  m_cur_conv :: u32
  m_recv_armed :: bool
  m_timer_armed :: bool

text \<open>Updates of the host's fields come first.\<close>

lemma manager_upd_order [simp]:
  fixes m :: connection_manager
  shows "m\<lparr>m_connections := f, h_sent := x\<rparr> = m\<lparr>h_sent := x, m_connections := f\<rparr>"
    "m\<lparr>m_connections := f, h_events := y\<rparr> = m\<lparr>h_events := y, m_connections := f\<rparr>"
    "m\<lparr>m_cur_conv := v, h_sent := x\<rparr> = m\<lparr>h_sent := x, m_cur_conv := v\<rparr>"
    "m\<lparr>m_cur_conv := v, h_events := y\<rparr> = m\<lparr>h_events := y, m_cur_conv := v\<rparr>"
    "m\<lparr>m_cur_conv := v, m_connections := f\<rparr> = m\<lparr>m_connections := f, m_cur_conv := v\<rparr>"
    "m\<lparr>h_events := y, h_sent := x\<rparr> = m\<lparr>h_sent := x, h_events := y\<rparr>"
  by (cases m; simp)+

section \<open>The clock\<close>

text \<open>\<open>gettimeofday\<close> supplies seconds and microseconds.\<close>

definition iclock64 :: "u64 \<Rightarrow> u64 \<Rightarrow> u64" where
  "iclock64 s u = s * 1000 + u div 1000"

definition iclock :: "u64 \<Rightarrow> u64 \<Rightarrow> u32" where
  "iclock s u = ucast (iclock64 s u AND 0xffffffff)"

definition endpoint_to_i :: "endpoint \<Rightarrow> u64" where
  "endpoint_to_i ep = (let addr_i = ucast (fst ep); port = (ucast (snd ep) :: u32) in push_bit 32 addr_i + ucast port)"

section \<open>The container\<close>

definition find_by_conv :: "connection_manager \<Rightarrow> u32 \<Rightarrow> connection option" where
  "find_by_conv m conv = m_connections m conv"

text \<open>\<open>connections_.erase\<close>: the entry goes, then its last owner destroys the connection.\<close>

definition remove_connection :: "socket \<Rightarrow> u32 \<Rightarrow> connection_manager \<Rightarrow> connection_manager outcome" where
  "remove_connection sock conv m =
     (case m_connections m conv of
        None \<Rightarrow> Inr m
      | Some c \<Rightarrow> bindE (connection_destroy sock c (m\<lparr>m_connections := (m_connections m)(conv := None)\<rparr>))
                    (\<lambda>(_, m). Inr m))"

fun update_all_kcp :: "socket \<Rightarrow> u32 \<Rightarrow> u32 list \<Rightarrow> connection_manager \<Rightarrow> connection_manager outcome" where
  "update_all_kcp sock clock [] m = Inr m"
| "update_all_kcp sock clock (conv # order) m =
     (case m_connections m conv of
        None \<Rightarrow> update_all_kcp sock clock order m
      | Some c \<Rightarrow>
          bindE (connection_update_kcp sock c clock m) (\<lambda>(c, m).
          let m = m\<lparr>m_connections := (m_connections m)(conv \<mapsto> c)\<rparr>
          in if is_timeout c m
             then bindE (do_timeout c m) (\<lambda>m.
                  bindE (remove_connection sock conv m) (update_all_kcp sock clock order))
             else update_all_kcp sock clock order m))"

text \<open>\<open>connections_.clear()\<close>.\<close>

fun container_stop_all :: "socket \<Rightarrow> u32 list \<Rightarrow> connection_manager \<Rightarrow> connection_manager outcome" where
  "container_stop_all sock [] m = Inr m"
| "container_stop_all sock (conv # order) m =
     bindE (remove_connection sock conv m) (container_stop_all sock order)"

text \<open>\<open>connections_[conv] = ptr\<close> destroys the connection that was filed under the same number, if any.\<close>

definition add_new_connection ::
    "allocator \<Rightarrow> socket \<Rightarrow> u32 \<Rightarrow> endpoint \<Rightarrow> connection_manager \<Rightarrow> connection_manager outcome" where
  "add_new_connection alloc sock conv ep m =
     bindE (connection_create alloc conv ep) (\<lambda>c.
     let old = m_connections m conv;
         m = m\<lparr>m_connections := (m_connections m)(conv \<mapsto> c)\<rparr>
     in case old of None \<Rightarrow> Inr m | Some c\<^sub>0 \<Rightarrow> bindE (connection_destroy sock c\<^sub>0 m) (\<lambda>(_, m). Inr m))"

definition get_new_conv :: "connection_manager \<Rightarrow> u32 \<times> connection_manager" where
  "get_new_conv m = (let conv = m_cur_conv m + 1 in (conv, m\<lparr>m_cur_conv := conv\<rparr>))"

section \<open>The manager\<close>

definition hook_udp_async_receive :: "connection_manager \<Rightarrow> connection_manager" where
  "hook_udp_async_receive m = (if m_stopped m then m else m\<lparr>m_recv_armed := True\<rparr>)"

definition hook_kcp_timer :: "connection_manager \<Rightarrow> connection_manager" where
  "hook_kcp_timer m = (if m_stopped m then m else m\<lparr>m_timer_armed := True\<rparr>)"

definition connection_manager_new :: connection_manager where
  "connection_manager_new =
     hook_kcp_timer (hook_udp_async_receive
       \<lparr>h_alive = True, h_open = True, h_callback = False, h_clock = 0, h_sent = [], h_events = [],
        m_stopped = False, m_connections = Map.empty, m_cur_conv = 1000,
        m_recv_armed = False, m_timer_armed = False\<rparr>)"

text \<open>\<open>cancel\<close> on a socket that is closed already throws, so a second call does.\<close>

definition manager_stop_all :: "socket \<Rightarrow> u32 list \<Rightarrow> connection_manager \<Rightarrow> connection_manager outcome" where
  "manager_stop_all sock order m =
     bindE (container_stop_all sock order (m\<lparr>m_stopped := True\<rparr>))
       (\<lambda>m. if h_open m then Inr (m\<lparr>h_open := False\<rparr>) else Inl SystemError)"

definition manager_force_disconnect :: "socket \<Rightarrow> u32 \<Rightarrow> connection_manager \<Rightarrow> connection_manager outcome" where
  "manager_force_disconnect sock conv m =
     (if find_by_conv m conv = None then Inr m
      else bindE (call_event_callback_func conv eDisconnect (ascii ''server force disconnect'') m) (\<lambda>m.
           remove_connection sock conv m))"

definition manager_set_callback :: "bool \<Rightarrow> connection_manager \<Rightarrow> connection_manager" where
  "manager_set_callback func m = m\<lparr>h_callback := func\<rparr>"

definition handle_connect_packet ::
    "allocator \<Rightarrow> socket \<Rightarrow> endpoint \<Rightarrow> connection_manager \<Rightarrow> connection_manager outcome" where
  "handle_connect_packet alloc sock ep m =
     (let (conv, m) = get_new_conv m
      in bindE (orAbort (making_send_back_conv_packet conv)) (\<lambda>send_back_msg.
         bindE (send_udp_packet sock send_back_msg ep m) (\<lambda>m.
         add_new_connection alloc sock conv ep m)))"

definition handle_kcp_packet ::
    "allocator \<Rightarrow> bytes \<Rightarrow> endpoint \<Rightarrow> connection_manager \<Rightarrow> connection_manager outcome" where
  "handle_kcp_packet alloc udp_data ep m =
     (case ikcp_get_conv (Some udp_data) (int (length udp_data)) of
        None \<Rightarrow> bindE (assert_check False (ascii ''false'') (ascii ''connection_manager.cpp'') 108
                         (ascii ''ikcp_get_conv return 0'')) (\<lambda>_. Inr m)
      | Some conv \<Rightarrow>
          (case find_by_conv m conv of
             None \<Rightarrow> Inr m
           | Some c \<Rightarrow> bindE (connection_input alloc c udp_data ep m) (\<lambda>(c, m).
                         Inr (m\<lparr>m_connections := (m_connections m)(conv \<mapsto> c)\<rparr>))))"

text \<open>The completion handler of the receive. \<open>error\<close> is the error code of the operation.\<close>

definition handle_udp_receive_from ::
    "allocator \<Rightarrow> socket \<Rightarrow> bool \<Rightarrow> bytes \<Rightarrow> endpoint \<Rightarrow> connection_manager \<Rightarrow> connection_manager outcome" where
  "handle_udp_receive_from alloc sock error udp_data ep m =
     (let m = m\<lparr>m_recv_armed := False\<rparr>
      in bindE (if \<not> error \<and> udp_data \<noteq> []
                then if is_connect_packet udp_data (length udp_data)
                     then handle_connect_packet alloc sock ep m
                     else handle_kcp_packet alloc udp_data ep m
                else Inr m)
           (\<lambda>m. Inr (hook_udp_async_receive m)))"

definition handle_kcp_time ::
    "socket \<Rightarrow> u64 \<times> u64 \<Rightarrow> u32 list \<Rightarrow> connection_manager \<Rightarrow> connection_manager outcome" where
  "handle_kcp_time sock tv order m =
     (let m = hook_kcp_timer (m\<lparr>m_timer_armed := False\<rparr>);
          m = m\<lparr>h_clock := iclock (fst tv) (snd tv)\<rparr>
      in update_all_kcp sock (h_clock m) order m)"

definition manager_send_msg ::
    "allocator \<Rightarrow> u32 \<Rightarrow> bytes \<Rightarrow> connection_manager \<Rightarrow> (int \<times> connection_manager) outcome" where
  "manager_send_msg alloc conv msg m =
     (case find_by_conv m conv of
        None \<Rightarrow> Inr (-1, m)
      | Some c \<Rightarrow> bindE (connection_send_kcp_msg alloc c msg) (\<lambda>c.
                    Inr (0, m\<lparr>m_connections := (m_connections m)(conv \<mapsto> c)\<rparr>)))"

section \<open>The event loop\<close>

text \<open>One thing that happens to a running server. A handler that fails has no successor.\<close>

inductive svr_step :: "connection_manager \<Rightarrow> connection_manager \<Rightarrow> bool" where
  svr_recv: "m_recv_armed m \<Longrightarrow> alloc_bounded alloc \<Longrightarrow>
     handle_udp_receive_from alloc sock error udp_data ep m = Inr m' \<Longrightarrow> svr_step m m'"
| svr_tick: "m_timer_armed m \<Longrightarrow> distinct order \<Longrightarrow> set order = dom (m_connections m) \<Longrightarrow>
     handle_kcp_time sock tv order m = Inr m' \<Longrightarrow> svr_step m m'"
| svr_send: "alloc_bounded alloc \<Longrightarrow> length msg < 2147483648 \<Longrightarrow>
     manager_send_msg alloc conv msg m = Inr (r, m') \<Longrightarrow> svr_step m m'"
| svr_disconnect: "manager_force_disconnect sock conv m = Inr m' \<Longrightarrow> svr_step m m'"
| svr_callback: "svr_step m (manager_set_callback func m)"
| svr_stop: "distinct order \<Longrightarrow> set order = dom (m_connections m) \<Longrightarrow>
     manager_stop_all sock order m = Inr m' \<Longrightarrow> svr_step m m'"

inductive_cases svr_stepE: "svr_step m m'"

definition manager_inv :: "connection_manager \<Rightarrow> bool" where
  "manager_inv m \<longleftrightarrow> h_alive m \<and> finite (dom (m_connections m)) \<and>
     (\<forall>conv c. m_connections m conv = Some c \<longrightarrow> conn_inv conv c)"

lemma manager_inv_conn: "manager_inv m \<Longrightarrow> m_connections m conv = Some c \<Longrightarrow> conn_inv conv c"
  by (simp add: manager_inv_def)

text \<open>The invariant looks at nothing but the map and the life of the manager.\<close>

lemma manager_inv_cong:
  "h_alive m' = h_alive m \<Longrightarrow> m_connections m' = m_connections m \<Longrightarrow> manager_inv m' = manager_inv m"
  by (simp add: manager_inv_def)

lemma manager_inv_set:
  "manager_inv m \<Longrightarrow> conn_inv conv c \<Longrightarrow> h_alive m' = h_alive m \<Longrightarrow>
     m_connections m' = (m_connections m)(conv \<mapsto> c) \<Longrightarrow> manager_inv m'"
  by (auto simp: manager_inv_def)

lemma manager_inv_erase:
  "manager_inv m \<Longrightarrow> h_alive m' = h_alive m \<Longrightarrow> m_connections m' = (m_connections m)(conv := None) \<Longrightarrow> manager_inv m'"
  by (auto simp: manager_inv_def)

text \<open>What \<open>remove_connection\<close> does.\<close>

lemma remove_connection_Inr:
  assumes "manager_inv m" "remove_connection sock conv m = Inr m'"
  shows "\<exists>out. m' = m\<lparr>m_connections := (m_connections m)(conv := None), h_sent := h_sent m @ out\<rparr> \<and>
    (\<forall>c. m_connections m conv = Some c \<longrightarrow>
       (\<exists>p. making_disconnect_packet conv = Some p \<and> out = [(p, c_endpoint c)]))"
proof (cases "m_connections m conv")
  case None
  then show ?thesis using assms(2) by (intro exI [of _ "[]"]) (simp add: remove_connection_def fun_upd_idem)
next
  case (Some c)
  obtain c' where "connection_destroy sock c (m\<lparr>m_connections := (m_connections m)(conv := None)\<rparr>) = Inr (c', m')"
    using assms(2) Some by (auto simp: remove_connection_def bindE_Inr_iff)
  from destroy_conn [OF manager_inv_conn [OF assms(1) Some] _ this] assms(1) Some show ?thesis
    by (auto simp: manager_inv_def)
qed

lemma remove_connection_inv:
  assumes "manager_inv m" "remove_connection sock conv m = Inr m'" shows "manager_inv m'"
  using remove_connection_Inr [OF assms] by (auto intro!: manager_inv_erase [OF assms(1)])

text \<open>The fields of the manager that a walk over the connections leaves alone.\<close>

definition walk_view :: "connection_manager \<Rightarrow> (bool \<times> bool \<times> bool \<times> u32) \<times> bool \<times> u32 \<times> bool \<times> bool" where
  "walk_view m = ((h_alive m, h_open m, h_callback m, h_clock m),
     m_stopped m, m_cur_conv m, m_recv_armed m, m_timer_armed m)"

section \<open>The timer\<close>

definition timed_out :: "u32 \<Rightarrow> connection \<Rightarrow> bool" where
  "timed_out now c \<longleftrightarrow> c_last_recv c \<noteq> 0 \<and> now - c_last_recv c > get_timeout_time"

text \<open>The engine of a connection that stays has had its update.\<close>

definition engine_ran :: "u32 \<Rightarrow> connection \<Rightarrow> connection \<Rightarrow> bool" where
  "engine_ran clock c c' \<longleftrightarrow>
     (\<exists>kcp kcp' out. c_kcp c = Some kcp \<and> ikcp_update kcp clock = Some (kcp', out) \<and> c_kcp c' = Some kcp')"

text \<open>One connection of the walk.\<close>

lemma update_one:
  assumes inv: "manager_inv m" and c: "m_connections m conv = Some c" and clock: "h_clock m = clock"
    and run: "update_all_kcp sock clock (conv # order) m = Inr m'"
  obtains m1 where "update_all_kcp sock clock order m1 = Inr m'" "manager_inv m1" "walk_view m1 = walk_view m"
    "\<And>k. k \<noteq> conv \<Longrightarrow> m_connections m1 k = m_connections m k"
    "timed_out clock c \<Longrightarrow> m_connections m1 conv = None \<and> h_events m1 = h_events m @ [(conv, eDisconnect, ascii ''timeout'')]"
    "\<not> timed_out clock c \<Longrightarrow> h_events m1 = h_events m \<and> (\<exists>c'. m_connections m1 conv = Some c' \<and>
       c_last_recv c' = c_last_recv c \<and> c_endpoint c' = c_endpoint c \<and> engine_ran clock c c')"
proof -
  have ci: "conn_inv conv c" by (rule manager_inv_conn [OF inv c])
  obtain c1 h1 where up: "connection_update_kcp sock c clock m = Inr (c1, h1)"
    and rest: "(let m = h1\<lparr>m_connections := (m_connections h1)(conv \<mapsto> c1)\<rparr>
          in if is_timeout c1 m
             then bindE (do_timeout c1 m) (\<lambda>m.
                  bindE (remove_connection sock conv m) (update_all_kcp sock clock order))
             else update_all_kcp sock clock order m) = Inr m'"
    using run c by (auto simp: bindE_Inr_iff)
  note c1 = update_conn_inv [OF ci up]
  have ran: "engine_ran clock c c1" using up by (auto simp: connection_update_kcp_def engine_ran_def bindE_Inr_iff)
  obtain out where h1: "h1 = m\<lparr>h_sent := h_sent m @ map (\<lambda>d. (d, c_endpoint c)) out\<rparr>" using c1(4) by blast
  define m2 where "m2 = h1\<lparr>m_connections := (m_connections h1)(conv \<mapsto> c1)\<rparr>"
  have m2: "manager_inv m2" "walk_view m2 = walk_view m" "h_events m2 = h_events m" "h_callback m2 = h_callback m"
    "m_connections m2 = (m_connections m)(conv \<mapsto> c1)" "h_alive m2"
    using inv c1(1) by (auto simp: m2_def h1 walk_view_def manager_inv_def)
  have to: "is_timeout c1 m2 \<longleftrightarrow> timed_out clock c"
    using m2(6) clock c1(3) by (simp add: is_timeout_def timed_out_def connection_get_cur_clock_def m2_def h1)
  show thesis
  proof (cases "timed_out clock c")
    case False
    then have "update_all_kcp sock clock order m2 = Inr m'" using rest to by (simp add: Let_def flip: m2_def)
    then show thesis using m2 c1 ran False by (intro that [of m2]) simp_all
  next
    case True
    then obtain m3 m4 where m3: "do_timeout c1 m2 = Inr m3" and m4: "remove_connection sock conv m3 = Inr m4"
      and go: "update_all_kcp sock clock order m4 = Inr m'"
      using rest to by (auto simp: Let_def bindE_Inr_iff simp flip: m2_def)
    have e: "m3 = m2\<lparr>h_events := h_events m2 @ [(conv, eDisconnect, ascii ''timeout'')]\<rparr>"
      using m3 m2(6) c1(1) by (auto simp: do_timeout_def callback_Inr conn_inv_def)
    have i3: "manager_inv m3" using m2(1) by (simp add: e manager_inv_def)
    obtain out2 where "m4 = m3\<lparr>m_connections := (m_connections m3)(conv := None), h_sent := h_sent m3 @ out2\<rparr>"
      using remove_connection_Inr [OF i3 m4] by blast
    then show thesis using True m2(2,3,5) remove_connection_inv [OF i3 m4]
      by (intro that [OF go]) (simp_all add: e walk_view_def)
  qed
qed

text \<open>What the walk does to one entry of the map: \<open>seen\<close> says whether the walk meets it.\<close>

definition swept :: "u32 \<Rightarrow> bool \<Rightarrow> connection option \<Rightarrow> connection option \<Rightarrow> bool" where
  "swept clock seen before after \<longleftrightarrow>
     (case before of
        None \<Rightarrow> after = None
      | Some c \<Rightarrow> if seen \<and> timed_out clock c then after = None
                  else \<exists>c'. after = Some c' \<and> c_last_recv c' = c_last_recv c \<and> c_endpoint c' = c_endpoint c \<and>
                    (if seen then engine_ran clock c c' else c' = c))"

text \<open>The whole walk: it drops exactly the connections that are over time, tells the user of each in the order it
  meets them, and keeps the others.\<close>

lemma update_all_result:
  assumes "manager_inv m" "h_clock m = clock" "distinct order" "set order \<subseteq> dom (m_connections m)"
    "update_all_kcp sock clock order m = Inr m'"
  shows "manager_inv m' \<and> walk_view m' = walk_view m \<and>
    h_events m' = h_events m @ map (\<lambda>conv. (conv, eDisconnect, ascii ''timeout''))
      (filter (\<lambda>conv. timed_out clock (the (m_connections m conv))) order) \<and>
    (\<forall>conv. swept clock (conv \<in> set order) (m_connections m conv) (m_connections m' conv))"
  using assms
proof (induction order arbitrary: m)
  case Nil
  then show ?case by (auto simp: swept_def split: option.split)
next
  case (Cons k order)
  obtain c where c: "m_connections m k = Some c" using Cons.prems(4) by auto
  obtain m1 where m1: "update_all_kcp sock clock order m1 = Inr m'" "manager_inv m1" "walk_view m1 = walk_view m"
    "\<And>j. j \<noteq> k \<Longrightarrow> m_connections m1 j = m_connections m j"
    "timed_out clock c \<Longrightarrow> m_connections m1 k = None \<and> h_events m1 = h_events m @ [(k, eDisconnect, ascii ''timeout'')]"
    "\<not> timed_out clock c \<Longrightarrow> h_events m1 = h_events m \<and> (\<exists>c'. m_connections m1 k = Some c' \<and>
       c_last_recv c' = c_last_recv c \<and> c_endpoint c' = c_endpoint c \<and> engine_ran clock c c')"
    using update_one [OF Cons.prems(1) c Cons.prems(2,5)] by metis
  have keep: "m_connections m1 j = m_connections m j" if "j \<in> set order" for j
    using that Cons.prems(3) m1(4) [of j] by auto
  have "set order \<subseteq> dom (m_connections m1)" using Cons.prems(4) keep by auto
  moreover have "h_clock m1 = clock" using m1(3) Cons.prems(2) by (simp add: walk_view_def)
  ultimately have IH: "manager_inv m'" "walk_view m' = walk_view m1"
    "h_events m' = h_events m1 @ map (\<lambda>conv. (conv, eDisconnect, ascii ''timeout''))
      (filter (\<lambda>conv. timed_out clock (the (m_connections m1 conv))) order)"
    "\<And>j. swept clock (j \<in> set order) (m_connections m1 j) (m_connections m' j)"
    using Cons.IH [OF m1(2) _ _ _ m1(1)] Cons.prems(3) by simp_all
  have filt: "filter (\<lambda>conv. timed_out clock (the (m_connections m1 conv))) order =
      filter (\<lambda>conv. timed_out clock (the (m_connections m conv))) order"
    using keep by (auto intro!: filter_cong)
  have "swept clock (j \<in> set (k # order)) (m_connections m j) (m_connections m' j)" for j
  proof (cases "j = k")
    case True
    then show ?thesis using IH(4) [of k] m1(5,6) c Cons.prems(3) by (cases "timed_out clock c") (auto simp: swept_def)
  next
    case False
    then show ?thesis using IH(4) [of j] m1(4) [of j] by simp
  qed
  then show ?case using IH(1-3) filt m1(3,5,6) c by (cases "timed_out clock c") auto
qed

lemma handle_kcp_time_result:
  assumes "manager_inv m" "distinct order" "set order = dom (m_connections m)" "handle_kcp_time sock tv order m = Inr m'"
  shows "manager_inv m' \<and> m_cur_conv m' = m_cur_conv m \<and>
    h_events m' = h_events m @ map (\<lambda>conv. (conv, eDisconnect, ascii ''timeout''))
      (filter (\<lambda>conv. timed_out (iclock (fst tv) (snd tv)) (the (m_connections m conv))) order) \<and>
    (\<forall>conv. swept (iclock (fst tv) (snd tv)) (conv \<in> dom (m_connections m)) (m_connections m conv) (m_connections m' conv))"
proof -
  define m1 where "m1 = (hook_kcp_timer (m\<lparr>m_timer_armed := False\<rparr>))\<lparr>h_clock := iclock (fst tv) (snd tv)\<rparr>"
  have m1: "manager_inv m1" "h_clock m1 = iclock (fst tv) (snd tv)" "m_connections m1 = m_connections m"
    "h_events m1 = h_events m" "m_cur_conv m1 = m_cur_conv m"
    using assms(1) by (simp_all add: m1_def hook_kcp_timer_def manager_inv_def)
  have "update_all_kcp sock (iclock (fst tv) (snd tv)) order m1 = Inr m'"
    using assms(4) m1(2) by (simp add: handle_kcp_time_def Let_def m1_def)
  from update_all_result [OF m1(1,2) assms(2) _ this] assms(3) m1(3-5) show ?thesis
    by (auto simp: walk_view_def)
qed

section \<open>The other handlers\<close>

lemma stop_all_inv:
  "manager_inv m \<Longrightarrow> container_stop_all sock order m = Inr m' \<Longrightarrow>
     manager_inv m' \<and> m_cur_conv m' = m_cur_conv m \<and> h_events m' = h_events m \<and>
     m_connections m' = m_connections m |` (- set order)"
proof (induction order arbitrary: m)
  case (Cons k order)
  obtain m1 where m1: "remove_connection sock k m = Inr m1" "container_stop_all sock order m1 = Inr m'"
    using Cons.prems(2) by (auto simp: bindE_Inr_iff)
  obtain out where "m1 = m\<lparr>m_connections := (m_connections m)(k := None), h_sent := h_sent m @ out\<rparr>"
    using remove_connection_Inr [OF Cons.prems(1) m1(1)] by blast
  then show ?case using Cons.IH [OF remove_connection_inv [OF Cons.prems(1) m1(1)] m1(2)]
    by (auto simp: restrict_map_def)
qed (simp add: restrict_map_def)

text \<open>Opening a conversation, while its number is free.\<close>

lemma handle_connect_result:
  assumes "manager_inv m" "handle_connect_packet alloc sock ep m = Inr m'" "m_connections m (m_cur_conv m + 1) = None"
  shows "\<exists>p c. making_send_back_conv_packet (m_cur_conv m + 1) = Some p \<and>
    m' = m\<lparr>m_cur_conv := m_cur_conv m + 1, h_sent := h_sent m @ [(p, ep)],
           m_connections := (m_connections m)(m_cur_conv m + 1 \<mapsto> c)\<rparr> \<and>
    conn_inv (m_cur_conv m + 1) c \<and> c_endpoint c = ep \<and> c_last_recv c = 0"
  using assms(2,3) create_conn_inv [of alloc "m_cur_conv m + 1" ep]
  by (auto simp: handle_connect_packet_def get_new_conv_def add_new_connection_def Let_def bindE_Inr_iff host_frame)

lemma handle_connect_inv:
  assumes "manager_inv m" "handle_connect_packet alloc sock ep m = Inr m'"
  shows "manager_inv m' \<and> m_cur_conv m' = m_cur_conv m + 1 \<and> m_cur_conv m + 1 \<in> dom (m_connections m') \<and>
    dom (m_connections m') = insert (m_cur_conv m + 1) (dom (m_connections m)) \<and> h_events m' = h_events m"
proof (cases "m_connections m (m_cur_conv m + 1)")
  case None
  then show ?thesis using handle_connect_result [OF assms None] assms(1) by (auto simp: manager_inv_def split: if_splits)
next
  case (Some c\<^sub>0)
  define conv where "conv = m_cur_conv m + 1"
  obtain p c c' where c: "connection_create alloc conv ep = Inr c"
    and clean: "connection_destroy sock c\<^sub>0 (m\<lparr>m_cur_conv := conv, h_sent := h_sent m @ [(p, ep)],
      m_connections := (m_connections m)(conv \<mapsto> c)\<rparr>) = Inr (c', m')"
    using assms(2) Some
    by (auto simp: handle_connect_packet_def get_new_conv_def add_new_connection_def Let_def bindE_Inr_iff host_frame
        simp flip: conv_def)
  have "h_alive m" "conn_inv conv c\<^sub>0" using assms(1) Some by (simp_all add: manager_inv_def conv_def)
  then have "\<exists>out. m' = m\<lparr>m_cur_conv := conv, h_sent := out, m_connections := (m_connections m)(conv \<mapsto> c)\<rparr>"
    using destroy_conn [OF _ _ clean] by auto
  then show ?thesis using assms(1) create_conn_inv(1) [OF c] by (auto simp: manager_inv_def conv_def split: if_splits)
qed

lemma handle_kcp_packet_result:
  assumes "manager_inv m" "alloc_bounded alloc" "handle_kcp_packet alloc d ep m = Inr m'"
  shows "m' = m \<or> (\<exists>conv c c' ev. ikcp_get_conv (Some d) (int (length d)) = Some conv \<and> m_connections m conv = Some c \<and>
    m' = m\<lparr>m_connections := (m_connections m)(conv \<mapsto> c'), h_events := h_events m @ ev\<rparr> \<and> conn_inv conv c' \<and>
    c_endpoint c' = ep \<and> c_last_recv c' = h_clock m \<and> (ev = [] \<or> (\<exists>msg. ev = [(conv, eRcvMsg, msg)])))"
proof (cases "ikcp_get_conv (Some d) (int (length d))")
  case None
  then show ?thesis using assms(3) by (simp add: handle_kcp_packet_def assert_check_cases)
next
  case (Some conv)
  show ?thesis
  proof (cases "m_connections m conv")
    case None
    then show ?thesis using assms(3) Some by (simp add: handle_kcp_packet_def find_by_conv_def)
  next
    case (Some c)
    obtain c' h' where run: "connection_input alloc c d ep m = Inr (c', h')"
      and m': "m' = h'\<lparr>m_connections := (m_connections h')(conv \<mapsto> c')\<rparr>"
      using assms(3) Some \<open>ikcp_get_conv _ _ = _\<close> by (auto simp: handle_kcp_packet_def find_by_conv_def bindE_Inr_iff)
    have "h_alive m" using assms(1) by (simp add: manager_inv_def)
    then have clock: "connection_get_cur_clock m = h_clock m" by (simp add: connection_get_cur_clock_def)
    note r = input_conn_inv [OF manager_inv_conn [OF assms(1) Some] run assms(2)]
    obtain ev where "h' = m\<lparr>h_events := h_events m @ ev\<rparr>" "ev = [] \<or> (\<exists>msg. ev = [(conv, eRcvMsg, msg)])"
      using r(4) by force
    then show ?thesis using r(1-3) clock Some \<open>ikcp_get_conv _ _ = _\<close> m' by auto
  qed
qed

text \<open>The receive handler is one of the two packet handlers, between taking and renewing the hook.\<close>

lemma hook_receive_fields [simp]:
  "h_alive (hook_udp_async_receive m) = h_alive m" "m_connections (hook_udp_async_receive m) = m_connections m"
  "m_cur_conv (hook_udp_async_receive m) = m_cur_conv m" "h_events (hook_udp_async_receive m) = h_events m"
  "h_sent (hook_udp_async_receive m) = h_sent m"
  by (simp_all add: hook_udp_async_receive_def)

lemma receive_inv:
  assumes "manager_inv m" "alloc_bounded alloc" "handle_udp_receive_from alloc sock error d ep m = Inr m'"
  shows "manager_inv m' \<and> m_cur_conv m' \<in> {m_cur_conv m, m_cur_conv m + 1} \<and>
    dom (m_connections m') \<subseteq> dom (m_connections m) \<union> {m_cur_conv m'} \<and>
    (m_cur_conv m' = m_cur_conv m \<longrightarrow> dom (m_connections m') = dom (m_connections m))"
proof -
  define m0 where "m0 = m\<lparr>m_recv_armed := False\<rparr>"
  have m0: "manager_inv m0" "m_connections m0 = m_connections m" "m_cur_conv m0 = m_cur_conv m"
    using assms(1) by (simp_all add: m0_def manager_inv_def)
  obtain m1 where m': "m' = hook_udp_async_receive m1"
    and "handle_connect_packet alloc sock ep m0 = Inr m1 \<or> handle_kcp_packet alloc d ep m0 = Inr m1 \<or> m1 = m0"
    using assms(3) by (auto simp: handle_udp_receive_from_def bindE_Inr_iff simp flip: m0_def split: if_splits)
  then have "manager_inv m1 \<and> m_cur_conv m1 \<in> {m_cur_conv m, m_cur_conv m + 1} \<and>
    dom (m_connections m1) \<subseteq> dom (m_connections m) \<union> {m_cur_conv m1} \<and>
    (m_cur_conv m1 = m_cur_conv m \<longrightarrow> dom (m_connections m1) = dom (m_connections m))"
  proof (elim disjE)
    assume "handle_connect_packet alloc sock ep m0 = Inr m1"
    from handle_connect_inv [OF m0(1) this] m0 show ?thesis by auto
  next
    assume "handle_kcp_packet alloc d ep m0 = Inr m1"
    from handle_kcp_packet_result [OF m0(1) assms(2) this] m0 show ?thesis
      by (auto simp: manager_inv_def split: if_splits)
  qed (use m0 in auto)
  then show ?thesis unfolding m' by (simp add: manager_inv_def)
qed

section \<open>Runs of the server\<close>

text \<open>One step keeps the invariant; the counter moves at most by one, and only numbers the counter has passed
  are in use.\<close>

definition convs_below :: "connection_manager \<Rightarrow> bool" where
  "convs_below m \<longleftrightarrow> 1000 \<le> unat (m_cur_conv m) \<and>
     (\<forall>conv \<in> dom (m_connections m). 1000 < unat conv \<and> unat conv \<le> unat (m_cur_conv m))"

lemma svr_step_result:
  assumes "manager_inv m" "svr_step m m'"
  shows "manager_inv m' \<and>
    (m_cur_conv m' = m_cur_conv m \<and> dom (m_connections m') \<subseteq> dom (m_connections m) \<or>
     m_cur_conv m' = m_cur_conv m + 1 \<and> dom (m_connections m') \<subseteq> insert (m_cur_conv m + 1) (dom (m_connections m)))"
  using assms(2)
proof cases
  case (svr_recv alloc sock error d ep)
  then show ?thesis using receive_inv [OF assms(1) svr_recv(2,3)] by auto
next
  case (svr_tick order sock tv)
  note r = handle_kcp_time_result [OF assms(1) svr_tick(2,3,4)]
  then have "dom (m_connections m') \<subseteq> dom (m_connections m)" by (force simp: swept_def split: option.splits)
  then show ?thesis using r by simp
next
  case (svr_send alloc msg conv r)
  show ?thesis
  proof (cases "m_connections m conv")
    case (Some c)
    then obtain c' where run: "connection_send_kcp_msg alloc c msg = Inr c'"
      and m': "m' = m\<lparr>m_connections := (m_connections m)(conv \<mapsto> c')\<rparr>"
      using svr_send(3) by (auto simp: manager_send_msg_def find_by_conv_def bindE_Inr_iff)
    have "conn_inv conv c'" by (rule send_msg_inv(1) [OF manager_inv_conn [OF assms(1) Some] run svr_send(1,2)])
    then have "manager_inv m'" by (rule manager_inv_set [OF assms(1)]) (simp_all add: m')
    then show ?thesis using Some by (auto simp: m')
  qed (use svr_send(3) assms(1) in \<open>simp add: manager_send_msg_def find_by_conv_def\<close>)
next
  case (svr_disconnect sock conv)
  show ?thesis
  proof (cases "m_connections m conv = None")
    case False
    then obtain ev where run: "remove_connection sock conv (m\<lparr>h_events := ev\<rparr>) = Inr m'"
      using svr_disconnect by (auto simp: manager_force_disconnect_def find_by_conv_def bindE_Inr_iff callback_Inr)
    have inv: "manager_inv (m\<lparr>h_events := ev\<rparr>)" using assms(1) by (simp add: manager_inv_def)
    show ?thesis using remove_connection_Inr [OF inv run] remove_connection_inv [OF inv run]
      by (auto split: if_splits)
  qed (use svr_disconnect assms(1) in \<open>simp add: manager_force_disconnect_def find_by_conv_def\<close>)
next
  case (svr_callback func)
  then show ?thesis using assms(1) by (simp add: manager_set_callback_def manager_inv_def)
next
  case (svr_stop order sock)
  obtain m1 where "container_stop_all sock order (m\<lparr>m_stopped := True\<rparr>) = Inr m1" "m' = m1\<lparr>h_open := False\<rparr>"
    using svr_stop(3) by (auto simp: manager_stop_all_def bindE_Inr_iff split: if_splits)
  moreover have "manager_inv (m\<lparr>m_stopped := True\<rparr>)" using assms(1) by (simp add: manager_inv_def)
  ultimately have "manager_inv m1" "m_cur_conv m1 = m_cur_conv m" "m_connections m1 = m_connections m |` (- set order)"
    using stop_all_inv [of "m\<lparr>m_stopped := True\<rparr>" sock order m1] by simp_all
  then show ?thesis using \<open>m' = _\<close> by (simp add: manager_inv_def)
qed

lemma convs_below_step:
  assumes "manager_inv m" "convs_below m" "svr_step m m'" "unat (m_cur_conv m) < 4294967295"
  shows "convs_below m' \<and> unat (m_cur_conv m') \<le> Suc (unat (m_cur_conv m))"
proof -
  have up: "unat (m_cur_conv m + 1) = Suc (unat (m_cur_conv m))"
    using assms(4) by (simp add: unat32_add_small)
  from svr_step_result [OF assms(1,3)] consider
      "m_cur_conv m' = m_cur_conv m" "dom (m_connections m') \<subseteq> dom (m_connections m)"
    | "m_cur_conv m' = m_cur_conv m + 1" "dom (m_connections m') \<subseteq> insert (m_cur_conv m + 1) (dom (m_connections m))"
    by blast
  then show ?thesis
  proof cases
    case 1
    then show ?thesis using assms(2) by (auto simp: convs_below_def)
  next
    case 2
    have "1000 < unat conv \<and> unat conv \<le> Suc (unat (m_cur_conv m))" if "conv \<in> dom (m_connections m')" for conv
    proof (cases "conv = m_cur_conv m + 1")
      case True
      then show ?thesis using assms(2) up by (simp add: convs_below_def)
    next
      case False
      then have "conv \<in> dom (m_connections m)" using that 2(2) by blast
      then show ?thesis using assms(2) unfolding convs_below_def by (meson le_SucI)
    qed
    then show ?thesis using 2(1) assms(2) up by (simp add: convs_below_def)
  qed
qed

lemma new_manager_inv: "manager_inv connection_manager_new"
  by (simp add: connection_manager_new_def hook_kcp_timer_def hook_udp_async_receive_def manager_inv_def)

text \<open>As long as the counter has not gone round, which takes more than four thousand million steps.\<close>

lemma convs_below_run:
  "(svr_step ^^ n) connection_manager_new m \<Longrightarrow> n < 4294966296 \<Longrightarrow>
     manager_inv m \<and> convs_below m \<and> unat (m_cur_conv m) \<le> 1000 + n"
proof (induction n arbitrary: m)
  case 0
  then show ?case using new_manager_inv
    by (auto simp: convs_below_def connection_manager_new_def hook_kcp_timer_def hook_udp_async_receive_def)
next
  case (Suc n)
  obtain m1 where m1: "(svr_step ^^ n) connection_manager_new m1" "svr_step m1 m" using Suc.prems(1) by auto
  then have IH: "manager_inv m1" "convs_below m1" "unat (m_cur_conv m1) \<le> 1000 + n" using Suc by simp_all
  then show ?case using convs_below_step [OF IH(1,2) m1(2)] svr_step_result [OF IH(1) m1(2)] Suc.prems(2) by auto
qed

interpretation svr: step_system "\<lambda>m. m = connection_manager_new" svr_step manager_inv
  by unfold_locales (use new_manager_inv svr_step_result in blast)+

end
