(* ===== verification/Std_Map.thy ===== *)
theory Std_Map
  imports Kcp_Prelude
begin

text \<open>
  \<open>std::map\<close> with 32-bit keys, as the multicast components use it: the entries in the order of their keys,
  which is the order in which a range-for meets them. The interface is a locale; its laws are discharged for
  the ordered association list, and the lemmas the multicast proofs use are proved from the laws.
\<close>

type_synonym 'v std_map = "(u32 \<times> 'v) list"

fun map_put :: "u32 \<Rightarrow> 'v \<Rightarrow> 'v std_map \<Rightarrow> 'v std_map" where
  "map_put k v [] = [(k, v)]"
| "map_put k v ((j, w) # xs) =
     (if k = j then (k, v) # xs else if k < j then (k, v) # (j, w) # xs else (j, w) # map_put k v xs)"

definition map_erase :: "u32 \<Rightarrow> 'v std_map \<Rightarrow> 'v std_map" where
  "map_erase k xs = filter (\<lambda>e. fst e \<noteq> k) xs"

definition map_ok :: "'v std_map \<Rightarrow> bool" where
  "map_ok xs \<longleftrightarrow> sorted_wrt (<) (map fst xs)"

locale ordered_map =
  fixes ok :: "'m \<Rightarrow> bool" and find :: "'m \<Rightarrow> u32 \<Rightarrow> 'v option" and put :: "u32 \<Rightarrow> 'v \<Rightarrow> 'm \<Rightarrow> 'm"
    and erase :: "u32 \<Rightarrow> 'm \<Rightarrow> 'm" and entries :: "'m \<Rightarrow> (u32 \<times> 'v) list"
  assumes find_put: "ok m \<Longrightarrow> find (put k v m) j = (if j = k then Some v else find m j)"
    and find_erase: "ok m \<Longrightarrow> find (erase k m) j = (if j = k then None else find m j)"
    and ok_put: "ok m \<Longrightarrow> ok (put k v m)"
    and ok_erase: "ok m \<Longrightarrow> ok (erase k m)"
    and entries_sorted: "ok m \<Longrightarrow> sorted_wrt (<) (map fst (entries m))"
    and entries_find: "ok m \<Longrightarrow> (k, v) \<in> set (entries m) \<longleftrightarrow> find m k = Some v"
begin

lemma entries_distinct: "ok m \<Longrightarrow> distinct (map fst (entries m))"
  using entries_sorted strict_sorted_iff by blast

lemma entries_put_set:
  assumes "ok m"
  shows "set (entries (put k v m)) = insert (k, v) {(j, w). find m j = Some w \<and> j \<noteq> k}"
  using entries_find [OF ok_put [OF assms]] find_put [OF assms] by (auto split: if_splits)

text \<open>Erasing the keys of a list, one after the other.\<close>

lemma find_erase_all: "ok m \<Longrightarrow> find (fold erase ks m) j = (if j \<in> set ks then None else find m j)"
  by (induction ks arbitrary: m) (auto simp: find_erase ok_erase)

end

lemma map_put_keys [simp]: "fst ` set (map_put k v xs) = insert k (fst ` set xs)"
  by (induction k v xs rule: map_put.induct) (simp_all add: insert_commute)

lemma map_put_ok: "map_ok xs \<Longrightarrow> map_ok (map_put k v xs)"
proof (induction k v xs rule: map_put.induct)
  case (2 k v j w xs)
  then have tail: "map_ok xs" "\<forall>i \<in> fst ` set xs. j < i" by (simp_all add: map_ok_def)
  consider "k = j" | "k < j" | "j < k" by (rule linorder_cases)
  then show ?case
  proof cases
    case 3
    then have "map_ok (map_put k v xs)" "\<forall>i \<in> fst ` set (map_put k v xs). j < i" using 2 tail by auto
    moreover have "\<not> k < j" "k \<noteq> j" using 3 by auto
    ultimately show ?thesis by (simp add: map_ok_def)
  qed (use tail in \<open>auto simp: map_ok_def dest: less_trans\<close>)
qed (simp add: map_ok_def)

interpretation sm: ordered_map map_ok map_of map_put map_erase "\<lambda>m. m"
proof unfold_locales
  fix xs :: "'v std_map" and k j :: u32 and v :: 'v
  assume ok: "map_ok xs"
  show "map_of (map_put k v xs) j = (if j = k then Some v else map_of xs j)"
    using ok by (induction xs) (auto simp: map_ok_def)
  show "map_of (map_erase k xs) j = (if j = k then None else map_of xs j)"
    by (induction xs) (auto simp: map_erase_def)
  show "map_ok (map_put k v xs)" by (rule map_put_ok [OF ok])
  show "map_ok (map_erase k xs)"
    using ok sorted_wrt_filter [of "(<)" "map fst xs" "\<lambda>j. j \<noteq> k"]
    by (simp add: map_ok_def map_erase_def filter_map o_def)
  show "sorted_wrt (<) (map fst xs)" using ok by (simp add: map_ok_def)
  show "(k, v) \<in> set xs \<longleftrightarrow> map_of xs k = Some v"
    using ok strict_sorted_iff by (metis map_of_eq_Some_iff map_ok_def)
qed

text \<open>A key above all others goes to the end.\<close>

lemma map_put_last: "\<forall>j \<in> set (map fst xs). j < k \<Longrightarrow> map_put k v xs = xs @ [(k, v)]"
  by (induction xs) auto

end
