(* ===== verification/Multicast_Manager.thy ===== *)
theory Multicast_Manager
  imports Std_Map Check_Function Kcp_Basic
begin

text \<open>
  The sending side of reliable multicast: \<open>UdpMulticastManager\<close> of
  \<open>src/server_lib/udp_multicast_manager.cpp\<close>. Each group keeps the messages it has sent and not yet seen
  acknowledged, by sequence number, and a timer that sends them again.

  Parameters: \<open>sock\<close> says whether \<open>send_to\<close> accepts a datagram (a refusal is an exception, which the code
  catches); \<open>from_string\<close> is \<open>address::from_string\<close>, which gives an IPv4 or an IPv6 address and throws on a malformed text;
  \<open>sockopt\<close> says whether opening the socket for the protocol of the address and setting its options succeeds; the random generator hands over the two
  numbers and the port it drew.

  The timer is a \<open>deadline_timer\<close>: \<open>g_waiting\<close> counts the handlers waiting for it, \<open>g_queued\<close> those that
  have completed and wait for their turn in the event loop. \<open>expires_from_now\<close> and \<open>cancel\<close> complete every
  waiting handler at once, with an error code; the code binds \<open>handle_retransmit\<close> without that code, so
  a cancelled wait runs the handler like an expired one. Log output is left out.
\<close>

text \<open>An address is an IPv4 address or an IPv6 address; the latter is given by the text that \<open>to_string\<close> prints for it. An
  endpoint has the protocol of its address, and the socket of a group is opened for that protocol.\<close>

datatype ip_address = V4 u32 | V6 bytes

type_synonym mc_endpoint = "ip_address \<times> u16"

record mc_group =
  g_endpoint :: mc_endpoint
  g_open :: bool
  g_next_seq :: u32
  g_sent_msgs :: "bytes std_map"
  g_waiting :: nat
  g_queued :: nat

record mc_manager =
  mm_groups :: "mc_group std_map"
  mm_next_group_id :: u32
  mm_out :: "(bytes \<times> mc_endpoint) list"

definition MULTICAST_PREFIX :: bytes where "MULTICAST_PREFIX = ascii ''239.255.''"
definition MULTICAST_PORT_MIN :: u16 where "MULTICAST_PORT_MIN = 30000"
definition MULTICAST_PORT_MAX :: u16 where "MULTICAST_PORT_MAX = 40000"

definition mc_group_new :: mc_group where
  "mc_group_new = \<lparr>g_endpoint = (V4 0, 0), g_open = False, g_next_seq = 0, g_sent_msgs = [], g_waiting = 0, g_queued = 0\<rparr>"

definition mc_manager_new :: mc_manager where
  "mc_manager_new = \<lparr>mm_groups = [], mm_next_group_id = 1, mm_out = []\<rparr>"

text \<open>The numbers drawn: two bytes of the address and a port.\<close>

type_synonym draws = "nat \<times> nat \<times> u16"

definition generate_multicast_address :: "draws \<Rightarrow> bytes \<times> u16" where
  "generate_multicast_address rnd =
     (case rnd of (a, b, port) \<Rightarrow> (MULTICAST_PREFIX @ print_nat a @ ascii ''.'' @ print_nat b, port))"

text \<open>\<open>False\<close> when an exception was caught.\<close>

definition init_group_socket ::
    "(bytes \<Rightarrow> ip_address option) \<Rightarrow> bool \<Rightarrow> mc_group \<Rightarrow> bytes \<Rightarrow> u16 \<Rightarrow> bool \<times> mc_group" where
  "init_group_socket from_string sockopt g multicast_addr port =
     (case from_string multicast_addr of
        None \<Rightarrow> (False, g)
      | Some a \<Rightarrow> if sockopt then (True, g\<lparr>g_endpoint := (a, port), g_open := True\<rparr>)
                  else (False, g\<lparr>g_endpoint := (a, port)\<rparr>))"

definition create_group ::
    "(bytes \<Rightarrow> ip_address option) \<Rightarrow> bool \<Rightarrow> draws \<Rightarrow> mc_manager \<Rightarrow> bytes \<Rightarrow> u16 \<Rightarrow> u32 \<times> mc_manager" where
  "create_group from_string sockopt rnd mm multicast_addr port =
     (let group_id = mm_next_group_id mm;
          mm = mm\<lparr>mm_next_group_id := mm_next_group_id mm + 1\<rparr>;
          (mc_addr, mc_port) =
            (if multicast_addr = [] \<or> port = 0 then generate_multicast_address rnd else (multicast_addr, port));
          (ok, g) = init_group_socket from_string sockopt mc_group_new mc_addr mc_port
      in if \<not> ok then (0, mm)
         else (group_id, mm\<lparr>mm_groups := map_put group_id g (mm_groups mm)\<rparr>))"

section \<open>The timer of a group\<close>

text \<open>\<open>cancel\<close> and the first half of \<open>expires_from_now\<close>.\<close>

definition timer_cancel :: "mc_group \<Rightarrow> mc_group" where
  "timer_cancel g = g\<lparr>g_queued := g_queued g + g_waiting g, g_waiting := 0\<rparr>"

definition timer_arm :: "mc_group \<Rightarrow> mc_group" where
  "timer_arm g = (let g = timer_cancel g in g\<lparr>g_waiting := g_waiting g + 1\<rparr>)"

section \<open>Sending\<close>

definition set_group :: "u32 \<Rightarrow> mc_group \<Rightarrow> mc_manager \<Rightarrow> mc_manager" where
  "set_group group_id g mm = mm\<lparr>mm_groups := map_put group_id g (mm_groups mm)\<rparr>"

text \<open>\<open>socket.send_to\<close>: \<open>None\<close> is an exception.\<close>

definition group_send ::
    "(bytes \<Rightarrow> mc_endpoint \<Rightarrow> bool) \<Rightarrow> mc_group \<Rightarrow> bytes \<Rightarrow> mc_manager \<Rightarrow> mc_manager option" where
  "group_send sock g msg mm =
     (if g_open g \<and> sock msg (g_endpoint g) then Some (mm\<lparr>mm_out := mm_out mm @ [(msg, g_endpoint g)]\<rparr>) else None)"

definition delete_group :: "mc_manager \<Rightarrow> u32 \<Rightarrow> bool \<times> mc_manager" where
  "delete_group mm group_id =
     (case map_of (mm_groups mm) group_id of
        None \<Rightarrow> (False, mm)
      | Some g \<Rightarrow> (True, mm\<lparr>mm_groups := map_erase group_id (mm_groups mm)\<rparr>))"

definition send_to_group ::
    "(bytes \<Rightarrow> mc_endpoint \<Rightarrow> bool) \<Rightarrow> mc_manager \<Rightarrow> u32 \<Rightarrow> bytes \<Rightarrow> mc_manager" where
  "send_to_group sock mm group_id msg =
     (case map_of (mm_groups mm) group_id of
        None \<Rightarrow> mm
      | Some g \<Rightarrow> (case group_send sock g msg mm of None \<Rightarrow> mm | Some mm \<Rightarrow> mm))"

text \<open>\<open>htonl\<close> and \<open>memcpy\<close> of its result, on a little-endian host: the most significant byte first.\<close>

definition htonl_bytes :: "u32 \<Rightarrow> bytes" where
  "htonl_bytes seq = rev (store_native32 seq)"

definition seq_message :: "u32 \<Rightarrow> bytes \<Rightarrow> bytes" where
  "seq_message seq msg = htonl_bytes seq @ msg"

definition send_reliable_to_group ::
    "(bytes \<Rightarrow> mc_endpoint \<Rightarrow> bool) \<Rightarrow> mc_manager \<Rightarrow> u32 \<Rightarrow> bytes \<Rightarrow> mc_manager" where
  "send_reliable_to_group sock mm group_id msg =
     (case map_of (mm_groups mm) group_id of
        None \<Rightarrow> mm
      | Some g \<Rightarrow>
          let seq = g_next_seq g;
              g = g\<lparr>g_next_seq := g_next_seq g + 1, g_sent_msgs := map_put seq msg (g_sent_msgs g)\<rparr>;
              mm = set_group group_id g mm
          in case group_send sock g (seq_message seq msg) mm of
               None \<Rightarrow> mm
             | Some mm \<Rightarrow> set_group group_id (timer_arm g) mm)"

text \<open>The loop of \<open>handle_retransmit\<close>; a message whose sending throws is skipped.\<close>

fun retransmit_all ::
    "(bytes \<Rightarrow> mc_endpoint \<Rightarrow> bool) \<Rightarrow> mc_group \<Rightarrow> (u32 \<times> bytes) list \<Rightarrow> mc_manager \<Rightarrow> mc_manager" where
  "retransmit_all sock g [] mm = mm"
| "retransmit_all sock g ((seq, msg) # msgs) mm =
     retransmit_all sock g msgs
       (case group_send sock g (seq_message seq msg) mm of None \<Rightarrow> mm | Some mm \<Rightarrow> mm)"

definition handle_retransmit ::
    "(bytes \<Rightarrow> mc_endpoint \<Rightarrow> bool) \<Rightarrow> mc_manager \<Rightarrow> u32 \<Rightarrow> mc_manager" where
  "handle_retransmit sock mm group_id =
     (case map_of (mm_groups mm) group_id of
        None \<Rightarrow> mm
      | Some g \<Rightarrow>
          if g_sent_msgs g = [] then mm
          else set_group group_id (timer_arm g) (retransmit_all sock g (g_sent_msgs g) mm))"

definition handle_ack :: "mc_manager \<Rightarrow> u32 \<Rightarrow> u32 \<Rightarrow> mc_manager" where
  "handle_ack mm group_id seq =
     (case map_of (mm_groups mm) group_id of
        None \<Rightarrow> mm
      | Some g \<Rightarrow> set_group group_id (g\<lparr>g_sent_msgs := map_erase seq (g_sent_msgs g)\<rparr>) mm)"

text \<open>\<open>to_string\<close> of an address.\<close>

fun address_to_string :: "ip_address \<Rightarrow> bytes" where
  "address_to_string (V6 t) = t"
| "address_to_string (V4 a) =
     print_nat (unat (drop_bit 24 a)) @ [46] @ print_nat (unat (drop_bit 16 a AND 255)) @ [46]
     @ print_nat (unat (drop_bit 8 a AND 255)) @ [46] @ print_nat (unat (a AND 255))"

definition get_group_info :: "mc_manager \<Rightarrow> u32 \<Rightarrow> bytes" where
  "get_group_info mm group_id =
     (case map_of (mm_groups mm) group_id of
        None \<Rightarrow> ascii ''Group not found''
      | Some g \<Rightarrow>
          ascii ''Group ID: '' @ print_u32 group_id @ [10]
          @ ascii ''Multicast Address: '' @ address_to_string (fst (g_endpoint g)) @ [10]
          @ ascii ''Port: '' @ print_nat (unat (snd (g_endpoint g))) @ [10]
          @ ascii ''Pending Messages: '' @ print_nat (length (g_sent_msgs g)))"

definition mc_stop :: "mc_manager \<Rightarrow> mc_manager" where
  "mc_stop mm = mm\<lparr>mm_groups := []\<rparr>"

section \<open>What the event loop adds\<close>

text \<open>The timer of a group expires: all its waiting handlers are queued. A queued handler runs.\<close>

definition timer_expire :: "mc_manager \<Rightarrow> u32 \<Rightarrow> mc_manager" where
  "timer_expire mm group_id =
     (case map_of (mm_groups mm) group_id of None \<Rightarrow> mm | Some g \<Rightarrow> set_group group_id (timer_cancel g) mm)"

definition run_queued :: "(bytes \<Rightarrow> mc_endpoint \<Rightarrow> bool) \<Rightarrow> mc_manager \<Rightarrow> u32 \<Rightarrow> mc_manager option" where
  "run_queued sock mm group_id =
     (case map_of (mm_groups mm) group_id of
        None \<Rightarrow> None
      | Some g \<Rightarrow>
          if g_queued g = 0 then None
          else Some (handle_retransmit sock (set_group group_id (g\<lparr>g_queued := g_queued g - 1\<rparr>) mm) group_id))"

section \<open>The invariant\<close>

definition mc_inv :: "mc_manager \<Rightarrow> bool" where
  "mc_inv mm \<longleftrightarrow> map_ok (mm_groups mm) \<and> (\<forall>k g. map_of (mm_groups mm) k = Some g \<longrightarrow> map_ok (g_sent_msgs g))"

lemma mc_inv_set:
  "mc_inv mm \<Longrightarrow> map_ok (g_sent_msgs g) \<Longrightarrow> mc_inv (set_group k g mm)"
  by (auto simp: mc_inv_def set_group_def sm.find_put sm.ok_put split: if_splits)

lemma mc_inv_out [simp]: "mc_inv (mm\<lparr>mm_out := out\<rparr>) = mc_inv mm" "mc_inv (mm\<lparr>mm_next_group_id := i\<rparr>) = mc_inv mm"
  by (simp_all add: mc_inv_def)

lemma find_set_group [simp]:
  "mc_inv mm \<Longrightarrow> map_of (mm_groups (set_group k g mm)) j = (if j = k then Some g else map_of (mm_groups mm) j)"
  by (simp add: mc_inv_def set_group_def sm.find_put)

lemma group_msgs_ok: "mc_inv mm \<Longrightarrow> map_of (mm_groups mm) k = Some g \<Longrightarrow> map_ok (g_sent_msgs g)"
  by (simp add: mc_inv_def)

lemma timer_arm_fields [simp]:
  "g_sent_msgs (timer_arm g) = g_sent_msgs g" "g_next_seq (timer_arm g) = g_next_seq g" "g_open (timer_arm g) = g_open g"
  "g_endpoint (timer_arm g) = g_endpoint g" "g_waiting (timer_arm g) = 1" "g_queued (timer_arm g) = g_queued g + g_waiting g"
  "g_sent_msgs (timer_cancel g) = g_sent_msgs g"
  by (simp_all add: timer_arm_def timer_cancel_def Let_def)

lemma group_send_Some: "group_send sock g msg mm = Some mm' \<Longrightarrow> mm' = mm\<lparr>mm_out := mm_out mm @ [(msg, g_endpoint g)]\<rparr>"
  by (simp add: group_send_def split: if_splits)

text \<open>A retransmission only adds to what was sent: one datagram for each message the socket takes, in the order of
  the sequence numbers.\<close>

lemma retransmit_all_eq:
  "g_open g \<Longrightarrow> retransmit_all sock g msgs mm =
     mm\<lparr>mm_out := mm_out mm @ map (\<lambda>m. (m, g_endpoint g))
       (filter (\<lambda>m. sock m (g_endpoint g)) (map (\<lambda>(seq, msg). seq_message seq msg) msgs))\<rparr>"
  by (induction msgs arbitrary: mm) (auto simp: group_send_def)

lemma retransmit_all_inv: "mc_inv mm \<Longrightarrow> mc_inv (retransmit_all sock g msgs mm)"
  by (induction msgs arbitrary: mm) (auto simp: group_send_def split: if_splits)

lemma retransmit_all_groups [simp]: "mm_groups (retransmit_all sock g msgs mm) = mm_groups mm"
  by (induction msgs arbitrary: mm) (auto simp: group_send_def split: if_splits)

lemma mc_ops_inv:
  assumes "mc_inv mm"
  shows "mc_inv (snd (create_group from_string sockopt rnd mm addr port))"
    "mc_inv (snd (delete_group mm k))" "mc_inv (send_to_group sock mm k msg)"
    "mc_inv (send_reliable_to_group sock mm k msg)" "mc_inv (handle_retransmit sock mm k)"
    "mc_inv (handle_ack mm k seq)" "mc_inv (mc_stop mm)" "mc_inv (timer_expire mm k)"
    "run_queued sock mm k = Some mm' \<Longrightarrow> mc_inv mm'"
proof -
  have set: "mc_inv (set_group k g mm\<^sub>0)" if "mc_inv mm\<^sub>0" "map_ok (g_sent_msgs g)" for mm\<^sub>0 g
    using mc_inv_set that .
  have re: "mc_inv (handle_retransmit sock mm\<^sub>0 k)" if "mc_inv mm\<^sub>0" for mm\<^sub>0
    using that group_msgs_ok [OF that] mc_inv_set [OF retransmit_all_inv [OF that]]
    by (auto simp: handle_retransmit_def split: option.split)
  show "mc_inv (snd (create_group from_string sockopt rnd mm addr port))"
  proof -
    have "map_ok (g_sent_msgs (snd (init_group_socket from_string sockopt mc_group_new a p)))" for a p
      by (simp add: init_group_socket_def mc_group_new_def map_ok_def split: option.split)
    then have "mc_inv (set_group i (snd (init_group_socket from_string sockopt mc_group_new a p)) (mm\<lparr>mm_next_group_id := n\<rparr>))" for i a p n
      using mc_inv_set assms by simp
    then show ?thesis using assms
      by (simp add: create_group_def Let_def case_prod_beta set_group_def)
  qed
  show "mc_inv (snd (delete_group mm k))" using assms
    by (auto simp: delete_group_def mc_inv_def sm.find_erase sm.ok_erase split: option.split if_splits)
  show "mc_inv (send_to_group sock mm k msg)" using assms
    by (auto simp: send_to_group_def group_send_def split: option.split)
  show "mc_inv (send_reliable_to_group sock mm k msg)" using assms group_msgs_ok [OF assms]
    by (auto simp: send_reliable_to_group_def Let_def group_send_def sm.ok_put intro!: mc_inv_set split: option.split)
  show "mc_inv (handle_retransmit sock mm k)" by (rule re [OF assms])
  show "mc_inv (handle_ack mm k seq)" using assms group_msgs_ok [OF assms]
    by (auto simp: handle_ack_def sm.ok_erase intro!: mc_inv_set split: option.split)
  show "mc_inv (mc_stop mm)" by (simp add: mc_stop_def mc_inv_def map_ok_def)
  show "mc_inv (timer_expire mm k)" using assms group_msgs_ok [OF assms]
    by (auto simp: timer_expire_def intro!: mc_inv_set split: option.split)
  show "mc_inv mm'" if "run_queued sock mm k = Some mm'"
    using that group_msgs_ok [OF assms] re [OF mc_inv_set [OF assms]]
    by (fastforce simp: run_queued_def split: option.splits if_splits)
qed

text \<open>Handlers feed each other: while a message is unacknowledged, running a queued handler with another one
  waiting queues that one and waits again.\<close>

lemma run_queued_eq:
  assumes "mc_inv mm" "map_of (mm_groups mm) k = Some g" "0 < g_queued g" "g_sent_msgs g \<noteq> []" "g_open g"
  shows "\<exists>mm'. run_queued sock mm k = Some mm' \<and> mc_inv mm' \<and>
    map_of (mm_groups mm') k = Some (timer_arm (g\<lparr>g_queued := g_queued g - 1\<rparr>)) \<and>
    mm_out mm' = mm_out mm @ map (\<lambda>m. (m, g_endpoint g))
       (filter (\<lambda>m. sock m (g_endpoint g)) (map (\<lambda>(seq, msg). seq_message seq msg) (g_sent_msgs g)))"
proof -
  define g0 where "g0 = g\<lparr>g_queued := g_queued g - 1\<rparr>"
  define mm0 where "mm0 = set_group k g0 mm"
  have g0: "g_sent_msgs g0 = g_sent_msgs g" "g_open g0" "g_endpoint g0 = g_endpoint g"
    using assms(5) by (simp_all add: g0_def)
  have mm0: "mc_inv mm0" "map_of (mm_groups mm0) k = Some g0" "mm_out mm0 = mm_out mm"
    using assms(1) group_msgs_ok [OF assms(1,2)] by (simp_all add: mm0_def g0_def mc_inv_set set_group_def mc_inv_def sm.find_put sm.ok_put)
  have run: "run_queued sock mm k = Some (handle_retransmit sock mm0 k)"
    using assms(2,3) by (simp add: run_queued_def mm0_def g0_def)
  have re: "handle_retransmit sock mm0 k = set_group k (timer_arm g0) (retransmit_all sock g0 (g_sent_msgs g) mm0)"
    using mm0(2) assms(4) g0(1) by (simp add: handle_retransmit_def)
  show ?thesis
  proof (intro exI conjI, rule run)
    show "mc_inv (handle_retransmit sock mm0 k)" by (rule mc_ops_inv(5) [OF mm0(1)])
    show "map_of (mm_groups (handle_retransmit sock mm0 k)) k = Some (timer_arm (g\<lparr>g_queued := g_queued g - 1\<rparr>))"
      unfolding re using retransmit_all_inv [OF mm0(1)] by (simp add: g0_def)
    show "mm_out (handle_retransmit sock mm0 k) = mm_out mm @ map (\<lambda>m. (m, g_endpoint g))
       (filter (\<lambda>m. sock m (g_endpoint g)) (map (\<lambda>(seq, msg). seq_message seq msg) (g_sent_msgs g)))"
      unfolding re retransmit_all_eq [OF g0(2)] by (simp add: set_group_def mm0(3) g0(3))
  qed
qed

end
