(* ===== verification/Server.thy ===== *)
theory Server
  imports Connection_Manager Multicast_Manager
begin

text \<open>
  The front of the server library, \<open>class server\<close> of \<open>src/server_lib/server.cpp\<close>: it owns the connection manager and
  the multicast manager and passes every call on to one of them. A null message pointer is \<^const>\<open>None\<close>.
\<close>

record server =
  sv_connections :: connection_manager
  sv_multicast :: mc_manager

definition server_new :: server where
  "server_new = \<lparr>sv_connections = connection_manager_new, sv_multicast = mc_manager_new\<rparr>"

definition server_stop :: "socket \<Rightarrow> u32 list \<Rightarrow> server \<Rightarrow> server outcome" where
  "server_stop sock order s =
     (let s = s\<lparr>sv_multicast := mc_stop (sv_multicast s)\<rparr>
      in bindE (manager_stop_all sock order (sv_connections s)) (\<lambda>m. Inr (s\<lparr>sv_connections := m\<rparr>)))"

definition server_set_callback :: "bool \<Rightarrow> server \<Rightarrow> server" where
  "server_set_callback func s = s\<lparr>sv_connections := manager_set_callback func (sv_connections s)\<rparr>"

definition server_force_disconnect :: "socket \<Rightarrow> u32 \<Rightarrow> server \<Rightarrow> server outcome" where
  "server_force_disconnect sock conv s =
     bindE (manager_force_disconnect sock conv (sv_connections s)) (\<lambda>m. Inr (s\<lparr>sv_connections := m\<rparr>))"

definition server_send_msg :: "allocator \<Rightarrow> u32 \<Rightarrow> bytes \<Rightarrow> server \<Rightarrow> (int \<times> server) outcome" where
  "server_send_msg alloc conv msg s =
     bindE (manager_send_msg alloc conv msg (sv_connections s)) (\<lambda>(r, m). Inr (r, s\<lparr>sv_connections := m\<rparr>))"

definition create_multicast_group ::
    "(bytes \<Rightarrow> ip_address option) \<Rightarrow> bool \<Rightarrow> draws \<Rightarrow> bytes \<Rightarrow> u16 \<Rightarrow> server \<Rightarrow> u32 \<times> server" where
  "create_multicast_group from_string sockopt rnd multicast_addr port s =
     (let (r, mm) = create_group from_string sockopt rnd (sv_multicast s) multicast_addr port
      in (r, s\<lparr>sv_multicast := mm\<rparr>))"

definition delete_multicast_group :: "u32 \<Rightarrow> server \<Rightarrow> bool \<times> server" where
  "delete_multicast_group group_id s =
     (let (r, mm) = delete_group (sv_multicast s) group_id in (r, s\<lparr>sv_multicast := mm\<rparr>))"

definition send_msg_to_multicast_group ::
    "(bytes \<Rightarrow> mc_endpoint \<Rightarrow> bool) \<Rightarrow> u32 \<Rightarrow> bytes option \<Rightarrow> server \<Rightarrow> server" where
  "send_msg_to_multicast_group sock group_id msg s =
     (case msg of
        Some m \<Rightarrow> if m \<noteq> [] then s\<lparr>sv_multicast := send_to_group sock (sv_multicast s) group_id m\<rparr> else s
      | None \<Rightarrow> s)"

definition send_reliable_msg_to_multicast_group ::
    "(bytes \<Rightarrow> mc_endpoint \<Rightarrow> bool) \<Rightarrow> u32 \<Rightarrow> bytes option \<Rightarrow> server \<Rightarrow> server" where
  "send_reliable_msg_to_multicast_group sock group_id msg s =
     (case msg of
        Some m \<Rightarrow> if m \<noteq> [] then s\<lparr>sv_multicast := send_reliable_to_group sock (sv_multicast s) group_id m\<rparr> else s
      | None \<Rightarrow> s)"

definition get_multicast_group_info :: "u32 \<Rightarrow> server \<Rightarrow> bytes" where
  "get_multicast_group_info group_id s = get_group_info (sv_multicast s) group_id"

text \<open>The two managers share nothing: a call changes one of them.\<close>

definition server_inv :: "server \<Rightarrow> bool" where
  "server_inv s \<longleftrightarrow> manager_inv (sv_connections s) \<and> mc_inv (sv_multicast s)"

lemma server_ops_inv:
  assumes "server_inv s"
  shows "server_inv (server_set_callback func s)"
    "server_inv (snd (create_multicast_group from_string sockopt rnd addr port s))"
    "server_inv (snd (delete_multicast_group k s))"
    "server_inv (send_msg_to_multicast_group msock k msg s)"
    "server_inv (send_reliable_msg_to_multicast_group msock k msg s)"
    "server_force_disconnect sock conv s = Inr s' \<Longrightarrow> server_inv s'"
    "server_send_msg alloc conv m s = Inr (r, s') \<Longrightarrow> alloc_bounded alloc \<Longrightarrow> length m < 2147483648 \<Longrightarrow> server_inv s'"
    "server_stop sock order s = Inr s' \<Longrightarrow> distinct order \<Longrightarrow> set order = dom (m_connections (sv_connections s)) \<Longrightarrow> server_inv s'"
proof -
  have inv: "manager_inv (sv_connections s)" "mc_inv (sv_multicast s)" using assms by (simp_all add: server_inv_def)
  note step = svr_step_result [OF inv(1)] and mc = mc_ops_inv [OF inv(2)]
  show "server_inv (server_set_callback func s)"
    using step [OF svr_callback] inv(2) by (simp add: server_inv_def server_set_callback_def)
  show "server_inv (snd (create_multicast_group from_string sockopt rnd addr port s))"
    using mc(1) inv(1) by (simp add: server_inv_def create_multicast_group_def Let_def case_prod_beta)
  show "server_inv (snd (delete_multicast_group k s))"
    using mc(2) inv(1) by (simp add: server_inv_def delete_multicast_group_def Let_def case_prod_beta)
  show "server_inv (send_msg_to_multicast_group msock k msg s)"
    using mc(3) inv by (simp add: server_inv_def send_msg_to_multicast_group_def split: option.split)
  show "server_inv (send_reliable_msg_to_multicast_group msock k msg s)"
    using mc(4) inv by (simp add: server_inv_def send_reliable_msg_to_multicast_group_def split: option.split)
  show "server_inv s'" if "server_force_disconnect sock conv s = Inr s'"
    using that step [OF svr_disconnect] inv(2) by (auto simp: server_inv_def server_force_disconnect_def bindE_Inr_iff)
  show "server_inv s'" if "server_send_msg alloc conv m s = Inr (r, s')" "alloc_bounded alloc" "length m < 2147483648"
    using that step [OF svr_send [OF that(2,3)]] inv(2) by (auto simp: server_inv_def server_send_msg_def bindE_Inr_iff)
  show "server_inv s'" if "server_stop sock order s = Inr s'" "distinct order" "set order = dom (m_connections (sv_connections s))"
    using that step [OF svr_stop [OF that(2,3)]] mc(7) by (auto simp: server_inv_def server_stop_def Let_def bindE_Inr_iff)
qed

end
