(* ===== verification/Server_Properties.thy ===== *)
theory Server_Properties
  imports Server
begin

text \<open>
  The properties of the server (\<open>src/server_lib\<close>): the invariant of its runs, what one datagram and one tick of
  the timer do, when the handlers fail, and the connections that never time out.
\<close>

section \<open>The handlers return\<close>

text \<open>A network that takes every datagram and an engine that is granted its memory.\<close>

definition takes_all :: "socket \<Rightarrow> bool" where "takes_all sock \<longleftrightarrow> (\<forall>d ep. sock d ep)"

lemma takes_allD: "takes_all sock \<Longrightarrow> sock d ep"
  by (simp add: takes_all_def del: split_paired_All)

definition serving :: "allocator \<Rightarrow> socket \<Rightarrow> connection_manager \<Rightarrow> bool" where
  "serving alloc sock m \<longleftrightarrow> manager_inv m \<and> h_open m \<and> h_callback m \<and> (\<forall>i n. alloc i n) \<and> takes_all sock"

lemma send_udp_total: "h_open h \<Longrightarrow> takes_all sock \<Longrightarrow>
    send_udp_packet sock d ep h = Inr (h\<lparr>h_sent := h_sent h @ [(d, ep)]\<rparr>)"
  by (simp add: send_udp_packet_def takes_allD)

lemma udp_output_total:
  "h_open h \<Longrightarrow> takes_all sock \<Longrightarrow> \<exists>h'. connection_udp_output sock c ds h = Inr h'"
proof (induction ds arbitrary: h)
  case (Cons d ds)
  obtain h1 where "connection_send_udp_package sock c d h = Inr h1" "h_open h1"
    using Cons.prems by (cases "h_alive h") (auto simp: connection_send_udp_package_def send_udp_total)
  then show ?case using Cons.IH [of h1] Cons.prems(2) by simp
qed simp

lemma update_kcp_total:
  assumes "conn_inv conv c" "h_open h" "takes_all sock"
  shows "\<exists>c' h'. connection_update_kcp sock c clock h = Inr (c', h')"
proof -
  obtain kcp where kcp: "c_kcp c = Some kcp" "api_inv kcp" using assms(1) by (auto simp: conn_inv_def)
  then obtain k out where "ikcp_update kcp clock = Some (k, out)" using update_ok [of kcp clock] by (auto simp: api_inv_def)
  then show ?thesis using kcp(1) udp_output_total [OF assms(2,3), of c out] by (auto simp: connection_update_kcp_def)
qed

lemma remove_total:
  assumes "manager_inv m" "h_open m" "takes_all sock"
  shows "\<exists>m'. remove_connection sock conv m = Inr m'"
proof (cases "m_connections m conv")
  case (Some c)
  have "\<exists>c' m'. connection_destroy sock c (m\<lparr>m_connections := (m_connections m)(conv := None)\<rparr>) = Inr (c', m')"
  proof (rule destroy_total [OF manager_inv_conn [OF assms(1) Some]])
    show "\<forall>p. sock p (c_endpoint c)" using takes_allD [OF assms(3)] by blast
  qed (use assms(2) in simp)
  then show ?thesis using Some by (auto simp: remove_connection_def)
qed (simp add: remove_connection_def)

lemma update_all_total:
  "manager_inv m \<Longrightarrow> h_open m \<Longrightarrow> h_callback m \<Longrightarrow> takes_all sock \<Longrightarrow> \<exists>m'. update_all_kcp sock clock order m = Inr m'"
proof (induction order arbitrary: m)
  case (Cons conv order)
  show ?case
  proof (cases "m_connections m conv")
    case None
    then show ?thesis using Cons by simp
  next
    case (Some c)
    note ci = manager_inv_conn [OF Cons.prems(1) Some]
    obtain c1 h1 where up: "connection_update_kcp sock c clock m = Inr (c1, h1)"
      using update_kcp_total [OF ci Cons.prems(2,4)] by blast
    note r = update_conn_inv [OF ci up]
    define m2 where "m2 = h1\<lparr>m_connections := (m_connections h1)(conv \<mapsto> c1)\<rparr>"
    obtain out where "h1 = m\<lparr>h_sent := out\<rparr>" using r(4) by blast
    then have m2: "manager_inv m2" "h_open m2" "h_callback m2" "h_alive m2"
      using Cons.prems r(1) by (auto simp: m2_def manager_inv_def)
    define m3 where "m3 = m2\<lparr>h_events := h_events m2 @ [(c_conv c1, eDisconnect, ascii ''timeout'')]\<rparr>"
    have m3: "do_timeout c1 m2 = Inr m3" "manager_inv m3" "h_open m3" "h_callback m3"
      using m2 by (simp_all add: m3_def do_timeout_def call_event_callback_func_def manager_inv_def)
    obtain m4 where m4: "remove_connection sock conv m3 = Inr m4" using remove_total [OF m3(2,3) Cons.prems(4)] by blast
    have "manager_inv m4" "h_open m4" "h_callback m4"
      using remove_connection_inv [OF m3(2) m4] remove_connection_Inr [OF m3(2) m4] m3 by auto
    then show ?thesis using Cons.IH [of m4] Cons.IH [OF m2(1-3) Cons.prems(4)] Cons.prems(4) Some up m3(1) m4
      by (simp add: Let_def flip: m2_def)
  qed
qed simp

lemma handle_connect_total:
  assumes "serving alloc sock m" shows "\<exists>m'. handle_connect_packet alloc sock ep m = Inr m' \<and> m_stopped m' = m_stopped m"
proof -
  define conv where "conv = m_cur_conv m + 1"
  have s: "manager_inv m" "h_open m" "\<forall>i n. alloc i n" "takes_all sock" using assms by (simp_all add: serving_def)
  obtain p where p: "making_send_back_conv_packet conv = Some p" using making_packets by blast
  have "ikcp_create alloc conv 0 \<noteq> None" using s(3) by (simp add: ikcp_create_def Let_def)
  then obtain c where c: "connection_create alloc conv ep = Inr c"
    by (auto simp: connection_create_def connection_init_kcp_def Let_def)
  define m1 where "m1 = m\<lparr>m_cur_conv := conv, h_sent := h_sent m @ [(p, ep)], m_connections := (m_connections m)(conv \<mapsto> c)\<rparr>"
  have run: "handle_connect_packet alloc sock ep m = (case m_connections m conv of None \<Rightarrow> Inr m1 
     | Some c\<^sub>0 \<Rightarrow> bindE (connection_destroy sock c\<^sub>0 m1) (\<lambda>(_, m). Inr m))"
    using p c s(2,4) by (simp add: handle_connect_packet_def get_new_conv_def add_new_connection_def Let_def
       send_udp_total m1_def flip: conv_def cong: option.case_cong)
  show ?thesis
  proof (cases "m_connections m conv")
    case (Some c\<^sub>0)
    have ci: "conn_inv conv c\<^sub>0" by (rule manager_inv_conn [OF s(1) Some])
    obtain c' m' where d: "connection_destroy sock c\<^sub>0 m1 = Inr (c', m')"
      using destroy_total [OF ci, of m1 sock] s(2) takes_allD [OF s(4)] by (fastforce simp: m1_def)
    have "h_alive m1" using s(1) by (simp add: m1_def manager_inv_def)
    from destroy_conn [OF ci this d] have "m_stopped m' = m_stopped m" by (auto simp: m1_def)
    then show ?thesis using run Some d by simp
  qed (use run in \<open>simp add: m1_def\<close>)
qed

lemma get_conv_iff: "(\<exists>conv. ikcp_get_conv (Some d) (int (length d)) = Some conv) \<longleftrightarrow> 24 \<le> length d"
proof (cases "24 \<le> length d")
  case True
  then obtain a b c e rest where "d = a # b # c # e # rest"
    by (cases d; cases "tl d"; cases "tl (tl d)"; cases "tl (tl (tl d))") auto
  then show ?thesis using True by (auto simp: ikcp_get_conv_def kcp_consts)
qed (simp add: ikcp_get_conv_def kcp_consts)

lemma handle_kcp_total:
  assumes "serving alloc sock m" "24 \<le> length d"
  shows "\<exists>m'. handle_kcp_packet alloc d ep m = Inr m' \<and> m_stopped m' = m_stopped m"
proof -
  have s: "manager_inv m" "h_callback m" "\<forall>i n. alloc i n" using assms(1) by (simp_all add: serving_def)
  obtain conv where conv: "ikcp_get_conv (Some d) (int (length d)) = Some conv"
    using get_conv_iff [of d] assms(2) by blast
  show ?thesis
  proof (cases "m_connections m conv")
    case (Some c)
    obtain c' h' where "connection_input alloc c d ep m = Inr (c', h')"
      using input_not_aborted [OF manager_inv_conn [OF s(1) Some] s(3,2)] by blast
    moreover from this have "m_stopped h' = m_stopped m"
      by (auto simp: connection_input_def Let_def bindE_Inr_iff callback_Inr split: if_splits)
    ultimately show ?thesis using conv Some by (simp add: handle_kcp_packet_def find_by_conv_def)
  qed (use conv in \<open>simp add: handle_kcp_packet_def find_by_conv_def\<close>)
qed

section \<open>A sample server\<close>

text \<open>A client at 127.0.0.1, port 5000, asks for a conversation, then the timer fires once.\<close>

definition svr_alloc :: allocator where "svr_alloc i n \<longleftrightarrow> n < 65536"
definition svr_sock :: socket where "svr_sock d ep \<longleftrightarrow> True"
definition svr_peer :: endpoint where "svr_peer = (2130706433, 5000)"

definition svr_demo0 :: connection_manager where "svr_demo0 = manager_set_callback True connection_manager_new"

definition svr_conn :: connection where "svr_conn = projr (connection_create svr_alloc 1001 svr_peer)"
definition svr_reply :: bytes where "svr_reply = the (making_send_back_conv_packet 1001)"

definition svr_demo1 :: connection_manager where
  "svr_demo1 = svr_demo0\<lparr>h_sent := [(svr_reply, svr_peer)], m_connections := [1001 \<mapsto> svr_conn], m_cur_conv := 1001\<rparr>"

definition svr_demo2 :: connection_manager where
  "svr_demo2 = projr (handle_kcp_time svr_sock (100, 0) [1001] svr_demo1)"

lemma svr_alloc_bounded: "alloc_bounded svr_alloc"
  by (simp add: alloc_bounded_def svr_alloc_def)

lemma svr_sock_takes_all: "takes_all svr_sock"
  by (simp add: takes_all_def svr_sock_def)

lemma svr_conn_created: "connection_create svr_alloc 1001 svr_peer = Inr svr_conn"
proof -
  have "ikcp_create svr_alloc 1001 0 \<noteq> None" by (simp add: ikcp_create_def Let_def svr_alloc_def kcp_consts sizeof_IKCPCB_def)
  then show ?thesis unfolding svr_conn_def by (auto simp: connection_create_def connection_init_kcp_def Let_def)
qed

lemma svr_reply_made: "making_send_back_conv_packet 1001 = Some svr_reply"
  unfolding svr_reply_def by (simp add: making_packets)

lemma svr_demo0_fields:
  "m_cur_conv svr_demo0 = 1000" "m_connections svr_demo0 = Map.empty" "m_timer_armed svr_demo0" "m_recv_armed svr_demo0"
  "\<not> m_stopped svr_demo0" "h_open svr_demo0" "h_sent svr_demo0 = []" "h_callback svr_demo0" "h_alive svr_demo0"
  by (simp_all add: svr_demo0_def manager_set_callback_def connection_manager_new_def hook_kcp_timer_def hook_udp_async_receive_def)

lemma svr_demo_connect:
  "handle_udp_receive_from svr_alloc svr_sock False making_connect_packet svr_peer svr_demo0 = Inr svr_demo1"
proof -
  have c: "is_connect_packet making_connect_packet (length making_connect_packet)" "making_connect_packet \<noteq> []"
    using made_packets_recognised by (auto simp: making_connect_packet_def ASIO_KCP_CONNECT_PACKET_def)
  have "m_cur_conv svr_demo0 + 1 = 1001" by (simp add: svr_demo0_fields)
  then show ?thesis
    by (cases svr_demo0) (use c svr_demo0_fields in \<open>simp add: handle_udp_receive_from_def handle_connect_packet_def
      get_new_conv_def Let_def svr_reply_made svr_conn_created add_new_connection_def send_udp_total svr_sock_takes_all
      svr_demo1_def hook_udp_async_receive_def\<close>)
qed

lemma svr_demo1_step: "svr_step svr_demo0 svr_demo1"
  using svr_recv [OF _ svr_alloc_bounded svr_demo_connect] svr_demo0_fields by simp

lemma svr_demo1_fields:
  "m_connections svr_demo1 = [1001 \<mapsto> svr_conn]" "m_cur_conv svr_demo1 = 1001" "m_timer_armed svr_demo1" "h_open svr_demo1" "h_callback svr_demo1" "\<not> m_stopped svr_demo1"
  by (simp_all add: svr_demo1_def svr_demo0_fields)

lemma svr_demo1_run: "(svr_step ^^ 2) connection_manager_new svr_demo1"
proof -
  have "svr_step connection_manager_new svr_demo0" unfolding svr_demo0_def by (rule svr_callback)
  then show ?thesis using svr_demo1_step by (auto simp: numeral_2_eq_2)
qed

lemma svr_demo1_inv: "manager_inv svr_demo1"
  using convs_below_run [OF svr_demo1_run] by simp

lemma svr_demo_tick: "handle_kcp_time svr_sock (100, 0) [1001] svr_demo1 = Inr svr_demo2"
proof -
  have "\<exists>m'. handle_kcp_time svr_sock (100, 0) [1001] svr_demo1 = Inr m'"
    unfolding handle_kcp_time_def Let_def
    by (rule update_all_total) (use svr_demo1_inv svr_sock_takes_all in \<open>simp_all add: manager_inv_def hook_kcp_timer_def svr_demo1_fields\<close>)
  then show ?thesis by (auto simp: svr_demo2_def)
qed

text \<open>What a datagram that is no request leaves alone.\<close>

lemma datagram_frame:
  assumes "manager_inv m" "alloc_bounded alloc" "handle_udp_receive_from alloc sock error d ep m = Inr m'"
    "\<not> is_connect_packet d (length d)"
  shows "(\<forall>conv. ikcp_get_conv (Some d) (int (length d)) \<noteq> Some conv \<longrightarrow> m_connections m' conv = m_connections m conv) \<and>
    dom (m_connections m') = dom (m_connections m) \<and> m_cur_conv m' = m_cur_conv m \<and> h_sent m' = h_sent m \<and>
    (h_events m' = h_events m \<or> (\<exists>conv msg. ikcp_get_conv (Some d) (int (length d)) = Some conv \<and>
       h_events m' = h_events m @ [(conv, eRcvMsg, msg)]))"
proof -
  define m0 where "m0 = m\<lparr>m_recv_armed := False\<rparr>"
  have m0: "manager_inv m0" using assms(1) by (simp add: m0_def manager_inv_def)
  obtain m1 where m1: "m' = hook_udp_async_receive m1" "handle_kcp_packet alloc d ep m0 = Inr m1 \<or> m1 = m0"
    using assms(3,4) by (auto simp: handle_udp_receive_from_def bindE_Inr_iff simp flip: m0_def split: if_splits)
  then consider "m1 = m0" | conv c c' ev where "ikcp_get_conv (Some d) (int (length d)) = Some conv" "m_connections m0 conv = Some c"
      "m1 = m0\<lparr>m_connections := (m_connections m0)(conv \<mapsto> c'), h_events := h_events m0 @ ev\<rparr>"
      "ev = [] \<or> (\<exists>msg. ev = [(conv, eRcvMsg, msg)])"
    using handle_kcp_packet_result [OF m0 assms(2)] by metis
  then show ?thesis
  proof cases
    case 1
    then show ?thesis by (simp add: m1(1) m0_def)
  next
    case 2
    then show ?thesis by (auto simp: m1(1) m0_def)
  qed
qed

section \<open>The properties\<close>

text \<open>C8: In every state the event loop reaches within four thousand million steps (datagrams of any content,
  ticks, sends, forced disconnects, stops, with an allocator that may refuse memory), each connection of the
  map is filed under its own number, that number was handed out by the counter and is above 1000, and the
  connection owns a control block of the same number which satisfies the invariant of the engine and can
  send.\<close>

theorem server_invariant:
  assumes "(svr_step ^^ n) connection_manager_new m" "n < 4294966296" "m_connections m conv = Some c"
  shows "c_conv c = conv \<and> 1000 < unat conv \<and> unat conv \<le> 1000 + n \<and>
    (\<exists>kcp. c_kcp c = Some kcp \<and> k_conv kcp = conv \<and> kcp_wf kcp \<and> k_output kcp)"
proof -
  have inv: "manager_inv m" "convs_below m" "unat (m_cur_conv m) \<le> 1000 + n" using convs_below_run [OF assms(1,2)] by simp_all
  then have "1000 < unat conv" "unat conv \<le> unat (m_cur_conv m)" using assms(3) unfolding convs_below_def by fastforce+
  then show ?thesis using manager_inv_conn [OF inv(1) assms(3)] inv(3) by (auto simp: conn_inv_def api_inv_def)
qed

theorem server_invariant_witness:
  "c_conv svr_conn = 1001 \<and> (\<exists>kcp. c_kcp svr_conn = Some kcp \<and> k_conv kcp = 1001 \<and> kcp_wf kcp \<and> k_output kcp)"
  using server_invariant [OF svr_demo1_run, of 1001 svr_conn] by (simp add: svr_demo1_fields)

text \<open>With a callback set, memory granted and a network that takes every datagram, the receive handler of a
  server that is not stopped returns with the next receive hooked exactly when the operation failed, or the
  datagram is empty, or it has at least 24 bytes. For a datagram of 1 to 23 bytes it throws
  \<open>AssertException\<close> instead, past the call that hooks the next receive.\<close>

theorem receive_handler_survives:
  assumes "serving alloc sock m" "\<not> m_stopped m"
  shows "if error \<or> d = [] \<or> 24 \<le> length d
    then \<exists>m'. handle_udp_receive_from alloc sock error d ep m = Inr m' \<and> m_recv_armed m'
    else \<exists>what. handle_udp_receive_from alloc sock error d ep m = Inl (AssertException what)"
proof -
  define m0 where "m0 = m\<lparr>m_recv_armed := False\<rparr>"
  have s: "serving alloc sock m0" "\<not> m_stopped m0" using assms by (simp_all add: m0_def serving_def manager_inv_def)
  have hook: "m_recv_armed (hook_udp_async_receive m')" if "m_stopped m' = m_stopped m0" for m'
    using that s(2) by (simp add: hook_udp_async_receive_def)
  have run: "handle_udp_receive_from alloc sock error d ep m = bindE (if \<not> error \<and> d \<noteq> []
      then if is_connect_packet d (length d) then handle_connect_packet alloc sock ep m0 else handle_kcp_packet alloc d ep m0
      else Inr m0) (\<lambda>m. Inr (hook_udp_async_receive m))"
    by (simp add: handle_udp_receive_from_def m0_def)
  have short: "24 \<le> length d" if "is_connect_packet d (length d)"
    using that by (auto simp: is_connect_packet_def ASIO_KCP_CONNECT_PACKET_def)
  show ?thesis
  proof (cases "error \<or> d = [] \<or> 24 \<le> length d")
    case True
    then show ?thesis using run handle_connect_total [OF s(1), of ep] handle_kcp_total [OF s(1), of d ep] hook by auto
  next
    case False
    then have "ikcp_get_conv (Some d) (int (length d)) = None" using get_conv_iff [of d] by (cases "ikcp_get_conv (Some d) (int (length d))") auto
    then show ?thesis using False run short by (auto simp: handle_kcp_packet_def assert_check_cases)
  qed
qed

theorem receive_handler_survives_witness:
  "\<exists>what. handle_udp_receive_from (\<lambda>i n. True) svr_sock False [1, 2, 3] svr_peer svr_demo1 = Inl (AssertException what)"
proof -
  have "serving (\<lambda>i n. True) svr_sock svr_demo1"
    by (simp add: serving_def svr_demo1_inv svr_demo1_fields svr_sock_takes_all)
  from receive_handler_survives [OF this, of False "[1, 2, 3]" svr_peer] show ?thesis by (simp add: svr_demo1_fields)
qed

text \<open>C11: A datagram that is not a request for a conversation can only reach the connection whose number it
  carries: every other connection, the counter and the socket are left alone, and at most one event is
  raised, a message of that conversation.\<close>

theorem datagram_isolated:
  assumes "manager_inv m" "alloc_bounded alloc" "handle_udp_receive_from alloc sock error d ep m = Inr m'"
    "\<not> is_connect_packet d (length d)"
  shows "(\<forall>conv. ikcp_get_conv (Some d) (int (length d)) \<noteq> Some conv \<longrightarrow> m_connections m' conv = m_connections m conv) \<and>
    dom (m_connections m') = dom (m_connections m) \<and> m_cur_conv m' = m_cur_conv m \<and> h_sent m' = h_sent m \<and>
    (h_events m' = h_events m \<or> (\<exists>conv msg. ikcp_get_conv (Some d) (int (length d)) = Some conv \<and>
       h_events m' = h_events m @ [(conv, eRcvMsg, msg)]))"
  by (rule datagram_frame [OF assms])

theorem datagram_isolated_witness:
  "\<exists>m'. handle_udp_receive_from svr_alloc svr_sock False (replicate 24 0) svr_peer svr_demo1 = Inr m' \<and>
     m_connections m' 1001 = Some svr_conn \<and> h_sent m' = h_sent svr_demo1"
proof -
  have conv: "ikcp_get_conv (Some (replicate 24 0)) (int (length (replicate 24 (0 :: byte)))) = Some 0" by code_simp
  have nc: "\<not> is_connect_packet (replicate 24 0) (length (replicate 24 (0 :: byte)))" by code_simp
  have run: "handle_udp_receive_from svr_alloc svr_sock False (replicate 24 0) svr_peer svr_demo1 =
      Inr (hook_udp_async_receive (svr_demo1\<lparr>m_recv_armed := False\<rparr>))"
    using nc conv by (simp add: handle_udp_receive_from_def handle_kcp_packet_def find_by_conv_def svr_demo1_fields)
  show ?thesis using run datagram_isolated [OF svr_demo1_inv svr_alloc_bounded run nc] conv by (simp add: svr_demo1_fields)
qed

text \<open>C12: The timer handler of a server that is open, has a callback and a network that takes every datagram
  returns. It has hooked the next tick unless the server is stopped, has dropped exactly the connections from which a
  datagram has come and the last one more than ten seconds ago, and has told the user of each of these once, with the
  text ``timeout'', in the order the map was walked, and of nothing else; the connections that stay keep their peers. A
  connection from which nothing has come since its handshake (a last receive time of 0) is not dropped.\<close>

theorem timer_drops_silent:
  assumes "serving alloc sock m" "distinct order" "set order = dom (m_connections m)"
  shows "\<exists>m'. handle_kcp_time sock tv order m = Inr m' \<and> manager_inv m' \<and> (m_stopped m \<or> m_timer_armed m') \<and>
    dom (m_connections m') = {conv \<in> dom (m_connections m). \<not> timed_out (iclock (fst tv) (snd tv)) (the (m_connections m conv))} \<and>
    h_events m' = h_events m @ map (\<lambda>conv. (conv, eDisconnect, ascii ''timeout''))
      (filter (\<lambda>conv. timed_out (iclock (fst tv) (snd tv)) (the (m_connections m conv))) order) \<and>
    (\<forall>conv c'. m_connections m' conv = Some c' \<longrightarrow> c_endpoint c' = c_endpoint (the (m_connections m conv)))"
proof -
  define m1 where "m1 = (hook_kcp_timer (m\<lparr>m_timer_armed := False\<rparr>))\<lparr>h_clock := iclock (fst tv) (snd tv)\<rparr>"
  have s: "manager_inv m" "manager_inv m1" "h_open m1" "h_callback m1" "takes_all sock" "m_connections m1 = m_connections m"
    "h_clock m1 = iclock (fst tv) (snd tv)" "m_stopped m \<or> m_timer_armed m1"
    using assms(1) by (simp_all add: serving_def m1_def hook_kcp_timer_def manager_inv_def)
  have run: "handle_kcp_time sock tv order m = update_all_kcp sock (iclock (fst tv) (snd tv)) order m1"
    by (simp add: handle_kcp_time_def Let_def m1_def)
  obtain m' where m': "update_all_kcp sock (iclock (fst tv) (snd tv)) order m1 = Inr m'" using update_all_total [OF s(2-5)] by blast
  have "walk_view m' = walk_view m1" using update_all_result [OF s(2,7) assms(2) _ m'] assms(3) s(6) by simp
  then have armed: "m_stopped m \<or> m_timer_armed m'" using s(8) by (auto simp: walk_view_def)
  note r = handle_kcp_time_result [OF s(1) assms(2,3) run [unfolded m']]
  have sw: "swept (iclock (fst tv) (snd tv)) (conv \<in> dom (m_connections m)) (m_connections m conv) (m_connections m' conv)" for conv
    using r by blast
  have "conv \<in> dom (m_connections m') \<longleftrightarrow>
      conv \<in> dom (m_connections m) \<and> \<not> timed_out (iclock (fst tv) (snd tv)) (the (m_connections m conv))" for conv
    using sw [of conv] by (auto simp: swept_def split: option.splits if_splits)
  moreover have "c_endpoint c' = c_endpoint (the (m_connections m conv))" if "m_connections m' conv = Some c'" for conv c'
    using sw [of conv] that by (auto simp: swept_def split: option.splits if_splits)
  ultimately show ?thesis using r run m' armed by (intro exI [of _ m']) auto
qed

theorem timer_drops_silent_witness: "1001 \<in> dom (m_connections svr_demo2) \<and> m_timer_armed svr_demo2"
proof -
  have "serving (\<lambda>i n. True) svr_sock svr_demo1"
    by (simp add: serving_def svr_demo1_inv svr_demo1_fields svr_sock_takes_all)
  from timer_drops_silent [OF this, of "[1001]" "(100, 0)"] svr_demo_tick create_conn_inv(3) [OF svr_conn_created]
  show ?thesis by (auto simp: svr_demo1_fields timed_out_def)
qed

text \<open>What happens to a server while the peer of conversation \<open>conv\<close> is silent: datagrams of others, requests for other
  conversations, ticks at any time, messages of the user to anyone.\<close>

inductive quiet_step :: "u32 \<Rightarrow> connection_manager \<Rightarrow> connection_manager \<Rightarrow> bool" for conv where
  quiet_recv: "handle_udp_receive_from alloc sock error d ep m = Inr m' \<Longrightarrow> alloc_bounded alloc \<Longrightarrow>
     is_connect_packet d (length d) \<or> ikcp_get_conv (Some d) (int (length d)) \<noteq> Some conv \<Longrightarrow>
     m_cur_conv m + 1 \<noteq> conv \<Longrightarrow> quiet_step conv m m'"
| quiet_tick: "handle_kcp_time sock tv order m = Inr m' \<Longrightarrow> distinct order \<Longrightarrow> set order = dom (m_connections m) \<Longrightarrow>
     quiet_step conv m m'"
| quiet_send: "manager_send_msg alloc to msg m = Inr (r, m') \<Longrightarrow> alloc_bounded alloc \<Longrightarrow> length msg < 2147483648 \<Longrightarrow>
     quiet_step conv m m'"

definition silent :: "u32 \<Rightarrow> connection_manager \<Rightarrow> bool" where
  "silent conv m \<longleftrightarrow> manager_inv m \<and> (\<exists>c. m_connections m conv = Some c \<and> c_last_recv c = 0)"

lemma handle_connect_other:
  assumes "manager_inv m" "handle_connect_packet alloc sock ep m = Inr m'" "k \<noteq> m_cur_conv m + 1"
  shows "m_connections m' k = m_connections m k"
proof -
  define conv where "conv = m_cur_conv m + 1"
  obtain p c where c: "connection_create alloc conv ep = Inr c"
    and run: "(case m_connections m conv of None \<Rightarrow> Inr (m\<lparr>m_cur_conv := conv, h_sent := h_sent m @ [(p, ep)],
        m_connections := (m_connections m)(conv \<mapsto> c)\<rparr>)
      | Some c\<^sub>0 \<Rightarrow> bindE (connection_destroy sock c\<^sub>0 (m\<lparr>m_cur_conv := conv, h_sent := h_sent m @ [(p, ep)],
        m_connections := (m_connections m)(conv \<mapsto> c)\<rparr>)) (\<lambda>(_, m). Inr m)) = Inr m'"
    using assms(2)
    by (auto simp: handle_connect_packet_def get_new_conv_def add_new_connection_def Let_def bindE_Inr_iff host_frame
        simp flip: conv_def cong: option.case_cong)
  have "h_alive m" using assms(1) by (simp add: manager_inv_def)
  show ?thesis
  proof (cases "m_connections m conv")
    case None
    then show ?thesis using run assms(3) by (auto simp flip: conv_def)
  next
    case (Some c\<^sub>0)
    then obtain c' where "connection_destroy sock c\<^sub>0 (m\<lparr>m_cur_conv := conv, h_sent := h_sent m @ [(p, ep)],
        m_connections := (m_connections m)(conv \<mapsto> c)\<rparr>) = Inr (c', m')"
      using run by (auto simp: bindE_Inr_iff)
    from destroy_conn [OF manager_inv_conn [OF assms(1) Some] _ this] \<open>h_alive m\<close> assms(3) show ?thesis
      by (auto simp flip: conv_def)
  qed
qed

lemma quiet_step_silent:
  assumes "silent conv m" "quiet_step conv m m'" shows "silent conv m'"
proof -
  obtain c where m: "manager_inv m" "m_connections m conv = Some c" "c_last_recv c = 0"
    using assms(1) by (auto simp: silent_def)
  from assms(2) show ?thesis
  proof cases
    case (quiet_recv alloc sock error d ep)
    have "m_connections m' conv = m_connections m conv"
    proof (cases "is_connect_packet d (length d)")
      case True
      define m0 where "m0 = m\<lparr>m_recv_armed := False\<rparr>"
      have m0: "manager_inv m0" "m_cur_conv m0 = m_cur_conv m" "m_connections m0 = m_connections m"
        using m(1) by (simp_all add: m0_def manager_inv_def)
      obtain m1 where "m' = hook_udp_async_receive m1" "handle_connect_packet alloc sock ep m0 = Inr m1 \<or> m1 = m0"
        using quiet_recv(1) True by (auto simp: handle_udp_receive_from_def bindE_Inr_iff simp flip: m0_def split: if_splits)
      then show ?thesis using handle_connect_other [OF m0(1)] m0 quiet_recv(4) by fastforce
    next
      case False
      then show ?thesis using datagram_frame [OF m(1) quiet_recv(2,1) False] quiet_recv(3) by blast
    qed
    then show ?thesis using m receive_inv [OF m(1) quiet_recv(2,1)] by (simp add: silent_def)
  next
    case (quiet_tick sock tv order)
    from handle_kcp_time_result [OF m(1) quiet_tick(2,3,1)]
    have "manager_inv m'" "swept (iclock (fst tv) (snd tv)) (conv \<in> dom (m_connections m)) (m_connections m conv) (m_connections m' conv)"
      by blast+
    then show ?thesis using m(2,3) by (auto simp: silent_def swept_def timed_out_def)
  next
    case (quiet_send alloc to msg r)
    have inv: "manager_inv m'" using svr_step_result [OF m(1) svr_send [OF quiet_send(2,3,1)]] by blast
    show ?thesis
    proof (cases "m_connections m to")
      case (Some c1)
      then obtain c2 where run: "connection_send_kcp_msg alloc c1 msg = Inr c2"
        and m': "m' = m\<lparr>m_connections := (m_connections m)(to \<mapsto> c2)\<rparr>"
        using quiet_send(1) by (auto simp: manager_send_msg_def find_by_conv_def bindE_Inr_iff)
      have "c_last_recv c2 = c_last_recv c1" by (rule send_msg_inv(3) [OF manager_inv_conn [OF m(1) Some] run quiet_send(2,3)])
      then show ?thesis using inv m Some by (auto simp: silent_def m')
    qed (use quiet_send(1) assms(1) in \<open>simp add: manager_send_msg_def find_by_conv_def\<close>)
  qed
qed

interpretation quiet: step_system "silent conv" "quiet_step conv" "silent conv"
  by unfold_locales (simp_all add: quiet_step_silent)

text \<open>C38: A connection that has not received a datagram since its handshake is never dropped, however long the
  peer is silent and whatever the clock says: \<open>is_timeout\<close> takes the initial value 0 of the last receive time to
  mean that nothing can be overdue. A client that asks for a conversation and goes away leaves its connection
  behind for good.\<close>

theorem silent_connection_stays:
  assumes "manager_inv m" "m_connections m conv = Some c" "c_last_recv c = 0" "(quiet_step conv)\<^sup>*\<^sup>* m m'"
  shows "\<exists>c'. m_connections m' conv = Some c' \<and> \<not> is_timeout c' (m'\<lparr>h_clock := now\<rparr>)"
proof -
  have "silent conv m" using assms(1-3) by (simp add: silent_def)
  from quiet.reachable_inv [OF this assms(4)] show ?thesis by (auto simp: silent_def is_timeout_def)
qed

theorem silent_connection_stays_witness:
  "\<exists>c'. m_connections svr_demo2 1001 = Some c' \<and> \<not> is_timeout c' (svr_demo2\<lparr>h_clock := 4000000000\<rparr>)"
proof (rule silent_connection_stays [OF svr_demo1_inv, of 1001 svr_conn])
  show "m_connections svr_demo1 1001 = Some svr_conn" by (simp add: svr_demo1_fields)
  show "c_last_recv svr_conn = 0" by (rule create_conn_inv(3) [OF svr_conn_created])
  show "(quiet_step 1001)\<^sup>*\<^sup>* svr_demo1 svr_demo2"
    by (rule r_into_rtranclp, rule quiet_tick [OF svr_demo_tick]) (simp_all add: svr_demo1_fields)
qed

end
