(* ===== verification/Threadsafe_Queue.thy ===== *)
theory Threadsafe_Queue
  imports Kcp_Prelude
begin

text \<open>
  The two queues between threads: \<open>threadsafe_queue_mutex\<close> of \<open>src/client_lib/threadsafe_queue_mutex.hpp\<close>,
  which carries the messages of the user to \<open>kcp_client\<close>, and \<open>threadsafe_queue\<close> of
  \<open>src/essential/utility/threadsafe_queue.hpp\<close>, which can also wait. Every member function holds the mutex
  from its first access to the data until it returns, so it is one step; the order of the steps of several
  threads is an explicit sequence. The contents are a list, front first.

  A wait on the condition variable gives the mutex up: \<open>q_blocked\<close> counts the threads that sleep on it and
  \<open>q_woken\<close> those that \<open>notify_one\<close> has chosen and that have not had the mutex since.
\<close>

section \<open>What a queue promises\<close>

locale fifo_queue =
  fixes contents :: "'q \<Rightarrow> 'a list" and new :: 'q and push :: "'q \<Rightarrow> 'a \<Rightarrow> 'q"
    and try_pop :: "'q \<Rightarrow> ('a \<times> 'q) option" and grab_all :: "'q \<Rightarrow> 'a list \<times> 'q"
    and is_empty :: "'q \<Rightarrow> bool" and count :: "'q \<Rightarrow> nat"
  assumes contents_new: "contents new = []"
    and contents_push: "contents (push q x) = contents q @ [x]"
    and try_pop_Nil: "contents q = [] \<Longrightarrow> try_pop q = None"
    and try_pop_Cons: "contents q = x # xs \<Longrightarrow> \<exists>q'. try_pop q = Some (x, q') \<and> contents q' = xs"
    and grab_all_fst: "fst (grab_all q) = contents q"
    and grab_all_snd: "contents (snd (grab_all q)) = []"
    and is_empty_iff: "is_empty q \<longleftrightarrow> contents q = []"
    and count_eq: "count q = length (contents q)"
begin

lemma push_all: "contents (fold (\<lambda>x q. push q x) xs q) = contents q @ xs"
  by (induction xs arbitrary: q) (simp_all add: contents_push)

text \<open>Grabbing everything empties the queue and gives the elements in the order of the pushes.\<close>

lemma grab_after_push: "fst (grab_all (fold (\<lambda>x q. push q x) xs q)) = contents q @ xs"
  by (simp add: grab_all_fst push_all)

lemma grab_twice: "fst (grab_all (fold (\<lambda>x q. push q x) xs (snd (grab_all q)))) = xs"
  by (simp add: grab_after_push grab_all_snd)

text \<open>However pushes and pops are interleaved, what has come out and what is still inside is what was inside and
  what went in, in order. A step is \<open>Some x\<close> for a push and \<open>None\<close> for a \<open>try_pop\<close>.\<close>

primrec ops :: "'a option list \<Rightarrow> 'q \<Rightarrow> 'a list \<times> 'q" where
  "ops [] q = ([], q)"
| "ops (s # ss) q =
     (case s of
        Some x \<Rightarrow> ops ss (push q x)
      | None \<Rightarrow> (case try_pop q of
                   None \<Rightarrow> ops ss q
                 | Some (x, q') \<Rightarrow> (let (out, r) = ops ss q' in (x # out, r))))"

lemma ops_fifo: "fst (ops ss q) @ contents (snd (ops ss q)) = contents q @ List.map_filter (\<lambda>s. s) ss"
proof (induction ss arbitrary: q)
  case (Cons s ss)
  show ?case
  proof (cases s)
    case None
    show ?thesis
    proof (cases "contents q")
      case Nil
      then show ?thesis using Cons.IH None by (simp add: try_pop_Nil map_filter_simps)
    next
      case (Cons x xs)
      then obtain q' where "try_pop q = Some (x, q')" "contents q' = xs" using try_pop_Cons by blast
      then show ?thesis using Cons.IH [of q'] Cons None by (simp add: map_filter_simps case_prod_beta Let_def)
    qed
  next
    case (Some x)
    then show ?thesis using Cons.IH [of "push q x"] by (simp add: contents_push map_filter_simps)
  qed
qed (simp add: map_filter_simps)

end

section \<open>The queue of the client\<close>

type_synonym 'a mutex_queue = "'a list"

definition mq_new :: "'a mutex_queue" where "mq_new = []"

definition mq_size :: "'a mutex_queue \<Rightarrow> nat" where "mq_size q = length q"

definition mq_push :: "'a mutex_queue \<Rightarrow> 'a \<Rightarrow> 'a mutex_queue" where "mq_push q new_value = q @ [new_value]"

definition mq_try_pop :: "'a mutex_queue \<Rightarrow> ('a \<times> 'a mutex_queue) option" where
  "mq_try_pop q = (if q = [] then None else Some (hd q, tl q))"

definition mq_grab_all :: "'a mutex_queue \<Rightarrow> 'a list \<times> 'a mutex_queue" where
  "mq_grab_all q = (let ret = [] in (q, ret))"

definition mq_empty :: "'a mutex_queue \<Rightarrow> bool" where "mq_empty q \<longleftrightarrow> q = []"

interpretation mq: fifo_queue "\<lambda>q. q" mq_new mq_push mq_try_pop mq_grab_all mq_empty mq_size
  by unfold_locales (auto simp: mq_new_def mq_push_def mq_try_pop_def mq_grab_all_def mq_empty_def mq_size_def)

section \<open>The queue that waits\<close>

record 'a tsq =
  q_data :: "'a list"
  q_blocked :: nat
  q_woken :: nat

definition tsq_new :: "'a tsq" where "tsq_new = \<lparr>q_data = [], q_blocked = 0, q_woken = 0\<rparr>"

text \<open>The copy constructor copies the data; nobody waits on the new object.\<close>

definition tsq_copy :: "'a tsq \<Rightarrow> 'a tsq" where "tsq_copy other = \<lparr>q_data = q_data other, q_blocked = 0, q_woken = 0\<rparr>"

definition tsq_size :: "'a tsq \<Rightarrow> nat" where "tsq_size q = length (q_data q)"

definition notify_one :: "'a tsq \<Rightarrow> 'a tsq" where
  "notify_one q =
     (if q_blocked q = 0 then q else q\<lparr>q_blocked := q_blocked q - 1, q_woken := q_woken q + 1\<rparr>)"

definition tsq_push :: "'a tsq \<Rightarrow> 'a \<Rightarrow> 'a tsq" where
  "tsq_push q new_value = notify_one (q\<lparr>q_data := q_data q @ [new_value]\<rparr>)"

text \<open>\<open>data_cond.wait\<close> with the predicate "not empty", at the moment the thread holds the mutex: it goes on, or it
  sleeps.\<close>

definition wait_nonempty :: "'a tsq \<Rightarrow> 'a tsq option" where
  "wait_nonempty q = (if q_data q = [] then None else Some q)"

definition pop_front :: "'a tsq \<Rightarrow> 'a \<times> 'a tsq" where
  "pop_front q = (hd (q_data q), q\<lparr>q_data := tl (q_data q)\<rparr>)"

text \<open>\<open>None\<close>: the thread has gone to sleep; the second component is the queue it leaves. Both versions of
  \<open>wait_and_pop\<close> do this; one returns the element through a reference and the other through a pointer.\<close>

definition wait_and_pop :: "'a tsq \<Rightarrow> 'a option \<times> 'a tsq" where
  "wait_and_pop q =
     (case wait_nonempty q of
        None \<Rightarrow> (None, q\<lparr>q_blocked := q_blocked q + 1\<rparr>)
      | Some q \<Rightarrow> (case pop_front q of (x, q) \<Rightarrow> (Some x, q)))"

definition tsq_try_pop :: "'a tsq \<Rightarrow> ('a \<times> 'a tsq) option" where
  "tsq_try_pop q = (if q_data q = [] then None else Some (pop_front q))"

definition tsq_grab_all :: "'a tsq \<Rightarrow> 'a list \<times> 'a tsq" where
  "tsq_grab_all q = (q_data q, q\<lparr>q_data := []\<rparr>)"

definition wait_and_grab_all :: "'a tsq \<Rightarrow> 'a list option \<times> 'a tsq" where
  "wait_and_grab_all q =
     (case wait_nonempty q of
        None \<Rightarrow> (None, q\<lparr>q_blocked := q_blocked q + 1\<rparr>)
      | Some q \<Rightarrow> (case tsq_grab_all q of (xs, q) \<Rightarrow> (Some xs, q)))"

definition tsq_empty :: "'a tsq \<Rightarrow> bool" where "tsq_empty q \<longleftrightarrow> q_data q = []"

lemma notify_data [simp]: "q_data (notify_one q) = q_data q"
  by (simp add: notify_one_def)

interpretation tsq: fifo_queue q_data tsq_new tsq_push tsq_try_pop tsq_grab_all tsq_empty tsq_size
  by unfold_locales (auto simp: tsq_new_def tsq_push_def tsq_try_pop_def pop_front_def tsq_grab_all_def tsq_empty_def tsq_size_def)

section \<open>Threads that wait\<close>

text \<open>One step of one thread. A woken thread that gets the mutex tests the predicate again; a wake-up may also be
  spurious.\<close>

inductive tsq_step :: "'a tsq \<Rightarrow> 'a tsq \<Rightarrow> bool" where
  ts_push: "tsq_step q (tsq_push q x)"
| ts_try: "tsq_try_pop q = Some (x, q') \<Longrightarrow> tsq_step q q'"
| ts_grab: "tsq_step q (snd (tsq_grab_all q))"
| ts_wait: "tsq_step q (snd (wait_and_pop q))"
| ts_wait_all: "tsq_step q (snd (wait_and_grab_all q))"
| ts_resume: "0 < q_woken q \<Longrightarrow> tsq_step q (snd (wait_and_pop (q\<lparr>q_woken := q_woken q - 1\<rparr>)))"
| ts_resume_all: "0 < q_woken q \<Longrightarrow> tsq_step q (snd (wait_and_grab_all (q\<lparr>q_woken := q_woken q - 1\<rparr>)))"
| ts_spurious: "0 < q_blocked q \<Longrightarrow> tsq_step q (q\<lparr>q_blocked := q_blocked q - 1, q_woken := q_woken q + 1\<rparr>)"

inductive_cases tsq_stepE: "tsq_step q q'"

text \<open>While a thread sleeps, there are at least as many threads on their way as there are elements.\<close>

definition tsq_inv :: "'a tsq \<Rightarrow> bool" where
  "tsq_inv q \<longleftrightarrow> (0 < q_blocked q \<longrightarrow> length (q_data q) \<le> q_woken q)"

lemma tsq_step_inv: "tsq_inv q \<Longrightarrow> tsq_step q q' \<Longrightarrow> tsq_inv q'"
  by (erule tsq_stepE)
    (auto simp: tsq_inv_def tsq_push_def notify_one_def tsq_try_pop_def pop_front_def tsq_grab_all_def wait_and_pop_def
      wait_and_grab_all_def wait_nonempty_def split: if_splits)

interpretation tsqs: step_system "\<lambda>q. q = tsq_new" tsq_step tsq_inv
  by unfold_locales (simp add: tsq_inv_def tsq_new_def, rule tsq_step_inv)

end
