(* ===== verification/Kcp_Client.thy ===== *)
theory Kcp_Client
  imports Check_Function Connect_Packet Kcp_Protocol Threadsafe_Queue
begin

text \<open>
  The client: \<open>kcp_client\<close> of \<open>src/client_lib/kcp_client.cpp\<close>, driven by calls of \<open>update\<close>. It asks the server
  for a conversation, repeats the request, gives up after five seconds, and then carries messages between the
  queue of the user, the engine and the socket.

  The system calls are parameters: the record \<open>tick\<close> holds what one \<open>update\<close> sees (the clock, the result of its
  one \<open>recv\<close>, which datagrams \<open>send\<close> takes, the allocator). \<open>cl_sent\<close> are the datagrams sent and \<open>cl_events\<close> the
  calls of the event callback, in order. Log output is left out. A null pointer that the code follows is the
  failure \<^const>\<open>Aborted\<close>.
\<close>

section \<open>Constants\<close>

datatype eEventType = eNotSet | eConnect | eConnectFailed | eDisconnect | eRcvMsg | eCountOfEventType

definition MAX_MSG_SIZE :: nat where "MAX_MSG_SIZE = 1024 * 10"
definition KCP_UPDATE_INTERVAL :: u64 where "KCP_UPDATE_INTERVAL = 5"
definition KCP_RESEND_CONNECT_MSG_INTERVAL :: u64 where "KCP_RESEND_CONNECT_MSG_INTERVAL = 500"
definition KCP_CONNECT_TIMEOUT_TIME :: u64 where "KCP_CONNECT_TIMEOUT_TIME = 5000"
definition KCP_ERR_ALREADY_CONNECTED :: int where "KCP_ERR_ALREADY_CONNECTED = -2001"
definition KCP_ERR_ADDRESS_INVALID :: int where "KCP_ERR_ADDRESS_INVALID = -2002"
definition KCP_ERR_CREATE_SOCKET_FAIL :: int where "KCP_ERR_CREATE_SOCKET_FAIL = -2003"
definition KCP_ERR_SET_NON_BLOCK_FAIL :: int where "KCP_ERR_SET_NON_BLOCK_FAIL = -2004"
definition KCP_ERR_CONNECT_FUNC_FAIL :: int where "KCP_ERR_CONNECT_FUNC_FAIL = -2010"
definition KCP_ERR_KCP_CONNECT_TIMEOUT :: int where "KCP_ERR_KCP_CONNECT_TIMEOUT = -2011"
definition KCP_CONNECT_TIMEOUT_MSG :: bytes where "KCP_CONNECT_TIMEOUT_MSG = ascii ''connect timeout''"

lemmas client_consts = MAX_MSG_SIZE_def KCP_UPDATE_INTERVAL_def KCP_RESEND_CONNECT_MSG_INTERVAL_def
  KCP_CONNECT_TIMEOUT_TIME_def KCP_ERR_ALREADY_CONNECTED_def KCP_ERR_ADDRESS_INVALID_def
  KCP_ERR_CREATE_SOCKET_FAIL_def KCP_ERR_SET_NON_BLOCK_FAIL_def KCP_ERR_CONNECT_FUNC_FAIL_def
  KCP_ERR_KCP_CONNECT_TIMEOUT_def

section \<open>State\<close>

record kcp_client =
  cl_in_connect_stage :: bool
  cl_connect_start_time :: u64
  cl_last_send_connect_msg_time :: u64
  cl_connect_succeed :: bool
  cl_event_func :: bool
  cl_send_msg_queue :: "bytes mutex_queue"
  cl_udp_port_bind :: int
  cl_server_ip :: bytes
  cl_server_port :: int
  cl_udp_socket :: int
  cl_kcp :: "IKCPCB option"
  cl_sent :: "bytes list"
  cl_events :: "(u32 \<times> eEventType \<times> bytes) list"

definition kcp_client_new :: kcp_client where
  "kcp_client_new =
     \<lparr>cl_in_connect_stage = False, cl_connect_start_time = 0, cl_last_send_connect_msg_time = 0,
      cl_connect_succeed = False, cl_event_func = False, cl_send_msg_queue = mq_new,
      cl_udp_port_bind = 0, cl_server_ip = [], cl_server_port = 0, cl_udp_socket = -1, cl_kcp = None,
      cl_sent = [], cl_events = []\<rparr>"

datatype recv_result = RecvAgain | RecvError | RecvData bytes

record tick =
  t_clock :: u64
  t_recv :: recv_result
  t_send :: "bytes \<Rightarrow> bool"
  t_alloc :: allocator

text \<open>What the calls of \<open>init_udp_connect\<close> return.\<close>

record udp_calls =
  u_inet_pton :: int
  u_socket :: int
  u_getfl :: int
  u_setfl :: int
  u_bind :: int
  u_connect :: int

section \<open>Operations\<close>

definition client_clean :: "kcp_client \<Rightarrow> kcp_client" where
  "client_clean c =
     (case cl_kcp c of None \<Rightarrow> c | Some kcp \<Rightarrow> (case ikcp_release kcp of (freed, _) \<Rightarrow> c\<lparr>cl_kcp := None\<rparr>))"

definition client_set_event_callback :: "kcp_client \<Rightarrow> kcp_client" where
  "client_set_event_callback c = c\<lparr>cl_event_func := True\<rparr>"

text \<open>\<open>(*pevent_func_)(...)\<close>.\<close>

definition call_event :: "u32 \<Rightarrow> eEventType \<Rightarrow> bytes \<Rightarrow> kcp_client \<Rightarrow> kcp_client outcome" where
  "call_event conv event_type msg c =
     (if cl_event_func c then Inr (c\<lparr>cl_events := cl_events c @ [(conv, event_type, msg)]\<rparr>) else Inl Aborted)"

definition client_init_kcp :: "allocator \<Rightarrow> u32 \<Rightarrow> kcp_client \<Rightarrow> kcp_client outcome" where
  "client_init_kcp alloc conv c =
     bindE (orAbort (ikcp_create alloc conv 0)) (\<lambda>kcp.
     let kcp = kcp\<lparr>k_output := True\<rparr>
     in Inr (c\<lparr>cl_kcp := Some (snd (ikcp_nodelay kcp 1 2 1 1))\<rparr>))"

definition init_udp_connect :: "udp_calls \<Rightarrow> kcp_client \<Rightarrow> int \<times> kcp_client" where
  "init_udp_connect sys c =
     (if u_inet_pton sys \<le> 0 then (KCP_ERR_ADDRESS_INVALID, c)
      else
        let c = c\<lparr>cl_udp_socket := u_socket sys\<rparr>
        in if cl_udp_socket c < 0 then (KCP_ERR_CREATE_SOCKET_FAIL, c)
           else if u_getfl sys = -1 then (KCP_ERR_SET_NON_BLOCK_FAIL, c)
           else if u_setfl sys = -1 then (KCP_ERR_SET_NON_BLOCK_FAIL, c)
           else if u_connect sys < 0 then (KCP_ERR_CONNECT_FUNC_FAIL, c)
           else (0, c))"

definition client_connect_async ::
    "udp_calls \<Rightarrow> u64 \<Rightarrow> int \<Rightarrow> bytes \<Rightarrow> int \<Rightarrow> kcp_client \<Rightarrow> int \<times> kcp_client" where
  "client_connect_async sys now udp_port_bind server_ip server_port c =
     (if cl_udp_socket c \<noteq> -1 then (KCP_ERR_ALREADY_CONNECTED, c)
      else
        let c = c\<lparr>cl_udp_port_bind := udp_port_bind, cl_server_ip := server_ip, cl_server_port := server_port\<rparr>;
            (ret, c) = init_udp_connect sys c
        in if ret < 0 then (ret, c)
           else (0, c\<lparr>cl_in_connect_stage := True, cl_connect_start_time := now\<rparr>))"

definition need_send_connect_packet :: "u64 \<Rightarrow> kcp_client \<Rightarrow> bool" where
  "need_send_connect_packet cur_clock c \<longleftrightarrow>
     cur_clock - cl_last_send_connect_msg_time c > KCP_RESEND_CONNECT_MSG_INTERVAL"

definition connect_timeout :: "u64 \<Rightarrow> kcp_client \<Rightarrow> bool" where
  "connect_timeout cur_clock c \<longleftrightarrow> cur_clock - cl_connect_start_time c > KCP_CONNECT_TIMEOUT_TIME"

text \<open>\<open>send\<close>; a failure is only printed.\<close>

definition client_send :: "(bytes \<Rightarrow> bool) \<Rightarrow> bytes \<Rightarrow> kcp_client \<Rightarrow> kcp_client" where
  "client_send net buf c = (if net buf then c\<lparr>cl_sent := cl_sent c @ [buf]\<rparr> else c)"

definition do_send_connect_packet :: "(bytes \<Rightarrow> bool) \<Rightarrow> u64 \<Rightarrow> kcp_client \<Rightarrow> kcp_client" where
  "do_send_connect_packet net cur_clock c =
     client_send net making_connect_packet (c\<lparr>cl_last_send_connect_msg_time := cur_clock\<rparr>)"

text \<open>The datagram arrives in a zeroed array of 1400 bytes; what does not fit is lost.\<close>

definition try_recv_connect_back_packet :: "allocator \<Rightarrow> recv_result \<Rightarrow> kcp_client \<Rightarrow> kcp_client outcome" where
  "try_recv_connect_back_packet alloc rcv c =
     (case rcv of
        RecvAgain \<Rightarrow> Inr c
      | RecvError \<Rightarrow> Inr c
      | RecvData d \<Rightarrow>
          let ret_recv = min (length d) 1400;
              recv_buf = take 1400 (d @ replicate 1400 0)
          in if ret_recv > 0 \<and> is_send_back_conv_packet recv_buf ret_recv
             then bindE (orAbort (grab_conv_from_send_back_conv_packet recv_buf ret_recv)) (\<lambda>conv.
                  bindE (client_init_kcp alloc conv c) (\<lambda>c.
                  let c = c\<lparr>cl_in_connect_stage := False, cl_connect_succeed := True\<rparr>
                  in bindE (orAbort (cl_kcp c)) (\<lambda>kcp.
                     call_event (k_conv kcp) eConnect (ascii ''connect succeed'') c)))
             else Inr c)"

definition do_asio_kcp_connect :: "tick \<Rightarrow> kcp_client \<Rightarrow> kcp_client outcome" where
  "do_asio_kcp_connect t c =
     (if connect_timeout (t_clock t) c
      then bindE (call_event 0 eConnectFailed KCP_CONNECT_TIMEOUT_MSG c) (\<lambda>c. Inr (c\<lparr>cl_in_connect_stage := False\<rparr>))
      else
        let c = (if need_send_connect_packet (t_clock t) c then do_send_connect_packet (t_send t) (t_clock t) c else c)
        in try_recv_connect_back_packet (t_alloc t) (t_recv t) c)"

definition client_send_msg :: "bytes \<Rightarrow> kcp_client \<Rightarrow> kcp_client" where
  "client_send_msg msg c = c\<lparr>cl_send_msg_queue := mq_push (cl_send_msg_queue c) msg\<rparr>"

text \<open>The loop over the messages grabbed; a message the engine refuses is dropped.\<close>

fun send_msgs :: "allocator \<Rightarrow> bytes list \<Rightarrow> IKCPCB \<Rightarrow> IKCPCB option" where
  "send_msgs alloc [] kcp = Some kcp"
| "send_msgs alloc (msg # msgs) kcp =
     (case ikcp_send alloc kcp (Some msg) (of_nat (length msg)) of
        None \<Rightarrow> None
      | Some (send_ret, kcp) \<Rightarrow> send_msgs alloc msgs kcp)"

definition do_send_msg_in_queue :: "allocator \<Rightarrow> kcp_client \<Rightarrow> kcp_client outcome" where
  "do_send_msg_in_queue alloc c =
     (let (msgs, q) = mq_grab_all (cl_send_msg_queue c);
          c = c\<lparr>cl_send_msg_queue := q\<rparr>
      in if msgs = [] then Inr c
         else bindE (orAbort (cl_kcp c)) (\<lambda>kcp.
              bindE (orAbort (send_msgs alloc msgs kcp)) (\<lambda>kcp.
              Inr (c\<lparr>cl_kcp := Some kcp\<rparr>))))"

definition recv_udp_package_from_kcp :: "IKCPCB \<Rightarrow> (bytes \<times> IKCPCB) option" where
  "recv_udp_package_from_kcp kcp =
     (case ikcp_recv kcp True (of_nat MAX_MSG_SIZE) of
        None \<Rightarrow> None
      | Some (kcp_recvd_bytes, kcp_buf, kcp) \<Rightarrow>
          Some (if kcp_recvd_bytes < 0 then [] else take (nat kcp_recvd_bytes) kcp_buf, kcp))"

text \<open>Taking a message out of the engine uses up segments, so that the loop ends.\<close>

definition rcv_load :: "IKCPCB \<Rightarrow> nat" where
  "rcv_load kcp = length (k_rcv_queue kcp) + length (k_rcv_buf kcp)"

lemma move_rcv_load: "rcv_load (fast_recover b (move_rcv kcp)) = rcv_load kcp"
proof -
  obtain n where "n \<le> length (k_rcv_buf kcp)" "move_rcv_from (k_rcv_buf kcp) kcp =
       kcp\<lparr>k_nrcv_buf := k_nrcv_buf kcp - of_nat n, k_rcv_queue := k_rcv_queue kcp @ take n (k_rcv_buf kcp),
           k_nrcv_que := k_nrcv_que kcp + of_nat n, k_rcv_nxt := k_rcv_nxt kcp + of_nat n,
           k_rcv_buf := drop n (k_rcv_buf kcp)\<rparr>"
    using move_rcv_from_spec [of "k_rcv_buf kcp" kcp] by blast
  then show ?thesis by (simp add: rcv_load_def move_rcv_def fast_recover_def)
qed

lemma recv_load_less:
  assumes "ikcp_recv kcp True len = Some (r, out, kcp')" "0 \<le> sint len" "0 \<le> r"
  shows "rcv_load kcp' < rcv_load kcp"
proof -
  note succ = recv_success [OF assms]
  obtain s q where q: "k_rcv_queue kcp = s # q" using succ(1) by (cases "k_rcv_queue kcp") auto
  have "length (after_message (s # q)) < length (s # q)"
    using message_split [of "s # q"] by (cases "first_message (s # q)") (auto split: if_splits dest: arg_cong [where f = length])
  moreover obtain b where "kcp' = fast_recover b (move_rcv (drop_message kcp))" using succ(4) by blast
  then have "rcv_load kcp' = rcv_load (drop_message kcp)" by (simp add: move_rcv_load)
  ultimately show ?thesis by (simp add: rcv_load_def drop_message_def q)
qed

lemma MAX_MSG_SIZE_nonneg: "0 \<le> sint (of_nat MAX_MSG_SIZE :: u32)"
  by (simp add: MAX_MSG_SIZE_def)

lemma recv_package_load:
  assumes "recv_udp_package_from_kcp kcp = Some (msg, kcp')" "msg \<noteq> []"
  shows "rcv_load kcp' < rcv_load kcp"
proof -
  obtain r out where "ikcp_recv kcp True (of_nat MAX_MSG_SIZE) = Some (r, out, kcp')" "0 \<le> r"
    using assms by (auto simp: recv_udp_package_from_kcp_def split: option.splits if_splits)
  then show ?thesis using recv_load_less MAX_MSG_SIZE_nonneg by blast
qed

text \<open>The loop of \<open>handle_udp_packet\<close>: take messages until none, or an empty one, comes.\<close>

function recv_msgs :: "IKCPCB \<Rightarrow> bytes list \<Rightarrow> (bytes list \<times> IKCPCB) option" where
  "recv_msgs kcp got =
     (case recv_udp_package_from_kcp kcp of
        None \<Rightarrow> None
      | Some (msg, kcp') \<Rightarrow> if msg \<noteq> [] then recv_msgs kcp' (got @ [msg]) else Some (got, kcp'))"
  by pat_completeness auto
termination
  by (relation "measure (\<lambda>(kcp, got). rcv_load kcp)") (auto dest: recv_package_load)

declare recv_msgs.simps [simp del]

definition client_handle_udp_packet :: "allocator \<Rightarrow> bytes \<Rightarrow> kcp_client \<Rightarrow> kcp_client outcome" where
  "client_handle_udp_packet alloc udp_packet c =
     (if is_disconnect_packet udp_packet (length udp_packet)
      then if cl_event_func c
           then bindE (orAbort (cl_kcp c)) (\<lambda>kcp. call_event (k_conv kcp) eDisconnect udp_packet c)
           else Inr c
      else
        bindE (orAbort (cl_kcp c)) (\<lambda>kcp.
        bindE (orAbort (ikcp_input alloc kcp (Some udp_packet) (int (length udp_packet)))) (\<lambda>(_, kcp).
        bindE (orAbort (recv_msgs kcp [])) (\<lambda>(msgs, kcp).
        let c = c\<lparr>cl_kcp := Some kcp\<rparr>
        in Inr (if cl_event_func c
                then c\<lparr>cl_events := cl_events c @ map (\<lambda>msg. (k_conv kcp, eRcvMsg, msg)) msgs\<rparr> else c)))))"

text \<open>The detail of the error message is taken before it is written, so that it is always empty.\<close>

definition do_recv_udp_packet_in_loop :: "allocator \<Rightarrow> recv_result \<Rightarrow> kcp_client \<Rightarrow> kcp_client outcome" where
  "do_recv_udp_packet_in_loop alloc rcv c =
     (case rcv of
        RecvAgain \<Rightarrow> Inr c
      | RecvError \<Rightarrow>
          let err_detail = []
          in bindE (orAbort (cl_kcp c)) (\<lambda>kcp. call_event (k_conv kcp) eDisconnect err_detail c)
      | RecvData d \<Rightarrow>
          let buf = take (MAX_MSG_SIZE * 2) d
          in if buf = [] then Inr c else client_handle_udp_packet alloc buf c)"

text \<open>The output callback, for each datagram of a flush.\<close>

definition client_udp_output :: "(bytes \<Rightarrow> bool) \<Rightarrow> bytes list \<Rightarrow> kcp_client \<Rightarrow> kcp_client" where
  "client_udp_output net out c = fold (client_send net) out c"

definition client_update :: "tick \<Rightarrow> kcp_client \<Rightarrow> kcp_client outcome" where
  "client_update t c =
     (if cl_in_connect_stage c then do_asio_kcp_connect t c
      else if cl_connect_succeed c
      then bindE (do_send_msg_in_queue (t_alloc t) c) (\<lambda>c.
           bindE (do_recv_udp_packet_in_loop (t_alloc t) (t_recv t) c) (\<lambda>c.
           bindE (orAbort (cl_kcp c)) (\<lambda>kcp.
           bindE (orAbort (ikcp_update kcp (ucast (t_clock t)))) (\<lambda>(kcp, out).
           Inr (client_udp_output (t_send t) out (c\<lparr>cl_kcp := Some kcp\<rparr>))))))
      else Inr c)"

section \<open>The engine under the client\<close>

lemma recv_msgs_keeps:
  assumes "recv_msgs kcp got = Some (got', kcp')" "api_inv kcp"
  shows "api_inv kcp' \<and> cfg_view kcp' = cfg_view kcp"
  using assms
proof (induction kcp got rule: recv_msgs.induct)
  case (1 kcp got)
  obtain msg k r out where k: "recv_udp_package_from_kcp kcp = Some (msg, k)" "ikcp_recv kcp True (of_nat MAX_MSG_SIZE) = Some (r, out, k)"
    using 1(2) by (subst (asm) recv_msgs.simps) (auto simp: recv_udp_package_from_kcp_def split: option.splits if_splits)
  have step: "api_inv k" "cfg_view k = cfg_view kcp"
    using api_step_inv [OF 1(3) api_recv [OF k(2)]] recv_cfg [OF k(2)] by simp_all
  show ?case
  proof (cases "msg = []")
    case True
    then show ?thesis using 1(2) k(1) step by (subst (asm) recv_msgs.simps) simp
  next
    case False
    then have "recv_msgs k (got @ [msg]) = Some (got', kcp')" using 1(2) k(1) by (subst (asm) recv_msgs.simps) simp
    then show ?thesis using 1(1) [OF k(1) refl False] step by simp
  qed
qed

lemma recv_package_total: "\<exists>msg kcp'. recv_udp_package_from_kcp kcp = Some (msg, kcp')"
  using recv_no_assert [of kcp True "of_nat MAX_MSG_SIZE"]
  by (cases "ikcp_recv kcp True (of_nat MAX_MSG_SIZE)") (auto simp: recv_udp_package_from_kcp_def)

text \<open>The loop returns, and it stops only when the engine has no further message that is not empty.\<close>

lemma recv_msgs_total:
  "\<exists>msgs kcp'. recv_msgs kcp got = Some (got @ msgs, kcp') \<and> [] \<notin> set msgs \<and>
     (\<exists>k. recv_udp_package_from_kcp k = Some ([], kcp'))"
proof (induction kcp got rule: recv_msgs.induct)
  case (1 kcp got)
  obtain msg k where k: "recv_udp_package_from_kcp kcp = Some (msg, k)" using recv_package_total by blast
  show ?case
  proof (cases "msg = []")
    case True
    then show ?thesis using k by (subst recv_msgs.simps) auto
  next
    case False
    then obtain msgs kcp' where "recv_msgs k (got @ [msg]) = Some ((got @ [msg]) @ msgs, kcp')" "[] \<notin> set msgs"
      "\<exists>k. recv_udp_package_from_kcp k = Some ([], kcp')"
      using 1 [OF k refl] by blast
    then show ?thesis using False k by (subst recv_msgs.simps) (auto intro!: exI [of _ "msg # msgs"])
  qed
qed

lemma send_msgs_keeps:
  assumes "send_msgs alloc msgs kcp = Some kcp'" "api_inv kcp" "alloc_bounded alloc" "\<forall>msg \<in> set msgs. length msg < 2147483648"
  shows "api_inv kcp' \<and> cfg_view kcp' = cfg_view kcp"
  using assms
proof (induction msgs arbitrary: kcp)
  case (Cons msg msgs)
  obtain r k where k: "ikcp_send alloc kcp (Some msg) (of_nat (length msg)) = Some (r, k)" "send_msgs alloc msgs k = Some kcp'"
    using Cons.prems(1) by (auto split: option.splits)
  have len: "length msg < 2147483648" using Cons.prems(4) by simp
  have "api_inv k" by (rule api_step_inv [OF Cons.prems(2) api_send_msg [OF assms(3) k(1) len]])
  moreover have "cfg_view k = cfg_view kcp" using send_cfg [OF _ k(1) len] Cons.prems(2) by (simp add: api_inv_def kcp_wf_def)
  ultimately show ?case using Cons.IH [OF k(2)] Cons.prems(3,4) by simp
qed simp

section \<open>The life of a client\<close>

text \<open>How often the user has been told how connecting ended.\<close>

definition is_connect_result :: "u32 \<times> eEventType \<times> bytes \<Rightarrow> bool" where
  "is_connect_result e \<longleftrightarrow> fst (snd e) = eConnect \<or> fst (snd e) = eConnectFailed"

definition connect_results :: "kcp_client \<Rightarrow> nat" where
  "connect_results c = length (filter is_connect_result (cl_events c))"

definition client_inv :: "kcp_client \<Rightarrow> bool" where
  "client_inv c \<longleftrightarrow>
     (cl_connect_succeed c \<longrightarrow> \<not> cl_in_connect_stage c \<and> (\<exists>kcp. cl_kcp c = Some kcp \<and> api_inv kcp)) \<and>
     connect_results c + (if cl_in_connect_stage c then 1 else 0) \<le> 1 \<and>
     (cl_udp_socket c = -1 \<longrightarrow> connect_results c = 0 \<and> \<not> cl_in_connect_stage c \<and> \<not> cl_connect_succeed c) \<and>
     (\<forall>msg \<in> set (cl_send_msg_queue c). length msg < 2147483648)"

text \<open>What the owner of a client does with it.\<close>

inductive client_step :: "kcp_client \<Rightarrow> kcp_client \<Rightarrow> bool" where
  cs_callback: "client_step c (client_set_event_callback c)"
| cs_connect: "client_step c (snd (client_connect_async sys now port ip sport c))"
| cs_send: "length msg < 2147483648 \<Longrightarrow> client_step c (client_send_msg msg c)"
| cs_update: "alloc_bounded (t_alloc t) \<Longrightarrow> client_update t c = Inr c' \<Longrightarrow> client_step c c'"

inductive_cases client_stepE: "client_step c c'"

text \<open>The fields the invariant reads, apart from the queue and the events.\<close>

definition client_view :: "kcp_client \<Rightarrow> bool \<times> bool \<times> int \<times> bool \<times> u64 \<times> u64" where
  "client_view c = (cl_in_connect_stage c, cl_connect_succeed c, cl_udp_socket c, cl_event_func c,
     cl_connect_start_time c, cl_last_send_connect_msg_time c)"

lemma call_event_Inr:
  "call_event conv t msg c = Inr c' \<longleftrightarrow> cl_event_func c \<and> c' = c\<lparr>cl_events := cl_events c @ [(conv, t, msg)]\<rparr>"
  by (auto simp: call_event_def)

lemma udp_output_eq: "client_udp_output net out c = c\<lparr>cl_sent := cl_sent c @ filter net out\<rparr>"
  unfolding client_udp_output_def by (induction out arbitrary: c) (simp_all add: client_send_def)

lemma init_kcp_result:
  assumes "client_init_kcp alloc conv c = Inr c'"
  shows "\<exists>kcp. c' = c\<lparr>cl_kcp := Some kcp\<rparr> \<and> api_inv kcp \<and> k_conv kcp = conv"
proof -
  obtain k where k: "ikcp_create alloc conv 0 = Some k" "c' = c\<lparr>cl_kcp := Some (snd (ikcp_nodelay (k\<lparr>k_output := True\<rparr>) 1 2 1 1))\<rparr>"
    using assms by (auto simp: client_init_kcp_def Let_def bindE_Inr_iff)
  have "fresh_kcp (k\<lparr>k_output := True\<rparr>)" using k(1) by (auto simp: fresh_kcp_def)
  then have "api_inv (snd (ikcp_nodelay (k\<lparr>k_output := True\<rparr>) 1 2 1 1))" using api_step_inv [OF fresh_inv api_nodelay] by blast
  moreover have "k_conv k = conv" using k(1) by (auto simp: ikcp_create_def Let_def split: if_splits)
  ultimately show ?thesis using k(2) by (auto simp: ikcp_nodelay_def Let_def)
qed

lemma init_kcp_ready:
  assumes "ikcp_create alloc conv 0 \<noteq> None"
  shows "\<exists>kcp. client_init_kcp alloc conv c = Inr (c\<lparr>cl_kcp := Some kcp\<rparr>) \<and> ready_kcp kcp \<and> k_conv kcp = conv"
proof -
  obtain k where k: "ikcp_create alloc conv 0 = Some k" using assms by blast
  define kcp where "kcp = snd (ikcp_nodelay (k\<lparr>k_output := True\<rparr>) 1 2 1 1)"
  have "fresh_kcp (k\<lparr>k_output := True\<rparr>)" using k by (auto simp: fresh_kcp_def)
  then have "ready_kcp kcp" unfolding ready_kcp_def kcp_def by blast
  moreover have run: "client_init_kcp alloc conv c = Inr (c\<lparr>cl_kcp := Some kcp\<rparr>)" using k by (simp add: client_init_kcp_def kcp_def)
  moreover have "k_conv kcp = conv"
  proof -
    obtain kcp' where "c\<lparr>cl_kcp := Some kcp\<rparr> = c\<lparr>cl_kcp := Some kcp'\<rparr>" "k_conv kcp' = conv" using init_kcp_result [OF run] by blast
    then show ?thesis by (metis kcp_client.select_convs(11) kcp_client.update_convs(11) kcp_client.surjective option.inject)
  qed
  ultimately show ?thesis by blast
qed

text \<open>The answer to the request.\<close>

lemma connect_back_result:
  assumes "try_recv_connect_back_packet alloc rcv c = Inr c'"
  shows "c' = c \<or> (\<exists>kcp d conv. rcv = RecvData d \<and> is_send_back_conv_packet (take 1400 (d @ replicate 1400 0)) (min (length d) 1400) \<and>
    grab_conv_from_send_back_conv_packet (take 1400 (d @ replicate 1400 0)) (min (length d) 1400) = Some conv \<and>
    api_inv kcp \<and> k_conv kcp = conv \<and>
    c' = c\<lparr>cl_kcp := Some kcp, cl_in_connect_stage := False, cl_connect_succeed := True,
           cl_events := cl_events c @ [(conv, eConnect, ascii ''connect succeed'')]\<rparr>)"
proof (cases rcv)
  case (RecvData d)
  show ?thesis
  proof (cases "is_send_back_conv_packet (take 1400 (d @ replicate 1400 0)) (min (length d) 1400) \<and> 0 < min (length d) 1400")
    case True
    then obtain conv c1 where c1: "grab_conv_from_send_back_conv_packet (take 1400 (d @ replicate 1400 0)) (min (length d) 1400) = Some conv"
      "client_init_kcp alloc conv c = Inr c1"
      "bindE (orAbort (cl_kcp c1)) (\<lambda>kcp. call_event (k_conv kcp) eConnect (ascii ''connect succeed'')
         (c1\<lparr>cl_in_connect_stage := False, cl_connect_succeed := True\<rparr>)) = Inr c'"
      using assms RecvData by (auto simp: try_recv_connect_back_packet_def Let_def bindE_Inr_iff)
    obtain kcp where "c1 = c\<lparr>cl_kcp := Some kcp\<rparr>" "api_inv kcp" "k_conv kcp = conv" using init_kcp_result [OF c1(2)] by blast
    then show ?thesis using c1(1,3) True RecvData by (auto simp: call_event_Inr)
  next
    case False
    then show ?thesis using assms RecvData by (auto simp: try_recv_connect_back_packet_def Let_def)
  qed
qed (use assms in \<open>simp_all add: try_recv_connect_back_packet_def\<close>)

lemma connect_results_append [simp]:
  "connect_results (c\<lparr>cl_events := cl_events c @ es\<rparr>) = connect_results c + length (filter is_connect_result es)"
  by (simp add: connect_results_def)

lemma no_results: "filter is_connect_result (map (\<lambda>msg. (conv, eRcvMsg, msg)) msgs) = []"
  by (simp add: filter_empty_conv is_connect_result_def)

text \<open>A client at work keeps its engine well-formed and reports no further result of connecting.\<close>

definition client_busy :: "kcp_client \<Rightarrow> kcp_client \<Rightarrow> bool" where
  "client_busy c c' \<longleftrightarrow> client_view c' = client_view c \<and> connect_results c' = connect_results c \<and>
     (\<exists>kcp kcp'. cl_kcp c = Some kcp \<and> cl_kcp c' = Some kcp' \<and> api_inv kcp' \<and> k_conv kcp' = k_conv kcp) \<and>
     set (cl_send_msg_queue c') \<subseteq> set (cl_send_msg_queue c)"

lemma client_busy_trans: "client_busy a b \<Longrightarrow> client_busy b c \<Longrightarrow> client_busy a c"
  by (fastforce simp: client_busy_def)

lemma busy_send:
  assumes "cl_kcp c = Some kcp" "api_inv kcp" "alloc_bounded alloc" "\<forall>msg \<in> set (cl_send_msg_queue c). length msg < 2147483648"
    "do_send_msg_in_queue alloc c = Inr c'"
  shows "client_busy c c'"
proof (cases "cl_send_msg_queue c = []")
  case True
  then show ?thesis using assms by (auto simp: do_send_msg_in_queue_def mq_grab_all_def client_busy_def client_view_def connect_results_def)
next
  case False
  then obtain kcp' where "send_msgs alloc (cl_send_msg_queue c) kcp = Some kcp'" "c' = c\<lparr>cl_send_msg_queue := [], cl_kcp := Some kcp'\<rparr>"
    using assms(1,5) by (auto simp: do_send_msg_in_queue_def mq_grab_all_def bindE_Inr_iff)
  then show ?thesis using send_msgs_keeps [OF _ assms(2,3,4)] assms(1)
    by (auto simp: client_busy_def client_view_def connect_results_def cfg_view_def)
qed

lemma busy_packet:
  assumes "cl_kcp c = Some kcp" "api_inv kcp" "alloc_bounded alloc" "client_handle_udp_packet alloc d c = Inr c'"
  shows "client_busy c c'"
proof (cases "is_disconnect_packet d (length d)")
  case True
  then show ?thesis using assms
    by (auto simp: client_handle_udp_packet_def call_event_Inr client_busy_def client_view_def is_connect_result_def split: if_splits)
next
  case False
  then obtain r k1 msgs k2 where k: "ikcp_input alloc kcp (Some d) (int (length d)) = Some (r, k1)" "recv_msgs k1 [] = Some (msgs, k2)"
    and c': "c' = (let c = c\<lparr>cl_kcp := Some k2\<rparr> in if cl_event_func c
                then c\<lparr>cl_events := cl_events c @ map (\<lambda>msg. (k_conv k2, eRcvMsg, msg)) msgs\<rparr> else c)"
    using assms(1,4) by (auto simp: client_handle_udp_packet_def bindE_Inr_iff Let_def)
  have "api_inv k1" by (rule api_step_inv [OF assms(2) api_input [OF assms(3) k(1)]])
  then have "api_inv k2" "k_conv k2 = k_conv kcp"
    using recv_msgs_keeps [OF k(2)] input_cfg [OF k(1)] by (simp_all add: cfg_view_def)
  then show ?thesis using assms(1) no_results
    by (simp add: c' client_busy_def client_view_def connect_results_def Let_def)
qed

lemma busy_recv:
  assumes "cl_kcp c = Some kcp" "api_inv kcp" "alloc_bounded alloc" "do_recv_udp_packet_in_loop alloc rcv c = Inr c'"
  shows "client_busy c c'"
proof -
  have refl: "client_busy c c" using assms(1,2) by (simp add: client_busy_def)
  show ?thesis
  proof (cases rcv)
    case RecvError
    then show ?thesis using assms
      by (auto simp: do_recv_udp_packet_in_loop_def Let_def call_event_Inr client_busy_def client_view_def is_connect_result_def)
  next
    case (RecvData d)
    then show ?thesis using assms(4) busy_packet [OF assms(1-3)] refl
      by (auto simp: do_recv_udp_packet_in_loop_def Let_def split: if_splits)
  qed (use assms refl in \<open>simp add: do_recv_udp_packet_in_loop_def\<close>)
qed

lemma busy_update:
  assumes "client_inv c" "cl_connect_succeed c" "alloc_bounded (t_alloc t)" "client_update t c = Inr c'"
  shows "client_busy c c'"
proof -
  obtain kcp where kcp: "cl_kcp c = Some kcp" "api_inv kcp" and stage: "\<not> cl_in_connect_stage c"
    and small: "\<forall>msg \<in> set (cl_send_msg_queue c). length msg < 2147483648"
    using assms(1,2) by (auto simp: client_inv_def)
  obtain c1 c2 k k' out where c1: "do_send_msg_in_queue (t_alloc t) c = Inr c1"
    and c2: "do_recv_udp_packet_in_loop (t_alloc t) (t_recv t) c1 = Inr c2"
    and k: "cl_kcp c2 = Some k" "ikcp_update k (ucast (t_clock t)) = Some (k', out)"
    and c': "c' = client_udp_output (t_send t) out (c2\<lparr>cl_kcp := Some k'\<rparr>)"
    using assms(2,4) stage by (auto simp: client_update_def bindE_Inr_iff)
  have b1: "client_busy c c1" by (rule busy_send [OF kcp assms(3) small c1])
  then obtain k1 where k1: "cl_kcp c1 = Some k1" "api_inv k1" by (auto simp: client_busy_def)
  have b2: "client_busy c1 c2" by (rule busy_recv [OF k1 assms(3) c2])
  then have "api_inv k" using k(1) by (auto simp: client_busy_def)
  then have "api_inv k'" "k_conv k' = k_conv k"
    using api_step_inv [OF _ api_update [OF k(2)]] update_cfg [OF k(2)] by (simp_all add: cfg_view_def)
  then have "client_busy c2 c'"
    using k(1) by (simp add: c' udp_output_eq client_busy_def client_view_def connect_results_def)
  then show ?thesis using b1 b2 client_busy_trans by blast
qed

lemma client_busy_inv: "client_inv c \<Longrightarrow> client_busy c c' \<Longrightarrow> client_inv c'"
  by (auto simp: client_inv_def client_busy_def client_view_def)

text \<open>An update during the connect stage.\<close>

lemma connect_stage_result:
  assumes "cl_in_connect_stage c" "client_update t c = Inr c'"
  shows "connect_timeout (t_clock t) c \<and> c' = c\<lparr>cl_events := cl_events c @ [(0, eConnectFailed, KCP_CONNECT_TIMEOUT_MSG)],
      cl_in_connect_stage := False\<rparr> \<or>
    \<not> connect_timeout (t_clock t) c \<and>
      (\<exists>sent last. try_recv_connect_back_packet (t_alloc t) (t_recv t)
         (c\<lparr>cl_last_send_connect_msg_time := last, cl_sent := sent\<rparr>) = Inr c')"
proof (cases "connect_timeout (t_clock t) c")
  case True
  then show ?thesis using assms by (auto simp: client_update_def do_asio_kcp_connect_def bindE_Inr_iff call_event_Inr)
next
  case False
  let ?c = "if need_send_connect_packet (t_clock t) c then do_send_connect_packet (t_send t) (t_clock t) c else c"
  have "?c = c\<lparr>cl_last_send_connect_msg_time := cl_last_send_connect_msg_time ?c, cl_sent := cl_sent ?c\<rparr>"
    by (simp add: do_send_connect_packet_def client_send_def)
  then obtain last sent where "?c = c\<lparr>cl_last_send_connect_msg_time := last, cl_sent := sent\<rparr>" by blast
  moreover have "try_recv_connect_back_packet (t_alloc t) (t_recv t) ?c = Inr c'"
    using assms False by (simp add: client_update_def do_asio_kcp_connect_def Let_def)
  ultimately show ?thesis using False by auto
qed

lemma connect_stage_inv:
  assumes "client_inv c" "cl_in_connect_stage c" "client_update t c = Inr c'"
  shows "client_inv c'"
proof -
  have c: "\<not> cl_connect_succeed c" "connect_results c = 0" "cl_udp_socket c \<noteq> -1"
    "\<forall>msg \<in> set (cl_send_msg_queue c). length msg < 2147483648"
    using assms(1,2) by (auto simp: client_inv_def)
  from connect_stage_result [OF assms(2,3)] show ?thesis
  proof (elim disjE conjE exE)
    fix sent last
    assume "try_recv_connect_back_packet (t_alloc t) (t_recv t) (c\<lparr>cl_last_send_connect_msg_time := last, cl_sent := sent\<rparr>) = Inr c'"
    from connect_back_result [OF this] c assms(2) show ?thesis
      by (auto simp: client_inv_def connect_results_def is_connect_result_def)
  qed (use c in \<open>simp add: client_inv_def connect_results_def is_connect_result_def\<close>)
qed

lemma init_udp_result:
  assumes "init_udp_connect sys c = (ret, c')"
  shows "c' = c \<and> ret < 0 \<or> (\<exists>s. c' = c\<lparr>cl_udp_socket := s\<rparr> \<and> (0 \<le> ret \<longrightarrow> 0 \<le> s))"
  using assms by (auto simp: init_udp_connect_def Let_def client_consts split: if_splits)

lemma connect_async_inv:
  assumes "client_inv c" shows "client_inv (snd (client_connect_async sys now port ip sport c))"
proof (cases "cl_udp_socket c = -1")
  case True
  then have c: "connect_results c = 0" "\<not> cl_in_connect_stage c" "\<not> cl_connect_succeed c"
    "\<forall>msg \<in> set (cl_send_msg_queue c). length msg < 2147483648"
    using assms by (simp_all add: client_inv_def)
  define c0 where "c0 = c\<lparr>cl_udp_port_bind := port, cl_server_ip := ip, cl_server_port := sport\<rparr>"
  obtain ret c1 where c1: "init_udp_connect sys c0 = (ret, c1)" by fastforce
  have run: "snd (client_connect_async sys now port ip sport c) =
      (if ret < 0 then c1 else c1\<lparr>cl_in_connect_stage := True, cl_connect_start_time := now\<rparr>)"
    using True c1 by (simp add: client_connect_async_def Let_def c0_def)
  from init_udp_result [OF c1] consider "c1 = c0" "ret < 0" | s where "c1 = c0\<lparr>cl_udp_socket := s\<rparr>" "0 \<le> ret \<longrightarrow> 0 \<le> s"
    by blast
  then show ?thesis
    by cases (use c in \<open>auto simp: run client_inv_def connect_results_def c0_def\<close>)
qed (use assms in \<open>simp add: client_connect_async_def\<close>)

lemma client_step_inv:
  assumes "client_inv c" "client_step c c'" shows "client_inv c'"
  using assms(2)
proof cases
  case (cs_connect sys now port ip sport)
  then show ?thesis using connect_async_inv [OF assms(1)] by simp
next
  case (cs_update t)
  show ?thesis
  proof (cases "cl_in_connect_stage c")
    case True
    then show ?thesis using connect_stage_inv [OF assms(1) True cs_update(2)] by simp
  next
    case False
    show ?thesis
    proof (cases "cl_connect_succeed c")
      case True
      then show ?thesis using client_busy_inv [OF assms(1) busy_update [OF assms(1) True cs_update]] by simp
    next
      case False
      then show ?thesis using cs_update(2) \<open>\<not> cl_in_connect_stage c\<close> assms(1) by (simp add: client_update_def)
    qed
  qed
qed (use assms(1) in \<open>auto simp: client_set_event_callback_def client_send_msg_def mq_push_def client_inv_def connect_results_def\<close>)

lemma new_client_inv: "client_inv kcp_client_new"
  by (simp add: kcp_client_new_def client_inv_def connect_results_def mq_new_def)

interpretation cl: step_system "\<lambda>c. c = kcp_client_new" client_step client_inv
  by unfold_locales (use new_client_inv client_step_inv in blast)+

end
