(* ===== verification/Kcp_Client_Wrap.thy ===== *)
theory Kcp_Client_Wrap
  imports Kcp_Client
begin

text \<open>
  \<open>kcp_client_wrap\<close> of \<open>src/client_lib/kcp_client_wrap.cpp\<close>, the client with its own thread, and the clock and
  sleep functions of \<open>src/client_lib/kcp_client_util.cpp\<close>.

  The wrapper is the owner of the callback of its \<open>kcp_client\<close>: the events an \<open>update\<close> produces are handed to
  \<open>handle_client_event_callback\<close> in order, which does not touch the inner client. A loop that waits for time to
  pass sees one \<^typ>\<open>tick\<close> after the other, as a function of the number of the round.
\<close>

section \<open>Clock and sleep\<close>

definition iclock64 :: "u64 \<Rightarrow> u64 \<Rightarrow> u64" where
  "iclock64 s u = s * 1000 + u div 1000"

definition iclock :: "u64 \<Rightarrow> u64 \<Rightarrow> u32" where
  "iclock s u = ucast (iclock64 s u AND 0xffffffff)"

text \<open>The loop of \<open>millisecond_sleep\<close>. Each \<open>nanosleep\<close> that is called answers with the time left, seconds and
  nanoseconds; the list holds the answers. The result is the requests made, or \<open>None\<close> while the loop goes on.\<close>

fun sleep_loop :: "nat \<Rightarrow> nat \<Rightarrow> (nat \<times> nat) list \<Rightarrow> (nat \<times> nat) list option" where
  "sleep_loop sec nsec answers =
     (if sec + nsec > 0
      then case answers of
             [] \<Rightarrow> None
           | (left_sec, left_nsec) # rest \<Rightarrow> map_option ((#) (sec, nsec)) (sleep_loop left_sec left_nsec rest)
      else Some [])"

definition millisecond_sleep :: "nat \<Rightarrow> (nat \<times> nat) list \<Rightarrow> (nat \<times> nat) list option" where
  "millisecond_sleep n_millisecond answers =
     sleep_loop (n_millisecond div 1000) ((n_millisecond mod 1000) * 1000 * 1000) answers"

text \<open>The time slept: what was asked for, less what was left over.\<close>

definition nanos :: "nat \<times> nat \<Rightarrow> nat" where
  "nanos t = fst t * 1000000000 + snd t"

declare sleep_loop.simps [simp del]

lemma sleep_loop_time:
  "sleep_loop sec nsec answers = Some reqs \<Longrightarrow>
     sum_list (map nanos reqs) = nanos (sec, nsec) + sum_list (map nanos (take (length reqs) answers))"
proof (induction sec nsec answers arbitrary: reqs rule: sleep_loop.induct)
  case (1 sec nsec answers)
  show ?case
  proof (cases "sec + nsec > 0")
    case True
    then obtain l rest where a: "answers = l # rest" using 1(2) by (cases answers) (simp_all add: sleep_loop.simps)
    obtain ls ln where l: "l = (ls, ln)" by fastforce
    obtain reqs' where r: "sleep_loop ls ln rest = Some reqs'" "reqs = (sec, nsec) # reqs'"
      using 1(2) True by (subst (asm) sleep_loop.simps) (auto simp: a l)
    show ?thesis using 1(1) [OF True a l [symmetric] r(1)] by (simp add: r(2) a l)
  next
    case False
    then show ?thesis using 1(2) by (subst (asm) sleep_loop.simps) (simp add: nanos_def)
  qed
qed

section \<open>The wrapper\<close>

record kcp_client_wrap =
  w_client :: kcp_client
  w_connect_result :: int
  w_event_func :: bool
  w_events :: "(u32 \<times> eEventType \<times> bytes) list"
  w_want_stop :: bool
  w_stopped :: bool
  w_start :: bool
  w_last_update_clock :: u64

definition kcp_client_wrap_new :: kcp_client_wrap where
  "kcp_client_wrap_new =
     \<lparr>w_client = client_set_event_callback kcp_client_new, w_connect_result = 1, w_event_func = False,
      w_events = [], w_want_stop = False, w_stopped = False, w_start = False, w_last_update_clock = 0\<rparr>"

definition wrap_set_event_callback :: "kcp_client_wrap \<Rightarrow> kcp_client_wrap" where
  "wrap_set_event_callback w = w\<lparr>w_event_func := True\<rparr>"

definition pass_event :: "u32 \<times> eEventType \<times> bytes \<Rightarrow> kcp_client_wrap \<Rightarrow> kcp_client_wrap" where
  "pass_event e w = (if w_event_func w then w\<lparr>w_events := w_events w @ [e]\<rparr> else w)"

definition handle_client_event_callback :: "u32 \<times> eEventType \<times> bytes \<Rightarrow> kcp_client_wrap \<Rightarrow> kcp_client_wrap" where
  "handle_client_event_callback e w =
     (case fst (snd e) of
        eConnect \<Rightarrow> pass_event e (w\<lparr>w_connect_result := 0\<rparr>)
      | eConnectFailed \<Rightarrow> pass_event e (w\<lparr>w_connect_result := KCP_ERR_KCP_CONNECT_TIMEOUT\<rparr>)
      | eRcvMsg \<Rightarrow> pass_event e w
      | eDisconnect \<Rightarrow> pass_event e w
      | _ \<Rightarrow> w)"

text \<open>\<open>kcp_client_.update()\<close>, with the callbacks it makes.\<close>

definition wrap_update :: "tick \<Rightarrow> kcp_client_wrap \<Rightarrow> kcp_client_wrap outcome" where
  "wrap_update t w =
     bindE (client_update t (w_client w)) (\<lambda>c.
     Inr (fold handle_client_event_callback (drop (length (cl_events (w_client w))) (cl_events c)) (w\<lparr>w_client := c\<rparr>)))"

text \<open>The loop of the blocking connect, from round \<open>n\<close> on. \<open>None\<close> is a loop that does not end.\<close>

partial_function (option) do_asio_kcp_connect_loop ::
    "(nat \<Rightarrow> tick) \<Rightarrow> nat \<Rightarrow> kcp_client_wrap \<Rightarrow> (int \<times> nat \<times> kcp_client_wrap) outcome option" where
  "do_asio_kcp_connect_loop ticks n w =
     (if w_connect_result w \<noteq> 1 then Some (Inr (w_connect_result w, n, w))
      else case wrap_update (ticks n) w of
             Inl e \<Rightarrow> Some (Inl e)
           | Inr w \<Rightarrow> do_asio_kcp_connect_loop ticks (Suc n) w)"

text \<open>\<open>created\<close> says whether \<open>pthread_create\<close> succeeded; the caller then waits until the thread has set its flag.\<close>

definition start_workthread :: "bool \<Rightarrow> u64 \<Rightarrow> kcp_client_wrap \<Rightarrow> kcp_client_wrap outcome" where
  "start_workthread created now w =
     (if w_start w
      then bindE (assert_check False (ascii ''false'') (ascii ''kcp_client_wrap.cpp'') 105 (ascii ''workthread already start!''))
             (\<lambda>_. Inr w)
      else if \<not> created then Inr w
      else Inr (w\<lparr>w_start := True, w_last_update_clock := now - KCP_UPDATE_INTERVAL\<rparr>))"

definition wrap_connect ::
    "udp_calls \<Rightarrow> u64 \<Rightarrow> (nat \<Rightarrow> tick) \<Rightarrow> bool \<Rightarrow> u64 \<Rightarrow> int \<Rightarrow> bytes \<Rightarrow> int \<Rightarrow> kcp_client_wrap \<Rightarrow>
      (int \<times> kcp_client_wrap) outcome option" where
  "wrap_connect sys now ticks created later udp_port_bind server_ip server_port w =
     (let (ret, c) = client_connect_async sys now udp_port_bind server_ip server_port (w_client w);
          w = w\<lparr>w_client := c\<rparr>
      in if ret < 0 then Some (Inr (ret, w))
         else map_option (\<lambda>r. bindE r (\<lambda>(ret, _, w).
                if ret = 0 then bindE (start_workthread created later w) (\<lambda>w. Inr (ret, w)) else Inr (ret, w)))
              (do_asio_kcp_connect_loop ticks 0 w))"

definition wrap_connect_async ::
    "udp_calls \<Rightarrow> u64 \<Rightarrow> bool \<Rightarrow> u64 \<Rightarrow> int \<Rightarrow> bytes \<Rightarrow> int \<Rightarrow> kcp_client_wrap \<Rightarrow> (int \<times> kcp_client_wrap) outcome" where
  "wrap_connect_async sys now created later udp_port_bind server_ip server_port w =
     (let (ret, c) = client_connect_async sys now udp_port_bind server_ip server_port (w_client w);
          w = w\<lparr>w_client := c\<rparr>
      in if ret < 0 then Inr (ret, w)
         else bindE (start_workthread created later w) (\<lambda>w. Inr (0, w)))"

text \<open>One round of the work thread; the flag says whether the thread goes on. A round that is too early sleeps.\<close>

definition workthread_round :: "tick \<Rightarrow> kcp_client_wrap \<Rightarrow> (bool \<times> kcp_client_wrap) outcome" where
  "workthread_round t w =
     (if w_want_stop w then Inr (False, w\<lparr>w_start := False, w_stopped := True\<rparr>)
      else
        let cur_clock = t_clock t
        in if cur_clock - w_last_update_clock w \<ge> KCP_UPDATE_INTERVAL \<or> cur_clock < w_last_update_clock w
           then bindE (wrap_update t (w\<lparr>w_last_update_clock := cur_clock\<rparr>)) (\<lambda>w. Inr (True, w))
           else Inr (True, w))"

text \<open>\<open>stop\<close>: the request, then the rounds of the thread until it has seen it. The next round is its last.\<close>

definition wrap_stop :: "tick \<Rightarrow> kcp_client_wrap \<Rightarrow> kcp_client_wrap outcome" where
  "wrap_stop t w =
     (if w_start w then bindE (workthread_round t (w\<lparr>w_want_stop := True\<rparr>)) (\<lambda>(_, w). Inr w) else Inr w)"

text \<open>The destructor.\<close>

definition wrap_destroy :: "tick \<Rightarrow> kcp_client_wrap \<Rightarrow> kcp_client_wrap outcome" where
  "wrap_destroy t w = wrap_stop t w"

text \<open>The work thread from its start. Another thread may ask it to stop at any moment: \<open>asked i\<close> says that this has
  happened when round \<open>i\<close> tests the flag. \<open>None\<close> is a thread that runs on.\<close>

partial_function (option) workthread_rounds ::
    "(nat \<Rightarrow> tick) \<Rightarrow> (nat \<Rightarrow> bool) \<Rightarrow> nat \<Rightarrow> kcp_client_wrap \<Rightarrow> (nat \<times> kcp_client_wrap) outcome option" where
  "workthread_rounds ticks asked n w =
     (case workthread_round (ticks n) (w\<lparr>w_want_stop := w_want_stop w \<or> asked n\<rparr>) of
        Inl e \<Rightarrow> Some (Inl e)
      | Inr (go_on, w) \<Rightarrow> if go_on then workthread_rounds ticks asked (Suc n) w else Some (Inr (n, w)))"

definition do_workthread_loop ::
    "u64 \<Rightarrow> (nat \<Rightarrow> tick) \<Rightarrow> (nat \<Rightarrow> bool) \<Rightarrow> kcp_client_wrap \<Rightarrow> (nat \<times> kcp_client_wrap) outcome option" where
  "do_workthread_loop now ticks asked w =
     workthread_rounds ticks asked 0 (w\<lparr>w_start := True, w_last_update_clock := now - KCP_UPDATE_INTERVAL\<rparr>)"

definition wrap_send_msg :: "bytes \<Rightarrow> kcp_client_wrap \<Rightarrow> kcp_client_wrap" where
  "wrap_send_msg msg w = w\<lparr>w_client := client_send_msg msg (w_client w)\<rparr>"

section \<open>The work thread ends\<close>

lemma callbacks_flags [simp]:
  "w_want_stop (fold handle_client_event_callback evs w) = w_want_stop w"
  by (induction evs arbitrary: w) (auto simp: handle_client_event_callback_def pass_event_def split: eEventType.split)

lemma workthread_round_cases:
  assumes "workthread_round t w = Inr (go_on, w')"
  shows "go_on \<longleftrightarrow> \<not> w_want_stop w" "go_on \<Longrightarrow> \<not> w_want_stop w'" "\<not> go_on \<Longrightarrow> w' = w\<lparr>w_start := False, w_stopped := True\<rparr>"
  using assms by (auto simp: workthread_round_def Let_def wrap_update_def bindE_Inr_iff split: if_splits)

text \<open>It ends at the first round that finds the request, or earlier with the exception of an update; it never ends
  otherwise, and at its end its flags say so.\<close>

lemma workthread_ends:
  assumes "\<not> w_want_stop w" "asked m" "n \<le> m" "\<And>i. n \<le> i \<Longrightarrow> i < m \<Longrightarrow> \<not> asked i"
  shows "\<exists>r. workthread_rounds ticks asked n w = Some r \<and>
    (case r of Inl _ \<Rightarrow> True | Inr (k, w') \<Rightarrow> k = m \<and> w_stopped w' \<and> \<not> w_start w')"
  using assms
proof (induction "m - n" arbitrary: n w)
  case 0
  then have "n = m" by simp
  then show ?case using 0 by (simp add: workthread_rounds.simps workthread_round_def)
next
  case (Suc d)
  then have "n < m" by simp
  then have no: "w\<lparr>w_want_stop := w_want_stop w \<or> asked n\<rparr> = w" using Suc.prems(1,4) by simp
  show ?case
  proof (cases "workthread_round (ticks n) w")
    case (Inl e)
    then show ?thesis by (subst workthread_rounds.simps) (simp add: no)
  next
    case (Inr p)
    then obtain w1 where w1: "workthread_round (ticks n) w = Inr (True, w1)" "\<not> w_want_stop w1"
      using workthread_round_cases [of "ticks n" w] Suc.prems(1) by (cases p) auto
    have "\<exists>r. workthread_rounds ticks asked (Suc n) w1 = Some r \<and>
        (case r of Inl _ \<Rightarrow> True | Inr (k, w') \<Rightarrow> k = m \<and> w_stopped w' \<and> \<not> w_start w')"
      using Suc.hyps(2) \<open>n < m\<close> Suc.prems by (intro Suc.hyps(1) w1(2)) auto
    then show ?thesis by (subst workthread_rounds.simps) (simp add: no w1(1))
  qed
qed

section \<open>The blocking connect ends\<close>

text \<open>What every round of the loop starts from: the inner client waits for its answer, its callback is set, and no
  result has been reported.\<close>

definition connecting :: "u64 \<Rightarrow> kcp_client_wrap \<Rightarrow> bool" where
  "connecting start w \<longleftrightarrow> w_connect_result w = 1 \<and> cl_in_connect_stage (w_client w) \<and> cl_event_func (w_client w) \<and>
     cl_connect_start_time (w_client w) = start"

text \<open>An answer that fills the whole buffer of 1400 bytes, with nothing behind its text that ends a number: \<open>atol\<close> has no
  reason to stop inside the buffer.\<close>

definition overlong_answer :: "bytes \<Rightarrow> bool" where
  "overlong_answer d \<longleftrightarrow> 1400 \<le> length d \<and> is_send_back_conv_packet d 1400 \<and>
     (\<forall>c \<in> set (drop 40 (take 1400 d)). isspace c \<or> isdigit c \<or> c = 45 \<or> c = 43)"

text \<open>A round in which memory is granted and no such answer arrives.\<close>

definition fair_tick :: "tick \<Rightarrow> bool" where
  "fair_tick t \<longleftrightarrow> (\<forall>i n. n < 17179869184 \<longrightarrow> t_alloc t i n) \<and> (\<forall>d. t_recv t = RecvData d \<longrightarrow> \<not> overlong_answer d)"

lemma read_digits_stops: "c \<in> set m \<Longrightarrow> \<not> isdigit c \<Longrightarrow> read_digits acc m \<noteq> None"
  by (induction m arbitrary: acc) auto

lemma atol_stops: "\<not> isspace c \<Longrightarrow> \<not> isdigit c \<Longrightarrow> c \<noteq> 45 \<Longrightarrow> c \<noteq> 43 \<Longrightarrow> c \<in> set m \<Longrightarrow> atol m \<noteq> None"
proof (induction m)
  case (Cons x m)
  show ?case
  proof (cases "isspace x")
    case True
    then show ?thesis using Cons by (auto simp: atol_def)
  next
    case False
    then show ?thesis using Cons.prems read_digits_stops [of c "x # m"] read_digits_stops [of c m]
      by (auto simp: atol_def)
  qed
qed simp

lemma grab_conv_zeroed:
  assumes "40 \<le> length d" "length d < 1400"
  shows "grab_conv_from_send_back_conv_packet (take 1400 (d @ replicate 1400 0)) n \<noteq> None"
proof -
  have "take 1400 (d @ replicate 1400 0) = d @ replicate (1400 - length d) 0" using assms(2) by simp
  then have "drop 40 (take 1400 (d @ replicate 1400 0)) = drop 40 d @ replicate (1400 - length d) 0"
    using assms(1) by simp
  moreover have "0 \<in> set (drop 40 d @ replicate (1400 - length d) 0)" using assms(2) by simp
  moreover have "length ASIO_KCP_SEND_BACK_CONV_PACKET = 40" by (simp add: packet_texts)
  moreover have "atol m \<noteq> None" if "0 \<in> set m" for m :: bytes
    using atol_stops [OF _ _ _ _ that] by (simp add: isspace_def isdigit_def)
  ultimately show ?thesis by (simp add: grab_conv_from_send_back_conv_packet_def)
qed

lemma create_fair:
  assumes "\<forall>i n. n < 17179869184 \<longrightarrow> alloc i n" shows "\<exists>c'. client_init_kcp alloc conv c = Inr c'"
proof -
  have "ikcp_create alloc conv 0 \<noteq> None"
    using assms by (simp add: ikcp_create_def Let_def sizeof_IKCPCB_def kcp_consts)
  then show ?thesis by (auto simp: client_init_kcp_def Let_def)
qed

lemma answer_prefix:
  assumes "1400 \<le> length d" shows "is_send_back_conv_packet (take 1400 d) 1400 = is_send_back_conv_packet d 1400"
  using assms by (simp add: is_send_back_conv_packet_def mem_equal_def packet_texts min_def)

lemma grab_conv_full:
  assumes "1400 \<le> length d" "is_send_back_conv_packet d 1400" "\<not> overlong_answer d"
  shows "grab_conv_from_send_back_conv_packet (take 1400 d) n \<noteq> None"
proof -
  obtain c where "c \<in> set (drop 40 (take 1400 d))" "\<not> isspace c" "\<not> isdigit c" "c \<noteq> 45" "c \<noteq> 43"
    using assms by (auto simp: overlong_answer_def)
  then have "atol (drop 40 (take 1400 d)) \<noteq> None" by (intro atol_stops)
  moreover have "length ASIO_KCP_SEND_BACK_CONV_PACKET = 40" by (simp add: packet_texts)
  ultimately show ?thesis by (simp add: grab_conv_from_send_back_conv_packet_def)
qed

lemma connect_back_fair:
  assumes "cl_event_func c" "fair_tick t" shows "\<exists>c'. try_recv_connect_back_packet (t_alloc t) (t_recv t) c = Inr c'"
proof (cases "t_recv t")
  case (RecvData d)
  let ?buf = "take 1400 (d @ replicate 1400 0)" and ?n = "min (length d) 1400"
  show ?thesis
  proof (cases "0 < ?n \<and> is_send_back_conv_packet ?buf ?n")
    case True
    have "grab_conv_from_send_back_conv_packet ?buf ?n \<noteq> None"
    proof (cases "length d < 1400")
      case short: True
      have "40 \<le> length d" using True by (auto simp: is_send_back_conv_packet_def packet_texts)
      then show ?thesis by (rule grab_conv_zeroed [OF _ short])
    next
      case False
      then have full: "1400 \<le> length d" "?buf = take 1400 d" "?n = 1400" by simp_all
      moreover have "is_send_back_conv_packet d 1400" using True full answer_prefix by simp
      moreover have "\<not> overlong_answer d" using assms(2) RecvData by (simp add: fair_tick_def)
      ultimately show ?thesis using grab_conv_full by simp
    qed
    then obtain conv where conv: "grab_conv_from_send_back_conv_packet ?buf ?n = Some conv" by blast
    obtain c1 where c1: "client_init_kcp (t_alloc t) conv c = Inr c1" using create_fair [of "t_alloc t" conv c] assms(2) by (auto simp: fair_tick_def)
    then obtain kcp where "c1 = c\<lparr>cl_kcp := Some kcp\<rparr>" using init_kcp_result by blast
    then show ?thesis using RecvData True conv c1 assms(1)
      by (simp only: try_recv_connect_back_packet_def Let_def recv_result.case simp_thms if_True orAbort_simps bindE_simps) (simp add: call_event_def)
  next
    case False
    then show ?thesis using RecvData by (auto simp: try_recv_connect_back_packet_def Let_def)
  qed
qed (simp_all add: try_recv_connect_back_packet_def)

text \<open>With digits up to the end of the buffer \<open>atol\<close> does read on behind it.\<close>

lemma read_digits_all: "\<forall>c \<in> set m. isdigit c \<Longrightarrow> read_digits acc m = None"
  by (induction m arbitrary: acc) auto

lemma answer_overread:
  assumes "1400 \<le> length d" "is_send_back_conv_packet d 1400" "\<forall>c \<in> set (drop 40 (take 1400 d)). isdigit c"
  shows "try_recv_connect_back_packet alloc (RecvData d) c = Inl Aborted"
proof -
  have len: "length ASIO_KCP_SEND_BACK_CONV_PACKET = 40" by (simp add: packet_texts)
  define m where "m = drop 40 (take 1400 d)"
  have "m \<noteq> []" using assms(1) by (simp add: m_def)
  then obtain x m' where m: "m = x # m'" by (cases m) auto
  have x: "isdigit x" "\<forall>c \<in> set m'. isdigit c" using assms(3) m unfolding m_def [symmetric] by auto
  then have "\<not> isspace x" "x \<noteq> 45" "x \<noteq> 43" by (auto simp: isspace_def isdigit_def word_le_nat_alt)
  then have "atol m = None" using x read_digits_all [of m'] by (simp add: atol_def m)
  then have "grab_conv_from_send_back_conv_packet (take 1400 d) 1400 = None"
    by (simp add: grab_conv_from_send_back_conv_packet_def len m_def)
  moreover have "take 1400 (d @ replicate 1400 0) = take 1400 d" "min (length d) 1400 = 1400" using assms(1) by simp_all
  ultimately show ?thesis using answer_prefix [OF assms(1)] assms(2) by (simp add: try_recv_connect_back_packet_def Let_def)
qed

text \<open>One round: the result is there, or the wrapper goes on connecting, which it cannot do once the time is up.\<close>

lemma connecting_round:
  assumes "connecting start w" "fair_tick t"
  shows "\<exists>w'. wrap_update t w = Inr w' \<and>
    w_start w' = w_start w \<and> (w_connect_result w' = 0 \<longrightarrow> cl_connect_succeed (w_client w')) \<and>
    (w_connect_result w' = 0 \<or> w_connect_result w' = KCP_ERR_KCP_CONNECT_TIMEOUT \<or>
     connecting start w' \<and> \<not> t_clock t - start > KCP_CONNECT_TIMEOUT_TIME)"
proof (cases "connect_timeout (t_clock t) (w_client w)")
  case True
  then show ?thesis using assms(1)
    by (simp add: connecting_def wrap_update_def client_update_def do_asio_kcp_connect_def call_event_def
        handle_client_event_callback_def pass_event_def client_consts)
next
  case False
  have w: "cl_in_connect_stage (w_client w)" "cl_event_func (w_client w)" using assms(1) by (simp_all add: connecting_def)
  define c0 where "c0 = (if need_send_connect_packet (t_clock t) (w_client w)
    then do_send_connect_packet (t_send t) (t_clock t) (w_client w) else w_client w)"
  have c0: "cl_event_func c0" "cl_in_connect_stage c0" "cl_events c0 = cl_events (w_client w)"
    "cl_connect_start_time c0 = cl_connect_start_time (w_client w)"
    using w by (simp_all add: c0_def do_send_connect_packet_def client_send_def)
  obtain c' where c': "try_recv_connect_back_packet (t_alloc t) (t_recv t) c0 = Inr c'"
    using connect_back_fair [OF c0(1) assms(2)] by blast
  then have run: "client_update t (w_client w) = Inr c'"
    using w False by (simp add: client_update_def do_asio_kcp_connect_def c0_def)
  from connect_back_result [OF c'] show ?thesis
  proof (elim disjE exE conjE)
    assume "c' = c0"
    then show ?thesis using run assms(1) c0 False
      by (auto simp: wrap_update_def connecting_def connect_timeout_def)
  next
    fix kcp d conv
    assume "c' = c0\<lparr>cl_kcp := Some kcp, cl_in_connect_stage := False, cl_connect_succeed := True,
      cl_events := cl_events c0 @ [(conv, eConnect, ascii ''connect succeed'')]\<rparr>"
    then show ?thesis using run c0(3)
      by (simp add: wrap_update_def handle_client_event_callback_def pass_event_def)
  qed
qed

lemma connect_loop_unfold:
  "w_connect_result w \<noteq> 1 \<Longrightarrow> do_asio_kcp_connect_loop ticks n w = Some (Inr (w_connect_result w, n, w))"
  "w_connect_result w = 1 \<Longrightarrow> wrap_update (ticks n) w = Inr w' \<Longrightarrow>
     do_asio_kcp_connect_loop ticks n w = do_asio_kcp_connect_loop ticks (Suc n) w'"
  by (simp_all add: do_asio_kcp_connect_loop.simps)

lemma connect_loop_ends:
  assumes "connecting start w" "\<forall>i \<ge> n. fair_tick (ticks i)" "t_clock (ticks (n + m)) - start > KCP_CONNECT_TIMEOUT_TIME"
  shows "\<exists>ret k w'. do_asio_kcp_connect_loop ticks n w = Some (Inr (ret, k, w')) \<and> k \<le> n + m + 1 \<and>
    w_start w' = w_start w \<and> w_connect_result w' = ret \<and>
    (ret = 0 \<and> cl_connect_succeed (w_client w') \<or> ret = KCP_ERR_KCP_CONNECT_TIMEOUT)"
  using assms
proof (induction m arbitrary: n w)
  case 0
  obtain w1 where w1: "wrap_update (ticks n) w = Inr w1" "w_start w1 = w_start w"
    "w_connect_result w1 = 0 \<and> cl_connect_succeed (w_client w1) \<or> w_connect_result w1 = KCP_ERR_KCP_CONNECT_TIMEOUT"
    using connecting_round [OF 0(1), of "ticks n"] 0 by auto
  then have "w_connect_result w1 \<noteq> 1" by (auto simp: client_consts)
  then have "do_asio_kcp_connect_loop ticks n w = Some (Inr (w_connect_result w1, Suc n, w1))"
    using 0(1) w1(1) connect_loop_unfold(1) [of w1 ticks "Suc n"] connect_loop_unfold(2) [of w ticks n w1]
    by (simp add: connecting_def)
  then show ?case using w1(2,3) by auto
next
  case (Suc m)
  have fair: "fair_tick (ticks n)" using Suc.prems(2) by simp
  obtain w1 where w1: "wrap_update (ticks n) w = Inr w1" "w_start w1 = w_start w"
    "w_connect_result w1 = 0 \<and> cl_connect_succeed (w_client w1) \<or> w_connect_result w1 = KCP_ERR_KCP_CONNECT_TIMEOUT \<or> connecting start w1"
    using connecting_round [OF Suc.prems(1) fair] by blast
  have step: "do_asio_kcp_connect_loop ticks n w = do_asio_kcp_connect_loop ticks (Suc n) w1"
    using Suc.prems(1) w1(1) connect_loop_unfold(2) by (simp add: connecting_def)
  show ?case
  proof (cases "connecting start w1")
    case True
    then show ?thesis using Suc.IH [OF True, of "Suc n"] Suc.prems(2,3) step w1(2) by simp
  next
    case False
    then have "w_connect_result w1 = 0 \<and> cl_connect_succeed (w_client w1) \<or> w_connect_result w1 = KCP_ERR_KCP_CONNECT_TIMEOUT"
      using w1(3) by blast
    moreover from this have "w_connect_result w1 \<noteq> 1" by (auto simp: client_consts)
    ultimately show ?thesis unfolding step using connect_loop_unfold(1) w1(2) by auto
  qed
qed

end
