(* ===== verification/Client_Properties.thy ===== *)
theory Client_Properties
  imports Kcp_Client_Wrap
begin

text \<open>
  The properties of the client library (\<open>src/client_lib/kcp_client.cpp\<close>, \<open>kcp_client_wrap.cpp\<close>): the life of a
  client, the blocking connect returns, and the loop that hands messages to the user.
\<close>

section \<open>A sample client\<close>

text \<open>System calls that succeed, and rounds in which no datagram arrives.\<close>

definition cl_calls :: udp_calls where
  "cl_calls = \<lparr>u_inet_pton = 1, u_socket = 3, u_getfl = 2, u_setfl = 0, u_bind = 0, u_connect = 0\<rparr>"

definition cl_quiet :: "u64 \<Rightarrow> tick" where
  "cl_quiet now = \<lparr>t_clock = now, t_recv = RecvAgain, t_send = \<lambda>d. True, t_alloc = \<lambda>i n. n < 17179869184\<rparr>"

definition cl_demo :: kcp_client where
  "cl_demo = snd (client_connect_async cl_calls 100 0 (ascii ''127.0.0.1'') 12345 (client_set_event_callback kcp_client_new))"

lemma cl_demo_run: "client_step\<^sup>*\<^sup>* kcp_client_new cl_demo"
  unfolding cl_demo_def by (rule rtranclp.rtrancl_into_rtrancl [OF r_into_rtranclp], rule cs_callback, rule cs_connect)

lemma cl_demo_fields: "cl_in_connect_stage cl_demo" "cl_udp_socket cl_demo = 3"
  by (simp_all add: cl_demo_def client_connect_async_def init_udp_connect_def cl_calls_def client_set_event_callback_def
      kcp_client_new_def Let_def)

section \<open>The life of a client\<close>

text \<open>C13: Whatever its owner does with a client (setting the callback, connecting, sending, calling \<open>update\<close> with any
  datagrams and any clock), the user hears at most once how connecting ended, and not before the connect stage
  is over; a client that says it is connected has left the stage and owns a control block that satisfies the
  invariant of the engine and has its output set; and before a socket is opened nothing has happened.\<close>

theorem client_lifecycle:
  assumes "client_step\<^sup>*\<^sup>* kcp_client_new c"
  shows "connect_results c \<le> 1 \<and> (cl_in_connect_stage c \<longrightarrow> connect_results c = 0 \<and> \<not> cl_connect_succeed c) \<and>
    (cl_connect_succeed c \<longrightarrow> (\<exists>kcp. cl_kcp c = Some kcp \<and> kcp_wf kcp \<and> k_output kcp)) \<and>
    (cl_udp_socket c = -1 \<longrightarrow> connect_results c = 0 \<and> \<not> cl_in_connect_stage c \<and> \<not> cl_connect_succeed c)"
  using cl.reachable_inv [OF refl assms] by (auto simp: client_inv_def api_inv_def split: if_splits)

theorem client_lifecycle_witness: "connect_results cl_demo = 0 \<and> \<not> cl_connect_succeed cl_demo"
  using client_lifecycle [OF cl_demo_run] cl_demo_fields(1) by blast

section \<open>The blocking connect\<close>

lemma connect_async_result:
  "client_connect_async sys now port ip sport c = (ret, c') \<Longrightarrow>
     cl_event_func c' = cl_event_func c \<and>
     (ret = 0 \<and> cl_in_connect_stage c' \<and> cl_connect_start_time c' = now \<or>
      ret \<in> {KCP_ERR_ALREADY_CONNECTED, KCP_ERR_ADDRESS_INVALID, KCP_ERR_CREATE_SOCKET_FAIL, KCP_ERR_SET_NON_BLOCK_FAIL,
             KCP_ERR_CONNECT_FUNC_FAIL})"
  by (auto simp: client_connect_async_def init_udp_connect_def Let_def client_consts split: if_splits)

text \<open>C14: The blocking \<open>connect\<close> of a wrapper that has not connected yet returns, if only the clock passes five
  seconds at some round: with 0, the inner client connected and the work thread running if it could be
  created, or with one of the error codes of the header. Whether and when the server answers, which other
  datagrams arrive and which datagrams are lost makes no difference to that, with one exception: memory is granted, and
  no datagram arrives that is recognised as the answer, fills the whole 1400-byte buffer and has only digits, signs and
  white space behind its text (\<open>overlong_answer\<close>). On such a datagram, when it has digits only there, \<open>atol\<close> reads past
  the end of \<open>recv_buf\<close>, which is undefined behaviour.\<close>

theorem connect_returns:
  assumes "w_connect_result w = 1" "\<not> w_start w" "cl_event_func (w_client w)"
    and "\<forall>i. fair_tick (ticks i)" "t_clock (ticks m) - now > KCP_CONNECT_TIMEOUT_TIME"
  shows "\<exists>ret w'. wrap_connect sys now ticks created later port ip sport w = Some (Inr (ret, w')) \<and>
    (ret = 0 \<and> cl_connect_succeed (w_client w') \<and> w_connect_result w' = 0 \<and> w_start w' = created \<or>
     ret \<in> {KCP_ERR_ALREADY_CONNECTED, KCP_ERR_ADDRESS_INVALID, KCP_ERR_CREATE_SOCKET_FAIL, KCP_ERR_SET_NON_BLOCK_FAIL,
            KCP_ERR_CONNECT_FUNC_FAIL, KCP_ERR_KCP_CONNECT_TIMEOUT} \<and> \<not> w_start w') \<and>
    (\<forall>d. 1400 \<le> length d \<and> is_send_back_conv_packet d 1400 \<and> (\<forall>c \<in> set (drop 40 (take 1400 d)). isdigit c) \<longrightarrow>
      overlong_answer d \<and> try_recv_connect_back_packet alloc (RecvData d) c\<^sub>0 = Inl Aborted)"
proof -
  have over: "\<forall>d. 1400 \<le> length d \<and> is_send_back_conv_packet d 1400 \<and> (\<forall>c \<in> set (drop 40 (take 1400 d)). isdigit c) \<longrightarrow>
      overlong_answer d \<and> try_recv_connect_back_packet alloc (RecvData d) c\<^sub>0 = Inl Aborted"
    using answer_overread by (auto simp: overlong_answer_def)
  obtain ret c where rc: "client_connect_async sys now port ip sport (w_client w) = (ret, c)" by fastforce
  note r = connect_async_result [OF rc]
  show ?thesis
  proof (cases "ret = 0")
    case False
    then show ?thesis using r rc assms(2) over by (intro exI [of _ ret] exI [of _ "w\<lparr>w_client := c\<rparr>"]) (auto simp: wrap_connect_def client_consts)
  next
    case True
    have c: "connecting now (w\<lparr>w_client := c\<rparr>)" using r True assms(1,3) by (auto simp: connecting_def client_consts)
    obtain ret' k w' where w': "do_asio_kcp_connect_loop ticks 0 (w\<lparr>w_client := c\<rparr>) = Some (Inr (ret', k, w'))"
      "w_start w' = w_start (w\<lparr>w_client := c\<rparr>)" "w_connect_result w' = ret'"
      "ret' = 0 \<and> cl_connect_succeed (w_client w') \<or> ret' = KCP_ERR_KCP_CONNECT_TIMEOUT"
      using connect_loop_ends [OF c, of 0 ticks m] assms(4,5) unfolding add_0 by blast
    then show ?thesis using True rc assms(2) over
      by (auto simp: wrap_connect_def start_workthread_def client_consts)
  qed
qed

theorem connect_returns_witness:
  "\<exists>ret w'. wrap_connect cl_calls 0 (\<lambda>i. cl_quiet (of_nat (5 * i))) True 0 0 [] 12345 kcp_client_wrap_new = Some (Inr (ret, w')) \<and>
    (ret = 0 \<and> cl_connect_succeed (w_client w') \<and> w_connect_result w' = 0 \<and> w_start w' = True \<or>
     ret \<in> {KCP_ERR_ALREADY_CONNECTED, KCP_ERR_ADDRESS_INVALID, KCP_ERR_CREATE_SOCKET_FAIL, KCP_ERR_SET_NON_BLOCK_FAIL,
            KCP_ERR_CONNECT_FUNC_FAIL, KCP_ERR_KCP_CONNECT_TIMEOUT} \<and> \<not> w_start w')"
proof -
  have 1: "w_connect_result kcp_client_wrap_new = 1" "\<not> w_start kcp_client_wrap_new" "cl_event_func (w_client kcp_client_wrap_new)"
    by (simp_all add: kcp_client_wrap_new_def client_set_event_callback_def kcp_client_new_def)
  have 2: "\<forall>i. fair_tick (cl_quiet (of_nat (5 * i)))" by (simp add: fair_tick_def cl_quiet_def)
  have 3: "t_clock (cl_quiet (of_nat (5 * 1001))) - 0 > KCP_CONNECT_TIMEOUT_TIME" by (simp add: cl_quiet_def client_consts)
  show ?thesis
    using connect_returns [of kcp_client_wrap_new "\<lambda>i. cl_quiet (of_nat (5 * i))" 1001 0 cl_calls True 0 0 "[]" 12345 "\<lambda>i n. True" kcp_client_new, OF 1 2 3]
    by blast
qed

section \<open>Taking messages out of the engine\<close>

text \<open>\<open>ikcp_recv\<close>, called again and again with the buffer of the client, gives these messages.\<close>

inductive takes :: "IKCPCB \<Rightarrow> bytes list \<Rightarrow> IKCPCB \<Rightarrow> bool" where
  takes_none: "takes kcp [] kcp"
| takes_one: "ikcp_recv kcp True (of_nat MAX_MSG_SIZE) = Some (r, out, k) \<Longrightarrow> 0 \<le> r \<Longrightarrow> take (nat r) out \<noteq> [] \<Longrightarrow>
     takes k msgs kcp' \<Longrightarrow> takes kcp (take (nat r) out # msgs) kcp'"

lemma package_takes:
  assumes "recv_udp_package_from_kcp kcp = Some (msg, k)" "msg \<noteq> []" "takes k msgs kcp'"
  shows "takes kcp (msg # msgs) kcp'"
proof -
  obtain r out where "ikcp_recv kcp True (of_nat MAX_MSG_SIZE) = Some (r, out, k)" "0 \<le> r" "msg = take (nat r) out"
    using assms(1,2) by (auto simp: recv_udp_package_from_kcp_def split: option.splits if_splits)
  then show ?thesis using takes_one assms(2,3) by blast
qed

lemma recv_msgs_takes:
  "\<exists>msgs k kcp'. recv_msgs kcp got = Some (got @ msgs, kcp') \<and> takes kcp msgs k \<and> recv_udp_package_from_kcp k = Some ([], kcp')"
proof (induction kcp got rule: recv_msgs.induct)
  case (1 kcp got)
  obtain msg k where k: "recv_udp_package_from_kcp kcp = Some (msg, k)" using recv_package_total by blast
  show ?case
  proof (cases "msg = []")
    case True
    then show ?thesis using k takes_none by (subst recv_msgs.simps) auto
  next
    case False
    then obtain msgs k2 kcp' where "recv_msgs k (got @ [msg]) = Some ((got @ [msg]) @ msgs, kcp')" "takes k msgs k2"
      "recv_udp_package_from_kcp k2 = Some ([], kcp')"
      using 1 [OF k refl] by blast
    then show ?thesis using False k package_takes [OF k False]
      by (subst recv_msgs.simps) (auto intro!: exI [of _ "msg # msgs"])
  qed
qed

text \<open>C15: For every datagram that is not the end of the conversation, and with memory granted, a connected client
  hands the datagram to the engine and then all messages the engine has, each once and in order, to the user:
  the loop ends, and it ends only at a call of \<open>ikcp_recv\<close> that gives no message (nothing complete, or a message
  longer than the buffer of 10240 bytes) or an empty one.\<close>

theorem client_drains:
  assumes "cl_kcp c = Some kcp" "cl_event_func c" "\<forall>i n. alloc i n" "\<not> is_disconnect_packet d (length d)"
  shows "\<exists>r k1 msgs k2 k3. ikcp_input alloc kcp (Some d) (int (length d)) = Some (r, k1) \<and> takes k1 msgs k2 \<and>
    recv_udp_package_from_kcp k2 = Some ([], k3) \<and>
    client_handle_udp_packet alloc d c =
      Inr (c\<lparr>cl_kcp := Some k3, cl_events := cl_events c @ map (\<lambda>msg. (k_conv k3, eRcvMsg, msg)) msgs\<rparr>)"
proof -
  obtain r k1 where k1: "ikcp_input alloc kcp (Some d) (int (length d)) = Some (r, k1)"
    using input_total [OF assms(3)] by fastforce
  obtain msgs k2 k3 where "recv_msgs k1 [] = Some (msgs, k3)" "takes k1 msgs k2" "recv_udp_package_from_kcp k2 = Some ([], k3)"
    using recv_msgs_takes [of k1 "[]"] by auto
  then show ?thesis using k1 assms by (auto simp: client_handle_udp_packet_def Let_def)
qed

definition cl_kcp_demo :: IKCPCB where "cl_kcp_demo = (the (ikcp_create (\<lambda>i n. True) 7 0))\<lparr>k_output := True\<rparr>"

theorem client_drains_witness:
  "\<exists>c'. client_handle_udp_packet (\<lambda>i n. True) [1, 2, 3] (cl_demo\<lparr>cl_kcp := Some cl_kcp_demo\<rparr>) = Inr c'"
proof -
  have "cl_event_func (cl_demo\<lparr>cl_kcp := Some cl_kcp_demo\<rparr>)"
    by (simp add: cl_demo_def client_connect_async_def init_udp_connect_def cl_calls_def client_set_event_callback_def
        kcp_client_new_def Let_def)
  moreover have "\<not> is_disconnect_packet [1, 2, 3] (length ([1, 2, 3] :: bytes))" by code_simp
  ultimately show ?thesis
    using client_drains [of "cl_demo\<lparr>cl_kcp := Some cl_kcp_demo\<rparr>" cl_kcp_demo "\<lambda>i n. True" "[1, 2, 3]"] by auto
qed

end
