(* ===== verification/Multicast_Client.thy ===== *)
theory Multicast_Client
  imports Multicast_Manager "HOL-Library.Multiset"
begin

text \<open>
  The receiving side of multicast: \<open>kcp_multicast_client\<close> of \<open>src/client_lib/kcp_multicast_client.cpp\<close>.
  The system calls are parameters: what \<open>socket\<close>, \<open>setsockopt\<close>, \<open>fcntl\<close>, \<open>bind\<close>, \<open>poll\<close> and \<open>recvfrom\<close>
  returned. \<open>mcl_fds\<close> are the descriptors this object holds open, so that a leak is seen; messages handed to
  the callback and acknowledgements handed to \<open>sendto\<close> are logged in order. Log output is left out. The
  member functions hold the mutex while they touch the state, so each of them is one step, except \<open>stop\<close>, which lets it go
  to wait for the receive thread, and that thread itself: it holds the mutex only while it builds the set of descriptors
  to poll, copies the callback or sends an acknowledgement. So its loop is a function from one such place to the next,
  and what the other threads do meanwhile comes in between.
\<close>

record GroupInfo =
  gi_multicast_addr :: bytes
  gi_port :: u16
  gi_socket_fd :: int
  gi_last_seq :: u32

record mc_client =
  mcl_groups :: "GroupInfo std_map"
  mcl_running :: bool
  mcl_thread_running :: bool
  mcl_callback :: bool
  mcl_fds :: "int list"
  mcl_delivered :: "(u32 \<times> bytes) list"
  mcl_acks :: "(u32 \<times> bytes \<times> u16 \<times> bytes) list"

definition mc_client_new :: mc_client where
  "mc_client_new =
     \<lparr>mcl_groups = [], mcl_running = False, mcl_thread_running = False, mcl_callback = False,
      mcl_fds = [], mcl_delivered = [], mcl_acks = []\<rparr>"

text \<open>The outcomes of the calls of \<open>join_group\<close>: the descriptor, or a negative number, and whether each later call
  succeeded.\<close>

record join_calls =
  j_socket :: int
  j_reuse :: bool
  j_getfl :: bool
  j_setfl :: bool
  j_bind :: bool
  j_member :: bool

definition join_group :: "join_calls \<Rightarrow> mc_client \<Rightarrow> bytes \<Rightarrow> u16 \<Rightarrow> u32 \<Rightarrow> int \<times> mc_client" where
  "join_group sys cl multicast_addr port group_id =
     (if map_of (mcl_groups cl) group_id \<noteq> None then (-1, cl)
      else
        let sock_fd = j_socket sys
        in if sock_fd < 0 then (-2, cl)
           else
             let cl = cl\<lparr>mcl_fds := sock_fd # mcl_fds cl\<rparr>;
                 closed = cl\<lparr>mcl_fds := remove1 sock_fd (mcl_fds cl)\<rparr>
             in if \<not> j_reuse sys then (-3, closed)
                else if \<not> j_getfl sys \<or> \<not> j_setfl sys then (-4, closed)
                else if \<not> j_bind sys then (-5, closed)
                else if \<not> j_member sys then (-6, closed)
                else (0, cl\<lparr>mcl_groups := map_put group_id
                         \<lparr>gi_multicast_addr = multicast_addr, gi_port = port, gi_socket_fd = sock_fd, gi_last_seq = 0\<rparr>
                         (mcl_groups cl)\<rparr>))"

definition leave_group :: "mc_client \<Rightarrow> u32 \<Rightarrow> int \<times> mc_client" where
  "leave_group cl group_id =
     (case map_of (mcl_groups cl) group_id of
        None \<Rightarrow> (-1, cl)
      | Some gi \<Rightarrow>
          (0, cl\<lparr>mcl_fds := remove1 (gi_socket_fd gi) (mcl_fds cl), mcl_groups := map_erase group_id (mcl_groups cl)\<rparr>))"

definition set_message_callback :: "bool \<Rightarrow> mc_client \<Rightarrow> mc_client" where
  "set_message_callback cb cl = cl\<lparr>mcl_callback := cb\<rparr>"

text \<open>\<open>created\<close> says whether \<open>pthread_create\<close> succeeded.\<close>

definition mc_start :: "bool \<Rightarrow> mc_client \<Rightarrow> bool \<times> mc_client" where
  "mc_start created cl =
     (if mcl_running cl then (False, cl)
      else let cl = cl\<lparr>mcl_running := True\<rparr>
           in if \<not> created then (False, cl\<lparr>mcl_running := False\<rparr>) else (True, cl))"

text \<open>The loop of \<open>stop\<close> over the groups.\<close>

fun leave_all :: "GroupInfo std_map \<Rightarrow> mc_client \<Rightarrow> mc_client" where
  "leave_all [] cl = cl\<lparr>mcl_groups := []\<rparr>"
| "leave_all ((k, gi) # gs) cl =
     leave_all gs (cl\<lparr>mcl_fds := remove1 (gi_socket_fd gi) (mcl_fds cl), mcl_groups := gs\<rparr>)"

text \<open>\<open>stop\<close> joins the receive thread when the flag says it runs; the thread clears the flag on its way out. This is the
  whole function, when no other thread changes the groups while it waits.\<close>

definition mc_client_stop :: "mc_client \<Rightarrow> mc_client" where
  "mc_client_stop cl =
     (if \<not> mcl_running cl then cl
      else let cl = cl\<lparr>mcl_running := False\<rparr>;
               cl = (if mcl_thread_running cl then cl\<lparr>mcl_thread_running := False\<rparr> else cl)
           in leave_all (mcl_groups cl) cl)"

definition send_ack :: "mc_client \<Rightarrow> u32 \<Rightarrow> u32 \<Rightarrow> mc_client" where
  "send_ack cl group_id seq =
     (case map_of (mcl_groups cl) group_id of
        None \<Rightarrow> cl
      | Some gi \<Rightarrow>
          let ack_msg = ascii ''ACK:'' @ print_u32 seq
          in cl\<lparr>mcl_acks := mcl_acks cl @ [(group_id, gi_multicast_addr gi, gi_port gi, ack_msg)]\<rparr>)"

definition handle_multicast_message :: "mc_client \<Rightarrow> u32 \<Rightarrow> bytes \<Rightarrow> mc_client" where
  "handle_multicast_message cl group_id msg =
     (if mcl_callback cl then cl\<lparr>mcl_delivered := mcl_delivered cl @ [(group_id, msg)]\<rparr> else cl)"

text \<open>The block that would update the last sequence number is empty.\<close>

definition handle_reliable_message :: "mc_client \<Rightarrow> u32 \<Rightarrow> bytes \<Rightarrow> mc_client" where
  "handle_reliable_message cl group_id data = handle_multicast_message cl group_id data"

text \<open>\<open>ntohl\<close> of four bytes.\<close>

definition ntohl_bytes :: "bytes \<Rightarrow> u32" where
  "ntohl_bytes b = load_native32 (b ! 3) (b ! 2) (b ! 1) (b ! 0)"

text \<open>One datagram of the receive loop, up to the acknowledgement: the number to acknowledge, if there is one.\<close>

definition receive_data :: "mc_client \<Rightarrow> u32 \<Rightarrow> bytes \<Rightarrow> u32 option \<times> mc_client" where
  "receive_data cl group_id buffer =
     (if length buffer \<ge> 4 \<and> mem_equal buffer (ascii ''ACK:'') 4 then (None, cl)
      else if length buffer \<ge> 4 then
        let seq = ntohl_bytes (take 4 buffer)
        in (Some seq, handle_reliable_message cl group_id (drop 4 buffer))
      else (None, handle_multicast_message cl group_id buffer))"

text \<open>And with it, when nothing comes in between.\<close>

definition receive_datagram :: "mc_client \<Rightarrow> u32 \<Rightarrow> bytes \<Rightarrow> mc_client" where
  "receive_datagram cl group_id buffer =
     (case receive_data cl group_id buffer of
        (None, cl) \<Rightarrow> cl
      | (Some seq, cl) \<Rightarrow> send_ack cl group_id seq)"

text \<open>The poll set: descriptors and group numbers in the order of the map.\<close>

definition build_poll_set :: "mc_client \<Rightarrow> (u32 \<times> int) list" where
  "build_poll_set cl = map (\<lambda>(k, gi). (k, gi_socket_fd gi)) (mcl_groups cl)"

text \<open>What \<open>poll\<close> answers: an error, an interruption, a timeout, or for which entries \<open>POLLIN\<close> is set.\<close>

datatype poll_result = PollError | PollInterrupted | PollTimeout | PollReady "nat \<Rightarrow> bool"

text \<open>Where a thread in \<open>receive_thread_func\<close> is: not begun; at the test of \<open>while\<close>; before it builds the poll set; in \<open>poll\<close>
  with that set; in the \<open>for\<close> loop, with the entries that are left; before it acknowledges a number; at its end.\<close>

datatype receive_pc =
    AtStart | AtLoop | Building | Polling "(u32 \<times> int) list" | Checking "(u32 \<times> int \<times> bool) list"
  | Acking u32 u32 "(u32 \<times> int \<times> bool) list" | Ended

text \<open>One entry of the \<open>for\<close> loop; \<open>recv\<close> is what \<open>recvfrom\<close> returned, \<^const>\<open>None\<close> an error, which it also is when the
  descriptor was closed meanwhile.\<close>

definition check_socket :: "bytes option \<Rightarrow> u32 \<times> int \<times> bool \<Rightarrow> (u32 \<times> int \<times> bool) list \<Rightarrow> mc_client \<Rightarrow> receive_pc \<times> mc_client" where
  "check_socket recv entry rest cl =
     (case entry of (group_id, sock_fd, readable) \<Rightarrow>
        if \<not> readable then (Checking rest, cl)
        else case recv of
               None \<Rightarrow> (Checking rest, cl)
             | Some buffer \<Rightarrow>
                 (case receive_data cl group_id buffer of
                    (None, cl) \<Rightarrow> (Checking rest, cl)
                  | (Some seq, cl) \<Rightarrow> (Acking group_id seq rest, cl)))"

definition receive_build :: "mc_client \<Rightarrow> receive_pc" where
  "receive_build cl = (let poll_fds = build_poll_set cl in if poll_fds = [] then AtLoop else Polling poll_fds)"

definition receive_polled :: "poll_result \<Rightarrow> (u32 \<times> int) list \<Rightarrow> mc_client \<Rightarrow> receive_pc \<times> mc_client" where
  "receive_polled polled poll_fds cl =
     (case polled of
        PollInterrupted \<Rightarrow> (AtLoop, cl)
      | PollError \<Rightarrow> (Ended, cl\<lparr>mcl_thread_running := False\<rparr>)
      | PollTimeout \<Rightarrow> (AtLoop, cl)
      | PollReady revents \<Rightarrow> (Checking (map2 (\<lambda>i (k, fd). (k, fd, revents i)) [0..<length poll_fds] poll_fds), cl))"

definition receive_thread_func :: "poll_result \<Rightarrow> bytes option \<Rightarrow> receive_pc \<Rightarrow> mc_client \<Rightarrow> receive_pc \<times> mc_client" where
  "receive_thread_func polled recv pc cl =
     (case pc of
        AtStart \<Rightarrow> (AtLoop, cl\<lparr>mcl_thread_running := True\<rparr>)
      | AtLoop \<Rightarrow> if mcl_running cl then (Building, cl) else (Ended, cl\<lparr>mcl_thread_running := False\<rparr>)
      | Building \<Rightarrow> (receive_build cl, cl)
      | Polling poll_fds \<Rightarrow> receive_polled polled poll_fds cl
      | Checking [] \<Rightarrow> (AtLoop, cl)
      | Checking (entry # rest) \<Rightarrow> check_socket recv entry rest cl
      | Acking group_id seq rest \<Rightarrow> (Checking rest, send_ack cl group_id seq)
      | Ended \<Rightarrow> (Ended, cl))"

section \<open>The invariant: one open descriptor for each group\<close>

definition mcl_inv :: "mc_client \<Rightarrow> bool" where
  "mcl_inv cl \<longleftrightarrow> map_ok (mcl_groups cl) \<and>
     mset (mcl_fds cl) = mset (map (\<lambda>(k, gi). gi_socket_fd gi) (mcl_groups cl))"

lemma mset_map_put:
  "map_of xs k = None \<Longrightarrow> mset (map_put k v xs) = add_mset (k, v) (mset xs)"
  by (induction xs) (auto split: if_splits)

lemma mset_map_erase:
  assumes "map_ok xs" "map_of xs k = Some v"
  shows "mset xs = add_mset (k, v) (mset (map_erase k xs))"
  using assms
proof (induction xs)
  case (Cons e xs)
  obtain j w where e: "e = (j, w)" by fastforce
  have ok: "map_ok xs" "\<forall>i \<in> fst ` set xs. j < i" using Cons.prems(1) by (simp_all add: map_ok_def e)
  show ?case
  proof (cases "j = k")
    case True
    then have "\<forall>e \<in> set xs. fst e \<noteq> k" using ok(2) by auto
    then have "map_erase k xs = xs" by (simp add: map_erase_def)
    then show ?thesis using True Cons.prems(2) by (simp add: e map_erase_def)
  next
    case False
    then show ?thesis using Cons.IH [OF ok(1)] Cons.prems(2) by (simp add: e map_erase_def add_mset_commute)
  qed
qed simp

lemma mcl_inv_cong:
  "mcl_groups cl' = mcl_groups cl \<Longrightarrow> mcl_fds cl' = mcl_fds cl \<Longrightarrow> mcl_inv cl' = mcl_inv cl"
  by (simp add: mcl_inv_def)

lemma join_inv:
  assumes "mcl_inv cl" shows "mcl_inv (snd (join_group sys cl addr port k))"
proof (cases "map_of (mcl_groups cl) k")
  case None
  have "mset (map (\<lambda>(k, gi). gi_socket_fd gi) (map_put k gi (mcl_groups cl))) =
      add_mset (gi_socket_fd gi) (mset (map (\<lambda>(k, gi). gi_socket_fd gi) (mcl_groups cl)))" for gi
    using mset_map_put [OF None] by simp
  then show ?thesis using assms None by (simp add: join_group_def Let_def mcl_inv_def sm.ok_put)
qed (use assms in \<open>simp add: join_group_def\<close>)

lemma leave_inv:
  assumes "mcl_inv cl" shows "mcl_inv (snd (leave_group cl k))"
proof (cases "map_of (mcl_groups cl) k")
  case (Some gi)
  have "mset (mcl_groups cl) = add_mset (k, gi) (mset (map_erase k (mcl_groups cl)))"
    using Some assms by (intro mset_map_erase) (simp_all add: mcl_inv_def)
  then show ?thesis using assms Some by (simp add: leave_group_def mcl_inv_def sm.ok_erase)
qed (use assms in \<open>simp add: leave_group_def\<close>)

lemma leave_all_fds:
  "mset (mcl_fds cl) = mset (map (\<lambda>(k, gi). gi_socket_fd gi) gs) \<Longrightarrow>
     mcl_fds (leave_all gs cl) = [] \<and> mcl_groups (leave_all gs cl) = []"
  by (induction gs cl rule: leave_all.induct) auto

lemma stop_inv:
  assumes "mcl_inv cl" "mcl_running cl"
  shows "mcl_fds (mc_client_stop cl) = [] \<and> mcl_groups (mc_client_stop cl) = []"
  using leave_all_fds assms by (simp add: mc_client_stop_def Let_def mcl_inv_def)

text \<open>The receive thread touches the logs and its flag only.\<close>

lemma receive_frame [simp]:
  "mcl_groups (snd (receive_data cl k d)) = mcl_groups cl" "mcl_fds (snd (receive_data cl k d)) = mcl_fds cl"
  "mcl_groups (send_ack cl k seq) = mcl_groups cl" "mcl_fds (send_ack cl k seq) = mcl_fds cl"
  by (simp_all add: receive_data_def send_ack_def handle_reliable_message_def handle_multicast_message_def Let_def
      split: option.split)

lemma check_socket_frame:
  "mcl_groups (snd (check_socket recv entry rest cl)) = mcl_groups cl \<and> mcl_fds (snd (check_socket recv entry rest cl)) = mcl_fds cl"
proof -
  obtain k fd r where e: "entry = (k, fd, r)" by (cases entry)
  have "mcl_groups cl' = mcl_groups cl \<and> mcl_fds cl' = mcl_fds cl" if "receive_data cl k d = (x, cl')" for d x cl'
    using receive_frame(1,2) [of cl k d] that by simp
  then show ?thesis by (auto simp: check_socket_def e split: option.split prod.split)
qed

lemma receive_thread_frame:
  "mcl_groups (snd (receive_thread_func polled recv pc cl)) = mcl_groups cl \<and>
   mcl_fds (snd (receive_thread_func polled recv pc cl)) = mcl_fds cl"
  using check_socket_frame
  by (simp add: receive_thread_func_def receive_polled_def split: receive_pc.split poll_result.split list.split)

section \<open>Reading a sequence number back\<close>

lemma ntohl_htonl: "ntohl_bytes (htonl_bytes seq) = seq"
  by (simp add: ntohl_bytes_def htonl_bytes_def store_native32_def store_load_native32)

lemma length_htonl [simp]: "length (htonl_bytes seq) = 4"
  by (simp add: htonl_bytes_def)

text \<open>The four characters that mark an acknowledgement are the sequence number 1094929210.\<close>

lemma ack_mark: "mem_equal (seq_message seq msg) (ascii ''ACK:'') 4 \<longleftrightarrow> seq = 1094929210"
proof -
  have "htonl_bytes seq = htonl_bytes 1094929210 \<longleftrightarrow> seq = 1094929210" by (metis ntohl_htonl)
  moreover have "htonl_bytes 1094929210 = ascii ''ACK:''" by code_simp
  ultimately show ?thesis by (simp add: mem_equal_def seq_message_def ascii_def)
qed

lemma receive_reliable:
  assumes "map_of (mcl_groups cl) k = Some gi" "mcl_callback cl"
  shows "receive_datagram cl k (seq_message seq msg) =
    (if seq = 1094929210 then cl
     else cl\<lparr>mcl_delivered := mcl_delivered cl @ [(k, msg)],
             mcl_acks := mcl_acks cl @ [(k, gi_multicast_addr gi, gi_port gi, ascii ''ACK:'' @ print_u32 seq)]\<rparr>)"
  using assms ack_mark [of seq msg] ntohl_htonl [of seq]
  by (simp add: receive_datagram_def receive_data_def handle_reliable_message_def handle_multicast_message_def send_ack_def
      seq_message_def Let_def)

end
