(* ===== verification/Member_Multicast.thy ===== *)
theory Member_Multicast
  imports Std_Map Check_Function
begin

text \<open>
  Multicast by membership: \<open>class MulticastManager\<close> of \<open>src/server_lib/multicast_manager.cpp\<close>. It keeps sets of
  conversation numbers and sends a message to each of a group in turn.

  The class looks connections up in a class \<open>ConnectionManager\<close> that the repository does not have; it is a parameter:
  \<open>get_connection\<close> is \<open>get_connection_by_conv\<close>, \<open>conn_send\<close> is \<open>send_msg\<close> of what it returns, on a state \<open>'c\<close>, and may
  throw; \<^const>\<open>None\<close> for the state is the weak pointer that cannot be locked. A member set is the ordered list of its
  elements. The member functions hold the mutex while they touch the sets, so each is one step; \<open>send_to_group\<close> works on
  a copy. Log output is left out. No other class of the repository uses this one.
\<close>

record member_manager =
  mb_group_members :: "u32 list std_map"
  mb_next_group_id :: u32
  mb_has_manager :: bool

definition member_manager_new :: member_manager where
  "member_manager_new = \<lparr>mb_group_members = [], mb_next_group_id = 1, mb_has_manager = False\<rparr>"

definition mb_create_group :: "member_manager \<Rightarrow> u32 \<times> member_manager" where
  "mb_create_group mb =
     (let group_id = mb_next_group_id mb;
          mb = mb\<lparr>mb_next_group_id := mb_next_group_id mb + 1\<rparr>
      in (group_id, mb\<lparr>mb_group_members := map_put group_id [] (mb_group_members mb)\<rparr>))"

definition add_member_to_group :: "u32 \<Rightarrow> u32 \<Rightarrow> member_manager \<Rightarrow> bool \<times> member_manager" where
  "add_member_to_group group_id conv mb =
     (case map_of (mb_group_members mb) group_id of
        None \<Rightarrow> (False, mb)
      | Some ms \<Rightarrow> (True, mb\<lparr>mb_group_members := map_put group_id (insort_insert conv ms) (mb_group_members mb)\<rparr>))"

definition remove_member_from_group :: "u32 \<Rightarrow> u32 \<Rightarrow> member_manager \<Rightarrow> bool \<times> member_manager" where
  "remove_member_from_group group_id conv mb =
     (case map_of (mb_group_members mb) group_id of
        None \<Rightarrow> (False, mb)
      | Some ms \<Rightarrow>
          (conv \<in> set ms, mb\<lparr>mb_group_members := map_put group_id (remove1 conv ms) (mb_group_members mb)\<rparr>))"

definition mb_delete_group :: "u32 \<Rightarrow> member_manager \<Rightarrow> bool \<times> member_manager" where
  "mb_delete_group group_id mb =
     (map_of (mb_group_members mb) group_id \<noteq> None,
      mb\<lparr>mb_group_members := map_erase group_id (mb_group_members mb)\<rparr>)"

definition set_connection_manager :: "bool \<Rightarrow> member_manager \<Rightarrow> member_manager" where
  "set_connection_manager conn_mgr mb = mb\<lparr>mb_has_manager := conn_mgr\<rparr>"

text \<open>The loop over the copy of the members, with the count of those that were found.\<close>

fun send_members ::
    "('c \<Rightarrow> u32 \<Rightarrow> 'n option) \<Rightarrow> ('n \<Rightarrow> bytes \<Rightarrow> 'c \<Rightarrow> 'c outcome) \<Rightarrow> bytes \<Rightarrow> u32 list \<Rightarrow> nat \<Rightarrow> 'c \<Rightarrow> (nat \<times> 'c) outcome" where
  "send_members get_connection conn_send msg [] sent_count c = Inr (sent_count, c)"
| "send_members get_connection conn_send msg (conv # members) sent_count c =
     (case get_connection c conv of
        Some conn \<Rightarrow> bindE (conn_send conn msg c) (send_members get_connection conn_send msg members (sent_count + 1))
      | None \<Rightarrow> send_members get_connection conn_send msg members sent_count c)"

definition mb_send_to_group ::
    "('c \<Rightarrow> u32 \<Rightarrow> 'n option) \<Rightarrow> ('n \<Rightarrow> bytes \<Rightarrow> 'c \<Rightarrow> 'c outcome) \<Rightarrow> u32 \<Rightarrow> bytes \<Rightarrow> member_manager \<Rightarrow> 'c option \<Rightarrow>
     (nat \<times> 'c option) outcome" where
  "mb_send_to_group get_connection conn_send group_id msg mb conn_mgr =
     (case map_of (mb_group_members mb) group_id of
        None \<Rightarrow> Inr (0, conn_mgr)
      | Some members \<Rightarrow>
          (case (if mb_has_manager mb then conn_mgr else None) of
             None \<Rightarrow> Inr (0, conn_mgr)
           | Some c \<Rightarrow> bindE (send_members get_connection conn_send msg members 0 c) (\<lambda>(n, c). Inr (n, Some c))))"

section \<open>The groups as sets\<close>

text \<open>The calls on the manager, and what they mean: a partial function from numbers to sets of members, and the number
  of the next group. When the numbers wrap around, a new group takes the place of an old one.\<close>

datatype mb_call = MbCreate | MbAdd u32 u32 | MbRemove u32 u32 | MbDelete u32 | MbManager bool

fun mb_exec :: "mb_call \<Rightarrow> member_manager \<Rightarrow> member_manager" where
  "mb_exec MbCreate mb = snd (mb_create_group mb)"
| "mb_exec (MbAdd g conv) mb = snd (add_member_to_group g conv mb)"
| "mb_exec (MbRemove g conv) mb = snd (remove_member_from_group g conv mb)"
| "mb_exec (MbDelete g) mb = snd (mb_delete_group g mb)"
| "mb_exec (MbManager b) mb = set_connection_manager b mb"

type_synonym group_table = "u32 \<times> (u32 \<rightharpoonup> u32 set) \<times> bool"

fun spec_exec :: "mb_call \<Rightarrow> group_table \<Rightarrow> group_table" where
  "spec_exec MbCreate (n, G, b) = (n + 1, G(n \<mapsto> {}), b)"
| "spec_exec (MbAdd g conv) (n, G, b) = (n, case G g of None \<Rightarrow> G | Some S \<Rightarrow> G(g \<mapsto> insert conv S), b)"
| "spec_exec (MbRemove g conv) (n, G, b) = (n, case G g of None \<Rightarrow> G | Some S \<Rightarrow> G(g \<mapsto> S - {conv}), b)"
| "spec_exec (MbDelete g) (n, G, b) = (n, G(g := None), b)"
| "spec_exec (MbManager b') (n, G, b) = (n, G, b')"

definition table_of :: "member_manager \<Rightarrow> group_table" where
  "table_of mb = (mb_next_group_id mb, \<lambda>k. map_option set (map_of (mb_group_members mb) k), mb_has_manager mb)"

definition mb_ok :: "member_manager \<Rightarrow> bool" where
  "mb_ok mb \<longleftrightarrow> map_ok (mb_group_members mb) \<and>
     (\<forall>k ms. map_of (mb_group_members mb) k = Some ms \<longrightarrow> sorted ms \<and> distinct ms)"

lemma mb_new: "mb_ok member_manager_new" "table_of member_manager_new = (1, Map.empty, False)"
  by (simp_all add: mb_ok_def member_manager_new_def map_ok_def table_of_def)

lemma mb_okD:
  assumes "mb_ok mb"
  shows "map_ok (mb_group_members mb)" "map_of (mb_group_members mb) k = Some ms \<Longrightarrow> sorted ms \<and> distinct ms"
  using assms unfolding mb_ok_def by blast+

lemma mb_okI:
  assumes "map_ok (mb_group_members mb)" "\<And>k ms. map_of (mb_group_members mb) k = Some ms \<Longrightarrow> sorted ms \<and> distinct ms"
  shows "mb_ok mb"
  using assms unfolding mb_ok_def by blast

lemma mb_ok_put:
  assumes "mb_ok mb" "sorted ms \<and> distinct ms"
  shows "mb_ok (mb\<lparr>mb_group_members := map_put k ms (mb_group_members mb), mb_next_group_id := n\<rparr>)"
proof (rule mb_okI)
  note ok = mb_okD(1) [OF assms(1)]
  show "map_ok (mb_group_members (mb\<lparr>mb_group_members := map_put k ms (mb_group_members mb), mb_next_group_id := n\<rparr>))"
    using sm.ok_put [OF ok] by simp
  fix j xs
  assume "map_of (mb_group_members (mb\<lparr>mb_group_members := map_put k ms (mb_group_members mb), mb_next_group_id := n\<rparr>)) j = Some xs"
  then have "j = k \<and> xs = ms \<or> map_of (mb_group_members mb) j = Some xs" by (simp add: sm.find_put [OF ok] split: if_splits)
  then show "sorted xs \<and> distinct xs" using assms(2) mb_okD(2) [OF assms(1)] by blast
qed

lemma mb_ok_erase:
  assumes "mb_ok mb" shows "mb_ok (mb\<lparr>mb_group_members := map_erase g (mb_group_members mb)\<rparr>)"
proof (rule mb_okI)
  note ok = mb_okD(1) [OF assms]
  show "map_ok (mb_group_members (mb\<lparr>mb_group_members := map_erase g (mb_group_members mb)\<rparr>))" using sm.ok_erase [OF ok] by simp
  fix k ms
  assume "map_of (mb_group_members (mb\<lparr>mb_group_members := map_erase g (mb_group_members mb)\<rparr>)) k = Some ms"
  then have "map_of (mb_group_members mb) k = Some ms" by (simp add: sm.find_erase [OF ok] split: if_splits)
  then show "sorted ms \<and> distinct ms" by (rule mb_okD(2) [OF assms])
qed

lemma mb_exec_refines:
  assumes "mb_ok mb" shows "mb_ok (mb_exec call mb) \<and> table_of (mb_exec call mb) = spec_exec call (table_of mb)"
proof -
  note ok = mb_okD(1) [OF assms] and d = mb_okD(2) [OF assms]
  note laws = sm.find_put [OF ok] sm.find_erase [OF ok]
  have same: "mb\<lparr>mb_group_members := x, mb_next_group_id := mb_next_group_id mb\<rparr> = mb\<lparr>mb_group_members := x\<rparr>" for x by simp
  have put: "mb_ok (mb\<lparr>mb_group_members := map_put k ms (mb_group_members mb)\<rparr>)" if "sorted ms \<and> distinct ms" for k ms
    using mb_ok_put [OF assms that, where k = k and n = "mb_next_group_id mb"] unfolding same .
  show ?thesis
  proof (cases call)
    case MbCreate
    have "mb_exec call mb = mb\<lparr>mb_group_members := map_put (mb_next_group_id mb) [] (mb_group_members mb), mb_next_group_id := mb_next_group_id mb + 1\<rparr>"
      by (simp add: MbCreate mb_create_group_def Let_def)
    then show ?thesis using mb_ok_put [OF assms, of "[]"]
      by (simp add: MbCreate table_of_def laws fun_eq_iff)
  next
    case (MbAdd g conv)
    show ?thesis
    proof (cases "map_of (mb_group_members mb) g")
      case (Some ms)
      have "mb_exec call mb = mb\<lparr>mb_group_members := map_put g (insort_insert conv ms) (mb_group_members mb)\<rparr>"
        by (simp add: MbAdd add_member_to_group_def Some)
      moreover have "sorted (insort_insert conv ms) \<and> distinct (insort_insert conv ms)"
        using d [OF Some] by (simp add: sorted_insort_insert distinct_insort_insert)
      ultimately show ?thesis using put Some by (simp add: MbAdd table_of_def laws fun_eq_iff set_insort_insert)
    qed (use assms in \<open>simp add: MbAdd add_member_to_group_def table_of_def\<close>)
  next
    case (MbRemove g conv)
    show ?thesis
    proof (cases "map_of (mb_group_members mb) g")
      case (Some ms)
      have "mb_exec call mb = mb\<lparr>mb_group_members := map_put g (remove1 conv ms) (mb_group_members mb)\<rparr>"
        by (simp add: MbRemove remove_member_from_group_def Some)
      moreover have "sorted (remove1 conv ms) \<and> distinct (remove1 conv ms)" "set (remove1 conv ms) = set ms - {conv}"
        using d [OF Some] by (simp_all add: sorted_remove1)
      ultimately show ?thesis using put Some by (simp add: MbRemove table_of_def laws fun_eq_iff)
    qed (use assms in \<open>simp add: MbRemove remove_member_from_group_def table_of_def\<close>)
  next
    case (MbDelete g)
    have e: "mb_exec call mb = mb\<lparr>mb_group_members := map_erase g (mb_group_members mb)\<rparr>" by (simp add: MbDelete mb_delete_group_def)
    have "mb_ok (mb_exec call mb)" unfolding e by (rule mb_ok_erase [OF assms])
    then show ?thesis unfolding e by (simp add: MbDelete table_of_def laws fun_eq_iff)
  next
    case (MbManager b)
    have "mb_group_members (set_connection_manager b mb) = mb_group_members mb" by (simp add: set_connection_manager_def)
    then have "mb_ok (set_connection_manager b mb)" using assms unfolding mb_ok_def by metis
    then show ?thesis by (simp add: MbManager set_connection_manager_def table_of_def)
  qed
qed

lemma mb_run_refines:
  "mb_ok mb \<Longrightarrow> mb_ok (fold mb_exec calls mb) \<and> table_of (fold mb_exec calls mb) = fold spec_exec calls (table_of mb)"
  by (induction calls arbitrary: mb) (simp_all add: mb_exec_refines)

text \<open>What the functions answer.\<close>

lemma mb_answers:
  "fst (mb_create_group mb) = mb_next_group_id mb"
  "fst (add_member_to_group g conv mb) \<longleftrightarrow> fst (snd (table_of mb)) g \<noteq> None"
  "fst (remove_member_from_group g conv mb) \<longleftrightarrow> (\<exists>S. fst (snd (table_of mb)) g = Some S \<and> conv \<in> S)"
  "fst (mb_delete_group g mb) \<longleftrightarrow> fst (snd (table_of mb)) g \<noteq> None"
  by (auto simp: mb_create_group_def Let_def add_member_to_group_def remove_member_from_group_def mb_delete_group_def
      table_of_def split: option.splits)

section \<open>Sending to a group\<close>

text \<open>When sending does not throw and does not make connections come or go, the loop sends once on the connection of
  each member that has one, in the order of the conversation numbers.\<close>

lemma send_members_result:
  assumes "\<And>n c. conn_send n msg c = Inr (sent n c)" "\<And>n c. get_connection (sent n c) = get_connection c"
  shows "send_members get_connection conn_send msg members k c =
    Inr (k + length (filter (\<lambda>conv. get_connection c conv \<noteq> None) members),
         fold sent (map (\<lambda>conv. the (get_connection c conv)) (filter (\<lambda>conv. get_connection c conv \<noteq> None) members)) c)"
proof (induction members arbitrary: k c)
  case (Cons conv members)
  show ?case
  proof (cases "get_connection c conv")
    case (Some n)
    then show ?thesis using Cons.IH [of "k + 1" "sent n c"] assms by simp
  qed (simp add: Cons.IH)
qed simp

lemma group_send_result:
  assumes "mb_ok mb" "mb_has_manager mb" "map_of (mb_group_members mb) g = Some ms"
    and "\<And>n c. conn_send n msg c = Inr (sent n c)" "\<And>n c. get_connection (sent n c) = get_connection c"
  shows "mb_send_to_group get_connection conn_send g msg mb (Some c) =
    Inr (card {conv \<in> set ms. get_connection c conv \<noteq> None},
         Some (fold sent (map (\<lambda>conv. the (get_connection c conv)) (sorted_list_of_set {conv \<in> set ms. get_connection c conv \<noteq> None})) c))"
proof -
  let ?l = "filter (\<lambda>conv. get_connection c conv \<noteq> None) ms"
  have "sorted ms" "distinct ms" using mb_okD(2) [OF assms(1,3)] by simp_all
  then have "sorted ?l" "distinct ?l" using sorted_wrt_filter by auto
  then have l: "sorted_list_of_set (set ?l) = ?l" "card (set ?l) = length ?l"
    using sorted_list_of_set_sort_remdups [of ?l] sorted_sort_id distinct_remdups_id by (metis, intro distinct_card)
  have "{conv \<in> set ms. get_connection c conv \<noteq> None} = set ?l" by simp
  then show ?thesis using l assms(2,3) send_members_result [of conn_send msg sent get_connection, OF assms(4,5)]
    by (simp only: mb_send_to_group_def option.case if_True bindE_simps prod.case add_0)
qed

end
