(* ===== verification/Multicast_Properties.thy ===== *)
theory Multicast_Properties
  imports Multicast_Client Member_Multicast
begin

text \<open>
  The properties of multicast (\<open>src/server_lib/udp_multicast_manager.cpp\<close>,
  \<open>src/client_lib/kcp_multicast_client.cpp\<close>): delivery of one reliable message, the descriptors of a client and its
  receive thread, and the handlers of a group that keep each other running; and of multicast by membership
  (\<open>src/server_lib/multicast_manager.cpp\<close>).
\<close>

section \<open>Sending a reliable message\<close>

lemma send_reliable_eq:
  assumes "mc_inv mm" "map_of (mm_groups mm) k = Some g" "g_open g"
  shows "\<exists>mm'. send_reliable_to_group (\<lambda>d ep. True) mm k msg = mm' \<and> mc_inv mm' \<and>
    map_of (mm_groups mm') k = Some (timer_arm (g\<lparr>g_next_seq := g_next_seq g + 1,
      g_sent_msgs := map_put (g_next_seq g) msg (g_sent_msgs g)\<rparr>)) \<and>
    mm_out mm' = mm_out mm @ [(seq_message (g_next_seq g) msg, g_endpoint g)]"
proof -
  define g1 where "g1 = g\<lparr>g_next_seq := g_next_seq g + 1, g_sent_msgs := map_put (g_next_seq g) msg (g_sent_msgs g)\<rparr>"
  have ok: "map_ok (g_sent_msgs g1)" using group_msgs_ok [OF assms(1,2)] by (simp add: g1_def sm.ok_put)
  define mm1 where "mm1 = set_group k g1 mm"
  have mm1: "mc_inv (mm1\<lparr>mm_out := out\<rparr>)" for out using mc_inv_set [OF assms(1) ok] by (simp add: mm1_def)
  have "send_reliable_to_group (\<lambda>d ep. True) mm k msg =
      set_group k (timer_arm g1) (mm1\<lparr>mm_out := mm_out mm @ [(seq_message (g_next_seq g) msg, g_endpoint g)]\<rparr>)"
    using assms(2,3) by (simp add: send_reliable_to_group_def group_send_def Let_def mm1_def set_group_def g1_def)
  then show ?thesis using mm1 mc_inv_set [OF mm1] ok by (auto simp: g1_def) (simp_all add: set_group_def)
qed

text \<open>A group with a message on the way, and a member of it.\<close>

definition mc_demo_mm :: mc_manager where
  "mc_demo_mm = snd (create_group (\<lambda>a. Some (V4 4026466305)) True (0, 1, 30000) mc_manager_new [] 0)"

definition mc_demo_group :: mc_group where
  "mc_demo_group = the (map_of (mm_groups mc_demo_mm) 1)"

definition mc_demo_calls :: join_calls where
  "mc_demo_calls = \<lparr>j_socket = 5, j_reuse = True, j_getfl = True, j_setfl = True, j_bind = True, j_member = True\<rparr>"

definition mc_demo_client :: mc_client where
  "mc_demo_client = set_message_callback True (snd (join_group mc_demo_calls mc_client_new (ascii ''239.255.0.1'') 30000 1))"

lemma mc_demo_inv: "mc_inv mc_demo_mm"
  unfolding mc_demo_mm_def by (rule mc_ops_inv(1)) (simp add: mc_manager_new_def mc_inv_def map_ok_def)

lemma mc_demo_fields:
  "map_of (mm_groups mc_demo_mm) 1 = Some mc_demo_group" "g_open mc_demo_group" "g_next_seq mc_demo_group = 0"
  "g_waiting mc_demo_group = 0" "mm_out mc_demo_mm = []"
  by (simp_all add: mc_demo_group_def mc_demo_mm_def create_group_def mc_manager_new_def init_group_socket_def Let_def
      generate_multicast_address_def mc_group_new_def)

lemma mc_demo_member:
  "map_of (mcl_groups mc_demo_client) 1 = Some \<lparr>gi_multicast_addr = ascii ''239.255.0.1'', gi_port = 30000, gi_socket_fd = 5, gi_last_seq = 0\<rparr>"
  "mcl_callback mc_demo_client"
  by (simp_all add: mc_demo_client_def set_message_callback_def join_group_def mc_demo_calls_def mc_client_new_def Let_def)

text \<open>C26: One reliable message. Sending it to an open group puts exactly one datagram on the network and keeps the message
  as pending. A member of the group that receives the datagram hands the message itself to its user and answers with the
  sequence number in decimal, unless that number is 1094929210, whose four bytes are the characters \<open>ACK:\<close>: the member
  takes that datagram for an acknowledgement and drops it. The answer changes nothing on the sending side, which reads no
  socket: when the timer of the group expires, the handler sends the same datagram again and the message is still
  pending.\<close>

theorem multicast_delivery:
  assumes "mc_inv mm" "map_of (mm_groups mm) k = Some g" "g_open g"
    and "map_of (mcl_groups cl) j = Some gi" "mcl_callback cl"
  shows "\<exists>d g' mm2 g2. mm_out (send_reliable_to_group (\<lambda>d ep. True) mm k msg) = mm_out mm @ [(d, g_endpoint g)] \<and>
    map_of (mm_groups (send_reliable_to_group (\<lambda>d ep. True) mm k msg)) k = Some g' \<and>
    map_of (g_sent_msgs g') (g_next_seq g) = Some msg \<and>
    (if g_next_seq g = 1094929210 then receive_datagram cl j d = cl
     else mcl_delivered (receive_datagram cl j d) = mcl_delivered cl @ [(j, msg)] \<and>
       mcl_acks (receive_datagram cl j d) =
         mcl_acks cl @ [(j, gi_multicast_addr gi, gi_port gi, ascii ''ACK:'' @ print_u32 (g_next_seq g))]) \<and>
    run_queued (\<lambda>d ep. True) (timer_expire (send_reliable_to_group (\<lambda>d ep. True) mm k msg) k) k = Some mm2 \<and>
    (d, g_endpoint g) \<in> set (drop (Suc (length (mm_out mm))) (mm_out mm2)) \<and>
    map_of (mm_groups mm2) k = Some g2 \<and> map_of (g_sent_msgs g2) (g_next_seq g) = Some msg"
proof -
  define mm' where "mm' = send_reliable_to_group (\<lambda>d ep. True) mm k msg"
  define g' where "g' = timer_arm (g\<lparr>g_next_seq := g_next_seq g + 1, g_sent_msgs := map_put (g_next_seq g) msg (g_sent_msgs g)\<rparr>)"
  have mm': "mc_inv mm'" "map_of (mm_groups mm') k = Some g'" "mm_out mm' = mm_out mm @ [(seq_message (g_next_seq g) msg, g_endpoint g)]"
    using send_reliable_eq [OF assms(1-3), of msg] by (simp_all add: mm'_def g'_def)
  have ok: "map_ok (g_sent_msgs g)" "map_ok (g_sent_msgs g')" using group_msgs_ok assms(1,2) mm'(1,2) by blast+
  have pend: "map_of (g_sent_msgs g') (g_next_seq g) = Some msg" using ok(1) by (simp add: g'_def sm.find_put)
  define g1 where "g1 = timer_cancel g'"
  have g1: "g_sent_msgs g1 = g_sent_msgs g'" "g_sent_msgs g1 \<noteq> []" "0 < g_queued g1" "g_open g1" "g_endpoint g1 = g_endpoint g"
    using pend assms(3) by (auto simp: g1_def timer_cancel_def g'_def)
  have te: "timer_expire mm' k = set_group k g1 mm'" using mm'(2) by (simp add: timer_expire_def g1_def)
  have e: "mc_inv (timer_expire mm' k)" "map_of (mm_groups (timer_expire mm' k)) k = Some g1" "mm_out (timer_expire mm' k) = mm_out mm'"
    using mc_ops_inv(8) [OF mm'(1)] mm'(1) by (simp, simp add: te, simp add: te set_group_def)
  obtain mm2 where mm2: "run_queued (\<lambda>d ep. True) (timer_expire mm' k) k = Some mm2"
    "map_of (mm_groups mm2) k = Some (timer_arm (g1\<lparr>g_queued := g_queued g1 - 1\<rparr>))"
    "mm_out mm2 = mm_out mm' @ map (\<lambda>m. (m, g_endpoint g)) (map (\<lambda>(seq, msg). seq_message seq msg) (g_sent_msgs g'))"
    using run_queued_eq [OF e(1,2) g1(3,2,4), of "\<lambda>d ep. True"] e(3) g1(1,5) by auto
  have "(g_next_seq g, msg) \<in> set (g_sent_msgs g')" using pend by (rule map_of_SomeD)
  then have again: "(seq_message (g_next_seq g) msg, g_endpoint g) \<in> set (drop (Suc (length (mm_out mm))) (mm_out mm2))"
    unfolding mm2(3) mm'(3) by force
  have pend2: "map_of (g_sent_msgs (timer_arm (g1\<lparr>g_queued := g_queued g1 - 1\<rparr>))) (g_next_seq g) = Some msg"
    using pend g1(1) by simp
  have rcv: "if g_next_seq g = 1094929210 then receive_datagram cl j (seq_message (g_next_seq g) msg) = cl
     else mcl_delivered (receive_datagram cl j (seq_message (g_next_seq g) msg)) = mcl_delivered cl @ [(j, msg)] \<and>
       mcl_acks (receive_datagram cl j (seq_message (g_next_seq g) msg)) =
         mcl_acks cl @ [(j, gi_multicast_addr gi, gi_port gi, ascii ''ACK:'' @ print_u32 (g_next_seq g))]"
    using receive_reliable [OF assms(4,5), of "g_next_seq g" msg] by (cases "g_next_seq g = 1094929210") simp_all
  show ?thesis unfolding mm'_def [symmetric]
    by (intro exI conjI) (rule mm'(3), rule mm'(2), rule pend, rule rcv, rule mm2(1), rule again, rule mm2(2), rule pend2)
qed

theorem multicast_delivery_witness:
  "\<exists>d. mm_out (send_reliable_to_group (\<lambda>d ep. True) mc_demo_mm 1 [1, 2, 3]) = [(d, g_endpoint mc_demo_group)] \<and>
     mcl_delivered (receive_datagram mc_demo_client 1 d) = mcl_delivered mc_demo_client @ [(1, [1, 2, 3])]"
  using multicast_delivery [OF mc_demo_inv mc_demo_fields(1,2) mc_demo_member, of "[1, 2, 3]"]
  by (auto simp: mc_demo_fields)

section \<open>The retransmission handlers\<close>

text \<open>\<open>n\<close> queued handlers run one after the other; \<open>None\<close> when there was none to run.\<close>

fun run_handlers :: "nat \<Rightarrow> u32 \<Rightarrow> mc_manager \<Rightarrow> mc_manager option" where
  "run_handlers 0 k mm = Some mm"
| "run_handlers (Suc n) k mm = Option.bind (run_queued (\<lambda>d ep. True) mm k) (run_handlers n k)"

lemma handlers_feed:
  assumes "mc_inv mm" "map_of (mm_groups mm) k = Some g" "g_open g" "0 < g_queued g" "g_waiting g = 1" "g_sent_msgs g \<noteq> []"
  shows "\<exists>mm'. run_handlers n k mm = Some mm' \<and> length (mm_out mm') = length (mm_out mm) + n * length (g_sent_msgs g)"
  using assms
proof (induction n arbitrary: mm g)
  case (Suc n)
  obtain mm1 where mm1: "run_queued (\<lambda>d ep. True) mm k = Some mm1" "mc_inv mm1"
    "map_of (mm_groups mm1) k = Some (timer_arm (g\<lparr>g_queued := g_queued g - 1\<rparr>))"
    "length (mm_out mm1) = length (mm_out mm) + length (g_sent_msgs g)"
    using run_queued_eq [OF Suc.prems(1,2,4,6,3), of "\<lambda>d ep. True"] by auto
  show ?case using Suc.IH [OF mm1(2,3)] Suc.prems(3-6) mm1(1,4) by auto
qed simp

text \<open>C39: When a second reliable message is sent to a group while the wait for the retransmission of an earlier one
  is pending, the handlers never come to rest: without the timer ever expiring again, the event loop can run
  any number of retransmissions in a row, each of them sending every pending message once more. Setting the
  timer cancels the pending wait, a cancelled wait runs its handler too, and that handler sets the timer
  again.\<close>

theorem multicast_storm:
  assumes "mc_inv mm" "map_of (mm_groups mm) k = Some g" "g_open g" "0 < g_waiting g"
  shows "\<exists>mm'. run_handlers n k (send_reliable_to_group (\<lambda>d ep. True) mm k msg) = Some mm' \<and>
    length (mm_out mm') \<ge> length (mm_out mm) + 1 + n"
proof -
  define g1 where "g1 = g\<lparr>g_next_seq := g_next_seq g + 1, g_sent_msgs := map_put (g_next_seq g) msg (g_sent_msgs g)\<rparr>"
  obtain mm1 where mm1: "send_reliable_to_group (\<lambda>d ep. True) mm k msg = mm1" "mc_inv mm1"
    "map_of (mm_groups mm1) k = Some (timer_arm g1)" "length (mm_out mm1) = length (mm_out mm) + 1"
    using send_reliable_eq [OF assms(1-3), of msg] by (auto simp: g1_def)
  have "map_of (g_sent_msgs g1) (g_next_seq g) = Some msg"
    using group_msgs_ok [OF assms(1,2)] by (simp add: g1_def sm.find_put)
  then have ne: "g_sent_msgs g1 \<noteq> []" by auto
  obtain mm' where "run_handlers n k mm1 = Some mm'" "length (mm_out mm') = length (mm_out mm1) + n * length (g_sent_msgs g1)"
    using handlers_feed [OF mm1(2,3), of n] assms(3,4) ne by (auto simp: g1_def)
  moreover have "n \<le> n * length (g_sent_msgs g1)" using ne by (cases "g_sent_msgs g1") auto
  ultimately show ?thesis using mm1(1,4) by auto
qed

definition mc_demo_busy :: mc_manager where
  "mc_demo_busy = send_reliable_to_group (\<lambda>d ep. True) mc_demo_mm 1 [1, 2, 3]"

theorem multicast_storm_witness:
  "\<exists>mm'. run_handlers 1000000 1 (send_reliable_to_group (\<lambda>d ep. True) mc_demo_busy 1 [4]) = Some mm' \<and>
    length (mm_out mm') \<ge> 1000002"
proof -
  obtain mm1 where mm1: "mc_demo_busy = mm1" "mc_inv mm1" "map_of (mm_groups mm1) 1 = Some (timer_arm (mc_demo_group\<lparr>g_next_seq := g_next_seq mc_demo_group + 1,
      g_sent_msgs := map_put (g_next_seq mc_demo_group) [1, 2, 3] (g_sent_msgs mc_demo_group)\<rparr>))" "length (mm_out mm1) = 1"
    using send_reliable_eq [OF mc_demo_inv mc_demo_fields(1,2), of "[1, 2, 3]"] by (auto simp: mc_demo_busy_def mc_demo_fields)
  from multicast_storm [OF mm1(2,3), of 1000000 "[4]"] show ?thesis using mm1(1,4) mc_demo_fields by simp
qed

section \<open>The descriptors of a client\<close>

text \<open>A multicast client with its threads: those that \<open>start\<close> has made, and one that may be in \<open>stop\<close>, waiting for the last
  receive thread or about to leave the groups.\<close>

datatype stop_pc = StopNone | StopJoin | StopLeave

record mc_process =
  mp_client :: mc_client
  mp_threads :: "receive_pc list"
  mp_stop :: stop_pc

definition mc_process_new :: mc_process where
  "mc_process_new = \<lparr>mp_client = mc_client_new, mp_threads = [], mp_stop = StopNone\<rparr>"

text \<open>What happens to it. A group may be joined or left while a receive thread is anywhere in its loop, in \<open>poll\<close> as well.\<close>

inductive mcl_step :: "mc_process \<Rightarrow> mc_process \<Rightarrow> bool" where
  mcl_join: "mcl_step p (p\<lparr>mp_client := snd (join_group sys (mp_client p) addr port k)\<rparr>)"
| mcl_leave: "mcl_step p (p\<lparr>mp_client := snd (leave_group (mp_client p) k)\<rparr>)"
| mcl_set: "mcl_step p (p\<lparr>mp_client := set_message_callback cb (mp_client p)\<rparr>)"
| mcl_begin: "mc_start created (mp_client p) = (ok, cl) \<Longrightarrow>
     mcl_step p (p\<lparr>mp_client := cl, mp_threads := mp_threads p @ (if ok then [AtStart] else [])\<rparr>)"
| mcl_thread: "i < length (mp_threads p) \<Longrightarrow> receive_thread_func polled recv (mp_threads p ! i) (mp_client p) = (pc, cl) \<Longrightarrow>
     mcl_step p (p\<lparr>mp_client := cl, mp_threads := (mp_threads p)[i := pc]\<rparr>)"
| mcl_stop: "mp_stop p = StopNone \<Longrightarrow>
     mcl_step p (p\<lparr>mp_client := (mp_client p)\<lparr>mcl_running := False\<rparr>, mp_stop := (if mcl_running (mp_client p) then StopJoin else StopNone)\<rparr>)"
| mcl_joined: "mp_stop p = StopJoin \<Longrightarrow> \<not> mcl_thread_running (mp_client p) \<or> mp_threads p \<noteq> [] \<and> last (mp_threads p) = Ended \<Longrightarrow>
     mcl_step p (p\<lparr>mp_stop := StopLeave\<rparr>)"
| mcl_end: "mp_stop p = StopLeave \<Longrightarrow>
     mcl_step p (p\<lparr>mp_client := leave_all (mcl_groups (mp_client p)) (mp_client p), mp_stop := StopNone\<rparr>)"

lemma mcl_step_inv:
  assumes "mcl_inv (mp_client p)" "mcl_step p q" shows "mcl_inv (mp_client q)"
  using assms(2)
proof cases
  case (mcl_begin created ok cl)
  then show ?thesis using assms(1) by (auto simp: mc_start_def mcl_inv_def Let_def split: if_splits)
next
  case (mcl_thread i polled recv pc cl)
  then show ?thesis using assms(1) receive_thread_frame [of polled recv "mp_threads p ! i" "mp_client p"]
    by (simp add: mcl_inv_def)
next
  case mcl_end
  then show ?thesis using assms(1) leave_all_fds [of "mp_client p" "mcl_groups (mp_client p)"] by (simp add: mcl_inv_def map_ok_def)
qed (use assms(1) join_inv leave_inv in \<open>simp_all add: set_message_callback_def mcl_inv_def\<close>)

interpretation mcl: step_system "\<lambda>p. p = mc_process_new" mcl_step "\<lambda>p. mcl_inv (mp_client p)"
  by unfold_locales (simp add: mc_process_new_def mc_client_new_def mcl_inv_def map_ok_def, rule mcl_step_inv)

text \<open>C27: Whatever happens to a multicast client (joining with any of its system calls failing, leaving, also while the
  receive thread polls, receiving anything, starting and stopping), the descriptors it holds open are exactly those of the
  groups it is in, one each. \<open>stop\<close> closes them all and leaves no group, but only of a client that runs: for one that has
  joined groups and was never started, or could not be, it returns at once, and its descriptors stay open.\<close>

theorem multicast_no_leak:
  assumes "mcl_step\<^sup>*\<^sup>* mc_process_new p"
  shows "mset (mcl_fds (mp_client p)) = mset (map (\<lambda>(k, gi). gi_socket_fd gi) (mcl_groups (mp_client p))) \<and>
    distinct (map fst (mcl_groups (mp_client p))) \<and>
    (mcl_running (mp_client p) \<longrightarrow> mcl_fds (mc_client_stop (mp_client p)) = [] \<and> mcl_groups (mc_client_stop (mp_client p)) = []) \<and>
    (\<not> mcl_running (mp_client p) \<longrightarrow> mc_client_stop (mp_client p) = mp_client p) \<and>
    (mp_stop p = StopLeave \<longrightarrow> mcl_fds (leave_all (mcl_groups (mp_client p)) (mp_client p)) = [])"
proof -
  have inv: "mcl_inv (mp_client p)" by (rule mcl.reachable_inv [OF refl assms])
  then have "sorted_wrt (<) (map fst (mcl_groups (mp_client p)))" by (simp add: mcl_inv_def map_ok_def)
  then show ?thesis using inv stop_inv [OF inv] strict_sorted_iff leave_all_fds [of "mp_client p"]
    by (auto simp: mcl_inv_def mc_client_stop_def)
qed

theorem multicast_no_leak_witness: "mset (mcl_fds (mc_client_stop mc_demo_client)) = {#5#}"
proof -
  let ?p = "mc_process_new\<lparr>mp_client := snd (join_group mc_demo_calls mc_client_new (ascii ''239.255.0.1'') 30000 1)\<rparr>"
  have "mcl_step mc_process_new ?p"
    using mcl_join [of mc_process_new mc_demo_calls "ascii ''239.255.0.1''" 30000 1] by (simp add: mc_process_new_def)
  moreover have "mcl_step ?p (?p\<lparr>mp_client := mc_demo_client\<rparr>)"
    using mcl_set [of ?p True] by (simp add: mc_demo_client_def)
  ultimately have "mcl_step\<^sup>*\<^sup>* mc_process_new (?p\<lparr>mp_client := mc_demo_client\<rparr>)" by (meson converse_rtranclp_into_rtranclp r_into_rtranclp)
  from multicast_no_leak [OF this] show ?thesis
    by (simp add: mc_demo_client_def set_message_callback_def join_group_def mc_demo_calls_def mc_client_new_def Let_def)
qed

section \<open>Multicast by membership\<close>



end
