(* ===== verification/Mutex.thy ===== *)
theory Mutex
  imports Threadsafe_Queue
begin

text \<open>
  \<open>MutexLock\<close> and \<open>MutexLockGuard\<close> of \<open>src/client_lib/mutex.h\<close>, and the reason why theory \<open>Threadsafe_Queue\<close> may
  treat a member function of \<open>threadsafe_queue_mutex\<close> as one step. \<open>mq_micro\<close> runs any number of threads through
  the member functions statement by statement, in any interleaving the mutex allows; the lemmas show that
  one thread at a time is inside, and that the answers are those of the same calls made one after the other,
  in the order in which they leave.

  \<open>pthread_mutex_lock\<close> on a mutex that is held waits: the step is not possible. A thread that locked twice would
  wait for itself. Unlocking a mutex one does not hold has no defined result.
\<close>

section \<open>The mutex\<close>

type_synonym thread = nat

record MutexLock =
  mutex_owner :: "thread option"

definition MutexLock_new :: MutexLock where
  "MutexLock_new = \<lparr>mutex_owner = None\<rparr>"

definition MutexLock_lock :: "thread \<Rightarrow> MutexLock \<Rightarrow> MutexLock option" where
  "MutexLock_lock t m = (case mutex_owner m of None \<Rightarrow> Some (m\<lparr>mutex_owner := Some t\<rparr>) | Some _ \<Rightarrow> None)"

definition MutexLock_unlock :: "thread \<Rightarrow> MutexLock \<Rightarrow> MutexLock option" where
  "MutexLock_unlock t m = (if mutex_owner m = Some t then Some (m\<lparr>mutex_owner := None\<rparr>) else None)"

text \<open>The constructor and the destructor of a guard.\<close>

definition MutexLockGuard_new :: "thread \<Rightarrow> MutexLock \<Rightarrow> MutexLock option" where
  "MutexLockGuard_new t m = MutexLock_lock t m"

definition MutexLockGuard_destroy :: "thread \<Rightarrow> MutexLock \<Rightarrow> MutexLock option" where
  "MutexLockGuard_destroy t m = MutexLock_unlock t m"

lemmas guard_defs = MutexLockGuard_new_def MutexLockGuard_destroy_def MutexLock_lock_def MutexLock_unlock_def

section \<open>Threads inside the member functions\<close>

datatype 'a call = Size | Push 'a | TryPop | GrabAll | Empty
datatype 'a answer = Count nat | Pushed | Popped "'a option" | Grabbed "'a list" | IsEmpty bool

text \<open>Where a thread is: outside; before the guard; behind it; in \<open>try_pop\<close> after the test, or with the copy of the
  first element; at the end of the block, with what it returns.\<close>

datatype 'a pc = Idle | Enter "'a call" | Held "'a call" | Tested | Front 'a | Leave "'a call" "'a answer"

record 'a shared =
  sh_data :: "'a list"
  sh_mutex :: MutexLock
  sh_pc :: "thread \<Rightarrow> 'a pc"
  sh_done :: "(thread \<times> 'a call \<times> 'a answer) list"

definition sh_new :: "'a shared" where
  "sh_new = \<lparr>sh_data = [], sh_mutex = MutexLock_new, sh_pc = (\<lambda>t. Idle), sh_done = []\<rparr>"

abbreviation at :: "thread \<Rightarrow> 'a pc \<Rightarrow> 'a shared \<Rightarrow> 'a shared" where
  "at t pc s \<equiv> s\<lparr>sh_pc := (sh_pc s)(t := pc)\<rparr>"

inductive mq_micro :: "'a shared \<Rightarrow> 'a shared \<Rightarrow> bool" where
  mu_call: "sh_pc s t = Idle \<Longrightarrow> mq_micro s (at t (Enter c) s)"
| mu_guard: "sh_pc s t = Enter c \<Longrightarrow> MutexLockGuard_new t (sh_mutex s) = Some m \<Longrightarrow>
     mq_micro s (at t (Held c) (s\<lparr>sh_mutex := m\<rparr>))"
| mu_size: "sh_pc s t = Held Size \<Longrightarrow> mq_micro s (at t (Leave Size (Count (length (sh_data s)))) s)"
| mu_push: "sh_pc s t = Held (Push x) \<Longrightarrow> mq_micro s (at t (Leave (Push x) Pushed) (s\<lparr>sh_data := sh_data s @ [x]\<rparr>))"
| mu_none: "sh_pc s t = Held TryPop \<Longrightarrow> sh_data s = [] \<Longrightarrow> mq_micro s (at t (Leave TryPop (Popped None)) s)"
| mu_test: "sh_pc s t = Held TryPop \<Longrightarrow> sh_data s \<noteq> [] \<Longrightarrow> mq_micro s (at t Tested s)"
| mu_front: "sh_pc s t = Tested \<Longrightarrow> mq_micro s (at t (Front (hd (sh_data s))) s)"
| mu_pop: "sh_pc s t = Front v \<Longrightarrow> mq_micro s (at t (Leave TryPop (Popped (Some v))) (s\<lparr>sh_data := tl (sh_data s)\<rparr>))"
| mu_swap: "sh_pc s t = Held GrabAll \<Longrightarrow> mq_micro s (at t (Leave GrabAll (Grabbed (sh_data s))) (s\<lparr>sh_data := []\<rparr>))"
| mu_empty: "sh_pc s t = Held Empty \<Longrightarrow> mq_micro s (at t (Leave Empty (IsEmpty (sh_data s = []))) s)"
| mu_return: "sh_pc s t = Leave c r \<Longrightarrow> MutexLockGuard_destroy t (sh_mutex s) = Some m \<Longrightarrow>
     mq_micro s (at t Idle (s\<lparr>sh_mutex := m, sh_done := sh_done s @ [(t, c, r)]\<rparr>))"

inductive_cases mq_microE: "mq_micro s t"

section \<open>The calls one after the other\<close>

fun atomic :: "'a call \<Rightarrow> 'a mutex_queue \<Rightarrow> 'a answer \<times> 'a mutex_queue" where
  "atomic Size q = (Count (mq_size q), q)"
| "atomic (Push x) q = (Pushed, mq_push q x)"
| "atomic TryPop q = (case mq_try_pop q of None \<Rightarrow> (Popped None, q) | Some (x, q') \<Rightarrow> (Popped (Some x), q'))"
| "atomic GrabAll q = (case mq_grab_all q of (xs, q') \<Rightarrow> (Grabbed xs, q'))"
| "atomic Empty q = (IsEmpty (mq_empty q), q)"

text \<open>The queue after these calls, if they give these answers.\<close>

fun replay :: "(thread \<times> 'a call \<times> 'a answer) list \<Rightarrow> 'a mutex_queue \<Rightarrow> 'a mutex_queue option" where
  "replay [] q = Some q"
| "replay ((t, c, r) # h) q = (if fst (atomic c q) = r then replay h (snd (atomic c q)) else None)"

lemma replay_snoc:
  "replay h q = Some q' \<Longrightarrow> fst (atomic c q') = r \<Longrightarrow> replay (h @ [(t, c, r)]) q = Some (snd (atomic c q'))"
  by (induction h q rule: replay.induct) (auto split: if_splits)

lemmas mq_defs = mq_new_def mq_push_def mq_try_pop_def mq_grab_all_def mq_empty_def mq_size_def

section \<open>The invariant\<close>

definition inside :: "'a pc \<Rightarrow> bool" where
  "inside pc \<longleftrightarrow> (case pc of Idle \<Rightarrow> False | Enter _ \<Rightarrow> False | _ \<Rightarrow> True)"

text \<open>How far the thread inside has come, if the queue was \<open>q\<close> when it entered and is \<open>data\<close> now.\<close>

definition progress :: "'a pc \<Rightarrow> 'a mutex_queue \<Rightarrow> 'a list \<Rightarrow> bool" where
  "progress pc q data \<longleftrightarrow>
     (case pc of
        Held c \<Rightarrow> data = q
      | Tested \<Rightarrow> data = q \<and> q \<noteq> []
      | Front v \<Rightarrow> data = q \<and> q \<noteq> [] \<and> v = hd q
      | Leave c r \<Rightarrow> atomic c q = (r, data)
      | _ \<Rightarrow> False)"

definition sh_inv :: "'a shared \<Rightarrow> bool" where
  "sh_inv s \<longleftrightarrow>
     (\<exists>q. replay (sh_done s) mq_new = Some q \<and>
        (case mutex_owner (sh_mutex s) of
           None \<Rightarrow> sh_data s = q \<and> (\<forall>t. \<not> inside (sh_pc s t))
         | Some t \<Rightarrow> progress (sh_pc s t) q (sh_data s) \<and> (\<forall>u. inside (sh_pc s u) \<longleftrightarrow> u = t)))"

lemma owner_inside:
  assumes "sh_inv s" "inside (sh_pc s t)"
  obtains q where "mutex_owner (sh_mutex s) = Some t" "replay (sh_done s) mq_new = Some q" "progress (sh_pc s t) q (sh_data s)"
    "\<forall>u. inside (sh_pc s u) \<longleftrightarrow> u = t"
  using assms by (auto simp: sh_inv_def split: option.splits)

text \<open>A step of the thread inside that stays inside.\<close>

lemma body_inv:
  assumes "sh_inv s" "inside (sh_pc s t)" "inside pc"
    and "\<And>q. progress (sh_pc s t) q (sh_data s) \<Longrightarrow> progress pc q data"
  shows "sh_inv (at t pc (s\<lparr>sh_data := data\<rparr>))"
proof -
  obtain q where "mutex_owner (sh_mutex s) = Some t" "replay (sh_done s) mq_new = Some q" "progress (sh_pc s t) q (sh_data s)"
    "\<forall>u. inside (sh_pc s u) \<longleftrightarrow> u = t"
    by (rule owner_inside [OF assms(1,2)])
  then show ?thesis using assms(3) assms(4) [of q] by (auto simp: sh_inv_def)
qed

lemma body_read:
  assumes "sh_inv s" "inside (sh_pc s t)" "inside pc"
    and "\<And>q. progress (sh_pc s t) q (sh_data s) \<Longrightarrow> progress pc q (sh_data s)"
  shows "sh_inv (at t pc s)"
  using body_inv [OF assms] by simp

lemma outside_inv:
  assumes "sh_inv s" "\<not> inside (sh_pc s t)" "\<not> inside pc" shows "sh_inv (at t pc s)"
proof -
  have "inside (((sh_pc s)(t := pc)) u) = inside (sh_pc s u)" for u using assms(2,3) by simp
  moreover have "((sh_pc s)(t := pc)) u = sh_pc s u" if "inside (sh_pc s u)" for u using that assms(2) by auto
  ultimately show ?thesis using assms(1) unfolding sh_inv_def by (auto split: option.splits)
qed

lemma mq_micro_inv:
  assumes "sh_inv s" "mq_micro s s'" shows "sh_inv s'"
  using assms(2)
proof cases
  case (mu_call t c)
  then show ?thesis using outside_inv [OF assms(1), of t "Enter c"] by (simp add: inside_def)
next
  case (mu_guard t c m)
  then show ?thesis using assms(1) by (auto simp: sh_inv_def guard_defs inside_def progress_def split: option.splits)
next
  case (mu_return t c r m)
  have "inside (sh_pc s t)" using mu_return(2) by (simp add: inside_def)
  then obtain q where q: "mutex_owner (sh_mutex s) = Some t" "replay (sh_done s) mq_new = Some q" "progress (sh_pc s t) q (sh_data s)"
    "\<forall>u. inside (sh_pc s u) \<longleftrightarrow> u = t"
    by (rule owner_inside [OF assms(1)])
  have "atomic c q = (r, sh_data s)" using q(3) mu_return(2) by (simp add: progress_def)
  then have "replay (sh_done s @ [(t, c, r)]) mq_new = Some (sh_data s)" using replay_snoc [OF q(2)] by simp
  then show ?thesis using mu_return q(4) by (auto simp: sh_inv_def guard_defs inside_def split: if_splits)
next
  case (mu_size t)
  then show ?thesis using body_read [OF assms(1), of t] by (simp add: inside_def progress_def mq_defs)
next
  case (mu_push t x)
  then show ?thesis using body_inv [OF assms(1), of t] by (simp add: inside_def progress_def mq_defs)
next
  case (mu_none t)
  then show ?thesis using body_read [OF assms(1), of t] by (simp add: inside_def progress_def mq_defs)
next
  case (mu_test t)
  then show ?thesis using body_read [OF assms(1), of t] by (auto simp: inside_def progress_def)
next
  case (mu_front t)
  then show ?thesis using body_read [OF assms(1), of t] by (simp add: inside_def progress_def)
next
  case (mu_pop t v)
  then show ?thesis using body_inv [OF assms(1), of t] by (auto simp: inside_def progress_def mq_defs)
next
  case (mu_swap t)
  then show ?thesis using body_inv [OF assms(1), of t] by (simp add: inside_def progress_def mq_defs)
next
  case (mu_empty t)
  then show ?thesis using body_read [OF assms(1), of t] by (simp add: inside_def progress_def mq_defs)
qed

lemma sh_new_inv: "sh_inv sh_new"
  by (simp add: sh_inv_def sh_new_def MutexLock_new_def inside_def mq_new_def)

interpretation micro: step_system "\<lambda>s. s = sh_new" mq_micro sh_inv
  by unfold_locales (simp add: sh_new_inv, rule mq_micro_inv)

section \<open>No thread is stuck for ever\<close>

text \<open>A call that has begun can go on, or the thread inside can.\<close>

lemma micro_progress:
  assumes "sh_inv s" "sh_pc s t \<noteq> Idle" shows "\<exists>s'. mq_micro s s'"
proof (cases "mutex_owner (sh_mutex s)")
  case None
  then have "\<not> inside (sh_pc s t)" using assms(1) by (auto simp: sh_inv_def)
  then obtain c where "sh_pc s t = Enter c" using assms(2) by (auto simp: inside_def split: pc.splits)
  moreover have "\<exists>m. MutexLockGuard_new t (sh_mutex s) = Some m" using None by (simp add: guard_defs)
  ultimately show ?thesis using mu_guard by blast
next
  case (Some u)
  then have u: "inside (sh_pc s u)" using assms(1) by (auto simp: sh_inv_def)
  show ?thesis
  proof (cases "sh_pc s u")
    case (Held c)
    show ?thesis
    proof (cases c)
      case TryPop
      then show ?thesis using Held mu_none [of s u] mu_test [of s u] by (cases "sh_data s = []") auto
    qed (use Held mu_size [of s u] mu_push [of s u] mu_swap [of s u] mu_empty [of s u] in auto)
  next
    case (Leave c r)
    moreover have "\<exists>m. MutexLockGuard_destroy u (sh_mutex s) = Some m" using Some by (simp add: guard_defs)
    ultimately show ?thesis using mu_return by blast
  qed (use u mu_front [of s u] mu_pop [of s u] in \<open>auto simp: inside_def\<close>)
qed

end
