(* ===== verification/Strutil.thy ===== *)
theory Strutil
  imports Check_Function
begin

text \<open>
  The string helpers of \<open>src/essential/_src/utility/strutil.cpp\<close>: file names, numbers in bases 2 to 16, the
  escaped form of arbitrary bytes and back, hexadecimal dumps, comparison without case, and trimming. A
  \<open>std::string\<close> is a list of bytes; a \<open>char\<close> is signed where the code compares it with a number. An \<open>assert\<close>
  that fails is \<^const>\<open>Aborted\<close>, an \<open>assert_check\<close> that fails throws; \<open>long\<close> is a 64-bit word.
\<close>

section \<open>File names\<close>

text \<open>\<open>std::string::rfind\<close>.\<close>

fun rfind :: "byte \<Rightarrow> bytes \<Rightarrow> nat option" where
  "rfind c [] = None"
| "rfind c (x # xs) =
     (case rfind c xs of Some i \<Rightarrow> Some (Suc i) | None \<Rightarrow> if x = c then Some 0 else None)"

definition strutil_check :: "bool \<Rightarrow> string \<Rightarrow> i32 \<Rightarrow> string \<Rightarrow> unit outcome" where
  "strutil_check condition expression line message =
     assert_check condition (ascii expression) (ascii ''_src/utility/strutil.cpp'') line (ascii message)"

definition GetFileSuffix :: "bytes \<Rightarrow> bytes outcome" where
  "GetFileSuffix fileName =
     (case rfind 46 fileName of
        None \<Rightarrow> Inr []
      | Some dotIndex \<Rightarrow>
          if dotIndex = length fileName - 1 then Inr []
          else
            let suffixBeginPos = dotIndex + 1
            in bindE (strutil_check (suffixBeginPos < length fileName) ''suffixBeginPos < fileName.size()'' 26 ''GetFileSuffix'') (\<lambda>_.
               let suffixLen = length fileName - suffixBeginPos
               in bindE (strutil_check (suffixLen > 0) ''suffixLen > 0'' 28 ''GetFileSuffix'') (\<lambda>_.
                  bindE (strutil_check (suffixLen < length fileName - 1) ''suffixLen < fileName.size() - 1'' 29 ''GetFileSuffix'') (\<lambda>_.
                  Inr (take suffixLen (drop suffixBeginPos fileName))))))"

definition GetFileWithoutSuffix :: "bytes \<Rightarrow> bytes" where
  "GetFileWithoutSuffix fileName =
     (case rfind 46 fileName of
        None \<Rightarrow> []
      | Some dotIndex \<Rightarrow> if dotIndex = length fileName - 1 then [] else take dotIndex fileName)"

definition GetFillPath_ByFullPathName :: "bytes \<Rightarrow> bytes outcome" where
  "GetFillPath_ByFullPathName fullPathName =
     bindE (strutil_check (length fullPathName > 0) ''fullPathName.size() > 0'' 53 ''GetFillPath_ByFullPathName'') (\<lambda>_.
     let pos = rfind 92 fullPathName
     in bindE (strutil_check (pos \<noteq> None) ''pos != std::string::npos'' 56 ''GetFillPath_ByFullPathName'') (\<lambda>_.
        Inr (take (the pos + 1) fullPathName)))"

text \<open>The name is copied as a C string, so that it ends at the first terminator.\<close>

definition GetFileNameWithoutPath :: "bytes \<Rightarrow> bytes outcome" where
  "GetFileNameWithoutPath fullPathName =
     bindE (strutil_check (length fullPathName > 0) ''fullPathName.size() > 0'' 65 ''GetFileNameWithoutPath'') (\<lambda>_.
     let pos = rfind 92 fullPathName
     in bindE (strutil_check (pos \<noteq> None) ''pos != std::string::npos'' 68 ''GetFileNameWithoutPath'') (\<lambda>_.
        Inr (c_str (drop (the pos + 1) fullPathName))))"

section \<open>Numbers\<close>

fun pow_loop :: "int \<Rightarrow> nat \<Rightarrow> u64 \<Rightarrow> u64" where
  "pow_loop d 0 m = m"
| "pow_loop d (Suc n) m = pow_loop d n (m * word_of_int d)"

definition pow_i :: "int \<Rightarrow> nat \<Rightarrow> u64" where
  "pow_i d n = pow_loop d n 1"

definition data_chars :: bytes where
  "data_chars = ascii ''00112233445566778899aAbBcCdDeEfF''"

definition isRightData :: "byte \<Rightarrow> int \<Rightarrow> bool" where
  "isRightData c jz =
     (if jz < 2 \<or> jz > 16 then False
      else list_ex (\<lambda>i. c = data_chars ! (i * 2) \<or> c = data_chars ! (i * 2 + 1)) [0..<nat jz])"

definition ToHexDigit :: "byte \<Rightarrow> int option" where
  "ToHexDigit c =
     (if \<not> isRightData c 16 then None
      else Some (if isdigit c then char_value c - 48
                 else if c = 97 \<or> c = 65 then 10 else if c = 98 \<or> c = 66 then 11
                 else if c = 99 \<or> c = 67 then 12 else if c = 100 \<or> c = 68 then 13
                 else if c = 101 \<or> c = 69 then 14 else if c = 102 \<or> c = 70 then 15 else 0))"

text \<open>The loop of \<open>StrToData\<close> on the characters from position \<open>i\<close> on; \<open>None\<close> is the \<open>assert\<close> of \<open>ToHexDigit\<close>.\<close>

fun str_to_data_loop :: "int \<Rightarrow> bytes \<Rightarrow> u64 \<Rightarrow> u64 option" where
  "str_to_data_loop jz [] IntValue = Some IntValue"
| "str_to_data_loop jz (c # rest) IntValue =
     (if isRightData c jz
      then case ToHexDigit c of
             None \<Rightarrow> None
           | Some bitValue \<Rightarrow> str_to_data_loop jz rest (word_of_int bitValue * pow_i jz (length rest) + IntValue)
      else Some (-1))"

definition StrToData :: "bytes \<Rightarrow> int \<Rightarrow> u64 option" where
  "StrToData strData jz = str_to_data_loop jz strData 0"

section \<open>The escaped form\<close>

definition hex_escape :: "string \<Rightarrow> bytes" where
  "hex_escape digits = [92, 40] @ ascii digits @ [41]"

definition shiftMap :: "bytes list" where
  "shiftMap = [
   hex_escape ''00'', hex_escape ''01'', hex_escape ''02'', hex_escape ''03'', hex_escape ''04'', hex_escape ''05'', hex_escape ''06'', hex_escape ''07'',
   hex_escape ''08'', [92, 116], [92, 110], hex_escape ''0B'', hex_escape ''0C'', [92, 114], hex_escape ''0E'', hex_escape ''0F'',
   hex_escape ''10'', hex_escape ''11'', hex_escape ''12'', hex_escape ''13'', hex_escape ''14'', hex_escape ''15'', hex_escape ''16'', hex_escape ''17'',
   hex_escape ''18'', hex_escape ''19'', hex_escape ''1A'', hex_escape ''1B'', hex_escape ''1C'', hex_escape ''1D'', hex_escape ''1E'', hex_escape ''1F'',
   ascii '' '', ascii ''!'', [34], ascii ''#'', ascii ''$'', ascii ''%'', ascii ''&'', [39],
   ascii ''('', ascii '')'', ascii ''*'', ascii ''+'', ascii '','', ascii ''-'', ascii ''.'', ascii ''/'',
   ascii ''0'', ascii ''1'', ascii ''2'', ascii ''3'', ascii ''4'', ascii ''5'', ascii ''6'', ascii ''7'',
   ascii ''8'', ascii ''9'', ascii '':'', ascii '';'', ascii ''<'', ascii ''='', ascii ''>'', ascii ''?'',
   ascii ''@'', ascii ''A'', ascii ''B'', ascii ''C'', ascii ''D'', ascii ''E'', ascii ''F'', ascii ''G'',
   ascii ''H'', ascii ''I'', ascii ''J'', ascii ''K'', ascii ''L'', ascii ''M'', ascii ''N'', ascii ''O'',
   ascii ''P'', ascii ''Q'', ascii ''R'', ascii ''S'', ascii ''T'', ascii ''U'', ascii ''V'', ascii ''W'',
   ascii ''X'', ascii ''Y'', ascii ''Z'', ascii ''['', [92, 92], ascii '']'', ascii ''^'', ascii ''_'',
   ascii ''`'', ascii ''a'', ascii ''b'', ascii ''c'', ascii ''d'', ascii ''e'', ascii ''f'', ascii ''g'',
   ascii ''h'', ascii ''i'', ascii ''j'', ascii ''k'', ascii ''l'', ascii ''m'', ascii ''n'', ascii ''o'',
   ascii ''p'', ascii ''q'', ascii ''r'', ascii ''s'', ascii ''t'', ascii ''u'', ascii ''v'', ascii ''w'',
   ascii ''x'', ascii ''y'', ascii ''z'', ascii ''{'', ascii ''|'', ascii ''}'', ascii ''~'', hex_escape ''7F''
]"

fun ConvertToCStyleStr :: "bytes \<Rightarrow> bytes" where
  "ConvertToCStyleStr [] = []"
| "ConvertToCStyleStr (c # s) =
     (if char_value c \<ge> 0 \<and> char_value c \<le> 127 then shiftMap ! unat c else [c]) @ ConvertToCStyleStr s"

text \<open>\<open>strchr\<close> also finds the terminator.\<close>

definition IsHexNumber :: "byte \<Rightarrow> bool" where
  "IsHexNumber c \<longleftrightarrow> c \<in> set (ascii ''0123456789abcdefABCDEF'' @ [0])"

text \<open>\<open>pSrc[i]\<close> on the rest of a string, which a terminator follows.\<close>

definition src_at :: "bytes \<Rightarrow> nat \<Rightarrow> byte" where
  "src_at s i = (if i < length s then s ! i else 0)"

text \<open>The character and the number of characters it took; \<open>None\<close> is a failed \<open>assert\<close>. \<open>srcStrLen\<close> is an \<open>int\<close>, and the
  caller cuts the number of characters that are left to its 32 bits, so it may be negative.\<close>

definition ProcShiftCharByNum :: "bytes \<Rightarrow> i32 \<Rightarrow> (byte \<times> nat) option" where
  "ProcShiftCharByNum pSrc srcStrLen =
     (let isAllowdFormat =
            (if sint srcStrLen < 5 then False
             else if src_at pSrc 0 \<noteq> 92 \<or> src_at pSrc 1 \<noteq> 40 \<or> src_at pSrc 4 \<noteq> 41 then False
             else if \<not> IsHexNumber (src_at pSrc 2) \<or> \<not> IsHexNumber (src_at pSrc 3) then False
             else True)
      in if \<not> isAllowdFormat then None
         else case StrToData (take 2 (drop 2 pSrc)) 16 of
                None \<Rightarrow> None
              | Some hexNum \<Rightarrow> Some (ucast hexNum, 5))"

definition ProcShiftCharByChar :: "bytes \<Rightarrow> i32 \<Rightarrow> (byte \<times> nat) option" where
  "ProcShiftCharByChar pSrc srcStrLen =
     (if sint srcStrLen < 2 then None
      else if src_at pSrc 1 = 114 then Some (13, 2)
      else if src_at pSrc 1 = 110 then Some (10, 2)
      else if src_at pSrc 1 = 116 then Some (9, 2)
      else if src_at pSrc 1 = 92 then Some (92, 2)
      else None)"

definition ProcShiftChar :: "bytes \<Rightarrow> i32 \<Rightarrow> (byte \<times> nat) option" where
  "ProcShiftChar pSrc srcStrLen =
     (if src_at pSrc 1 \<in> {114, 110, 116, 92} then ProcShiftCharByChar pSrc srcStrLen
      else if src_at pSrc 1 = 40 then ProcShiftCharByNum pSrc srcStrLen
      else None)"

lemma sint_of_nat_le: "sint (of_nat n :: i32) \<le> int n"
proof -
  have "int (unat (of_nat n :: u32)) \<le> int n" by (simp add: unat32_of_nat)
  then show ?thesis using sint32_unat [of "of_nat n"] unat32_less [of "of_nat n"] by linarith
qed

lemma ProcShiftChar_moves: "ProcShiftChar s (of_nat (length s)) = Some (c, n) \<Longrightarrow> 0 < n \<and> n \<le> length s"
  using sint_of_nat_le [of "length s"]
  by (auto simp: ProcShiftChar_def ProcShiftCharByChar_def ProcShiftCharByNum_def Let_def split: if_splits option.splits)

text \<open>The loop on the rest of the string; the result so far is \<open>rst\<close>.\<close>

function from_c_loop :: "bytes \<Rightarrow> bytes \<Rightarrow> bytes option" where
  "from_c_loop rst [] = Some rst"
| "from_c_loop rst (c # s) =
     (if c \<noteq> 92 then from_c_loop (rst @ [c]) s
      else case ProcShiftChar (c # s) (of_nat (length (c # s))) of
             None \<Rightarrow> None
           | Some (shiftChar, n) \<Rightarrow> from_c_loop (rst @ [shiftChar]) (drop n (c # s)))"
  by pat_completeness auto
termination
proof (relation "measure (\<lambda>(rst, s). length s)")
  fix rst :: bytes and c s x shiftChar n
  assume "ProcShiftChar (c # s) (of_nat (length (c # s))) = Some x" "(shiftChar, n) = x"
  then have "0 < n" using ProcShiftChar_moves [of "c # s" shiftChar n] by simp
  then show "((rst @ [shiftChar], drop n (c # s)), (rst, c # s)) \<in> measure (\<lambda>(rst, s). length s)" by simp
qed simp_all

definition ConvertFromCStyleStr :: "bytes \<Rightarrow> bytes option" where
  "ConvertFromCStyleStr s = from_c_loop [] s"

section \<open>Hexadecimal dumps\<close>

definition hex_digit :: "nat \<Rightarrow> byte" where
  "hex_digit d = (if d < 10 then of_nat (48 + d) else of_nat (55 + d))"

text \<open>\<open>"%02X "\<close>.\<close>

definition hex_text :: "byte \<Rightarrow> bytes" where
  "hex_text c = [hex_digit (unat c div 16), hex_digit (unat c mod 16), 32]"

definition hexdump_oneline :: "bytes \<Rightarrow> bytes \<Rightarrow> nat \<Rightarrow> bytes" where
  "hexdump_oneline prefix line width =
     prefix
     @ concat (map (\<lambda>i. hex_text (line ! i) @ (if i = 7 \<or> i = 15 \<or> i = 23 then [32] else [])) [0..<length line])
     @ concat (replicate (width - length line) [32, 32, 32])
     @ (if length line \<le> 8 then [32, 32, 32] else if length line \<le> 16 then [32, 32] else if length line \<le> 24 then [32] else [])
     @ [58, 32]
     @ map (\<lambda>c. if char_value c < 32 then 46 else c) line
     @ [10]"

text \<open>The loop of \<open>ToHexDumpText\<close>; \<open>None\<close> is a loop that does not end.\<close>

partial_function (option) hex_dump_loop :: "bytes \<Rightarrow> nat \<Rightarrow> bytes \<Rightarrow> bytes \<Rightarrow> bytes option" where
  "hex_dump_loop prefix width str ostrm =
     (if length str > width
      then hex_dump_loop prefix width (drop width str) (ostrm @ hexdump_oneline prefix (take width str) width)
      else Some (if length str > 0 then ostrm @ hexdump_oneline prefix str width else ostrm))"

definition ToHexDumpText :: "bytes \<Rightarrow> nat \<Rightarrow> bytes \<Rightarrow> bytes option" where
  "ToHexDumpText s width prefix = hex_dump_loop prefix width s []"

section \<open>Comparison and trimming\<close>

fun compair_loop :: "bytes \<Rightarrow> bytes \<Rightarrow> int option" where
  "compair_loop (a # as) (b # bs) =
     (let v = char_value (tolower a) - char_value (tolower b) in if v \<noteq> 0 then Some v else compair_loop as bs)"
| "compair_loop _ _ = None"

text \<open>The difference of the lengths is cut to an \<open>int\<close>.\<close>

definition CompairNoCase :: "bytes \<Rightarrow> bytes \<Rightarrow> int" where
  "CompairNoCase lhs rhs =
     (case compair_loop lhs rhs of
        Some v \<Rightarrow> v
      | None \<Rightarrow> sint (word_of_int (int (length lhs) - int (length rhs)) :: i32))"

definition ToLower :: "bytes \<Rightarrow> bytes" where
  "ToLower str = fold (\<lambda>c ret. ret @ [tolower c]) str []"

text \<open>The two loops of \<open>CutSpace\<close>; \<open>blank\<close> is the test, which differs between the two versions.\<close>

fun cut_front :: "('a \<Rightarrow> bool) \<Rightarrow> 'a list \<Rightarrow> 'a list" where
  "cut_front blank [] = []"
| "cut_front blank (c # s) = (if blank c then cut_front blank s else c # s)"

function cut_back :: "('a \<Rightarrow> bool) \<Rightarrow> 'a list \<Rightarrow> 'a list" where
  "cut_back blank s = (if length s > 0 \<and> blank (s ! (length s - 1)) then cut_back blank (take (length s - 1) s) else s)"
  by pat_completeness auto
termination by (relation "measure (\<lambda>(blank, s). length s)") auto

declare cut_back.simps [simp del]

definition CutSpace_wide :: "u32 list \<Rightarrow> u32 list" where
  "CutSpace_wide ret = cut_back (\<lambda>c. c = 32) (cut_front (\<lambda>c. c = 32) ret)"

definition CutSpace :: "bytes \<Rightarrow> bytes" where
  "CutSpace ret = cut_back (\<lambda>c. c = 32 \<or> c = 9) (cut_front (\<lambda>c. c = 32 \<or> c = 9) ret)"

fun CutAllSpace :: "bytes \<Rightarrow> bytes" where
  "CutAllSpace [] = []"
| "CutAllSpace (c # s) = (if c = 32 then CutAllSpace s else c # CutAllSpace s)"

section \<open>Reading numbers\<close>

lemma pow_i_eq: "pow_i d n = word_of_int (d ^ n)"
proof -
  have "pow_loop d n m = m * word_of_int (d ^ n)" for m
    by (induction n arbitrary: m) (simp_all add: ac_simps)
  then show ?thesis by (simp add: pow_i_def)
qed

text \<open>The usual way to read a number: from the left, each digit after the base times what went before.\<close>

definition digit_value :: "byte \<Rightarrow> int" where
  "digit_value c = (case ToHexDigit c of Some d \<Rightarrow> d | None \<Rightarrow> 0)"

definition horner :: "int \<Rightarrow> bytes \<Rightarrow> int \<Rightarrow> int" where
  "horner jz s acc = foldl (\<lambda>v c. v * jz + digit_value c) acc s"

lemma isRightData_mono:
  assumes "isRightData c jz" shows "isRightData c 16"
proof -
  have "2 \<le> jz" "jz \<le> 16" "\<exists>i < nat jz. c = data_chars ! (i * 2) \<or> c = data_chars ! (i * 2 + 1)"
    using assms by (auto simp: isRightData_def list_ex_iff split: if_splits)
  moreover from this have "nat jz \<le> 16" by simp
  ultimately show ?thesis unfolding isRightData_def list_ex_iff by fastforce
qed

lemma str_to_data_horner:
  "list_all (\<lambda>c. isRightData c jz) s \<Longrightarrow>
     str_to_data_loop jz s (word_of_int acc * pow_i jz (length s)) = Some (word_of_int (horner jz s acc))"
proof (induction s arbitrary: acc)
  case (Cons c s)
  have digit: "ToHexDigit c = Some (digit_value c)"
    using isRightData_mono [of c jz] Cons.prems by (simp add: ToHexDigit_def digit_value_def)
  have "word_of_int (digit_value c) * pow_i jz (length s) + word_of_int acc * pow_i jz (Suc (length s)) =
      word_of_int (acc * jz + digit_value c) * pow_i jz (length s)"
    by (simp add: pow_i_eq algebra_simps)
  then show ?case using Cons.IH [of "acc * jz + digit_value c"] Cons.prems digit by (simp add: horner_def)
qed (simp add: horner_def pow_i_eq)

section \<open>Escaping and reading back\<close>

text \<open>The digits the table uses, with their values.\<close>

definition hex_table :: "(byte \<times> nat) list" where
  "hex_table = zip [48, 49, 50, 51, 52, 53, 54, 55, 56, 57, 65, 66, 67, 68, 69, 70] [0..<16]"

lemma isRightData_16: "isRightData c 16 \<longleftrightarrow> c \<in> set data_chars"
proof -
  have len: "length data_chars = 32" by (simp add: data_chars_def)
  have "c \<in> set data_chars \<longleftrightarrow> (\<exists>j < 16. c = data_chars ! (j * 2) \<or> c = data_chars ! (j * 2 + 1))"
  proof
    assume "c \<in> set data_chars"
    then obtain i where i: "i < 32" "c = data_chars ! i" unfolding in_set_conv_nth len by blast
    then have "i div 2 < 16" "i = i div 2 * 2 \<or> i = i div 2 * 2 + 1" by auto
    then show "\<exists>j < 16. c = data_chars ! (j * 2) \<or> c = data_chars ! (j * 2 + 1)" using i(2) by metis
  next
    assume "\<exists>j < 16. c = data_chars ! (j * 2) \<or> c = data_chars ! (j * 2 + 1)"
    then obtain j where "j < 16" "c = data_chars ! (j * 2) \<or> c = data_chars ! (j * 2 + 1)" by blast
    then show "c \<in> set data_chars" using nth_mem [of "j * 2" data_chars] nth_mem [of "j * 2 + 1" data_chars] len by auto
  qed
  then show ?thesis by (auto simp: isRightData_def list_ex_iff)
qed

lemma data_chars_set: "set data_chars = {48, 49, 50, 51, 52, 53, 54, 55, 56, 57, 97, 65, 98, 66, 99, 67, 100, 68, 101, 69, 102, 70}"
  by (simp add: data_chars_def ascii_def insert_commute)

lemma hex_table_entry:
  assumes "map_of hex_table c = Some d"
  shows "IsHexNumber c" "isRightData c 16" "ToHexDigit c = Some (int d)" "d < 16"
proof -
  have mem: "(c, d) \<in> set hex_table" using assms by (rule map_of_SomeD)
  show "IsHexNumber c" "d < 16"
    using mem by (auto simp: hex_table_def IsHexNumber_def ascii_def upt_rec)
  show r: "isRightData c 16" using mem by (auto simp: hex_table_def isRightData_16 data_chars_set upt_rec)
  show "ToHexDigit c = Some (int d)"
    using mem r by (auto simp: hex_table_def ToHexDigit_def isdigit_def char_value_def upt_rec)
qed

text \<open>What the table holds for a character: the character itself, a two-character escape, or its number.\<close>

definition escape_ok :: "byte \<Rightarrow> bytes \<Rightarrow> bool" where
  "escape_ok x e \<longleftrightarrow>
     e = [x] \<and> x \<noteq> 92 \<or>
     (x, e) \<in> {(13, [92, 114]), (10, [92, 110]), (9, [92, 116]), (92, [92, 92])} \<or>
     (case (map_of hex_table (e ! 2), map_of hex_table (e ! 3)) of
        (Some a, Some b) \<Rightarrow> e = [92, 40, e ! 2, e ! 3, 41] \<and> x = of_nat (a * 16 + b)
      | _ \<Rightarrow> False)"

lemma escape_table: "list_all2 escape_ok (map of_nat [0..<128]) shiftMap"
  by code_simp

lemma escape_entry: "unat c < 128 \<Longrightarrow> escape_ok c (shiftMap ! unat c)"
  using list_all2_nthD [OF escape_table, of "unat c"] by simp

lemma StrToData_two:
  assumes "map_of hex_table h = Some a" "map_of hex_table l = Some b"
  shows "StrToData [h, l] 16 = Some (of_nat (a * 16 + b))"
  using str_to_data_horner [of 16 "[h, l]" 0] hex_table_entry [OF assms(1)] hex_table_entry [OF assms(2)]
  by (simp add: StrToData_def horner_def digit_value_def)

lemma from_c_step:
  assumes "ProcShiftChar t (of_nat (length t)) = Some (c, n)" "t \<noteq> []" "hd t = 92"
  shows "from_c_loop rst t = from_c_loop (rst @ [c]) (drop n t)"
proof -
  obtain x u where t: "t = x # u" using assms(2) by (cases t) auto
  have "\<not> x \<noteq> 92" using assms(3) t by simp
  then show ?thesis using assms(1) unfolding t from_c_loop.simps by (simp only: if_False option.case prod.case)
qed

lemma read_escape:
  assumes "escape_ok c e" "length (e @ s) < 2147483648" shows "from_c_loop rst (e @ s) = from_c_loop (rst @ [c]) s"
proof -
  have len: "sint (of_nat (length (e @ s)) :: i32) = int (length (e @ s))"
    using assms(2) sint32_small [of "of_nat (length (e @ s))"] unat32_of_nat_small [of "length (e @ s)"] by linarith
  consider "e = [c]" "c \<noteq> 92" | "(c, e) \<in> {(13, [92, 114]), (10, [92, 110]), (9, [92, 116]), (92, [92, 92])}"
    | h l a b where "e = [92, 40, h, l, 41]" "map_of hex_table h = Some a" "map_of hex_table l = Some b" "c = of_nat (a * 16 + b)"
    using assms(1) unfolding escape_ok_def by (auto split: option.splits)
  then show ?thesis
  proof cases
    case 2
    then have "ProcShiftChar (e @ s) (of_nat (length (e @ s))) = Some (c, 2)"
      using len by (auto simp: ProcShiftChar_def ProcShiftCharByChar_def src_at_def simp del: of_nat_Suc)
    moreover have "e @ s \<noteq> []" "hd (e @ s) = 92" "drop 2 (e @ s) = s" using 2 by auto
    ultimately show ?thesis using from_c_step by metis
  next
    case 3
    note entry = hex_table_entry [OF 3(2)] hex_table_entry [OF 3(3)]
    have "a * 16 + b < 256" using entry(4,8) by linarith
    then have "(ucast (of_nat (a * 16 + b) :: u64) :: byte) = of_nat (a * 16 + b)"
      by (simp only: unsigned_of_nat) (simp add: take_bit_nat_eq_self del: of_nat_add of_nat_mult)
    then have "ProcShiftChar (e @ s) (of_nat (length (e @ s))) = Some (c, 5)"
      using 3 entry(1,5) StrToData_two [OF 3(2,3)] len
      by (simp add: ProcShiftChar_def ProcShiftCharByNum_def src_at_def del: of_nat_Suc)
    moreover have "e @ s \<noteq> []" "hd (e @ s) = 92" "drop 5 (e @ s) = s" using 3(1) by auto
    ultimately show ?thesis using from_c_step by metis
  qed simp
qed

lemma char_value_ascii: "0 \<le> char_value c \<and> char_value c \<le> 127 \<longleftrightarrow> unat c < 128"
proof -
  have "sint c = signed_take_bit 7 (uint c)" by (simp add: sint_uint)
  also have "\<dots> = (uint c + 128) mod 256 - 128"
    using signed_take_bit_eq_take_bit_shift [of 7 "uint c"] by (simp add: take_bit_eq_mod)
  finally have eq: "char_value c = (uint c + 128) mod 256 - 128" by (simp add: char_value_def)
  have range: "0 \<le> uint c" "uint c < 256" using uint_bounded [of c] by simp_all
  show ?thesis
  proof (cases "uint c < 128")
    case True
    then have "(uint c + 128) mod 256 = uint c + 128" using range by (intro mod_pos_pos_trivial) linarith+
    then show ?thesis using eq True range unat_eq_nat_uint [of c] by linarith
  next
    case False
    have "(uint c + 128) mod 256 = (uint c - 128) mod 256" using mod_add_self2 [of "uint c - 128" 256] by (simp add: add.commute)
    also have "\<dots> = uint c - 128" using False range by (intro mod_pos_pos_trivial) linarith+
    finally show ?thesis using eq False range unat_eq_nat_uint [of c] by linarith
  qed
qed

lemma escape_roundtrip:
  "length (ConvertToCStyleStr s) < 2147483648 \<Longrightarrow> from_c_loop rst (ConvertToCStyleStr s) = Some (rst @ s)"
proof (induction s arbitrary: rst)
  case (Cons c s)
  have short: "length (ConvertToCStyleStr s) < 2147483648" using Cons.prems by simp
  show ?case
  proof (cases "unat c < 128")
    case True
    then have e: "ConvertToCStyleStr (c # s) = shiftMap ! unat c @ ConvertToCStyleStr s" using char_value_ascii by simp
    show ?thesis using read_escape [OF escape_entry [OF True]] Cons.prems Cons.IH [OF short] unfolding e by simp
  next
    case False
    then have "c \<noteq> 92" by auto
    then show ?thesis using False Cons.IH [OF short] char_value_ascii by simp
  qed
qed simp

text \<open>With $2^{31}$ characters or more left the length is negative, and the first escape fails the assertion.\<close>

lemma escape_too_long:
  assumes "2147483648 \<le> length s" "length s < 4294967296" "hd s = 92"
  shows "ConvertFromCStyleStr s = None"
proof -
  obtain t where s: "s = 92 # t" using assms(1,3) by (cases s) auto
  have "unat (of_nat (length s) :: i32) = length s" using assms(2) by (rule unat32_of_nat_small)
  then have "sint (of_nat (length s) :: i32) < 0" using sint32_neg [of "of_nat (length s)"] assms(1) by simp
  then have "ProcShiftChar s (of_nat (length s)) = None"
    by (simp add: ProcShiftChar_def ProcShiftCharByChar_def ProcShiftCharByNum_def Let_def)
  then show ?thesis unfolding ConvertFromCStyleStr_def s from_c_loop.simps by (simp only: not_True_eq_False if_False option.case simp_thms)
qed

section \<open>Dumps\<close>

text \<open>Full lines, and a last one that is not empty.\<close>

definition cut_lines :: "nat \<Rightarrow> bytes list \<Rightarrow> bool" where
  "cut_lines width lines \<longleftrightarrow> (\<forall>line \<in> set (butlast lines). length line = width) \<and>
     (lines \<noteq> [] \<longrightarrow> 0 < length (last lines) \<and> length (last lines) \<le> width)"

lemma hex_dump_loop_ends:
  "0 < width \<Longrightarrow> \<exists>lines. hex_dump_loop prefix width str ostrm = Some (ostrm @ concat (map (\<lambda>line. hexdump_oneline prefix line width) lines)) \<and>
     concat lines = str \<and> cut_lines width lines"
proof (induction "length str" arbitrary: str ostrm rule: less_induct)
  case less
  show ?case
  proof (cases "length str > width")
    case True
    define out where "out = ostrm @ hexdump_oneline prefix (take width str) width"
    have "length (drop width str) < length str" using True less.prems by simp
    from less(1) [OF this less.prems, of out] obtain lines where
      "hex_dump_loop prefix width (drop width str) out = Some (out @ concat (map (\<lambda>line. hexdump_oneline prefix line width) lines))"
      "concat lines = drop width str" "cut_lines width lines"
      by blast
    moreover have "lines \<noteq> []" using calculation(2) True by auto
    moreover have "hex_dump_loop prefix width str ostrm = hex_dump_loop prefix width (drop width str) out"
      using True by (simp add: hex_dump_loop.simps [of prefix width str ostrm] out_def)
    ultimately show ?thesis using True less.prems
      by (intro exI [of _ "take width str # lines"]) (auto simp: out_def cut_lines_def)
  next
    case False
    show ?thesis
      by (rule exI [of _ "if str = [] then [] else [str]"])
        (use False in \<open>simp add: hex_dump_loop.simps [of prefix width str ostrm] cut_lines_def\<close>)
  qed
qed

lemma hex_dump_loop_some: "hex_dump_loop prefix w s out = Some r \<Longrightarrow> w = 0 \<longrightarrow> s = []"
proof (rule hex_dump_loop.raw_induct [where P = "\<lambda>prefix w s out r. w = 0 \<longrightarrow> s = []"])
  fix f :: "bytes \<Rightarrow> nat \<Rightarrow> bytes \<Rightarrow> bytes \<Rightarrow> bytes option" and p w s out r
  assume IH: "\<And>p w s out r. f p w s out = Some r \<Longrightarrow> w = 0 \<longrightarrow> s = []"
    and run: "(if w < length s then f p w (drop w s) (out @ hexdump_oneline p (take w s) w)
      else Some (if 0 < length s then out @ hexdump_oneline p s w else out)) = Some r"
  show "w = 0 \<longrightarrow> s = []"
  proof (cases "w < length s")
    case True
    then show ?thesis using run IH [of p w "drop w s"] by auto
  qed auto
qed

lemma hex_dump_loop_stuck: "str \<noteq> [] \<Longrightarrow> hex_dump_loop prefix 0 str out = None"
  using hex_dump_loop_some by (cases "hex_dump_loop prefix 0 str out") blast+

section \<open>Comparison and trimming\<close>

lemma tolower_value_inj: "char_value a = char_value b \<longleftrightarrow> a = b"
  unfolding char_value_def using signed_word_eqI [of a b] by auto

lemma compair_loop_None:
  "compair_loop a b = None \<longleftrightarrow> map tolower (take (min (length a) (length b)) a) = map tolower (take (min (length a) (length b)) b)"
  by (induction a b rule: compair_loop.induct) (simp_all add: Let_def tolower_value_inj)

lemma compair_loop_Some: "compair_loop a b = Some v \<Longrightarrow> v \<noteq> 0"
  by (induction a b rule: compair_loop.induct) (auto simp: Let_def split: if_splits)

lemma cut_front_eq: "cut_front blank s = dropWhile blank s"
  by (induction s) auto

lemma cut_back_eq: "cut_back blank s = rev (dropWhile blank (rev s))"
proof (induction s rule: rev_induct)
  case (snoc c s)
  then show ?case by (subst cut_back.simps) simp
qed (simp add: cut_back.simps)

lemma ToLower_eq: "ToLower s = map tolower s"
proof -
  have "fold (\<lambda>c ret. ret @ [tolower c]) s acc = acc @ map tolower s" for acc
    by (induction s arbitrary: acc) simp_all
  then show ?thesis by (simp add: ToLower_def)
qed

lemma CutAllSpace_eq: "CutAllSpace s = filter (\<lambda>c. c \<noteq> 32) s"
  by (induction s) auto

section \<open>File names\<close>

lemma rfind_None: "rfind c s = None \<longleftrightarrow> c \<notin> set s"
  by (induction s) (auto split: option.splits)

lemma rfind_Some: "rfind c s = Some i \<Longrightarrow> i < length s \<and> s ! i = c \<and> c \<notin> set (drop (Suc i) s)"
proof (induction s arbitrary: i)
  case (Cons x s)
  show ?case
  proof (cases "rfind c s")
    case None
    then show ?thesis using Cons.prems rfind_None [of c s] by (simp split: if_splits)
  next
    case (Some j)
    then show ?thesis using Cons by auto
  qed
qed simp

end
