(* ===== verification/Binary_Stream.thy ===== *)
theory Binary_Stream
  imports Strutil Kcp_Basic
begin

text \<open>
  The binary buffers and streams of \<open>src/essential/binary_stream\<close>: \<open>_binary_buf\<close> over a \<open>std::string\<close>,
  \<open>_appointed_buf\<close> over memory of a fixed size, and the templates \<open>_binary_ostream\<close> and \<open>_binary_istream\<close>.

  The type parameter of the templates is the record \<open>buf_ops\<close> of the operations they call; the check function is
  \<open>_assert_check\<close>, their default, which throws. Positions are \<open>int\<close>: sums of them wrap at 32 bits, and a size is
  cut to 32 bits when it is turned into one. A pointer and a count is a list of bytes with a count; reading past the
  list is \<^const>\<open>Aborted\<close>. A plain value is packed in the byte order of the host, least significant byte first.
\<close>

section \<open>Strings as std::string keeps them\<close>

type_synonym bin_buf = bytes

definition string_of_ptr :: "bytes \<Rightarrow> nat \<Rightarrow> bytes outcome" where
  "string_of_ptr p n = orAbort (string_of_buf p n)"

text \<open>\<open>std::string::substr\<close>-like access: the position may be the end, not past it.\<close>

definition std_substr :: "bytes \<Rightarrow> nat \<Rightarrow> nat \<Rightarrow> bytes outcome" where
  "std_substr s off n = (if off > length s then Inl OutOfRange else Inr (take n (drop off s)))"

definition std_replace :: "bytes \<Rightarrow> nat \<Rightarrow> nat \<Rightarrow> bytes \<Rightarrow> bytes outcome" where
  "std_replace s off n0 new =
     (if off > length s then Inl OutOfRange else Inr (take off s @ new @ drop (off + n0) s))"

section \<open>_binary_buf\<close>

definition buf_append :: "bin_buf \<Rightarrow> bin_buf \<Rightarrow> bin_buf" where
  "buf_append b right = b @ right"

definition buf_append_part :: "bin_buf \<Rightarrow> bin_buf \<Rightarrow> nat \<Rightarrow> nat \<Rightarrow> bin_buf outcome" where
  "buf_append_part b right roff n = bindE (std_substr right roff n) (\<lambda>part. Inr (b @ part))"

definition buf_append_ptr :: "bin_buf \<Rightarrow> bytes \<Rightarrow> nat \<Rightarrow> bin_buf outcome" where
  "buf_append_ptr b p n = bindE (string_of_ptr p n) (\<lambda>s. Inr (b @ s))"

definition buf_append_fill :: "bin_buf \<Rightarrow> nat \<Rightarrow> byte \<Rightarrow> bin_buf" where
  "buf_append_fill b n ch = b @ replicate n ch"

definition buf_append_cstr :: "bin_buf \<Rightarrow> bytes \<Rightarrow> bin_buf" where
  "buf_append_cstr b p = b @ c_str p"

text \<open>Constructors, assignment, and the operators that are \<open>append\<close> under another name.\<close>

definition buf_new :: bin_buf where "buf_new = []"

definition buf_of_ptr :: "bytes \<Rightarrow> nat \<Rightarrow> bin_buf outcome" where
  "buf_of_ptr p n = string_of_ptr p n"

definition buf_copy :: "bin_buf \<Rightarrow> bin_buf" where "buf_copy b = b"

definition buf_assign :: "bin_buf \<Rightarrow> bin_buf \<Rightarrow> bin_buf" where "buf_assign a b = b"

definition buf_plus :: "bin_buf \<Rightarrow> bin_buf \<Rightarrow> bin_buf" where "buf_plus b right = buf_append b right"

definition buf_plus_char :: "bin_buf \<Rightarrow> byte \<Rightarrow> bin_buf" where "buf_plus_char b ch = buf_append_fill b 1 ch"

definition buf_append_str :: "bin_buf \<Rightarrow> bytes \<Rightarrow> bin_buf" where "buf_append_str b p = b @ c_str p"

definition buf_eq :: "bin_buf \<Rightarrow> bin_buf \<Rightarrow> bool" where "buf_eq a b \<longleftrightarrow> a = b"

text \<open>\<open>std::string\<close> compares characters as unsigned numbers.\<close>

fun buf_less :: "bin_buf \<Rightarrow> bin_buf \<Rightarrow> bool" where
  "buf_less _ [] = False"
| "buf_less [] (_ # _) = True"
| "buf_less (x # xs) (y # ys) = (x < y \<or> x = y \<and> buf_less xs ys)"

definition buf_less_eq :: "bin_buf \<Rightarrow> bin_buf \<Rightarrow> bool" where "buf_less_eq a b \<longleftrightarrow> \<not> buf_less b a"

definition buf_neq :: "bin_buf \<Rightarrow> bin_buf \<Rightarrow> bool" where "buf_neq a b \<longleftrightarrow> \<not> buf_eq a b"
definition buf_greater :: "bin_buf \<Rightarrow> bin_buf \<Rightarrow> bool" where "buf_greater a b \<longleftrightarrow> buf_less b a"
definition buf_greater_eq :: "bin_buf \<Rightarrow> bin_buf \<Rightarrow> bool" where "buf_greater_eq a b \<longleftrightarrow> \<not> buf_less a b"

definition buf_size :: "bin_buf \<Rightarrow> nat" where "buf_size b = length b"

definition buf_resize :: "bin_buf \<Rightarrow> nat \<Rightarrow> bin_buf" where
  "buf_resize b n = take n b @ replicate (n - length b) 0"

text \<open>\<open>operator[]\<close>: the position of the terminator may be read.\<close>

definition buf_at :: "bin_buf \<Rightarrow> nat \<Rightarrow> byte outcome" where
  "buf_at b off = (if off < length b then Inr (b ! off) else if off = length b then Inr 0 else Inl Aborted)"

definition buf_set_ptr :: "bytes \<Rightarrow> nat \<Rightarrow> bin_buf outcome" where
  "buf_set_ptr p n = string_of_ptr p n"

definition buf_set :: "bytes \<Rightarrow> bin_buf" where "buf_set str = str"

text \<open>\<open>c_str\<close>: the contents with a terminator behind them.\<close>

definition buf_c_str :: "bin_buf \<Rightarrow> bytes" where "buf_c_str b = b @ [0]"

definition buf_to_std_string :: "bin_buf \<Rightarrow> bytes" where "buf_to_std_string b = b"

definition buf_to_cstyle_str :: "bin_buf \<Rightarrow> bytes" where "buf_to_cstyle_str b = ConvertToCStyleStr b"

definition buf_clear :: "bin_buf \<Rightarrow> bin_buf" where "buf_clear b = []"

definition buf_replace :: "bin_buf \<Rightarrow> nat \<Rightarrow> nat \<Rightarrow> bytes \<Rightarrow> nat \<Rightarrow> bin_buf outcome" where
  "buf_replace b off n0 p n = bindE (string_of_ptr p n) (std_replace b off n0)"

definition buf_replace_same :: "bin_buf \<Rightarrow> nat \<Rightarrow> bytes \<Rightarrow> nat \<Rightarrow> bin_buf outcome" where
  "buf_replace_same b off p n = buf_replace b off n p n"

definition buf_insert :: "bin_buf \<Rightarrow> nat \<Rightarrow> bin_buf \<Rightarrow> bin_buf outcome" where
  "buf_insert b off right = std_replace b off 0 right"

definition buf_insert_part :: "bin_buf \<Rightarrow> nat \<Rightarrow> bin_buf \<Rightarrow> nat \<Rightarrow> nat \<Rightarrow> bin_buf outcome" where
  "buf_insert_part b off right roff n =
     (if off > length b then Inl OutOfRange else bindE (std_substr right roff n) (std_replace b off 0))"

definition buf_insert_ptr :: "bin_buf \<Rightarrow> nat \<Rightarrow> bytes \<Rightarrow> nat \<Rightarrow> bin_buf outcome" where
  "buf_insert_ptr b off p n = bindE (string_of_ptr p n) (std_replace b off 0)"

definition buf_insert_cstr :: "bin_buf \<Rightarrow> nat \<Rightarrow> bytes \<Rightarrow> bin_buf outcome" where
  "buf_insert_cstr b off p = std_replace b off 0 (c_str p)"

definition buf_insert_fill :: "bin_buf \<Rightarrow> nat \<Rightarrow> nat \<Rightarrow> byte \<Rightarrow> bin_buf outcome" where
  "buf_insert_fill b off n ch = std_replace b off 0 (replicate n ch)"

definition buf_erase :: "bin_buf \<Rightarrow> nat \<Rightarrow> nat \<Rightarrow> bin_buf outcome" where
  "buf_erase b off n = std_replace b off n []"

text \<open>\<open>LoadFromFile\<close>: the file is read in blocks of 10240 bytes until a block is empty.\<close>

function load_blocks :: "bytes \<Rightarrow> bin_buf \<Rightarrow> bin_buf" where
  "load_blocks file b =
     (let readBuf = take (1024 * 10) file
      in if readBuf = [] then b else load_blocks (drop (1024 * 10) file) (b @ readBuf))"
  by pat_completeness auto
termination by (relation "measure (\<lambda>(file, b). length file)") auto

declare load_blocks.simps [simp del]

definition LoadFromFile :: "bytes option \<Rightarrow> bin_buf \<Rightarrow> bool \<times> bin_buf" where
  "LoadFromFile file b = (case file of None \<Rightarrow> (False, []) | Some contents \<Rightarrow> (True, load_blocks contents []))"

text \<open>A number in the byte order of the host.\<close>

fun le_nat :: "bytes \<Rightarrow> nat" where
  "le_nat [] = 0"
| "le_nat (b # bs) = unat b + 256 * le_nat bs"

fun le_bytes :: "nat \<Rightarrow> nat \<Rightarrow> bytes" where
  "le_bytes 0 n = []"
| "le_bytes (Suc k) n = of_nat (n mod 256) # le_bytes k (n div 256)"

definition LoadFromString_FrontIsSize :: "bytes \<Rightarrow> (u64 \<times> bin_buf) outcome" where
  "LoadFromString_FrontIsSize pStr =
     bindE (string_of_ptr pStr 8) (\<lambda>front.
     let nSize = (of_nat (le_nat front) :: u64)
     in bindE (string_of_ptr (drop 8 pStr) (unat nSize)) (\<lambda>s. Inr (nSize + 8, s)))"

text \<open>The text form: \<open>operator<<\<close>, and \<open>operator>>\<close> on the rest of a text stream, which reads one line.\<close>

definition buf_write :: "bin_buf \<Rightarrow> bytes" where
  "buf_write b = ConvertToCStyleStr b"

definition buf_read :: "bytes \<Rightarrow> (bin_buf \<times> bytes) outcome" where
  "buf_read inp =
     (let line = takeWhile (\<lambda>c. c \<noteq> 10) inp
      in bindE (orAbort (ConvertFromCStyleStr line)) (\<lambda>b. Inr (b, drop (Suc (length line)) inp)))"

definition to_hex_dump_str :: "bin_buf \<Rightarrow> bytes option" where
  "to_hex_dump_str b = ToHexDumpText b 32 (ascii ''!- '')"

text \<open>The comparisons are those of a linear order, and inserting is undone by erasing.\<close>

lemma buf_less_irrefl: "\<not> buf_less a a"
  by (induction a) auto

lemma buf_less_trans: "buf_less a b \<Longrightarrow> buf_less b c \<Longrightarrow> buf_less a c"
proof (induction a b arbitrary: c rule: buf_less.induct)
  case (2 y ys)
  then show ?case by (cases c) auto
next
  case (3 x xs y ys)
  then show ?case by (cases c) auto
qed simp

lemma buf_less_linear: "buf_less a b \<or> a = b \<or> buf_less b a"
proof (induction a b rule: buf_less.induct)
  case (1 a)
  then show ?case by (cases a) auto
next
  case (3 x xs y ys)
  then show ?case by (cases x y rule: linorder_cases) auto
qed simp

lemma buf_comparisons:
  "buf_eq a b \<longleftrightarrow> \<not> buf_neq a b" "buf_less_eq a b \<longleftrightarrow> buf_less a b \<or> buf_eq a b" "buf_greater a b \<longleftrightarrow> buf_less b a"
  "buf_greater_eq a b \<longleftrightarrow> \<not> buf_less a b" "buf_less a b \<Longrightarrow> \<not> buf_greater a b"
  using buf_less_linear [of a b] buf_less_irrefl [of a] buf_less_trans [of a b a]
  by (auto simp: buf_eq_def buf_neq_def buf_less_eq_def buf_greater_def buf_greater_eq_def)

lemma insert_then_erase:
  assumes "off \<le> length b" "buf_insert b off right = Inr b'"
  shows "buf_erase b' off (length right) = Inr b \<and> buf_size b' = buf_size b + buf_size right"
  using assms by (auto simp: buf_insert_def buf_erase_def std_replace_def buf_size_def)

section \<open>_appointed_buf\<close>

definition ap_check :: "bool \<Rightarrow> string \<Rightarrow> i32 \<Rightarrow> unit outcome" where
  "ap_check condition expression line =
     assert_check condition (ascii expression) (ascii ''appointed_buf.h'') line (ascii ''_appointed_buf'')"

text \<open>The constructor takes memory of a given size; its \<open>assert\<close> keeps the size an \<open>int\<close>.\<close>

definition ap_new :: "bytes \<Rightarrow> bytes outcome" where
  "ap_new p = (if length p \<le> 2147483647 then Inr p else Inl Aborted)"

definition ap_size :: "bytes \<Rightarrow> nat" where "ap_size b = length b"

definition ap_c_str :: "bytes \<Rightarrow> bytes" where "ap_c_str b = b"

definition ap_resize :: "bytes \<Rightarrow> nat \<Rightarrow> bytes outcome" where
  "ap_resize m n = bindE (ap_check False ''false'' 36) (\<lambda>_. Inr m)"

definition ap_at :: "bytes \<Rightarrow> nat \<Rightarrow> byte outcome" where
  "ap_at m off = bindE (ap_check (off < length m) ''_Off < m_BufSize'' 39) (\<lambda>_. Inr (m ! off))"

text \<open>Sizes are 64-bit, so that the sum in the last check wraps.\<close>

definition ap_replace :: "bytes \<Rightarrow> nat \<Rightarrow> bytes \<Rightarrow> nat \<Rightarrow> bytes outcome" where
  "ap_replace m off p n =
     bindE (ap_check (off < length m) ''_Off < m_BufSize'' 53) (\<lambda>_.
     bindE (ap_check (n \<ge> 0) ''_Count >= 0'' 54) (\<lambda>_.
     bindE (ap_check (n \<le> length m) ''_Count <= m_BufSize'' 55) (\<lambda>_.
     bindE (ap_check ((off + n) mod 18446744073709551616 \<le> length m) ''_Off + _Count <= m_BufSize'' 56) (\<lambda>_.
     bindE (string_of_ptr p n) (\<lambda>s. Inr (take off m @ s @ drop (off + n) m))))))"

definition ap_clear :: "bytes \<Rightarrow> bytes" where
  "ap_clear m = replicate (length m) 0"

definition ap_assign :: "bytes \<Rightarrow> bytes \<Rightarrow> bytes outcome" where
  "ap_assign m b =
     bindE (ap_check (length m \<ge> length b) ''m_BufSize >= b.m_BufSize'' 94) (\<lambda>_.
     Inr (b @ replicate (length m - length b) 0))"

section \<open>What the streams need of a buffer\<close>

record 'b buf_ops =
  b_size :: "'b \<Rightarrow> nat"
  b_resize :: "'b \<Rightarrow> nat \<Rightarrow> 'b outcome"
  b_replace :: "'b \<Rightarrow> nat \<Rightarrow> bytes \<Rightarrow> nat \<Rightarrow> 'b outcome"
  b_data :: "'b \<Rightarrow> bytes"

definition bin_buf_ops :: "bin_buf buf_ops" where
  "bin_buf_ops =
     \<lparr>b_size = buf_size, b_resize = \<lambda>b n. Inr (buf_resize b n), b_replace = buf_replace_same, b_data = \<lambda>b. b\<rparr>"

definition appointed_ops :: "bytes buf_ops" where
  "appointed_ops = \<lparr>b_size = ap_size, b_resize = ap_resize, b_replace = ap_replace, b_data = ap_c_str\<rparr>"

definition wrap32 :: "int \<Rightarrow> int" where
  "wrap32 i = sint (word_of_int i :: i32)"

definition size_of_int :: "int \<Rightarrow> nat" where
  "size_of_int i = unat (word_of_int i :: u64)"

definition stream_check :: "string \<Rightarrow> bool \<Rightarrow> string \<Rightarrow> i32 \<Rightarrow> string \<Rightarrow> unit outcome" where
  "stream_check file condition expression line message =
     assert_check condition (ascii expression) (ascii file) line (ascii message)"

section \<open>_binary_ostream\<close>

record 'b ostream =
  os_buf :: 'b
  os_pos :: int

definition ostream_new :: "'b buf_ops \<Rightarrow> 'b \<Rightarrow> 'b ostream" where
  "ostream_new ops b = \<lparr>os_buf = b, os_pos = wrap32 (int (b_size ops b))\<rparr>"

definition os_EndPos :: "'b buf_ops \<Rightarrow> 'b ostream \<Rightarrow> int" where
  "os_EndPos ops os = wrap32 (int (b_size ops (os_buf os)))"

definition ResizeBuf :: "'b buf_ops \<Rightarrow> 'b ostream \<Rightarrow> int \<Rightarrow> 'b ostream outcome" where
  "ResizeBuf ops os newSize = bindE (b_resize ops (os_buf os) (size_of_int newSize)) (\<lambda>b. Inr (os\<lparr>os_buf := b\<rparr>))"

definition SetWritePos :: "'b buf_ops \<Rightarrow> 'b ostream \<Rightarrow> int \<Rightarrow> 'b ostream outcome" where
  "SetWritePos ops os writePos =
     bindE (stream_check ''binary_ostream.h'' (writePos \<ge> 0 \<and> writePos \<le> os_EndPos ops os)
              ''writePos >= 0 && writePos <= EndPos()'' 147 ''can't set writePos after context bound!'') (\<lambda>_.
     Inr (os\<lparr>os_pos := writePos\<rparr>))"

definition MoveWritePos :: "'b buf_ops \<Rightarrow> 'b ostream \<Rightarrow> int \<Rightarrow> 'b ostream outcome" where
  "MoveWritePos ops os off = SetWritePos ops os (wrap32 (os_pos os + off))"

definition Pack :: "'b buf_ops \<Rightarrow> 'b ostream \<Rightarrow> bytes \<Rightarrow> int \<Rightarrow> (int \<times> 'b ostream) outcome" where
  "Pack ops os pBuf sz =
     bindE (stream_check ''binary_ostream.h'' (sz \<ge> 0) ''size >= 0'' 111 ''call pack, but size < 0'') (\<lambda>_.
     let BufNeedLen = wrap32 (os_pos os + sz)
     in bindE (if BufNeedLen > os_EndPos ops os then ResizeBuf ops os BufNeedLen else Inr os) (\<lambda>os.
        bindE (b_replace ops (os_buf os) (size_of_int (os_pos os)) pBuf (size_of_int sz)) (\<lambda>b.
        bindE (SetWritePos ops (os\<lparr>os_buf := b\<rparr>) (wrap32 (os_pos os + sz))) (\<lambda>os.
        Inr (os_pos os, os)))))"

definition Pack_int :: "'b buf_ops \<Rightarrow> 'b ostream \<Rightarrow> i32 \<Rightarrow> (int \<times> 'b ostream) outcome" where
  "Pack_int ops os v = Pack ops os (store_native32 v) 4"

definition PackString :: "'b buf_ops \<Rightarrow> 'b ostream \<Rightarrow> bytes \<Rightarrow> (int \<times> 'b ostream) outcome" where
  "PackString ops os str =
     bindE (Pack_int ops os (of_nat (length str))) (\<lambda>(_, os).
     Pack ops os str (wrap32 (int (length str))))"

text \<open>A wide character is four bytes.\<close>

definition PackWString :: "'b buf_ops \<Rightarrow> 'b ostream \<Rightarrow> u32 list \<Rightarrow> (int \<times> 'b ostream) outcome" where
  "PackWString ops os wstr = PackString ops os (concat (map store_native32 wstr))"

section \<open>_binary_istream\<close>

record 'b istream =
  is_buf :: 'b
  is_pos :: int

definition istream_new :: "'b \<Rightarrow> 'b istream" where
  "istream_new b = \<lparr>is_buf = b, is_pos = 0\<rparr>"

definition is_EndPos :: "'b buf_ops \<Rightarrow> 'b istream \<Rightarrow> int" where
  "is_EndPos ops s = wrap32 (int (b_size ops (is_buf s)))"

definition LeftBytes :: "'b buf_ops \<Rightarrow> 'b istream \<Rightarrow> u64" where
  "LeftBytes ops s = word_of_int (wrap32 (is_EndPos ops s - is_pos s))"

definition SetReadPos :: "'b buf_ops \<Rightarrow> 'b istream \<Rightarrow> int \<Rightarrow> 'b istream outcome" where
  "SetReadPos ops s readPos =
     bindE (stream_check ''binary_istream.h'' (readPos \<ge> 0 \<and> readPos \<le> is_EndPos ops s)
              ''readPos >= 0 && readPos <= EndPos()'' 177 ''can't set readPos after context bound!'') (\<lambda>_.
     Inr (s\<lparr>is_pos := readPos\<rparr>))"

definition MoveReadPos :: "'b buf_ops \<Rightarrow> 'b istream \<Rightarrow> int \<Rightarrow> 'b istream outcome" where
  "MoveReadPos ops s off = SetReadPos ops s (wrap32 (is_pos s + off))"

text \<open>\<open>Read\<close> fills \<open>pBuf\<close>; the result is its first \<open>bufSizeInBytes\<close> bytes.\<close>

definition Read :: "'b buf_ops \<Rightarrow> 'b istream \<Rightarrow> int \<Rightarrow> int \<Rightarrow> int \<Rightarrow> bytes outcome" where
  "Read ops s bufSizeInBytes readPos sizeToRead =
     bindE (stream_check ''binary_istream.h'' (bufSizeInBytes \<ge> 0) ''bufSizeInBytes >= 0'' 223 '''') (\<lambda>_.
     bindE (stream_check ''binary_istream.h'' (readPos \<ge> 0 \<and> readPos \<le> is_EndPos ops s)
              ''(readPos >= 0) && (readPos <= EndPos())'' 227 ''readPos exceed the bound of buf'') (\<lambda>_.
     bindE (stream_check ''binary_istream.h'' (sizeToRead \<ge> 0 \<and> wrap32 (readPos + sizeToRead) \<le> is_EndPos ops s)
              ''(sizeToRead >= 0) && ((readPos + sizeToRead) <= EndPos())'' 228 ''read exceed the bound of buf!'') (\<lambda>_.
     bindE (stream_check ''binary_istream.h'' (sizeToRead \<le> bufSizeInBytes) ''sizeToRead <= bufSizeInBytes'' 229
              ''dst buf is smaller than cpySize'') (\<lambda>_.
     bindE (string_of_ptr (drop (nat readPos) (b_data ops (is_buf s))) (nat sizeToRead)) (\<lambda>cpy.
     Inr (cpy @ replicate (nat bufSizeInBytes - nat sizeToRead) 0))))))"

definition Unpack_buf :: "'b buf_ops \<Rightarrow> 'b istream \<Rightarrow> int \<Rightarrow> int \<Rightarrow> (bytes \<times> 'b istream) outcome" where
  "Unpack_buf ops s bufSizeInBytes sizeToCpy =
     bindE (Read ops s bufSizeInBytes (is_pos s) sizeToCpy) (\<lambda>buf.
     bindE (MoveReadPos ops s sizeToCpy) (\<lambda>s. Inr (buf, s)))"

definition Unpack_int :: "'b buf_ops \<Rightarrow> 'b istream \<Rightarrow> (i32 \<times> 'b istream) outcome" where
  "Unpack_int ops s =
     bindE (Unpack_buf ops s 4 4) (\<lambda>(buf, s). Inr (load_native32 (buf ! 0) (buf ! 1) (buf ! 2) (buf ! 3), s))"

definition Unpack_char :: "'b buf_ops \<Rightarrow> 'b istream \<Rightarrow> (byte \<times> 'b istream) outcome" where
  "Unpack_char ops s = bindE (Unpack_buf ops s 1 1) (\<lambda>(buf, s). Inr (buf ! 0, s))"

definition Read_int :: "'b buf_ops \<Rightarrow> 'b istream \<Rightarrow> i32 outcome" where
  "Read_int ops s =
     bindE (Read ops s 4 (is_pos s) 4) (\<lambda>buf. Inr (load_native32 (buf ! 0) (buf ! 1) (buf ! 2) (buf ! 3)))"

fun unpack_chars :: "'b buf_ops \<Rightarrow> nat \<Rightarrow> bytes \<Rightarrow> 'b istream \<Rightarrow> (bytes \<times> 'b istream) outcome" where
  "unpack_chars ops 0 dstStr s = Inr (dstStr, s)"
| "unpack_chars ops (Suc n) dstStr s =
     bindE (Unpack_char ops s) (\<lambda>(c, s). unpack_chars ops n (dstStr @ [c]) s)"

definition UnpackString :: "'b buf_ops \<Rightarrow> 'b istream \<Rightarrow> (bytes \<times> 'b istream) outcome" where
  "UnpackString ops s =
     bindE (Read_int ops s) (\<lambda>dstStrLen.
     let bufLeftLen = wrap32 (wrap32 (is_EndPos ops s - is_pos s) - 4)
     in bindE (stream_check ''binary_istream.h'' (sint dstStrLen \<ge> 0 \<and> sint dstStrLen \<le> bufLeftLen)
                 ''(dstStrLen >= 0) && (dstStrLen <= bufLeftLen)'' 204 ''distroyed string!'') (\<lambda>_.
        bindE (Unpack_int ops s) (\<lambda>(dstStrLen, s).
        unpack_chars ops (nat (sint dstStrLen)) [] s)))"

text \<open>The wide characters of a string of bytes; what is left of the last one is lost.\<close>

fun wide_chars :: "bytes \<Rightarrow> u32 list" where
  "wide_chars (b0 # b1 # b2 # b3 # bs) = load_native32 b0 b1 b2 b3 # wide_chars bs"
| "wide_chars _ = []"

definition UnpackWString :: "'b buf_ops \<Rightarrow> 'b istream \<Rightarrow> (u32 list \<times> 'b istream) outcome" where
  "UnpackWString ops s = bindE (UnpackString ops s) (\<lambda>(dst, s). Inr (wide_chars dst, s))"

text \<open>\<open>std::string Unpack(int)\<close>. The array on the heap is one byte longer than what is cleared; \<open>junk\<close> is what that
  byte holds.\<close>

definition Unpack_string :: "byte \<Rightarrow> 'b buf_ops \<Rightarrow> 'b istream \<Rightarrow> int \<Rightarrow> (bytes \<times> 'b istream) outcome" where
  "Unpack_string junk ops s sizeToUnpack =
     (if sizeToUnpack < 1024
      then bindE (Unpack_buf ops s sizeToUnpack sizeToUnpack) (\<lambda>(buf, s).
           Inr (c_str (buf @ replicate (1024 - nat sizeToUnpack) 0), s))
      else bindE (Unpack_buf ops s sizeToUnpack sizeToUnpack) (\<lambda>(buf, s).
           if 0 \<in> set (buf @ [junk]) then Inr (c_str (buf @ [junk]), s) else Inl Aborted))"

section \<open>Laws of a buffer\<close>

lemma wrap32_id: "0 \<le> i \<Longrightarrow> i < 2147483648 \<Longrightarrow> wrap32 i = i"
  by (simp add: wrap32_def sint32_of_int)

lemma size_of_int_id: "0 \<le> i \<Longrightarrow> i < 2147483648 \<Longrightarrow> size_of_int i = nat i"
  by (simp add: size_of_int_def unat_eq_nat_uint uint_word_of_int)

lemma stream_check_simps [simp]:
  "stream_check file True e l m = Inr ()"
  "condition \<Longrightarrow> stream_check file condition e l m = Inr ()"
  "stream_check file condition e l m = Inr u \<longleftrightarrow> condition"
  by (simp_all add: stream_check_def assert_check_cases)

lemma ap_check_simps [simp]:
  "ap_check True e l = Inr ()" "condition \<Longrightarrow> ap_check condition e l = Inr ()" "ap_check condition e l = Inr u \<longleftrightarrow> condition"
  by (simp_all add: ap_check_def assert_check_cases)

lemma wide_chars_stored: "wide_chars (concat (map store_native32 wstr)) = wstr"
  by (induction wstr) (simp_all add: store_native32_def store_load_native32)

text \<open>What a stream can rely on: the size is that of the data, and bytes inside it can be replaced.\<close>

locale stream_buffer =
  fixes ops :: "'b buf_ops"
  assumes size_eq: "b_size ops b = length (b_data ops b)"
    and replace_inside: "length p = n \<Longrightarrow> off < b_size ops b \<Longrightarrow> off + n \<le> b_size ops b \<Longrightarrow> b_size ops b < 2147483648 \<Longrightarrow>
      \<exists>b'. b_replace ops b off p n = Inr b' \<and> b_data ops b' = take off (b_data ops b) @ p @ drop (off + n) (b_data ops b)"
begin

definition os_ok :: "'b ostream \<Rightarrow> bool" where
  "os_ok os \<longleftrightarrow> 0 \<le> os_pos os \<and> os_pos os \<le> int (b_size ops (os_buf os)) \<and> b_size ops (os_buf os) < 2147483648"

definition is_ok :: "'b istream \<Rightarrow> bool" where
  "is_ok s \<longleftrightarrow> 0 \<le> is_pos s \<and> is_pos s \<le> int (b_size ops (is_buf s)) \<and> b_size ops (is_buf s) < 2147483648"

lemma end_pos: "os_ok os \<Longrightarrow> os_EndPos ops os = int (b_size ops (os_buf os))"
  by (simp add: os_ok_def os_EndPos_def wrap32_id)

lemma is_end_pos: "is_ok s \<Longrightarrow> is_EndPos ops s = int (b_size ops (is_buf s))"
  by (simp add: is_ok_def is_EndPos_def wrap32_id)

text \<open>Overwriting: nothing but the bytes at the position changes.\<close>

lemma Pack_inside:
  assumes "os_ok os" "os_pos os < int (b_size ops (os_buf os))"
    and "os_pos os + int (length p) \<le> int (b_size ops (os_buf os))"
  shows "\<exists>os'. Pack ops os p (int (length p)) = Inr (os_pos os', os') \<and> os_ok os' \<and>
    os_pos os' = os_pos os + int (length p) \<and>
    b_data ops (os_buf os') = take (nat (os_pos os)) (b_data ops (os_buf os)) @ p @
      drop (nat (os_pos os) + length p) (b_data ops (os_buf os))"
proof -
  define pos where "pos = nat (os_pos os)"
  have p0: "os_pos os = int pos" using assms(1) by (simp add: os_ok_def pos_def)
  have pos: "os_pos os = int pos" "pos < b_size ops (os_buf os)" "pos + length p \<le> b_size ops (os_buf os)"
    "b_size ops (os_buf os) < 2147483648"
    using assms p0 unfolding os_ok_def by linarith+
  obtain b' where b': "b_replace ops (os_buf os) pos p (length p) = Inr b'"
    "b_data ops b' = take pos (b_data ops (os_buf os)) @ p @ drop (pos + length p) (b_data ops (os_buf os))"
    using replace_inside [OF refl pos(2,3,4)] by blast
  have size': "b_size ops b' = b_size ops (os_buf os)" using b'(2) pos(3) by (simp add: size_eq)
  have "wrap32 (int pos + int (length p)) = int (pos + length p)" using pos by (simp add: wrap32_id)
  then have "Pack ops os p (int (length p)) = Inr (int (pos + length p), os\<lparr>os_buf := b', os_pos := int (pos + length p)\<rparr>)"
    using pos b'(1) size'
    by (simp add: Pack_def SetWritePos_def os_EndPos_def size_of_int_id wrap32_id Let_def)
  then show ?thesis using b'(2) pos size' by (auto simp: os_ok_def)
qed

text \<open>Reading inside the buffer.\<close>

lemma Read_inside:
  assumes "is_ok s" "int pos + int n \<le> int (b_size ops (is_buf s))"
  shows "Read ops s (int n) (int pos) (int n) = Inr (take n (drop pos (b_data ops (is_buf s))))"
proof -
  have "pos + n < 2147483648" "pos + n \<le> length (b_data ops (is_buf s))" using assms by (simp_all add: is_ok_def size_eq)
  then show ?thesis using is_end_pos [OF assms(1)] assms
    by (simp add: Read_def wrap32_id string_of_ptr_def string_of_buf_def size_eq)
qed

lemma Unpack_inside:
  assumes "is_ok s" "is_pos s + int n \<le> int (b_size ops (is_buf s))"
  shows "Unpack_buf ops s (int n) (int n) =
    Inr (take n (drop (nat (is_pos s)) (b_data ops (is_buf s))), s\<lparr>is_pos := is_pos s + int n\<rparr>)"
proof -
  define pos where "pos = nat (is_pos s)"
  have pos: "is_pos s = int pos" using assms(1) by (simp add: pos_def is_ok_def)
  have "wrap32 (int pos + int n) = int pos + int n" using assms pos by (simp add: is_ok_def wrap32_id)
  then show ?thesis using Read_inside [OF assms(1), of pos n] assms(2) is_end_pos [OF assms(1)] pos
    by (simp add: Unpack_buf_def MoveReadPos_def SetReadPos_def)
qed

lemma is_ok_move: "is_ok s \<Longrightarrow> 0 \<le> p \<Longrightarrow> p \<le> int (b_size ops (is_buf s)) \<Longrightarrow> is_ok (s\<lparr>is_pos := p\<rparr>)"
  by (simp add: is_ok_def)

lemma unpack_chars_inside:
  assumes "is_ok s" "is_pos s + int n \<le> int (b_size ops (is_buf s))"
  shows "unpack_chars ops n acc s = Inr (acc @ take n (drop (nat (is_pos s)) (b_data ops (is_buf s))), s\<lparr>is_pos := is_pos s + int n\<rparr>)"
  using assms
proof (induction n arbitrary: acc s)
  case (Suc n)
  define pos where "pos = nat (is_pos s)"
  have p0: "is_pos s = int pos" using Suc.prems(1) by (simp add: is_ok_def pos_def)
  have pos: "is_pos s = int pos" "pos < length (b_data ops (is_buf s))"
    using Suc.prems(2) p0 unfolding size_eq by linarith+
  have "Unpack_char ops s = Inr (b_data ops (is_buf s) ! pos, s\<lparr>is_pos := is_pos s + 1\<rparr>)"
    using Unpack_inside [OF Suc.prems(1), of 1] Suc.prems(2) pos by (simp add: Unpack_char_def hd_drop_conv_nth take_Suc)
  moreover have "is_ok (s\<lparr>is_pos := is_pos s + 1\<rparr>)" using is_ok_move [OF Suc.prems(1)] Suc.prems(2) pos by simp
  moreover have "take (Suc n) (drop pos (b_data ops (is_buf s))) =
      b_data ops (is_buf s) ! pos # take n (drop (Suc pos) (b_data ops (is_buf s)))"
    using pos(2) by (simp add: Cons_nth_drop_Suc [symmetric])
  moreover have "nat (is_pos s + 1) = Suc pos" using pos(1) by simp
  ultimately show ?case using Suc.IH [of "s\<lparr>is_pos := is_pos s + 1\<rparr>"] Suc.prems(2) pos(1)
    by (simp add: pos_def [symmetric] add.commute add.left_commute)
qed simp

text \<open>A string whose length stands before it is read back.\<close>

lemma UnpackString_stored:
  assumes "is_ok s" "drop (nat (is_pos s)) (b_data ops (is_buf s)) = store_native32 (of_nat (length str)) @ str @ rest"
  shows "UnpackString ops s = Inr (str, s\<lparr>is_pos := is_pos s + 4 + int (length str)\<rparr>)"
proof -
  define pos where "pos = nat (is_pos s)"
  have pos: "is_pos s = int pos" using assms(1) by (simp add: pos_def is_ok_def)
  have le: "pos \<le> length (b_data ops (is_buf s))" using assms(1) pos by (simp add: is_ok_def size_eq)
  have len: "length (b_data ops (is_buf s)) = pos + 4 + length str + length rest"
    using arg_cong [OF assms(2), of length] le pos_def by simp
  have room: "int pos + int 4 \<le> int (b_size ops (is_buf s))" "is_pos s + int 4 \<le> int (b_size ops (is_buf s))"
    "length str < 2147483648" using len assms(1) pos by (simp_all add: size_eq is_ok_def)
  have four: "take 4 (drop pos (b_data ops (is_buf s))) = store_native32 (of_nat (length str))"
    using assms(2) by (simp add: pos_def)
  have read: "Read_int ops s = Inr (of_nat (length str))"
    using Read_inside [OF assms(1) room(1)] four pos by (simp add: Read_int_def store_native32_def store_load_native32)
  have un: "Unpack_int ops s = Inr (of_nat (length str), s\<lparr>is_pos := is_pos s + 4\<rparr>)"
    using Unpack_inside [OF assms(1) room(2)] four pos by (simp add: Unpack_int_def store_native32_def store_load_native32)
  have val: "sint (of_nat (length str) :: i32) = int (length str)"
    using sint32_of_int [of "int (length str)"] room(3) by simp
  have left: "wrap32 (wrap32 (is_EndPos ops s - is_pos s) - 4) = int (length str + length rest)"
    using is_end_pos [OF assms(1)] len pos assms(1) by (simp add: size_eq is_ok_def wrap32_id)
  have moved: "is_ok (s\<lparr>is_pos := is_pos s + 4\<rparr>)" using is_ok_move [OF assms(1)] pos len by (simp add: size_eq)
  have "drop (nat (is_pos s + 4)) (b_data ops (is_buf s)) = str @ rest"
    using arg_cong [OF assms(2), of "drop 4"] pos by (simp add: nat_add_distrib add.commute)
  then have "unpack_chars ops (length str) [] (s\<lparr>is_pos := is_pos s + 4\<rparr>) = Inr (str, s\<lparr>is_pos := is_pos s + 4 + int (length str)\<rparr>)"
    using unpack_chars_inside [OF moved, of "length str" "[]"] len pos by (simp add: size_eq)
  then show ?thesis using read un val left by (simp add: UnpackString_def)
qed

lemma UnpackWString_stored:
  assumes "is_ok s" "dst = concat (map store_native32 wstr)"
    and "drop (nat (is_pos s)) (b_data ops (is_buf s)) = store_native32 (of_nat (length dst)) @ dst @ rest"
  shows "UnpackWString ops s = Inr (wstr, s\<lparr>is_pos := is_pos s + 4 + int (length dst)\<rparr>)"
  using UnpackString_stored [OF assms(1,3)] assms(2) by (simp add: UnpackWString_def wide_chars_stored)

end

text \<open>A buffer that grows on demand.\<close>

locale growing_buffer = stream_buffer +
  assumes resize_data: "\<exists>b'. b_resize ops b n = Inr b' \<and> b_data ops b' = take n (b_data ops b) @ replicate (n - b_size ops b) 0"
    and replace_nothing: "b_replace ops b (b_size ops b) [] 0 = Inr b"
begin

lemma Pack_grow:
  assumes "os_ok os" "os_pos os + int (length p) < 2147483648"
  shows "\<exists>os'. Pack ops os p (int (length p)) = Inr (os_pos os', os') \<and> os_ok os' \<and>
    os_pos os' = os_pos os + int (length p) \<and>
    b_data ops (os_buf os') = take (nat (os_pos os)) (b_data ops (os_buf os)) @ p @
      drop (nat (os_pos os) + length p) (b_data ops (os_buf os))"
proof (cases "os_pos os + int (length p) \<le> int (b_size ops (os_buf os))")
  case True
  show ?thesis
  proof (cases "os_pos os < int (b_size ops (os_buf os))")
    case True
    then show ?thesis using Pack_inside [OF assms(1) True] \<open>os_pos os + int (length p) \<le> _\<close> by blast
  next
    case False
    then have pos: "os_pos os = int (b_size ops (os_buf os))" using True assms(1) unfolding os_ok_def by linarith
    then have "length p = 0" using True by linarith
    then have pos: "os_pos os = int (b_size ops (os_buf os))" "p = []" using pos by simp_all
    have "Pack ops os [] 0 = Inr (os_pos os, os\<lparr>os_pos := os_pos os\<rparr>)"
      using pos(1) assms replace_nothing
      by (simp add: Pack_def SetWritePos_def os_EndPos_def size_of_int_id wrap32_id pos(2) Let_def)
    then show ?thesis using pos assms(1) by (auto simp: size_eq os_ok_def)
  qed
next
  case False
  define pos where "pos = nat (os_pos os)"
  have pos: "os_pos os = int pos" "pos \<le> b_size ops (os_buf os)" "b_size ops (os_buf os) < pos + length p" "pos + length p < 2147483648"
  proof -
    show p0: "os_pos os = int pos" using assms(1) by (simp add: os_ok_def pos_def)
    show "pos \<le> b_size ops (os_buf os)" "b_size ops (os_buf os) < pos + length p" "pos + length p < 2147483648"
      using assms False p0 unfolding os_ok_def by linarith+
  qed
  obtain b1 where b1: "b_resize ops (os_buf os) (pos + length p) = Inr b1"
    "b_data ops b1 = take (pos + length p) (b_data ops (os_buf os)) @ replicate (pos + length p - b_size ops (os_buf os)) 0"
    using resize_data by blast
  have size1: "b_size ops b1 = pos + length p" using b1(2) pos by (simp add: size_eq)
  define os1 where "os1 = os\<lparr>os_buf := b1\<rparr>"
  have ok1: "os_ok os1" "os_pos os1 < int (b_size ops (os_buf os1))" "os_pos os1 + int (length p) \<le> int (b_size ops (os_buf os1))"
    using pos size1 by (auto simp: os_ok_def os1_def)
  have "Pack ops os p (int (length p)) = Pack ops os1 p (int (length p))"
    using pos b1(1) size1
    by (simp add: Pack_def ResizeBuf_def os_EndPos_def wrap32_id size_of_int_id os1_def nat_add_distrib)
  moreover have "take pos (b_data ops b1) = take pos (b_data ops (os_buf os))"
    "drop (pos + length p) (b_data ops b1) = []" "drop (pos + length p) (b_data ops (os_buf os)) = []"
    using b1(2) pos size1 by (simp_all add: size_eq)
  ultimately show ?thesis using Pack_inside [OF ok1] pos(1) by (simp add: os1_def)
qed

lemma PackString_grow:
  assumes "os_ok os" "os_pos os + 4 + int (length str) < 2147483648"
  shows "\<exists>os'. PackString ops os str = Inr (os_pos os', os') \<and> os_ok os' \<and>
    os_pos os' = os_pos os + 4 + int (length str) \<and>
    b_data ops (os_buf os') = take (nat (os_pos os)) (b_data ops (os_buf os)) @ store_native32 (of_nat (length str)) @ str @
      drop (nat (os_pos os) + 4 + length str) (b_data ops (os_buf os))"
proof -
  have pos0: "0 \<le> os_pos os" "nat (os_pos os) \<le> length (b_data ops (os_buf os))"
    using assms(1) unfolding os_ok_def size_eq by linarith+
  obtain os1 where os1: "Pack ops os (store_native32 (of_nat (length str))) 4 = Inr (os_pos os1, os1)" "os_ok os1"
    "os_pos os1 = os_pos os + 4"
    "b_data ops (os_buf os1) = take (nat (os_pos os)) (b_data ops (os_buf os)) @ store_native32 (of_nat (length str)) @
      drop (nat (os_pos os) + 4) (b_data ops (os_buf os))"
    using Pack_grow [OF assms(1), of "store_native32 (of_nat (length str))"] assms(2) by auto
  obtain os2 where os2: "Pack ops os1 str (int (length str)) = Inr (os_pos os2, os2)" "os_ok os2"
    "os_pos os2 = os_pos os1 + int (length str)"
    "b_data ops (os_buf os2) = take (nat (os_pos os1)) (b_data ops (os_buf os1)) @ str @
      drop (nat (os_pos os1) + length str) (b_data ops (os_buf os1))"
    using Pack_grow [OF os1(2), of str] assms(2) os1(3) by auto
  have n1: "nat (os_pos os1) = nat (os_pos os) + 4" using os1(3) pos0 by simp
  have "wrap32 (int (length str)) = int (length str)" using assms(2) pos0 by (simp add: wrap32_id)
  then have "PackString ops os str = Inr (os_pos os2, os2)" using os1(1) os2(1) by (simp add: PackString_def Pack_int_def)
  moreover have "b_data ops (os_buf os2) = take (nat (os_pos os)) (b_data ops (os_buf os)) @ store_native32 (of_nat (length str)) @ str @
      drop (nat (os_pos os) + 4 + length str) (b_data ops (os_buf os))"
    unfolding os2(4) n1 os1(4) using pos0(2) by (simp add: add.commute add.left_commute)
  ultimately show ?thesis using os2(2,3) os1(3) by auto
qed

end

interpretation ap: stream_buffer appointed_ops
proof unfold_locales
  show "b_size appointed_ops b = length (b_data appointed_ops b)" for b
    by (simp add: appointed_ops_def ap_size_def ap_c_str_def)
  show "\<exists>b'. b_replace appointed_ops b off p n = Inr b' \<and>
      b_data appointed_ops b' = take off (b_data appointed_ops b) @ p @ drop (off + n) (b_data appointed_ops b)"
    if "length p = n" "off < b_size appointed_ops b" "off + n \<le> b_size appointed_ops b" "b_size appointed_ops b < 2147483648" for p n off b
    using that by (simp add: appointed_ops_def ap_size_def ap_c_str_def ap_replace_def string_of_ptr_def string_of_buf_def)
qed

interpretation bb: growing_buffer bin_buf_ops
proof unfold_locales
  show "b_size bin_buf_ops b = length (b_data bin_buf_ops b)" for b by (simp add: bin_buf_ops_def buf_size_def)
  show "\<exists>b'. b_replace bin_buf_ops b off p n = Inr b' \<and>
      b_data bin_buf_ops b' = take off (b_data bin_buf_ops b) @ p @ drop (off + n) (b_data bin_buf_ops b)"
    if "length p = n" "off < b_size bin_buf_ops b" "off + n \<le> b_size bin_buf_ops b" "b_size bin_buf_ops b < 2147483648" for p n off b
    using that by (simp add: bin_buf_ops_def buf_size_def buf_replace_same_def buf_replace_def string_of_ptr_def
        string_of_buf_def std_replace_def)
  show "\<exists>b'. b_resize bin_buf_ops b n = Inr b' \<and> b_data bin_buf_ops b' = take n (b_data bin_buf_ops b) @ replicate (n - b_size bin_buf_ops b) 0"
    for b n by (simp add: bin_buf_ops_def buf_resize_def buf_size_def)
  show "b_replace bin_buf_ops b (b_size bin_buf_ops b) [] 0 = Inr b" for b
    by (simp add: bin_buf_ops_def buf_size_def buf_replace_same_def buf_replace_def string_of_ptr_def string_of_buf_def std_replace_def)
qed

end
