(* ===== verification/Binary_Iostream.thy ===== *)
theory Binary_Iostream
  imports Binary_Stream
begin

text \<open>
  \<open>_binary_iostream\<close> of \<open>src/essential/binary_stream/binary_iostream.h\<close>: an input stream and an output stream, its two base
  classes, that refer to the same buffer and have a position each. What the input stream reads the output
  stream may have written a moment before; the lemmas show that such a stream is a queue of strings.
\<close>

section \<open>The stream\<close>

record 'b iostream =
  io_buf :: 'b
  io_read :: int
  io_write :: int

definition iostream_new :: "'b buf_ops \<Rightarrow> 'b \<Rightarrow> 'b iostream" where
  "iostream_new ops b = \<lparr>io_buf = b, io_read = is_pos (istream_new b), io_write = os_pos (ostream_new ops b)\<rparr>"

text \<open>The two base objects, and a call of a member function of one of them. The input stream holds its buffer by a
  reference to \<open>const\<close>.\<close>

definition in_part :: "'b iostream \<Rightarrow> 'b istream" where
  "in_part s = \<lparr>is_buf = io_buf s, is_pos = io_read s\<rparr>"

definition out_part :: "'b iostream \<Rightarrow> 'b ostream" where
  "out_part s = \<lparr>os_buf = io_buf s, os_pos = io_write s\<rparr>"

definition on_in :: "('b istream \<Rightarrow> ('r \<times> 'b istream) outcome) \<Rightarrow> 'b iostream \<Rightarrow> ('r \<times> 'b iostream) outcome" where
  "on_in f s = bindE (f (in_part s)) (\<lambda>(r, i). Inr (r, s\<lparr>io_read := is_pos i\<rparr>))"

definition on_out :: "('b ostream \<Rightarrow> ('r \<times> 'b ostream) outcome) \<Rightarrow> 'b iostream \<Rightarrow> ('r \<times> 'b iostream) outcome" where
  "on_out f s = bindE (f (out_part s)) (\<lambda>(r, os). Inr (r, s\<lparr>io_buf := os_buf os, io_write := os_pos os\<rparr>))"

definition GetReadPos :: "'b istream \<Rightarrow> int" where "GetReadPos s = is_pos s"

definition GetWritePos :: "'b ostream \<Rightarrow> int" where "GetWritePos os = os_pos os"

section \<open>A queue of strings\<close>

datatype io_call = Put bytes | Get

fun io_run :: "'b buf_ops \<Rightarrow> io_call list \<Rightarrow> 'b iostream \<Rightarrow> (bytes list \<times> 'b iostream) outcome" where
  "io_run ops [] s = Inr ([], s)"
| "io_run ops (Put str # cs) s = bindE (on_out (\<lambda>os. PackString ops os str) s) (\<lambda>(_, s). io_run ops cs s)"
| "io_run ops (Get # cs) s =
     bindE (on_in (UnpackString ops) s) (\<lambda>(str, s). bindE (io_run ops cs s) (\<lambda>(strs, s). Inr (str # strs, s)))"

fun puts :: "io_call list \<Rightarrow> bytes list" where
  "puts [] = []"
| "puts (Put str # cs) = str # puts cs"
| "puts (Get # cs) = puts cs"

text \<open>The same calls on a list: what was taken and what is left, if no call comes too early.\<close>

fun fifo_run :: "io_call list \<Rightarrow> bytes list \<Rightarrow> (bytes list \<times> bytes list) option" where
  "fifo_run [] q = Some ([], q)"
| "fifo_run (Put str # cs) q = fifo_run cs (q @ [str])"
| "fifo_run (Get # cs) [] = None"
| "fifo_run (Get # cs) (str # q) = map_option (\<lambda>(strs, left). (str # strs, left)) (fifo_run cs q)"

definition packed :: "bytes list \<Rightarrow> bytes" where
  "packed strs = concat (map (\<lambda>str. store_native32 (of_nat (length str)) @ str) strs)"

lemma packed_simps [simp]: "packed [] = []" "packed (str # strs) = store_native32 (of_nat (length str)) @ str @ packed strs"
  "packed (strs @ others) = packed strs @ packed others"
  by (simp_all add: packed_def)

context growing_buffer
begin

text \<open>The strings \<open>q\<close> are what lies between the two positions, and the write position is the end.\<close>

definition holds :: "bytes list \<Rightarrow> 'a iostream \<Rightarrow> bool" where
  "holds q s \<longleftrightarrow> is_ok (in_part s) \<and> io_write s = int (length (b_data ops (io_buf s))) \<and>
     drop (nat (io_read s)) (b_data ops (io_buf s)) = packed q"

lemma new_holds: "b_data ops b = [] \<Longrightarrow> holds [] (iostream_new ops b)"
  by (simp add: holds_def in_part_def iostream_new_def istream_new_def ostream_new_def is_ok_def size_eq wrap32_id)

lemma holds_left: "holds q s \<Longrightarrow> LeftBytes ops (in_part s) = of_nat (length (packed q))"
proof -
  assume h: "holds q s"
  then have ok: "is_ok (in_part s)" by (simp add: holds_def)
  have "length (packed q) = length (b_data ops (io_buf s)) - nat (io_read s)"
    using h by (metis holds_def length_drop)
  then have "wrap32 (is_EndPos ops (in_part s) - io_read s) = int (length (packed q))"
    using ok is_end_pos [OF ok] by (auto simp: is_ok_def in_part_def size_eq wrap32_id of_nat_diff nat_le_iff)
  then show ?thesis by (simp add: LeftBytes_def in_part_def)
qed

lemma put_holds:
  assumes "holds q s" "length (b_data ops (io_buf s)) + 4 + length str < 2147483648"
  shows "\<exists>r s'. on_out (\<lambda>os. PackString ops os str) s = Inr (r, s') \<and> holds (q @ [str]) s' \<and>
    length (b_data ops (io_buf s')) = length (b_data ops (io_buf s)) + 4 + length str"
proof -
  have ok: "os_ok (out_part s)" using assms by (simp add: os_ok_def out_part_def holds_def size_eq)
  obtain os' where os': "PackString ops (out_part s) str = Inr (os_pos os', os')" "os_pos os' = io_write s + 4 + int (length str)"
    "b_data ops (os_buf os') = b_data ops (io_buf s) @ store_native32 (of_nat (length str)) @ str"
    using PackString_grow [OF ok, of str] assms by (auto simp: out_part_def holds_def)
  have "nat (io_read s) \<le> length (b_data ops (io_buf s))" using assms(1) by (auto simp: holds_def is_ok_def in_part_def size_eq)
  then show ?thesis using os' assms by (auto simp: on_out_def holds_def is_ok_def in_part_def size_eq)
qed

lemma get_holds:
  assumes "holds (str # q) s"
  shows "\<exists>s'. on_in (UnpackString ops) s = Inr (str, s') \<and> holds q s' \<and> io_buf s' = io_buf s"
proof -
  have ok: "is_ok (in_part s)" and d: "drop (nat (io_read s)) (b_data ops (io_buf s)) =
    store_native32 (of_nat (length str)) @ str @ packed q" using assms by (simp_all add: holds_def)
  have run: "UnpackString ops (in_part s) = Inr (str, (in_part s)\<lparr>is_pos := io_read s + 4 + int (length str)\<rparr>)"
    using UnpackString_stored [OF ok] d by (simp add: in_part_def)
  have pos: "0 \<le> io_read s" using ok by (simp add: is_ok_def in_part_def)
  have len: "length (b_data ops (io_buf s)) = nat (io_read s) + 4 + length str + length (packed q)"
    using arg_cong [OF d, of length] ok by (simp add: is_ok_def in_part_def size_eq)
  have "drop (nat (io_read s + 4 + int (length str))) (b_data ops (io_buf s)) = packed q"
    using arg_cong [OF d, of "drop (4 + length str)"] pos by (simp add: nat_add_distrib ac_simps)
  then show ?thesis using run assms ok len pos by (auto simp: on_in_def holds_def is_ok_def in_part_def size_eq)
qed

lemma get_none:
  assumes "holds [] s" "length (b_data ops (io_buf s)) + 4 < 2147483648"
  shows "\<exists>what. on_in (UnpackString ops) s = Inl (AssertException what)"
proof -
  have ok: "is_ok (in_part s)" and "drop (nat (io_read s)) (b_data ops (io_buf s)) = []" using assms by (simp_all add: holds_def)
  then have pos: "io_read s = int (length (b_data ops (io_buf s)))" unfolding is_ok_def by (auto simp: in_part_def size_eq)
  then have "wrap32 (io_read s + 4) = io_read s + 4" using assms(2) by (simp add: wrap32_id)
  then have "\<exists>what. Read ops (in_part s) 4 (io_read s) 4 = Inl (AssertException what)"
    using is_end_pos [OF ok] pos by (simp add: Read_def in_part_def size_eq stream_check_def assert_check_cases)
  then show ?thesis by (auto simp: on_in_def UnpackString_def Read_int_def in_part_def)
qed

lemma run_fifo:
  assumes "holds q s" "length (b_data ops (io_buf s)) + length (packed (puts cs)) + 4 < 2147483648"
  shows "case fifo_run cs q of
      None \<Rightarrow> \<exists>what. io_run ops cs s = Inl (AssertException what)
    | Some (strs, left) \<Rightarrow> \<exists>s'. io_run ops cs s = Inr (strs, s') \<and> holds left s'"
  using assms
proof (induction cs q arbitrary: s rule: fifo_run.induct)
  case (2 str cs q)
  obtain r s' where s': "on_out (\<lambda>os. PackString ops os str) s = Inr (r, s')" "holds (q @ [str]) s'"
    "length (b_data ops (io_buf s')) = length (b_data ops (io_buf s)) + 4 + length str"
    using put_holds [OF 2(2), of str] 2(3) by auto
  then have "length (b_data ops (io_buf s')) + length (packed (puts cs)) + 4 < 2147483648" using 2(3) by simp
  from "2.IH" [OF s'(2) this] show ?case by (auto simp: s'(1) split: option.splits)
next
  case (3 cs)
  then show ?case using get_none by fastforce
next
  case (4 cs str q)
  obtain s' where s': "on_in (UnpackString ops) s = Inr (str, s')" "holds q s'" "io_buf s' = io_buf s"
    using get_holds [OF 4(2)] by blast
  then have "case fifo_run cs q of None \<Rightarrow> \<exists>what. io_run ops cs s' = Inl (AssertException what)
    | Some (strs, left) \<Rightarrow> \<exists>s''. io_run ops cs s' = Inr (strs, s'') \<and> holds left s''"
    using "4.IH" [OF s'(2)] 4(3) by simp
  then show ?case using s'(1) by (auto split: option.splits)
qed simp

end

end
