(* ===== verification/Log_Stream.thy ===== *)
theory Log_Stream
  imports Binary_Stream
begin

text \<open>
  The buffer of the log (\<open>src/docker/LogStream.h\<close>): an array of fixed size with a write position, and the stream
  operators that are defined in the header. A \<open>StringPiece\<close> is the bytes it shows. The operators for numbers are
  defined in another file, which the repository does not have.
\<close>

section \<open>FixedBuffer\<close>

datatype cookie = cookieStart | cookieEnd

record FixedBuffer =
  fb_cookie :: cookie
  fb_data :: bytes
  fb_cur :: nat

definition kSmallBuffer :: nat where "kSmallBuffer = 4000 * 4"
definition kLargeBuffer :: nat where "kLargeBuffer = 4000 * 1000"

text \<open>\<open>raw\<close> is what the array holds before it is written.\<close>

definition FixedBuffer_new :: "bytes \<Rightarrow> FixedBuffer" where
  "FixedBuffer_new raw = \<lparr>fb_cookie = cookieStart, fb_data = raw, fb_cur = 0\<rparr>"

definition FixedBuffer_destroy :: "FixedBuffer \<Rightarrow> FixedBuffer" where
  "FixedBuffer_destroy fb = fb\<lparr>fb_cookie := cookieEnd\<rparr>"

definition fb_length :: "FixedBuffer \<Rightarrow> int" where "fb_length fb = wrap32 (int (fb_cur fb))"

definition fb_avail :: "FixedBuffer \<Rightarrow> int" where
  "fb_avail fb = wrap32 (int (length (fb_data fb)) - int (fb_cur fb))"

text \<open>The room is an \<open>int\<close> and is compared as a \<open>size_t\<close>; \<open>memcpy\<close> needs \<open>len\<close> bytes on both sides.\<close>

definition fb_append :: "bytes \<Rightarrow> nat \<Rightarrow> FixedBuffer \<Rightarrow> FixedBuffer outcome" where
  "fb_append buf len fb =
     (if size_of_int (fb_avail fb) > len
      then bindE (string_of_ptr buf len) (\<lambda>s.
           if fb_cur fb + len \<le> length (fb_data fb)
           then Inr (fb\<lparr>fb_data := take (fb_cur fb) (fb_data fb) @ s @ drop (fb_cur fb + len) (fb_data fb),
                        fb_cur := fb_cur fb + len\<rparr>)
           else Inl Aborted)
      else Inr fb)"

definition fb_add :: "nat \<Rightarrow> FixedBuffer \<Rightarrow> FixedBuffer" where
  "fb_add len fb = fb\<lparr>fb_cur := fb_cur fb + len\<rparr>"

definition fb_reset :: "FixedBuffer \<Rightarrow> FixedBuffer" where "fb_reset fb = fb\<lparr>fb_cur := 0\<rparr>"

definition fb_bzero :: "FixedBuffer \<Rightarrow> FixedBuffer" where
  "fb_bzero fb = fb\<lparr>fb_data := replicate (length (fb_data fb)) 0\<rparr>"

definition fb_toString :: "FixedBuffer \<Rightarrow> bytes outcome" where
  "fb_toString fb = string_of_ptr (fb_data fb) (size_of_int (fb_length fb))"

section \<open>LogStream\<close>

definition ls_bool :: "bool \<Rightarrow> FixedBuffer \<Rightarrow> FixedBuffer outcome" where
  "ls_bool v ls = fb_append (if v then ascii ''1'' else ascii ''0'') 1 ls"

definition ls_char :: "byte \<Rightarrow> FixedBuffer \<Rightarrow> FixedBuffer outcome" where
  "ls_char v ls = fb_append [v] 1 ls"

text \<open>A C string is given by the bytes its pointer shows, a null pointer is \<^const>\<open>None\<close>.\<close>

definition ls_cstr :: "bytes option \<Rightarrow> FixedBuffer \<Rightarrow> FixedBuffer outcome" where
  "ls_cstr str ls =
     (case str of Some p \<Rightarrow> fb_append p (length (c_str p)) ls | None \<Rightarrow> fb_append (ascii ''(null)'') 6 ls)"

definition ls_string :: "bytes \<Rightarrow> FixedBuffer \<Rightarrow> FixedBuffer outcome" where
  "ls_string v ls = fb_append (v @ [0]) (length v) ls"

definition ls_piece :: "bytes \<Rightarrow> FixedBuffer \<Rightarrow> FixedBuffer outcome" where
  "ls_piece v ls = fb_append v (length v) ls"

definition ls_buffer :: "FixedBuffer \<Rightarrow> FixedBuffer \<Rightarrow> FixedBuffer outcome" where
  "ls_buffer v ls = bindE (fb_toString v) (\<lambda>piece. ls_piece piece ls)"

definition ls_append :: "bytes \<Rightarrow> i32 \<Rightarrow> FixedBuffer \<Rightarrow> FixedBuffer outcome" where
  "ls_append data len ls = fb_append data (size_of_int (sint len)) ls"

definition ls_resetBuffer :: "FixedBuffer \<Rightarrow> FixedBuffer" where "ls_resetBuffer ls = fb_reset ls"

record Fmt =
  fmt_buf :: bytes
  fmt_length :: i32

definition ls_fmt :: "Fmt \<Rightarrow> FixedBuffer \<Rightarrow> FixedBuffer outcome" where
  "ls_fmt fmt ls = ls_append (fmt_buf fmt) (fmt_length fmt) ls"

section \<open>The text in the buffer\<close>

text \<open>The invariant: the position is inside the array, whose size is an \<open>int\<close>.\<close>

definition fb_ok :: "FixedBuffer \<Rightarrow> bool" where
  "fb_ok fb \<longleftrightarrow> fb_cur fb \<le> length (fb_data fb) \<and> length (fb_data fb) < 2147483648"

definition fb_text :: "FixedBuffer \<Rightarrow> bytes" where "fb_text fb = take (fb_cur fb) (fb_data fb)"

text \<open>What is logged by a piece: all of it if a byte stays free behind it, and nothing otherwise.\<close>

definition log_piece :: "nat \<Rightarrow> bytes \<Rightarrow> bytes \<Rightarrow> bytes" where
  "log_piece sz txt piece = (if length txt + length piece < sz then txt @ piece else txt)"

lemma string_of_ptr_take: "n \<le> length p \<Longrightarrow> string_of_ptr p n = Inr (take n p)"
  by (simp add: string_of_ptr_def string_of_buf_def orAbort_def)

lemma fb_new_ok: "length raw < 2147483648 \<Longrightarrow> fb_ok (FixedBuffer_new raw) \<and> fb_text (FixedBuffer_new raw) = []"
  by (simp add: fb_ok_def fb_text_def FixedBuffer_new_def)

lemma fb_reset_ok: "fb_ok fb \<Longrightarrow> fb_ok (fb_reset fb) \<and> fb_text (fb_reset fb) = []"
  by (simp add: fb_ok_def fb_text_def fb_reset_def)

lemma fb_room: "fb_ok fb \<Longrightarrow> size_of_int (fb_avail fb) = length (fb_data fb) - fb_cur fb"
  by (simp add: fb_ok_def fb_avail_def wrap32_id size_of_int_id)

lemma fb_toString_text: "fb_ok fb \<Longrightarrow> fb_toString fb = Inr (fb_text fb)"
  by (simp add: fb_ok_def fb_toString_def fb_length_def wrap32_id size_of_int_id string_of_ptr_take fb_text_def)

text \<open>An append never leaves the array, and refines \<^const>\<open>log_piece\<close>.\<close>

lemma fb_append_text:
  assumes "fb_ok fb" "len \<le> length buf"
  shows "\<exists>fb'. fb_append buf len fb = Inr fb' \<and> fb_ok fb' \<and> length (fb_data fb') = length (fb_data fb) \<and>
    fb_text fb' = log_piece (length (fb_data fb)) (fb_text fb) (take len buf)"
proof (cases "fb_cur fb + len < length (fb_data fb)")
  case True
  then have "fb_append buf len fb = Inr (fb\<lparr>fb_data := take (fb_cur fb) (fb_data fb) @ take len buf @ drop (fb_cur fb + len) (fb_data fb),
      fb_cur := fb_cur fb + len\<rparr>)"
    using assms fb_room [OF assms(1)] by (simp add: fb_append_def string_of_ptr_take)
  moreover have "length (fb_text fb) = fb_cur fb" using True by (simp add: fb_text_def)
  ultimately show ?thesis using True assms by (simp add: fb_ok_def fb_text_def log_piece_def)
next
  case False
  then have "\<not> len < length (fb_data fb) - fb_cur fb" using assms(1) by (simp add: fb_ok_def)
  then have "fb_append buf len fb = Inr fb" using fb_room [OF assms(1)] by (simp add: fb_append_def)
  moreover have "length (fb_text fb) = fb_cur fb" using assms(1) by (simp add: fb_text_def fb_ok_def)
  ultimately show ?thesis using False assms by (simp add: log_piece_def)
qed

lemma c_str_prefix: "length (c_str p) \<le> length p" "take (length (c_str p)) p = c_str p"
  by (simp_all add: c_str_def length_takeWhile_le flip: takeWhile_eq_take)

text \<open>\<open>logs r ls piece\<close>: the operator that returned \<open>r\<close> added \<open>piece\<close> to the text of \<open>ls\<close>, if it fits.\<close>

definition logs :: "FixedBuffer outcome \<Rightarrow> FixedBuffer \<Rightarrow> bytes \<Rightarrow> bool" where
  "logs r ls piece \<longleftrightarrow> (case r of Inl _ \<Rightarrow> False
     | Inr ls' \<Rightarrow> fb_ok ls' \<and> length (fb_data ls') = length (fb_data ls) \<and>
                 fb_text ls' = log_piece (length (fb_data ls)) (fb_text ls) piece)"

lemma logs_append: "fb_ok fb \<Longrightarrow> len \<le> length buf \<Longrightarrow> logs (fb_append buf len fb) fb (take len buf)"
  using fb_append_text [of fb len buf] by (auto simp: logs_def)

lemma log_operators:
  assumes "fb_ok ls"
  shows "logs (ls_string v ls) ls v" "logs (ls_piece v ls) ls v" "logs (ls_char c ls) ls [c]"
    "logs (ls_cstr (Some p) ls) ls (c_str p)" "logs (ls_cstr None ls) ls (ascii ''(null)'')"
    "logs (ls_bool b ls) ls (ascii (if b then ''1'' else ''0''))"
    "fb_ok other \<Longrightarrow> logs (ls_buffer other ls) ls (fb_text other)"
proof -
  note a = logs_append [OF assms]
  show s: "logs (ls_string v ls) ls v" using a [of "length v" "v @ [0]"] by (simp add: ls_string_def)
  show p: "logs (ls_piece v ls) ls v" for v using a [of "length v" v] by (simp add: ls_piece_def)
  show "logs (ls_char c ls) ls [c]" using a [of 1 "[c]"] by (simp add: ls_char_def)
  show "logs (ls_cstr (Some p) ls) ls (c_str p)" using a [of "length (c_str p)" p] by (simp add: ls_cstr_def c_str_prefix)
  show "logs (ls_cstr None ls) ls (ascii ''(null)'')" using a [of 6 "ascii ''(null)''"] by (simp add: ls_cstr_def ascii_def)
  show "logs (ls_bool b ls) ls (ascii (if b then ''1'' else ''0''))"
    using a [of 1 "ascii (if b then ''1'' else ''0'')"] by (cases b) (simp_all add: ls_bool_def ascii_def)
  show "logs (ls_buffer other ls) ls (fb_text other)" if "fb_ok other"
    using p [of "fb_text other"] fb_toString_text [OF that] by (simp add: ls_buffer_def)
qed

text \<open>A negative length is a huge \<open>size_t\<close>: nothing is logged.\<close>

lemma ls_append_negative:
  assumes "fb_ok ls" "sint len < 0"
  shows "ls_append data len ls = Inr ls"
proof -
  have r: "- 2147483648 \<le> sint len" using sint_greater_eq [of len] by simp
  have "uint (word_of_int (sint len) :: u64) = sint len mod 18446744073709551616"
    by (simp only: uint_word_of_int) simp
  also have "\<dots> = sint len + 18446744073709551616"
    using assms(2) r by (subst mod_add_self2 [symmetric]) (rule mod_pos_pos_trivial, simp_all)
  finally have "size_of_int (sint len) = nat (sint len + 18446744073709551616)"
    by (simp add: size_of_int_def unat_eq_nat_uint)
  then have "length (fb_data ls) - fb_cur ls \<le> size_of_int (sint len)"
    using assms(1) r unfolding fb_ok_def by linarith
  then show ?thesis using fb_room [OF assms(1)] by (simp add: ls_append_def fb_append_def)
qed

text \<open>The unchecked \<open>add\<close> can move the position behind the array; the room is then negative, reads as a huge one, and
  the next append writes outside.\<close>

lemma add_overruns:
  "fb_append [7] 1 (fb_add 5 (FixedBuffer_new (replicate 4 0))) = Inl Aborted"
proof -
  have "wrap32 (- 1) = - 1" by (simp add: wrap32_def)
  moreover have "size_of_int (- 1) = 18446744073709551615" unfolding size_of_int_def unat_eq_nat_uint uint_word_of_int by simp
  ultimately show ?thesis
    by (simp add: fb_append_def fb_avail_def fb_add_def FixedBuffer_new_def string_of_ptr_take)
qed

end
