(* ===== verification/Timer.thy ===== *)
theory Timer
  imports Kcp_Prelude "HOL-Library.Signed_Division"
begin

text \<open>
  The stop watch of \<open>src/essential/utility/timer.hpp\<close>. A point in time is a number of nanoseconds; \<open>now\<close> is the answer
  of the clock. \<open>duration_cast\<close> rounds towards zero.
\<close>

record Timer =
  m_begin :: int

definition Timer_new :: "int \<Rightarrow> Timer" where "Timer_new now = \<lparr>m_begin = now\<rparr>"

definition Timer_reset :: "int \<Rightarrow> Timer \<Rightarrow> Timer" where "Timer_reset now t = t\<lparr>m_begin := now\<rparr>"

definition elapsed_nano :: "int \<Rightarrow> Timer \<Rightarrow> int" where "elapsed_nano now t = now - m_begin t"

definition elapsed_micro :: "int \<Rightarrow> Timer \<Rightarrow> int" where "elapsed_micro now t = (now - m_begin t) sdiv 1000"

definition elapsed :: "int \<Rightarrow> Timer \<Rightarrow> int" where "elapsed now t = (now - m_begin t) sdiv 1000000"

definition elapsed_seconds :: "int \<Rightarrow> Timer \<Rightarrow> int" where "elapsed_seconds now t = (now - m_begin t) sdiv 1000000000"

definition elapsed_minutes :: "int \<Rightarrow> Timer \<Rightarrow> int" where "elapsed_minutes now t = (now - m_begin t) sdiv 60000000000"

definition elapsed_hours :: "int \<Rightarrow> Timer \<Rightarrow> int" where "elapsed_hours now t = (now - m_begin t) sdiv 3600000000000"

text \<open>After a reset the watch shows nothing; later readings of all units agree, each the coarser part of the finer
  one.\<close>

lemma timer_zero: "elapsed_nano now (Timer_reset now t) = 0" "elapsed now (Timer_reset now t) = 0"
  by (simp_all add: elapsed_nano_def elapsed_def Timer_reset_def signed_divide_int_def)

lemma timer_units:
  assumes "m_begin t \<le> now"
  shows "elapsed_micro now t = elapsed_nano now t div 1000" "elapsed now t = elapsed_micro now t div 1000"
    "elapsed_seconds now t = elapsed now t div 1000" "elapsed_minutes now t = elapsed_seconds now t div 60"
    "elapsed_hours now t = elapsed_minutes now t div 60"
proof -
  have s: "(now - m_begin t) sdiv k = (now - m_begin t) div k" if "0 < k" for k
    using assms that by (auto simp: signed_divide_int_def sgn_if)
  show "elapsed_micro now t = elapsed_nano now t div 1000" "elapsed now t = elapsed_micro now t div 1000"
    "elapsed_seconds now t = elapsed now t div 1000" "elapsed_minutes now t = elapsed_seconds now t div 60"
    "elapsed_hours now t = elapsed_minutes now t div 60"
    by (simp_all add: elapsed_micro_def elapsed_nano_def elapsed_def elapsed_seconds_def elapsed_minutes_def elapsed_hours_def s
        flip: zdiv_zmult2_eq)
qed

end
