(* ===== verification/Kcp_Hooks.thy ===== *)
theory Kcp_Hooks
  imports Kcp_State C_Lib
begin

text \<open>
  The hooks of \<open>src/util/ikcp.c\<close>: the allocator that the user may replace, and the log callback. The engine is
  proved for an arbitrary \<open>allocator\<close> (theory \<open>Kcp_State\<close>); this is where it comes from. The two static pointers
  are a record; a null pointer is \<^const>\<open>None\<close>. \<open>'m\<close> is a state of the heap on which allocating and freeing work.
\<close>

unbundle bit_operations_syntax

section \<open>The allocator\<close>

record 'm alloc_hooks =
  ikcp_malloc_hook :: "(nat \<Rightarrow> 'm \<Rightarrow> nat option \<times> 'm) option"
  ikcp_free_hook :: "(nat \<Rightarrow> 'm \<Rightarrow> 'm) option"

definition no_hooks :: "'m alloc_hooks" where
  "no_hooks = \<lparr>ikcp_malloc_hook = None, ikcp_free_hook = None\<rparr>"

definition ikcp_allocator ::
    "(nat \<Rightarrow> 'm \<Rightarrow> nat option \<times> 'm) option \<Rightarrow> (nat \<Rightarrow> 'm \<Rightarrow> 'm) option \<Rightarrow> 'm alloc_hooks \<Rightarrow> 'm alloc_hooks" where
  "ikcp_allocator new_malloc new_free h = h\<lparr>ikcp_malloc_hook := new_malloc, ikcp_free_hook := new_free\<rparr>"

definition ikcp_malloc :: "(nat \<Rightarrow> 'm \<Rightarrow> nat option \<times> 'm) \<Rightarrow> 'm alloc_hooks \<Rightarrow> nat \<Rightarrow> 'm \<Rightarrow> nat option \<times> 'm" where
  "ikcp_malloc c_malloc h sz m = (case ikcp_malloc_hook h of Some f \<Rightarrow> f sz m | None \<Rightarrow> c_malloc sz m)"

definition ikcp_free :: "(nat \<Rightarrow> 'm \<Rightarrow> 'm) \<Rightarrow> 'm alloc_hooks \<Rightarrow> nat \<Rightarrow> 'm \<Rightarrow> 'm" where
  "ikcp_free c_free h ptr m = (case ikcp_free_hook h of Some f \<Rightarrow> f ptr m | None \<Rightarrow> c_free ptr m)"

definition ikcp_segment_delete :: "(nat \<Rightarrow> 'm \<Rightarrow> 'm) \<Rightarrow> 'm alloc_hooks \<Rightarrow> nat \<Rightarrow> 'm \<Rightarrow> 'm" where
  "ikcp_segment_delete c_free h seg m = ikcp_free c_free h seg m"

text \<open>A matching pair of hooks is used for both halves of the life of a block, as is the C library without hooks;
  a single hook mixes the two.\<close>

lemma hooks_pair:
  "ikcp_malloc c_malloc (ikcp_allocator (Some f) (Some g) h) sz m = f sz m"
  "ikcp_free c_free (ikcp_allocator (Some f) (Some g) h) p m = g p m"
  "ikcp_malloc c_malloc (ikcp_allocator None None h) sz m = c_malloc sz m"
  "ikcp_free c_free (ikcp_allocator None None h) p m = c_free p m"
  "ikcp_malloc c_malloc (ikcp_allocator (Some f) None h) sz m = f sz m"
  "ikcp_free c_free (ikcp_allocator (Some f) None h) p m = c_free p m"
  by (simp_all add: ikcp_malloc_def ikcp_free_def ikcp_allocator_def)

section \<open>The log\<close>

text \<open>\<open>out\<close> is the formatted message; the result is the string the callback gets, \<^const>\<open>None\<close> when it is not
  called.\<close>

definition ikcp_canlog :: "IKCPCB \<Rightarrow> i32 \<Rightarrow> bool" where
  "ikcp_canlog kcp lmask \<longleftrightarrow> \<not> (lmask AND k_logmask kcp = 0 \<or> \<not> k_writelog kcp)"

definition ikcp_log :: "IKCPCB \<Rightarrow> i32 \<Rightarrow> bytes \<Rightarrow> bytes option" where
  "ikcp_log kcp lmask out =
     (if lmask AND k_logmask kcp = 0 \<or> \<not> k_writelog kcp then None
      else Some (c_str (fst (snprintf_buf 1024 out))))"

lemma log_iff: "ikcp_log kcp lmask out \<noteq> None \<longleftrightarrow> ikcp_canlog kcp lmask"
  by (simp add: ikcp_log_def ikcp_canlog_def)

lemma c_str_pad: "c_str (xs @ replicate n 0) = c_str xs"
  by (induction xs) (auto simp: c_str_def takeWhile_replicate)

lemma log_text: "ikcp_log kcp lmask out = Some s \<Longrightarrow> s = c_str (take 1023 out)"
proof -
  assume "ikcp_log kcp lmask out = Some s"
  then have "s = c_str (take 1024 (take 1023 out @ replicate 1024 0))"
    by (auto simp: ikcp_log_def snprintf_buf_def split: if_splits)
  moreover have "take 1024 (take 1023 out @ replicate 1024 0) = take 1023 out @ replicate (1024 - min (length out) 1023) 0"
    by (simp add: min_def)
  ultimately show ?thesis by (simp only: c_str_pad)
qed

lemma log_short: "ikcp_log kcp lmask out = Some s \<Longrightarrow> length s \<le> 1023"
  using log_text [of kcp lmask out s] length_takeWhile_le [of "\<lambda>c. c \<noteq> 0" "take 1023 out"] by (auto simp: c_str_def)

text \<open>A fresh control block logs nothing.\<close>

lemma fresh_silent: "ikcp_create alloc conv user = Some kcp \<Longrightarrow> ikcp_log kcp lmask out = None"
  by (auto simp: ikcp_create_def Let_def ikcp_log_def split: if_splits)

end
