(* ===== verification/Library_Properties.thy ===== *)
theory Library_Properties
  imports Mutex Binary_Iostream Log_Stream Timer Kcp_Hooks Connect_Packet Kcp_Input Threadsafe_Queue
begin

text \<open>
  The properties of the helpers the server and the client share: the control datagrams
  (\<open>src/util/connect_packet.cpp\<close>), the waiting queue, the text conversions of \<open>strutil.cpp\<close> and the binary streams
  (\<open>src/essential\<close>).
\<close>

section \<open>Control datagrams\<close>

text \<open>C25: What the server prints the client reads back: for every conversation number, the answer to a connect
  request and the end of a conversation are made without overrunning their 256-byte buffers, are recognised as
  what they are and as nothing else, and give the number back, as long as the byte behind the datagram in the
  receiver's buffer is not a digit.\<close>

theorem control_packet_roundtrip:
  assumes "\<not> isdigit c"
  shows "\<exists>p q. making_send_back_conv_packet conv = Some p \<and> making_disconnect_packet conv = Some q \<and>
    length p < 256 \<and> length q < 256 \<and>
    is_send_back_conv_packet (p @ c # m) (length p) \<and> \<not> is_disconnect_packet (p @ c # m) (length p) \<and>
    \<not> is_connect_packet (p @ c # m) (length p) \<and> grab_conv_from_send_back_conv_packet (p @ c # m) (length p) = Some conv \<and>
    is_disconnect_packet (q @ c # m) (length q) \<and> \<not> is_send_back_conv_packet (q @ c # m) (length q) \<and>
    \<not> is_connect_packet (q @ c # m) (length q) \<and> grab_conv_from_disconnect_packet (q @ c # m) (length q) = Some conv"
proof -
  obtain p q where made: "making_send_back_conv_packet conv = Some p" "making_disconnect_packet conv = Some q"
    by (simp add: making_packets)
  have "length p < 256" "length q < 256" using made print_u32_length [of conv] by (auto simp: making_packets ascii_def)
  then show ?thesis
    using made made_packets_recognised(2) [OF made(1)] made_packets_recognised(3) [OF made(2)]
      grab_made_packets(1) [OF made(1) assms] grab_made_packets(2) [OF made(2) assms] packet_kinds_disjoint
    by metis
qed

theorem control_packet_roundtrip_witness:
  "\<exists>p. making_send_back_conv_packet 1001 = Some p \<and> grab_conv_from_send_back_conv_packet (p @ [0]) (length p) = Some 1001"
  using control_packet_roundtrip [of 0 1001 "[]"] by (auto simp: isdigit_def)

text \<open>A datagram of the engine is not mistaken for a control datagram: the first four bytes of every control
  datagram are the characters \<open>asio\<close>, which as a conversation number are 1869181793, so that the segments of
  any other conversation are recognised as none of the three kinds.\<close>

theorem segments_not_control:
  assumes "ikcp_get_conv (Some d) (int (length d)) = Some conv" "conv \<noteq> 1869181793"
  shows "\<not> is_connect_packet d len \<and> \<not> is_send_back_conv_packet d len \<and> \<not> is_disconnect_packet d len"
proof (rule ccontr)
  assume "\<not> ?thesis"
  then have head: "take 4 d = ascii ''asio''" using control_head [of d len] by blast
  have "24 \<le> length d" using assms(1) by (auto simp: ikcp_get_conv_def kcp_consts split: if_splits)
  then obtain b0 b1 b2 b3 rest where d: "d = b0 # b1 # b2 # b3 # rest"
    by (cases d; cases "tl d"; cases "tl (tl d)"; cases "tl (tl (tl d))") auto
  have bytes: "b0 = 97" "b1 = 115" "b2 = 105" "b3 = 111" using head by (simp_all add: d ascii_def)
  have "ikcp_decode32u IWORDS_BIG_ENDIAN ([97, 115, 105, 111] @ rest) = Some (1869181793, rest)"
    by (simp add: IWORDS_BIG_ENDIAN_def load_native32_def)
  then show False using assms \<open>24 \<le> length d\<close> by (simp add: ikcp_get_conv_def d bytes kcp_consts)
qed

theorem segments_not_control_witness: "\<not> is_disconnect_packet (replicate 24 0) 24"
proof -
  have "ikcp_get_conv (Some (replicate 24 0)) (int (length (replicate 24 (0 :: byte)))) = Some 0" by code_simp
  from segments_not_control [OF this] show ?thesis by simp
qed

section \<open>The waiting queue\<close>

text \<open>C33: No wake-up of the waiting queue is lost. However the pushes, pops, grabs and waits of any number of threads
  are interleaved, whenever the queue holds elements and threads sleep on it, at least as many threads as there
  are elements have been woken and are on their way; the next of them to get the mutex finds the front element
  and does not sleep again.\<close>

theorem no_lost_wakeup:
  assumes "tsq_step\<^sup>*\<^sup>* tsq_new q" "q_data q \<noteq> []" "0 < q_blocked q"
  shows "length (q_data q) \<le> q_woken q \<and> 0 < q_woken q \<and>
    wait_and_pop (q\<lparr>q_woken := q_woken q - 1\<rparr>) = (Some (hd (q_data q)), q\<lparr>q_woken := q_woken q - 1, q_data := tl (q_data q)\<rparr>)"
proof -
  have "tsq_inv q" by (rule tsqs.reachable_inv [OF refl assms(1)])
  then have le: "length (q_data q) \<le> q_woken q" using assms(3) by (simp add: tsq_inv_def)
  moreover have "0 < q_woken q" using le assms(2) by (cases "q_data q") auto
  ultimately show ?thesis using assms(2) by (simp add: wait_and_pop_def wait_nonempty_def pop_front_def)
qed

text \<open>Two threads wait, then one element is pushed.\<close>

definition tsq_demo :: "nat tsq" where
  "tsq_demo = tsq_push (snd (wait_and_pop (snd (wait_and_pop tsq_new)))) 7"

theorem no_lost_wakeup_witness: "q_data tsq_demo = [7] \<and> q_blocked tsq_demo = 1 \<and> 0 < q_woken tsq_demo"
proof -
  have run: "tsq_step\<^sup>*\<^sup>* tsq_new tsq_demo" unfolding tsq_demo_def
    by (rule rtranclp.rtrancl_into_rtrancl [OF rtranclp.rtrancl_into_rtrancl [OF r_into_rtranclp]])
      (rule ts_wait ts_push)+
  have "q_data tsq_demo = [7] \<and> q_blocked tsq_demo = 1"
    by (simp add: tsq_demo_def tsq_new_def wait_and_pop_def wait_nonempty_def tsq_push_def notify_one_def)
  then show ?thesis using no_lost_wakeup [OF run] by simp
qed

text \<open>C32: The mutex makes the queue of the client atomic. However the threads that call its member functions are
  interleaved, statement by statement, at most one is between the construction and the destruction of its guard;
  the answers given so far are those the same calls give one after the other, in the order in which they
  returned; whenever nobody holds the mutex, the contents are what those calls leave; and as long as a call has
  not returned, some thread can take a step.\<close>

theorem mutex_queue_linearizable:
  assumes "mq_micro\<^sup>*\<^sup>* sh_new s"
  shows "\<exists>q. replay (sh_done s) mq_new = Some q \<and> (mutex_owner (sh_mutex s) = None \<longrightarrow> sh_data s = q) \<and>
    (\<forall>t u. inside (sh_pc s t) \<and> inside (sh_pc s u) \<longrightarrow> t = u) \<and> ((\<exists>t. sh_pc s t \<noteq> Idle) \<longrightarrow> (\<exists>s'. mq_micro s s'))"
proof -
  have inv: "sh_inv s" by (rule micro.reachable_inv [OF refl assms])
  then obtain q where "replay (sh_done s) mq_new = Some q" "mutex_owner (sh_mutex s) = None \<longrightarrow> sh_data s = q"
    by (auto simp: sh_inv_def split: option.splits)
  moreover have "\<forall>t u. inside (sh_pc s t) \<and> inside (sh_pc s u) \<longrightarrow> t = u"
    using inv by (auto simp: sh_inv_def split: option.splits)
  moreover have "(\<exists>t. sh_pc s t \<noteq> Idle) \<longrightarrow> (\<exists>s'. mq_micro s s')" using micro_progress [OF inv] by blast
  ultimately show ?thesis by (intro exI [of _ q]) blast
qed

text \<open>Thread 1 asks for an element while thread 0 is pushing one.\<close>

definition sh_demo2 :: "nat shared" where
  "sh_demo2 = \<lparr>sh_data = [7], sh_mutex = MutexLock_new, sh_pc = (sh_pc sh_new)(1 := Enter TryPop), sh_done = [(0, Push 7, Pushed)]\<rparr>"

lemma sh_demo_run: "mq_micro\<^sup>*\<^sup>* sh_new sh_demo2"
proof -
  let ?s1 = "at 0 (Enter (Push (7 :: nat))) sh_new"
  let ?s2 = "at 0 (Held (Push 7)) (?s1\<lparr>sh_mutex := \<lparr>mutex_owner = Some 0\<rparr>\<rparr>)"
  let ?s3 = "at 1 (Enter TryPop) ?s2"
  let ?s4 = "at 0 (Leave (Push 7) Pushed) (?s3\<lparr>sh_data := sh_data ?s3 @ [7]\<rparr>)"
  let ?s5 = "at 0 Idle (?s4\<lparr>sh_mutex := MutexLock_new, sh_done := sh_done ?s4 @ [(0, Push 7, Pushed)]\<rparr>)"
  have "mq_micro sh_new ?s1" by (rule mu_call) (simp add: sh_new_def)
  moreover have "mq_micro ?s1 ?s2" by (rule mu_guard) (simp_all add: sh_new_def guard_defs MutexLock_new_def)
  moreover have "mq_micro ?s2 ?s3" by (rule mu_call) (simp add: sh_new_def)
  moreover have "mq_micro ?s3 ?s4" by (rule mu_push) simp
  moreover have "mq_micro ?s4 sh_demo2"
  proof -
    have "?s5 = sh_demo2" by (simp add: sh_demo2_def sh_new_def fun_eq_iff)
    moreover have "mq_micro ?s4 ?s5" by (rule mu_return) (simp_all add: guard_defs MutexLock_new_def)
    ultimately show ?thesis by simp
  qed
  ultimately show ?thesis by (meson converse_rtranclp_into_rtranclp rtranclp.rtrancl_refl)
qed

theorem mutex_queue_linearizable_witness: "\<exists>s'. mq_micro sh_demo2 s'"
proof -
  have "sh_pc sh_demo2 1 \<noteq> Idle" by (simp add: sh_demo2_def)
  then show ?thesis using mutex_queue_linearizable [OF sh_demo_run] by blast
qed

section \<open>Text\<close>

lemma shiftMap_printable: "list_all (list_all (\<lambda>c. 32 \<le> c \<and> c \<noteq> 127)) shiftMap"
  by code_simp

lemma C_style_printable: "list_all (\<lambda>c. 32 \<le> c \<and> c \<noteq> 127) (ConvertToCStyleStr s)"
proof (induction s)
  case (Cons c s)
  show ?case
  proof (cases "unat c < 128")
    case True
    then have "list_all (\<lambda>c. 32 \<le> c \<and> c \<noteq> 127) (shiftMap ! unat c)"
      using shiftMap_printable list_all2_lengthD [OF escape_table] by (simp add: list_all_length)
    then show ?thesis using True Cons.IH char_value_ascii by simp
  next
    case False
    then have "32 \<le> c \<and> c \<noteq> 127" by (auto simp: word_le_nat_alt)
    then show ?thesis using False Cons.IH char_value_ascii by simp
  qed
qed simp

text \<open>C34: The text form of a buffer can be read back: when the text is shorter than $2^{31}$ characters, \<open>ConvertFromCStyleStr\<close>
  undoes \<open>ConvertToCStyleStr\<close>, without running into one of its assertions, and so \<open>operator>>\<close> reads from a stream exactly
  the buffer that \<open>operator<<\<close> wrote as a line of it and leaves the rest of the stream. The text contains no control
  character, hence no line end, whatever its length. The bound is needed: the number of characters left is kept in an
  \<open>int\<close>, and with $2^{31}$ or more (below $2^{32}$) an escape at the start fails an assertion.\<close>

theorem c_style_roundtrip:
  "(length (ConvertToCStyleStr s) < 2147483648 \<longrightarrow>
      ConvertFromCStyleStr (ConvertToCStyleStr s) = Some s \<and> buf_read (buf_write s @ 10 # rest) = Inr (s, rest)) \<and>
   list_all (\<lambda>c. 32 \<le> c \<and> c \<noteq> 127) (ConvertToCStyleStr s) \<and>
   (2147483648 \<le> length t \<and> length t < 4294967296 \<and> hd t = 92 \<longrightarrow> ConvertFromCStyleStr t = None)"
proof -
  have undo: "ConvertFromCStyleStr (ConvertToCStyleStr s) = Some s" if "length (ConvertToCStyleStr s) < 2147483648"
    using escape_roundtrip [OF that, of "[]"] by (simp add: ConvertFromCStyleStr_def)
  have line: "takeWhile (\<lambda>c. c \<noteq> 10) (buf_write s @ 10 # rest) = buf_write s"
  proof -
    have "\<forall>c \<in> set (buf_write s). c \<noteq> 10" using C_style_printable [of s] by (auto simp: buf_write_def list_all_iff)
    then show ?thesis by (simp add: takeWhile_append2)
  qed
  have "buf_read (buf_write s @ 10 # rest) = Inr (s, rest)" if "length (ConvertToCStyleStr s) < 2147483648"
    using undo [OF that] line by (simp add: buf_read_def Let_def) (simp add: buf_write_def)
  then show ?thesis using undo C_style_printable escape_too_long by blast
qed

theorem c_style_roundtrip_witness:
  "ConvertFromCStyleStr (ConvertToCStyleStr [0, 10, 92, 200]) = Some [0, 10, 92, 200] \<and>
   ConvertFromCStyleStr (replicate 2147483648 92) = None"
proof -
  have "ConvertToCStyleStr [0, 10, 92, 200] = [92, 40, 48, 48, 41, 92, 110, 92, 92, 200]" by code_simp
  then have "length (ConvertToCStyleStr [0, 10, 92, 200]) < 2147483648" by simp
  moreover have "2147483648 \<le> length (replicate 2147483648 (92 :: byte))" "length (replicate 2147483648 (92 :: byte)) < 4294967296"
    "hd (replicate 2147483648 (92 :: byte)) = 92" by (simp_all add: hd_replicate)
  ultimately show ?thesis using c_style_roundtrip [of "[0, 10, 92, 200]" _ "replicate 2147483648 92"] by blast
qed

text \<open>C36: \<open>ToHexDumpText\<close> cuts the string into lines, in order and without loss, all of exactly the given width but the last
  one, which is shorter or as long and not empty, and prints each of them; with width 0 and a string that is not empty it
  does not return.\<close>

theorem hex_dump_lines:
  "if 0 < width \<or> s = []
   then \<exists>lines. ToHexDumpText s width prefix = Some (concat (map (\<lambda>line. hexdump_oneline prefix line width) lines)) \<and>
     concat lines = s \<and> (\<forall>line \<in> set (butlast lines). length line = width) \<and>
     (lines \<noteq> [] \<longrightarrow> 0 < length (last lines) \<and> length (last lines) \<le> width)
   else ToHexDumpText s width prefix = None"
proof (cases "0 < width")
  case True
  then show ?thesis using hex_dump_loop_ends [OF True, of prefix s "[]"] by (auto simp: ToHexDumpText_def cut_lines_def)
next
  case False
  then show ?thesis using hex_dump_loop_stuck [of s prefix "[]"]
    by (cases s) (auto simp: ToHexDumpText_def hex_dump_loop.simps [of prefix 0 "[]"] intro!: exI [of _ "[]"])
qed

theorem hex_dump_lines_witness:
  "\<exists>lines. ToHexDumpText [65, 66, 67] 2 [] = Some (concat (map (\<lambda>line. hexdump_oneline [] line 2) lines)) \<and> concat lines = [65, 66, 67] \<and>
     (\<forall>line \<in> set (butlast lines). length line = 2) \<and> length (last lines) \<le> 2 \<and> 2 \<le> length lines"
proof -
  obtain lines where lines: "ToHexDumpText [65, 66, 67] 2 [] = Some (concat (map (\<lambda>line. hexdump_oneline [] line 2) lines))"
    "concat lines = [65, 66, 67]" "\<forall>line \<in> set (butlast lines). length line = 2" "lines \<noteq> [] \<longrightarrow> length (last lines) \<le> 2"
    using hex_dump_lines [of 2 "[65, 66, 67]" "[]"] by auto
  moreover have "lines \<noteq> []" "length lines \<noteq> 1"
    using lines(2,4) by (auto simp: length_Suc_conv)
  ultimately show ?thesis by (intro exI [of _ lines]) (cases lines, auto simp: Suc_le_eq)
qed

section \<open>Binary streams\<close>

text \<open>A sequence of strings packed into a stream, and as many read from one.\<close>

fun pack_all :: "bytes list \<Rightarrow> bin_buf ostream \<Rightarrow> bin_buf ostream outcome" where
  "pack_all [] os = Inr os"
| "pack_all (str # strs) os = bindE (PackString bin_buf_ops os str) (\<lambda>(_, os). pack_all strs os)"

fun unpack_all :: "nat \<Rightarrow> bin_buf istream \<Rightarrow> (bytes list \<times> bin_buf istream) outcome" where
  "unpack_all 0 s = Inr ([], s)"
| "unpack_all (Suc n) s =
     bindE (UnpackString bin_buf_ops s) (\<lambda>(str, s). bindE (unpack_all n s) (\<lambda>(strs, s). Inr (str # strs, s)))"

lemma bin_data [simp]: "b_data bin_buf_ops b = b" "b_size bin_buf_ops b = length b"
  by (simp_all add: bin_buf_ops_def buf_size_def)

lemma pack_all_eq:
  "os_pos os = int (length (os_buf os)) \<Longrightarrow> length (os_buf os) + length (packed strs) < 2147483648 \<Longrightarrow>
     pack_all strs os = Inr \<lparr>os_buf = os_buf os @ packed strs, os_pos = int (length (os_buf os @ packed strs))\<rparr>"
proof (induction strs arbitrary: os)
  case (Cons str strs)
  have "bb.os_ok os" using Cons.prems by (simp add: bb.os_ok_def)
  from bb.PackString_grow [OF this, of str] Cons.prems obtain os' where
    os': "PackString bin_buf_ops os str = Inr (os_pos os', os')" "os_pos os' = os_pos os + 4 + int (length str)"
      "os_buf os' = os_buf os @ store_native32 (of_nat (length str)) @ str"
    by auto
  show ?case using Cons.IH [of os'] Cons.prems os' by simp
qed simp

lemma unpack_all_eq:
  "length b < 2147483648 \<Longrightarrow> pos \<le> length b \<Longrightarrow> drop pos b = packed strs @ rest \<Longrightarrow>
     unpack_all (length strs) \<lparr>is_buf = b, is_pos = int pos\<rparr> = Inr (strs, \<lparr>is_buf = b, is_pos = int (pos + length (packed strs))\<rparr>)"
proof (induction strs arbitrary: pos)
  case (Cons str strs)
  let ?s = "\<lparr>is_buf = b, is_pos = int pos\<rparr>"
  have ok: "bb.is_ok ?s" using Cons.prems by (simp add: bb.is_ok_def)
  have run: "UnpackString bin_buf_ops ?s = Inr (str, \<lparr>is_buf = b, is_pos = int (pos + 4 + length str)\<rparr>)"
    using bb.UnpackString_stored [OF ok, of str "packed strs @ rest"] Cons.prems(3) by simp
  have "drop (pos + 4 + length str) b = drop (4 + length str) (packed (str # strs) @ rest)"
    using Cons.prems(3) by (metis add.assoc add.commute drop_drop)
  then have rest: "drop (pos + 4 + length str) b = packed strs @ rest" by simp
  have "length b - pos = 4 + length str + length (packed strs) + length rest"
    using arg_cong [OF Cons.prems(3), of length] by simp
  then have "pos + 4 + length str \<le> length b" using Cons.prems(2) by linarith
  from Cons.IH [OF Cons.prems(1) this rest] run show ?case by (simp add: algebra_simps)
qed simp

text \<open>Strings of bytes packed one after the other into an empty growing buffer come out of an input stream on
  that buffer as they went in, in the same order and with nothing left over, as long as the buffer stays below
  $2^{31}$ bytes; no check throws on the way.\<close>

theorem pack_roundtrip:
  assumes "length (packed strs) < 2147483648"
  shows "\<exists>os s. pack_all strs (ostream_new bin_buf_ops []) = Inr os \<and>
    unpack_all (length strs) (istream_new (os_buf os)) = Inr (strs, s) \<and> LeftBytes bin_buf_ops s = 0"
proof -
  have new: "ostream_new bin_buf_ops [] = \<lparr>os_buf = [], os_pos = 0\<rparr>" by (simp add: ostream_new_def wrap32_id)
  have "pack_all strs (ostream_new bin_buf_ops []) = Inr \<lparr>os_buf = packed strs, os_pos = int (length (packed strs))\<rparr>"
    using pack_all_eq [of "\<lparr>os_buf = [], os_pos = 0\<rparr>" strs] assms by (simp add: new)
  moreover have "unpack_all (length strs) (istream_new (packed strs)) =
      Inr (strs, \<lparr>is_buf = packed strs, is_pos = int (length (packed strs))\<rparr>)"
    using unpack_all_eq [of "packed strs" 0 strs "[]"] assms by (simp add: istream_new_def)
  moreover have "LeftBytes bin_buf_ops \<lparr>is_buf = packed strs, is_pos = int (length (packed strs))\<rparr> = 0"
    using assms by (simp add: LeftBytes_def is_EndPos_def wrap32_id)
  ultimately show ?thesis by auto
qed

theorem pack_roundtrip_witness:
  "\<exists>os s. pack_all [[1, 0, 2], []] (ostream_new bin_buf_ops []) = Inr os \<and>
    unpack_all 2 (istream_new (os_buf os)) = Inr ([[1, 0, 2], []], s) \<and> LeftBytes bin_buf_ops s = 0"
  using pack_roundtrip [of "[[1, 0, 2], []]"] by (simp add: numeral_2_eq_2)

text \<open>C35: A stream for input and output is a queue. Take any sequence of \<open>PackString\<close> and \<open>UnpackString\<close> on one
  \<open>_binary_iostream\<close> over an empty \<open>_binary_buf\<close>, in any order, with less than $2^{31} - 4$ bytes packed in all. If no
  string is asked for when all have been taken, no check throws, the strings come out as they went in, in the same
  order, whatever bytes they have, and what is left to read are the strings not yet taken; otherwise the call that
  asks for too much throws the exception of the checks, and does not read past the buffer.\<close>

theorem iostream_fifo:
  assumes "length (packed (puts cs)) + 4 < 2147483648"
  shows "case fifo_run cs [] of
      None \<Rightarrow> \<exists>what. io_run bin_buf_ops cs (iostream_new bin_buf_ops buf_new) = Inl (AssertException what)
    | Some (strs, left) \<Rightarrow> \<exists>s. io_run bin_buf_ops cs (iostream_new bin_buf_ops buf_new) = Inr (strs, s) \<and>
        LeftBytes bin_buf_ops (in_part s) = of_nat (length (packed left))"
proof -
  have new: "bb.holds [] (iostream_new bin_buf_ops buf_new)" by (rule bb.new_holds) (simp add: buf_new_def)
  have room: "length (b_data bin_buf_ops (io_buf (iostream_new bin_buf_ops buf_new))) + length (packed (puts cs)) + 4 < 2147483648"
    using assms by (simp add: iostream_new_def buf_new_def)
  show ?thesis using bb.run_fifo [OF new room] bb.holds_left by (fastforce split: option.split)
qed

theorem iostream_fifo_witness:
  "(\<exists>s. io_run bin_buf_ops [Put [1, 0, 2], Put [], Get, Put [3], Get] (iostream_new bin_buf_ops buf_new) = Inr ([[1, 0, 2], []], s) \<and>
    LeftBytes bin_buf_ops (in_part s) = 5) \<and>
   (\<exists>what. io_run bin_buf_ops [Put [7], Get, Get] (iostream_new bin_buf_ops buf_new) = Inl (AssertException what))"
  using iostream_fifo [of "[Put [1, 0, 2], Put [], Get, Put [3], Get]"] iostream_fifo [of "[Put [7], Get, Get]"] by simp_all

end
