(* ===== verification/Server_Events.thy ===== *)
theory Server_Events
  imports Server_Properties
begin

text \<open>
  What the user of the server library sees: the order of the events of one conversation over a whole run of the
  event loop of theory \<open>Connection_Manager\<close>.
\<close>

section \<open>The events of one step\<close>

text \<open>The receive handler raises at most one event, a message of an existing connection.\<close>

lemma receive_events:
  assumes "manager_inv m" "alloc_bounded alloc" "handle_udp_receive_from alloc sock error d ep m = Inr m'"
  shows "h_events m' = h_events m \<or> (\<exists>conv msg. \<not> is_connect_packet d (length d) \<and> ikcp_get_conv (Some d) (int (length d)) = Some conv \<and>
    h_events m' = h_events m @ [(conv, eRcvMsg, msg)])"
proof (cases "is_connect_packet d (length d)")
  case True
  define m0 where "m0 = m\<lparr>m_recv_armed := False\<rparr>"
  have m0: "manager_inv m0" "h_events m0 = h_events m" using assms(1) by (simp_all add: m0_def manager_inv_def)
  obtain m1 where "m' = hook_udp_async_receive m1" "handle_connect_packet alloc sock ep m0 = Inr m1 \<or> m1 = m0"
    using assms(3) True by (auto simp: handle_udp_receive_from_def bindE_Inr_iff simp flip: m0_def split: if_splits)
  then show ?thesis using handle_connect_inv [OF m0(1), of alloc sock ep m1] m0(2) by auto
next
  case False
  from datagram_frame [OF assms False] False show ?thesis by blast
qed

text \<open>Each step raises at most one event for a conversation, and only for one that exists: a message, which leaves
  the connection in place, or a disconnect, which does not.\<close>

definition events_match :: "connection_manager \<Rightarrow> connection_manager \<Rightarrow> (u32 \<times> eEventType \<times> bytes) list \<Rightarrow> bool" where
  "events_match m m' evs \<longleftrightarrow> h_events m' = h_events m @ evs \<and> distinct (map fst evs) \<and>
     (\<forall>(conv, t, msg) \<in> set evs. conv \<in> dom (m_connections m) \<and>
        (t = eRcvMsg \<and> conv \<in> dom (m_connections m') \<or> t = eDisconnect \<and> conv \<notin> dom (m_connections m')))"

lemma recv_events:
  assumes "manager_inv m" "alloc_bounded alloc" "handle_udp_receive_from alloc sock error d ep m = Inr m'"
  shows "\<exists>evs. events_match m m' evs"
proof (cases "h_events m' = h_events m")
  case True
  then show ?thesis by (intro exI [of _ "[]"]) (simp add: events_match_def)
next
  case False
  then obtain conv msg where ev: "\<not> is_connect_packet d (length d)" "ikcp_get_conv (Some d) (int (length d)) = Some conv"
    "h_events m' = h_events m @ [(conv, eRcvMsg, msg)]"
    using receive_events [OF assms] by blast
  then have "conv \<in> dom (m_connections m)" "dom (m_connections m') = dom (m_connections m)"
    using assms(3) datagram_frame [OF assms ev(1)]
    by (auto simp: handle_udp_receive_from_def handle_kcp_packet_def find_by_conv_def Let_def bindE_Inr_iff split: if_splits option.splits)
  then show ?thesis using ev(3) by (intro exI [of _ "[(conv, eRcvMsg, msg)]"]) (simp add: events_match_def)
qed

lemma tick_events:
  assumes "manager_inv m" "distinct order" "set order = dom (m_connections m)" "handle_kcp_time sock tv order m = Inr m'"
  shows "\<exists>evs. events_match m m' evs"
proof -
  let ?now = "iclock (fst tv) (snd tv)"
  define gone where "gone = filter (\<lambda>conv. timed_out ?now (the (m_connections m conv))) order"
  note r = handle_kcp_time_result [OF assms]
  have "h_events m' = h_events m @ map (\<lambda>conv. (conv, eDisconnect, ascii ''timeout'')) gone" using r by (simp add: gone_def)
  moreover have "conv \<in> dom (m_connections m) \<and> conv \<notin> dom (m_connections m')" if "conv \<in> set gone" for conv
  proof -
    have c: "conv \<in> dom (m_connections m)" "timed_out ?now (the (m_connections m conv))" using that assms(3) by (auto simp: gone_def)
    have "swept ?now (conv \<in> dom (m_connections m)) (m_connections m conv) (m_connections m' conv)" using r by blast
    then show ?thesis using c by (auto simp: swept_def)
  qed
  ultimately show ?thesis using assms(2)
    by (intro exI [of _ "map (\<lambda>conv. (conv, eDisconnect, ascii ''timeout'')) gone"])
      (auto simp: events_match_def gone_def distinct_map comp_def)
qed

lemma step_events:
  assumes "manager_inv m" "svr_step m m'" shows "\<exists>evs. events_match m m' evs"
  using assms(2)
proof cases
  case (svr_recv alloc sock error d ep)
  then show ?thesis using recv_events [OF assms(1) svr_recv(2,3)] by simp
next
  case (svr_tick order sock tv)
  then show ?thesis using tick_events [OF assms(1) svr_tick(2-4)] by simp
next
  case (svr_send alloc msg conv r)
  then have "h_events m' = h_events m" by (auto simp: manager_send_msg_def bindE_Inr_iff split: option.splits)
  then show ?thesis by (intro exI [of _ "[]"]) (simp add: events_match_def)
next
  case (svr_disconnect sock conv)
  show ?thesis
  proof (cases "conv \<in> dom (m_connections m)")
    case True
    let ?ev = "(conv, eDisconnect, ascii ''server force disconnect'')"
    have run: "remove_connection sock conv (m\<lparr>h_events := h_events m @ [?ev]\<rparr>) = Inr m'"
      using svr_disconnect True by (auto simp: manager_force_disconnect_def find_by_conv_def bindE_Inr_iff callback_Inr)
    have inv: "manager_inv (m\<lparr>h_events := h_events m @ [?ev]\<rparr>)" using assms(1) by (simp add: manager_inv_def)
    show ?thesis using remove_connection_Inr [OF inv run] True
      by (intro exI [of _ "[?ev]"]) (auto simp: events_match_def)
  next
    case False
    then have "m' = m" using svr_disconnect by (simp add: domIff manager_force_disconnect_def find_by_conv_def)
    then show ?thesis by (intro exI [of _ "[]"]) (simp add: events_match_def)
  qed
next
  case (svr_callback func)
  then show ?thesis by (intro exI [of _ "[]"]) (simp add: events_match_def manager_set_callback_def)
next
  case (svr_stop order sock)
  then obtain m1 where "container_stop_all sock order (m\<lparr>m_stopped := True\<rparr>) = Inr m1" "m' = m1\<lparr>h_open := False\<rparr>"
    by (auto simp: manager_stop_all_def bindE_Inr_iff split: if_splits)
  moreover have "manager_inv (m\<lparr>m_stopped := True\<rparr>)" using assms(1) by (simp add: manager_inv_def)
  ultimately have "h_events m' = h_events m" using stop_all_inv by fastforce
  then show ?thesis by (intro exI [of _ "[]"]) (simp add: events_match_def)
qed

section \<open>One connection\<close>

text \<open>The events a handler has raised.\<close>

definition raised :: "connection_manager \<Rightarrow> connection_manager \<Rightarrow> (u32 \<times> eEventType \<times> bytes) list" where
  "raised m m' = drop (length (h_events m)) (h_events m')"

lemma raised_append [simp]: "h_events m' = h_events m @ evs \<Longrightarrow> raised m m' = evs"
  by (simp add: raised_def)

lemma raised_same [simp]: "h_events m' = h_events m \<Longrightarrow> raised m m' = []"
  by (simp add: raised_def)

text \<open>What the engine of a connection goes through when a datagram arrives for it.\<close>

definition takes_datagram :: "allocator \<Rightarrow> bytes \<Rightarrow> IKCPCB \<Rightarrow> bytes option \<Rightarrow> IKCPCB \<Rightarrow> bool" where
  "takes_datagram alloc d kcp got kcp' \<longleftrightarrow>
     (\<exists>r k1 n out. ikcp_input alloc kcp (Some d) (int (length d)) = Some (r, k1) \<and>
        ikcp_recv k1 True (1024 * 1000) = Some (n, out, kcp') \<and> got = (if n \<le> 0 then None else Some (take (nat n) out)))"

lemma recv_at_most: "ikcp_recv kcp buffer len = Some (n, out, k) \<Longrightarrow> 0 \<le> sint len \<Longrightarrow> n \<le> sint len"
  by (auto simp: ikcp_recv_def Let_def split: if_splits option.splits prod.splits)

lemma takes_datagram_length: "takes_datagram alloc d kcp (Some msg) kcp' \<Longrightarrow> length msg < 2147483648"
proof -
  assume "takes_datagram alloc d kcp (Some msg) kcp'"
  then obtain k1 n out where "ikcp_recv k1 True (1024 * 1000) = Some (n, out, kcp')" "msg = take (nat n) out"
    by (auto simp: takes_datagram_def split: if_splits)
  then show ?thesis using recv_at_most [of k1 True "1024 * 1000" n out kcp'] by auto
qed

lemma connection_input_takes:
  assumes "conn_inv conv c" "h_alive h" "connection_input alloc c d ep h = Inr (c', h')"
  shows "\<exists>got kcp'. takes_datagram alloc d (the (c_kcp c)) got kcp' \<and> c_kcp c' = Some kcp' \<and>
    h' = h\<lparr>h_events := h_events h @ (case got of None \<Rightarrow> [] | Some msg \<Rightarrow> [(conv, eRcvMsg, msg)])\<rparr>"
proof -
  obtain kcp where kcp: "c_kcp c = Some kcp" "c_conv c = conv" using assms(1) by (auto simp: conn_inv_def)
  obtain r k1 where k1: "ikcp_input alloc kcp (Some d) (int (length d)) = Some (r, k1)"
    using assms(3) kcp(1) by (auto simp: connection_input_def Let_def bindE_Inr_iff)
  obtain n out k2 where k2: "ikcp_recv k1 True (1024 * 1000) = Some (n, out, k2)"
    using recv_no_assert [of k1 True "1024 * 1000"] by (cases "ikcp_recv k1 True (1024 * 1000)") auto
  show ?thesis
    by (rule exI [of _ "if n \<le> 0 then None else Some (take (nat n) out)"], rule exI [of _ k2])
      (use assms(2,3) kcp k1 k2 in \<open>auto simp: takes_datagram_def connection_input_def Let_def callback_Inr bindE_Inr_iff split: if_splits\<close>)
qed

text \<open>Opening a conversation files a connection as \<open>connection_create\<close> makes it.\<close>

lemma connect_made:
  assumes "manager_inv m" "handle_connect_packet alloc sock ep m = Inr m'"
  shows "\<exists>c kcp. m_connections m' (m_cur_conv m + 1) = Some c \<and> c_kcp c = Some kcp \<and> ready_kcp kcp"
proof -
  define k where "k = m_cur_conv m + 1"
  obtain p c where c: "connection_create alloc k ep = Inr c"
    and run: "(case m_connections m k of None \<Rightarrow> m' = m\<lparr>m_cur_conv := k, h_sent := h_sent m @ [(p, ep)], m_connections := (m_connections m)(k \<mapsto> c)\<rparr>
      | Some c\<^sub>0 \<Rightarrow> \<exists>c'. connection_destroy sock c\<^sub>0 (m\<lparr>m_cur_conv := k, h_sent := h_sent m @ [(p, ep)],
          m_connections := (m_connections m)(k \<mapsto> c)\<rparr>) = Inr (c', m'))"
    using assms(2)
    by (cases "m_connections m k") (auto simp: handle_connect_packet_def get_new_conv_def add_new_connection_def Let_def bindE_Inr_iff host_frame
        simp flip: k_def)
  have "\<exists>out. m' = m\<lparr>m_cur_conv := k, h_sent := out, m_connections := (m_connections m)(k \<mapsto> c)\<rparr>"
  proof (cases "m_connections m k")
    case (Some c\<^sub>0)
    then obtain c' where d: "connection_destroy sock c\<^sub>0 (m\<lparr>m_cur_conv := k, h_sent := h_sent m @ [(p, ep)],
        m_connections := (m_connections m)(k \<mapsto> c)\<rparr>) = Inr (c', m')"
      using run by auto
    have "h_alive m" "conn_inv k c\<^sub>0" using assms(1) Some by (simp_all add: manager_inv_def)
    then show ?thesis using destroy_conn [OF _ _ d] by auto
  qed (use run in auto)
  then show ?thesis using create_ready [OF c] by (auto simp flip: k_def)
qed

text \<open>Opening a conversation leaves the others alone.\<close>

lemma connect_others:
  assumes "manager_inv m" "handle_connect_packet alloc sock ep m = Inr m'" "conv \<noteq> m_cur_conv m + 1"
  shows "m_connections m' conv = m_connections m conv"
proof (cases "m_connections m (m_cur_conv m + 1)")
  case None
  then show ?thesis using handle_connect_result [OF assms(1,2) None] assms(3) by auto
next
  case (Some c\<^sub>0)
  define k where "k = m_cur_conv m + 1"
  obtain p c c' where clean: "connection_destroy sock c\<^sub>0 (m\<lparr>m_cur_conv := k, h_sent := h_sent m @ [(p, ep)],
      m_connections := (m_connections m)(k \<mapsto> c)\<rparr>) = Inr (c', m')"
    using assms(2) Some
    by (auto simp: handle_connect_packet_def get_new_conv_def add_new_connection_def Let_def bindE_Inr_iff host_frame
        simp flip: k_def)
  have "h_alive m" "conn_inv k c\<^sub>0" using assms(1) Some by (simp_all add: manager_inv_def k_def)
  then have "\<exists>out. m' = m\<lparr>m_cur_conv := k, h_sent := out, m_connections := (m_connections m)(k \<mapsto> c)\<rparr>"
    using destroy_conn [OF _ _ clean] by auto
  then show ?thesis using assms(3) by (auto simp: k_def)
qed

text \<open>A connection that was not there before is a new one.\<close>

lemma connect_new:
  assumes "manager_inv m" "alloc_bounded alloc" "handle_udp_receive_from alloc sock error d ep m = Inr m'"
    and "is_connect_packet d (length d) \<and> conv = m_cur_conv m + 1 \<or> m_connections m conv = None" "m_connections m' conv = Some c'"
  shows "m_connections m conv = Some c' \<or> (\<exists>kcp. c_kcp c' = Some kcp \<and> ready_kcp kcp)"
proof -
  define m0 where "m0 = m\<lparr>m_recv_armed := False\<rparr>"
  have m0: "manager_inv m0" "m_connections m0 = m_connections m" "m_cur_conv m0 = m_cur_conv m"
    using assms(1) by (simp_all add: m0_def manager_inv_def)
  obtain m1 where m1: "m' = hook_udp_async_receive m1"
    "handle_connect_packet alloc sock ep m0 = Inr m1 \<or> \<not> is_connect_packet d (length d) \<and> handle_kcp_packet alloc d ep m0 = Inr m1 \<or> m1 = m0"
    using assms(3) by (auto simp: handle_udp_receive_from_def bindE_Inr_iff simp flip: m0_def split: if_splits)
  from m1(2) show ?thesis
  proof (elim disjE conjE)
    assume h: "handle_connect_packet alloc sock ep m0 = Inr m1"
    show ?thesis
    proof (cases "conv = m_cur_conv m + 1")
      case True
      then show ?thesis using connect_made [OF m0(1) h] assms(5) m1(1) m0(3) by auto
    next
      case False
      then show ?thesis using connect_others [OF m0(1) h, of conv] assms(5) m1(1) m0 by simp
    qed
  next
    assume "\<not> is_connect_packet d (length d)" "handle_kcp_packet alloc d ep m0 = Inr m1"
    then show ?thesis using handle_kcp_packet_result [OF m0(1) assms(2), of d ep m1] assms(4,5) m1(1) m0(2) by (auto split: if_splits)
  qed (use assms(5) m1(1) m0(2) in simp)
qed

text \<open>The receive handler of the library, seen from one connection.\<close>

lemma receive_for:
  assumes "manager_inv m" "alloc_bounded alloc" "handle_udp_receive_from alloc sock error d ep m = Inr m'"
    and c: "m_connections m conv = Some c" and new: "is_connect_packet d (length d) \<longrightarrow> m_cur_conv m + 1 \<noteq> conv"
  shows "m_connections m' conv = Some c \<and> (\<forall>e \<in> set (raised m m'). fst e \<noteq> conv) \<or>
    \<not> is_connect_packet d (length d) \<and> ikcp_get_conv (Some d) (int (length d)) = Some conv \<and>
    (\<exists>got kcp' c'. takes_datagram alloc d (the (c_kcp c)) got kcp' \<and> m_connections m' conv = Some c' \<and>
       c_kcp c' = Some kcp' \<and> raised m m' = (case got of None \<Rightarrow> [] | Some msg \<Rightarrow> [(conv, eRcvMsg, msg)]))"
proof (cases "is_connect_packet d (length d) \<or> ikcp_get_conv (Some d) (int (length d)) \<noteq> Some conv \<or> error \<or> d = []")
  case True
  define m0 where "m0 = m\<lparr>m_recv_armed := False\<rparr>"
  have m0: "manager_inv m0" "m_connections m0 = m_connections m" "h_events m0 = h_events m" "m_cur_conv m0 = m_cur_conv m"
    using assms(1) by (simp_all add: m0_def manager_inv_def)
  obtain m1 where m1: "m' = hook_udp_async_receive m1"
    "is_connect_packet d (length d) \<and> handle_connect_packet alloc sock ep m0 = Inr m1 \<or>
     ikcp_get_conv (Some d) (int (length d)) \<noteq> Some conv \<and> handle_kcp_packet alloc d ep m0 = Inr m1 \<or> m1 = m0"
    using assms(3) True by (auto simp: handle_udp_receive_from_def bindE_Inr_iff simp flip: m0_def split: if_splits)
  from m1(2) have "m_connections m1 conv = Some c \<and> (\<forall>e \<in> set (raised m m1). fst e \<noteq> conv)"
  proof (elim disjE conjE)
    assume *: "is_connect_packet d (length d)" "handle_connect_packet alloc sock ep m0 = Inr m1"
    then show ?thesis using handle_connect_inv [OF m0(1) *(2)] connect_others [OF m0(1) *(2), of conv] c new m0 by auto
  next
    assume *: "ikcp_get_conv (Some d) (int (length d)) \<noteq> Some conv" "handle_kcp_packet alloc d ep m0 = Inr m1"
    show ?thesis using handle_kcp_packet_result [OF m0(1) assms(2) *(2)] *(1) c m0 by auto
  qed (use m0 c in simp)
  then show ?thesis using m1(1) by (simp add: raised_def)
next
  case False
  define m0 where "m0 = m\<lparr>m_recv_armed := False\<rparr>"
  have m0: "m_connections m0 conv = Some c" "h_alive m0" "h_events m0 = h_events m"
    using assms(1) c by (simp_all add: m0_def manager_inv_def)
  obtain c' m1 where run: "connection_input alloc c d ep m0 = Inr (c', m1)"
    and m': "m' = hook_udp_async_receive (m1\<lparr>m_connections := (m_connections m1)(conv \<mapsto> c')\<rparr>)"
    using assms(3) False m0(1)
    by (auto simp: handle_udp_receive_from_def handle_kcp_packet_def find_by_conv_def bindE_Inr_iff simp flip: m0_def)
  obtain got kcp' where "takes_datagram alloc d (the (c_kcp c)) got kcp'" "c_kcp c' = Some kcp'"
    "m1 = m0\<lparr>h_events := h_events m0 @ (case got of None \<Rightarrow> [] | Some msg \<Rightarrow> [(conv, eRcvMsg, msg)])\<rparr>"
    using connection_input_takes [OF manager_inv_conn [OF assms(1) c] m0(2) run] by blast
  then show ?thesis using False m' m0(3) by (intro disjI2 conjI exI [of _ got] exI [of _ kcp'] exI [of _ c']) (simp_all add: raised_def)
qed

lemma receive_short:
  assumes "manager_inv m" "alloc_bounded alloc" "handle_udp_receive_from alloc sock error d ep m = Inr m'"
  shows "raised m m' = [] \<or> (\<exists>conv msg. raised m m' = [(conv, eRcvMsg, msg)] \<and> length msg < 2147483648)"
proof (cases "h_events m' = h_events m")
  case False
  then obtain conv msg where ev: "\<not> is_connect_packet d (length d)" "ikcp_get_conv (Some d) (int (length d)) = Some conv"
    "h_events m' = h_events m @ [(conv, eRcvMsg, msg)]"
    using receive_events [OF assms] by blast
  obtain c where c: "m_connections m conv = Some c"
    using assms(3) ev by (auto simp: handle_udp_receive_from_def handle_kcp_packet_def find_by_conv_def Let_def bindE_Inr_iff split: if_splits option.splits)
  show ?thesis using receive_for [OF assms c] ev takes_datagram_length by (fastforce split: option.splits)
qed simp

section \<open>The life of a conversation\<close>

definition conv_events :: "connection_manager \<Rightarrow> u32 \<Rightarrow> eEventType list" where
  "conv_events m conv = map (\<lambda>(_, t, _). t) (filter (\<lambda>(k, _, _). k = conv) (h_events m))"

text \<open>While the connection exists there were only messages; afterwards at most one disconnect follows them.\<close>

definition life_ok :: "connection_manager \<Rightarrow> bool" where
  "life_ok m \<longleftrightarrow> (\<forall>conv. \<exists>n. conv_events m conv = replicate n eRcvMsg \<or>
      conv \<notin> dom (m_connections m) \<and> conv_events m conv = replicate n eRcvMsg @ [eDisconnect]) \<and>
     (\<forall>conv. unat (m_cur_conv m) < unat conv \<longrightarrow> conv_events m conv = [])"

lemma one_event:
  assumes "events_match m m' evs"
  shows "conv_events m' conv = conv_events m conv \<or>
    conv \<in> dom (m_connections m) \<and> (conv \<in> dom (m_connections m') \<and> conv_events m' conv = conv_events m conv @ [eRcvMsg] \<or>
      conv \<notin> dom (m_connections m') \<and> conv_events m' conv = conv_events m conv @ [eDisconnect])"
proof -
  have ev: "h_events m' = h_events m @ evs" "distinct (map fst evs)"
    and each: "\<And>k t msg. (k, t, msg) \<in> set evs \<Longrightarrow> k \<in> dom (m_connections m) \<and>
        (t = eRcvMsg \<and> k \<in> dom (m_connections m') \<or> t = eDisconnect \<and> k \<notin> dom (m_connections m'))"
    using assms unfolding events_match_def by blast+
  define own where "own = filter (\<lambda>(k, _, _). k = conv) evs"
  have "conv_events m' conv = conv_events m conv @ map (\<lambda>(_, t, _). t) own" by (simp add: conv_events_def ev(1) own_def)
  moreover have "own = [] \<or> (\<exists>t msg. own = [(conv, t, msg)] \<and> (conv, t, msg) \<in> set evs)"
  proof (cases own)
    case (Cons e own')
    have "distinct (map fst own)" unfolding own_def using ev(2) by (rule distinct_map_filter)
    moreover have "set (map fst own) \<subseteq> {conv}" by (auto simp: own_def)
    ultimately have "own' = []" using Cons by (cases own') auto
    moreover have "e \<in> set own" using Cons by simp
    ultimately show ?thesis using Cons by (cases e) (auto simp: own_def)
  qed simp
  ultimately show ?thesis using each by fastforce
qed

lemma life_step:
  assumes "manager_inv m" "convs_below m" "life_ok m" "svr_step m m'" "unat (m_cur_conv m) < 4294967295"
  shows "life_ok m'"
proof -
  obtain evs where evs: "events_match m m' evs" using step_events [OF assms(1,4)] by blast
  have up: "unat (m_cur_conv m + 1) = Suc (unat (m_cur_conv m))" using assms(5) by (simp add: unat32_add_small)
  have dom: "m_cur_conv m' = m_cur_conv m \<and> dom (m_connections m') \<subseteq> dom (m_connections m) \<or>
     m_cur_conv m' = m_cur_conv m + 1 \<and> dom (m_connections m') \<subseteq> insert (m_cur_conv m + 1) (dom (m_connections m))"
    using svr_step_result [OF assms(1,4)] by blast
  have fresh: "conv_events m conv = []" if "unat (m_cur_conv m) < unat conv" for conv
    using that assms(3) by (simp add: life_ok_def)
  have born: "conv \<in> dom (m_connections m)" if "conv \<in> dom (m_connections m')" "conv_events m conv \<noteq> []" for conv
    using that dom fresh [of conv] up by auto
  have "\<exists>n. conv_events m' conv = replicate n eRcvMsg \<or>
      conv \<notin> dom (m_connections m') \<and> conv_events m' conv = replicate n eRcvMsg @ [eDisconnect]" for conv
  proof -
    obtain n where n: "conv_events m conv = replicate n eRcvMsg \<or>
        conv \<notin> dom (m_connections m) \<and> conv_events m conv = replicate n eRcvMsg @ [eDisconnect]"
      using assms(3) unfolding life_ok_def by blast
    from one_event [OF evs, of conv] show ?thesis
    proof (elim disjE conjE)
      assume "conv_events m' conv = conv_events m conv"
      then show ?thesis using n born [of conv] by (intro exI [of _ n]) (metis snoc_eq_iff_butlast)
    next
      assume "conv \<in> dom (m_connections m)" "conv_events m' conv = conv_events m conv @ [eRcvMsg]"
      then show ?thesis using n by (intro exI [of _ "Suc n"]) (auto simp: replicate_append_same)
    next
      assume "conv \<in> dom (m_connections m)" "conv \<notin> dom (m_connections m')" "conv_events m' conv = conv_events m conv @ [eDisconnect]"
      then show ?thesis using n by (intro exI [of _ n]) auto
    qed
  qed
  moreover have "conv_events m' conv = []" if "unat (m_cur_conv m') < unat conv" for conv
  proof -
    have lt: "unat (m_cur_conv m) < unat conv" using that dom up by auto
    then have "conv \<notin> dom (m_connections m)" using assms(2) unfolding convs_below_def by (meson leD)
    then show ?thesis using one_event [OF evs, of conv] fresh [OF lt] by auto
  qed
  ultimately show ?thesis by (simp add: life_ok_def)
qed

lemma life_run: "(svr_step ^^ n) connection_manager_new m \<Longrightarrow> n < 4294966296 \<Longrightarrow> life_ok m"
proof (induction n arbitrary: m)
  case 0
  then show ?case
    by (auto simp: life_ok_def conv_events_def connection_manager_new_def hook_kcp_timer_def hook_udp_async_receive_def)
next
  case (Suc n)
  obtain m1 where m1: "(svr_step ^^ n) connection_manager_new m1" "svr_step m1 m" using Suc.prems(1) by auto
  have "manager_inv m1" "convs_below m1" "unat (m_cur_conv m1) \<le> 1000 + n" using convs_below_run [OF m1(1)] Suc.prems(2) by simp_all
  then show ?case using life_step [OF _ _ _ m1(2)] Suc.IH [OF m1(1)] Suc.prems(2) by simp
qed

end
