(* ===== verification/Example_Server.thy ===== *)
theory Example_Server
  imports Server_Events
begin

text \<open>
  The echo server of \<open>src/server/server.cpp\<close>: it owns a \<open>kcp_svr::server\<close>, sends every message it receives
  back to its sender, and runs a test timer of ten seconds.

  The library calls \<open>event_callback\<close> for a message as the last thing it does in \<open>connection::input\<close>, and the
  callback touches nothing that \<open>hook_udp_async_receive\<close>, which follows, reads or writes; the timeouts of the timer
  are only printed. So the callbacks are run here on the events a handler of the library has raised, right
  behind that handler. The signals the constructor registers are the step \<open>ex_stop\<close>; console output is left out.
\<close>

record example_server =
  ex_stopped :: bool
  ex_kcp_server :: server
  ex_timer_armed :: bool
  ex_test_conv :: u32

definition hook_test_timer :: "example_server \<Rightarrow> example_server" where
  "hook_test_timer s = (if ex_stopped s then s else s\<lparr>ex_timer_armed := True\<rparr>)"

definition example_server_new :: example_server where
  "example_server_new =
     hook_test_timer \<lparr>ex_stopped = False, ex_kcp_server = server_set_callback True server_new,
       ex_timer_armed = False, ex_test_conv = 1000\<rparr>"

definition handle_stop :: "socket \<Rightarrow> u32 list \<Rightarrow> example_server \<Rightarrow> example_server outcome" where
  "handle_stop sock order s =
     bindE (server_stop sock order (ex_kcp_server s)) (\<lambda>k. Inr (s\<lparr>ex_kcp_server := k, ex_stopped := True\<rparr>))"

definition event_callback :: "allocator \<Rightarrow> u32 \<Rightarrow> eEventType \<Rightarrow> bytes \<Rightarrow> example_server \<Rightarrow> example_server outcome" where
  "event_callback alloc conv event_type msg s =
     (if event_type = eRcvMsg
      then bindE (server_send_msg alloc conv msg (ex_kcp_server s)) (\<lambda>(_, k). Inr (s\<lparr>ex_kcp_server := k\<rparr>))
      else Inr s)"

definition handle_test_timer :: "example_server \<Rightarrow> example_server" where
  "handle_test_timer s = hook_test_timer (s\<lparr>ex_timer_armed := False\<rparr>)"

text \<open>Called from nowhere; the call in the timer handler is a comment.\<close>

definition test_force_disconnect :: "socket \<Rightarrow> example_server \<Rightarrow> example_server outcome" where
  "test_force_disconnect sock s =
     bindE (server_force_disconnect sock (ex_test_conv s) (ex_kcp_server s)) (\<lambda>k.
     Inr (s\<lparr>ex_kcp_server := k, ex_test_conv := ex_test_conv s + 1\<rparr>))"

section \<open>The event loop of the program\<close>

fun run_callbacks :: "allocator \<Rightarrow> (u32 \<times> eEventType \<times> bytes) list \<Rightarrow> example_server \<Rightarrow> example_server outcome" where
  "run_callbacks alloc [] s = Inr s"
| "run_callbacks alloc ((conv, t, msg) # evs) s = bindE (event_callback alloc conv t msg s) (run_callbacks alloc evs)"

abbreviation conns :: "example_server \<Rightarrow> connection_manager" where
  "conns s \<equiv> sv_connections (ex_kcp_server s)"

definition with_conns :: "example_server \<Rightarrow> connection_manager \<Rightarrow> example_server" where
  "with_conns s m = s\<lparr>ex_kcp_server := (ex_kcp_server s)\<lparr>sv_connections := m\<rparr>\<rparr>"

definition ex_receive ::
    "allocator \<Rightarrow> socket \<Rightarrow> bool \<Rightarrow> bytes \<Rightarrow> endpoint \<Rightarrow> example_server \<Rightarrow> example_server outcome" where
  "ex_receive alloc sock error d ep s =
     bindE (handle_udp_receive_from alloc sock error d ep (conns s)) (\<lambda>m.
     run_callbacks alloc (raised (conns s) m) (with_conns s m))"

definition ex_tick :: "allocator \<Rightarrow> socket \<Rightarrow> u64 \<times> u64 \<Rightarrow> u32 list \<Rightarrow> example_server \<Rightarrow> example_server outcome" where
  "ex_tick alloc sock tv order s =
     bindE (handle_kcp_time sock tv order (conns s)) (\<lambda>m.
     run_callbacks alloc (raised (conns s) m) (with_conns s m))"

inductive ex_step :: "example_server \<Rightarrow> example_server \<Rightarrow> bool" where
  ex_recv: "m_recv_armed (conns s) \<Longrightarrow> alloc_bounded alloc \<Longrightarrow> ex_receive alloc sock error d ep s = Inr s' \<Longrightarrow> ex_step s s'"
| ex_tick: "m_timer_armed (conns s) \<Longrightarrow> distinct order \<Longrightarrow> set order = dom (m_connections (conns s)) \<Longrightarrow>
     ex_tick alloc sock tv order s = Inr s' \<Longrightarrow> ex_step s s'"
| ex_timer: "ex_timer_armed s \<Longrightarrow> ex_step s (handle_test_timer s)"
| ex_stop: "distinct order \<Longrightarrow> set order = dom (m_connections (conns s)) \<Longrightarrow> handle_stop sock order s = Inr s' \<Longrightarrow> ex_step s s'"

inductive_cases ex_stepE: "ex_step s s'"

lemma conns_with [simp]: "conns (with_conns s m) = m" "with_conns (with_conns s m) m' = with_conns s m'"
  "with_conns s (conns s) = s"
  by (simp_all add: with_conns_def)

lemma event_callback_eq:
  "event_callback alloc conv t msg s =
     (if t = eRcvMsg then bindE (manager_send_msg alloc conv msg (conns s)) (\<lambda>(_, m). Inr (with_conns s m)) else Inr s)"
  by (cases "manager_send_msg alloc conv msg (conns s)")
    (auto simp: event_callback_def server_send_msg_def with_conns_def)

lemma callbacks_quiet:
  "(\<And>e. e \<in> set evs \<Longrightarrow> fst (snd e) \<noteq> eRcvMsg) \<Longrightarrow> run_callbacks alloc evs s = Inr s"
proof (induction evs)
  case (Cons e evs)
  from Cons.prems [of e] Cons.IH [OF Cons.prems] show ?case by (cases e) (simp add: event_callback_def)
qed simp

text \<open>The program adds no way to change the connections to those of the library.\<close>

lemma callback_svr:
  assumes "alloc_bounded alloc" "length msg < 2147483648" "event_callback alloc conv t msg s = Inr s'"
  shows "svr_step\<^sup>*\<^sup>* (conns s) (conns s')"
proof (cases "t = eRcvMsg")
  case True
  then obtain r m where "manager_send_msg alloc conv msg (conns s) = Inr (r, m)" "s' = with_conns s m"
    using assms(3) by (auto simp: event_callback_eq bindE_Inr_iff)
  then show ?thesis using svr_send [OF assms(1,2)] by auto
qed (use assms(3) in \<open>simp add: event_callback_eq\<close>)

text \<open>The program, seen from one connection: a message it takes is handed back to \<open>ikcp_send\<close>.\<close>

definition echoes :: "allocator \<Rightarrow> bytes \<Rightarrow> IKCPCB \<Rightarrow> bytes option \<Rightarrow> IKCPCB \<Rightarrow> bool" where
  "echoes alloc d kcp got kcp' \<longleftrightarrow>
     (\<exists>k. takes_datagram alloc d kcp got k \<and>
       (case got of None \<Rightarrow> kcp' = k
        | Some msg \<Rightarrow> \<exists>r. ikcp_send alloc k (Some msg) (of_nat (length msg)) = Some (r, kcp')))"

lemma callback_other:
  assumes "fst e \<noteq> conv" "run_callbacks alloc [e] s = Inr s'"
  shows "m_connections (conns s') conv = m_connections (conns s) conv"
proof -
  obtain k t msg where e: "e = (k, t, msg)" by (cases e)
  show ?thesis using assms unfolding e
    by (auto simp: event_callback_eq manager_send_msg_def find_by_conv_def bindE_Inr_iff split: if_splits option.splits)
qed

lemma ex_receive_for:
  assumes inv: "manager_inv (conns s)" "alloc_bounded alloc" and run: "ex_receive alloc sock error d ep s = Inr s'"
    and c: "m_connections (conns s) conv = Some c" and new: "is_connect_packet d (length d) \<longrightarrow> m_cur_conv (conns s) + 1 \<noteq> conv"
  shows "m_connections (conns s') conv = Some c \<or>
    \<not> is_connect_packet d (length d) \<and> ikcp_get_conv (Some d) (int (length d)) = Some conv \<and>
    (\<exists>got kcp' c'. echoes alloc d (the (c_kcp c)) got kcp' \<and> m_connections (conns s') conv = Some c' \<and> c_kcp c' = Some kcp')"
proof -
  obtain m where m: "handle_udp_receive_from alloc sock error d ep (conns s) = Inr m"
    and cb: "run_callbacks alloc (raised (conns s) m) (with_conns s m) = Inr s'"
    using run by (auto simp: ex_receive_def bindE_Inr_iff)
  show ?thesis using receive_for [OF inv m c new]
  proof (elim disjE conjE exE)
    assume same: "m_connections m conv = Some c" "\<forall>e \<in> set (raised (conns s) m). fst e \<noteq> conv"
    consider "raised (conns s) m = []" | e where "raised (conns s) m = [e]"
      using receive_events [OF inv m] by (auto simp: raised_def)
    then have "m_connections (conns s') conv = Some c"
    proof cases
      case (2 e)
      then show ?thesis using callback_other [of e conv alloc "with_conns s m" s'] cb same by simp
    qed (use cb same in auto)
    then show ?thesis ..
  next
    fix got kcp' c'
    assume *: "\<not> is_connect_packet d (length d)" "ikcp_get_conv (Some d) (int (length d)) = Some conv"
      "takes_datagram alloc d (the (c_kcp c)) got kcp'" "m_connections m conv = Some c'" "c_kcp c' = Some kcp'"
      "raised (conns s) m = (case got of None \<Rightarrow> [] | Some msg \<Rightarrow> [(conv, eRcvMsg, msg)])"
    have "\<exists>kcp'' c''. echoes alloc d (the (c_kcp c)) got kcp'' \<and> m_connections (conns s') conv = Some c'' \<and> c_kcp c'' = Some kcp''"
    proof (cases got)
      case None
      then show ?thesis using * cb by (auto simp: echoes_def)
    next
      case (Some msg)
      then obtain r k where "ikcp_send alloc kcp' (Some msg) (of_nat (length msg)) = Some (r, k)"
        "s' = with_conns s (m\<lparr>m_connections := (m_connections m)(conv \<mapsto> c'\<lparr>c_kcp := Some k\<rparr>)\<rparr>)"
        using * cb by (auto simp: event_callback_eq manager_send_msg_def find_by_conv_def connection_send_kcp_msg_def bindE_Inr_iff)
      then show ?thesis using * Some by (auto simp: echoes_def)
    qed
    then show ?thesis using * by blast
  qed
qed

text \<open>The timer runs no callback that does anything.\<close>

lemma ex_tick_conns:
  assumes "manager_inv (conns s)" "distinct order" "set order = dom (m_connections (conns s))" "ex_tick alloc sock tv order s = Inr s'"
  shows "handle_kcp_time sock tv order (conns s) = Inr (conns s')" "s' = with_conns s (conns s')"
proof -
  obtain m where m: "handle_kcp_time sock tv order (conns s) = Inr m"
    "run_callbacks alloc (raised (conns s) m) (with_conns s m) = Inr s'"
    using assms(4) by (auto simp: ex_tick_def bindE_Inr_iff)
  obtain ks where "h_events m = h_events (conns s) @ map (\<lambda>conv. (conv, eDisconnect, ascii ''timeout'')) ks"
    using handle_kcp_time_result [OF assms(1-3) m(1)] by blast
  then have "raised (conns s) m = map (\<lambda>conv. (conv, eDisconnect, ascii ''timeout'')) ks" by (rule raised_append)
  then have "run_callbacks alloc (raised (conns s) m) (with_conns s m) = Inr (with_conns s m)"
    by (intro callbacks_quiet) auto
  then show "handle_kcp_time sock tv order (conns s) = Inr (conns s')" "s' = with_conns s (conns s')" using m by auto
qed

lemma ex_tick_for:
  assumes "manager_inv (conns s)" "distinct order" "set order = dom (m_connections (conns s))" "ex_tick alloc sock tv order s = Inr s'"
    and "m_connections (conns s) conv = Some c" "m_connections (conns s') conv = Some c'"
  shows "engine_ran (iclock (fst tv) (snd tv)) c c'"
proof -
  have "swept (iclock (fst tv) (snd tv)) (conv \<in> dom (m_connections (conns s))) (m_connections (conns s) conv) (m_connections (conns s') conv)"
    using handle_kcp_time_result [OF assms(1-3) ex_tick_conns(1) [OF assms(1-4)]] by blast
  then have "swept (iclock (fst tv) (snd tv)) True (Some c) (Some c')" using assms(5,6) by (simp add: domI)
  then show ?thesis by (simp add: swept_def split: if_splits)
qed

text \<open>Every run of the program is, for the connections, a run of the library.\<close>

lemma ex_step_svr:
  assumes "manager_inv (conns s)" "ex_step s s'" shows "svr_step\<^sup>*\<^sup>* (conns s) (conns s')"
  using assms(2)
proof cases
  case (ex_recv alloc sock error d ep)
  obtain m where m: "handle_udp_receive_from alloc sock error d ep (conns s) = Inr m"
    and cb: "run_callbacks alloc (raised (conns s) m) (with_conns s m) = Inr s'"
    using ex_recv(3) by (auto simp: ex_receive_def bindE_Inr_iff)
  have one: "svr_step (conns s) m" by (rule svr_recv [OF ex_recv(1,2) m])
  consider "raised (conns s) m = []" | conv msg where "raised (conns s) m = [(conv, eRcvMsg, msg)]" "length msg < 2147483648"
    using receive_short [OF assms(1) ex_recv(2) m] by blast
  then show ?thesis
  proof cases
    case (2 conv msg)
    then have "event_callback alloc conv eRcvMsg msg (with_conns s m) = Inr s'" using cb by (auto simp: bindE_Inr_iff)
    from callback_svr [OF ex_recv(2) 2(2) this] one show ?thesis by simp
  qed (use cb one in auto)
next
  case (ex_tick order alloc sock tv)
  from ex_tick_conns [OF assms(1) ex_tick(2-4)] svr_tick [OF ex_tick(1-3)] show ?thesis by blast
next
  case ex_timer
  then show ?thesis by (simp add: handle_test_timer_def hook_test_timer_def)
next
  case (ex_stop order sock)
  then show ?thesis using svr_stop [OF ex_stop(1,2)]
    by (auto simp: handle_stop_def server_stop_def Let_def bindE_Inr_iff)
qed

lemma svr_steps_inv: "svr_step\<^sup>*\<^sup>* m m' \<Longrightarrow> manager_inv m \<Longrightarrow> manager_inv m'"
  by (induction rule: rtranclp_induct) (use svr_step_result in blast)+

lemma ex_receive_inv:
  assumes "manager_inv (conns s)" "alloc_bounded alloc" "ex_receive alloc sock error d ep s = Inr s'"
  shows "manager_inv (conns s')"
proof -
  obtain m where m: "handle_udp_receive_from alloc sock error d ep (conns s) = Inr m"
    and cb: "run_callbacks alloc (raised (conns s) m) (with_conns s m) = Inr s'"
    using assms(3) by (auto simp: ex_receive_def bindE_Inr_iff)
  have i: "manager_inv m" using receive_inv [OF assms(1,2) m] by blast
  from receive_short [OF assms(1,2) m] show ?thesis
  proof (elim disjE exE conjE)
    fix conv msg
    assume *: "raised (conns s) m = [(conv, eRcvMsg, msg)]" "length msg < 2147483648"
    then have "event_callback alloc conv eRcvMsg msg (with_conns s m) = Inr s'" using cb by (auto simp: bindE_Inr_iff)
    from svr_steps_inv [OF callback_svr [OF assms(2) *(2) this]] i show ?thesis by simp
  qed (use cb i in auto)
qed

lemma example_server_new_inv: "manager_inv (conns example_server_new)"
  by (simp add: example_server_new_def hook_test_timer_def server_set_callback_def server_new_def manager_set_callback_def
      connection_manager_new_def hook_kcp_timer_def hook_udp_async_receive_def manager_inv_def)

interpretation example: step_system "\<lambda>s. s = example_server_new" ex_step "\<lambda>s. manager_inv (conns s)"
  by unfold_locales (use example_server_new_inv ex_step_svr svr_steps_inv in blast)+

end
