(* ===== verification/Example_Echo.thy ===== *)
theory Example_Echo
  imports Example_Server
begin

text \<open>
  A conversation with the echo server: the engine of one client, the whole server program with all its other
  connections, and a network between them that loses, repeats and reorders. \<open>eo_up\<close> and \<open>eo_down\<close> hold the datagrams
  that the engine of the client and the engine of its connection have handed to their callbacks; \<open>eo_sent\<close> and \<open>eo_got\<close>
  are the messages the client's \<open>ikcp_send\<close> has accepted and its \<open>ikcp_recv\<close> has returned.

  Nobody else uses the number of the conversation: datagrams that carry it come from the client, and the counter
  of the server, which takes $2^{32}$ connections to come round, does not hand it out again. Everything else may
  arrive at the server at any time.
\<close>

record echo_state =
  eo_client :: IKCPCB
  eo_server :: example_server
  eo_up :: "bytes set"
  eo_down :: "bytes set"
  eo_sent :: "bytes list"
  eo_got :: "bytes list"

definition conv_engine :: "u32 \<Rightarrow> example_server \<Rightarrow> IKCPCB" where
  "conv_engine conv s = the (c_kcp (the (m_connections (conns s) conv)))"

definition echo_init :: "u32 \<Rightarrow> echo_state \<Rightarrow> bool" where
  "echo_init conv s \<longleftrightarrow> manager_inv (conns (eo_server s)) \<and> conv \<in> dom (m_connections (conns (eo_server s))) \<and>
     ready_kcp (conv_engine conv (eo_server s)) \<and> ready_kcp (eo_client s) \<and>
     eo_up s = {} \<and> eo_down s = {} \<and> eo_sent s = [] \<and> eo_got s = []"

inductive echo_step :: "u32 \<Rightarrow> echo_state \<Rightarrow> echo_state \<Rightarrow> bool" for conv where
  echo_send: "alloc_bounded alloc \<Longrightarrow> length msg < 2147483648 \<Longrightarrow>
     ikcp_send alloc (eo_client s) (Some msg) (of_nat (length msg)) = Some (r, a) \<Longrightarrow>
     echo_step conv s (s\<lparr>eo_client := a, eo_sent := (if r = 0 then eo_sent s @ [msg] else eo_sent s)\<rparr>)"
| echo_update: "ikcp_update (eo_client s) current = Some (a, out) \<Longrightarrow>
     echo_step conv s (s\<lparr>eo_client := a, eo_up := eo_up s \<union> set out\<rparr>)"
| echo_input: "alloc_bounded alloc \<Longrightarrow> d \<in> eo_down s \<Longrightarrow>
     ikcp_input alloc (eo_client s) (Some d) (int (length d)) = Some (r, a) \<Longrightarrow> echo_step conv s (s\<lparr>eo_client := a\<rparr>)"
| echo_recv: "ikcp_recv (eo_client s) True len = Some (r, out, a) \<Longrightarrow>
     echo_step conv s (s\<lparr>eo_client := a, eo_got := (if 0 \<le> sint len \<and> 0 \<le> r then eo_got s @ [out] else eo_got s)\<rparr>)"
| echo_serve: "alloc_bounded alloc \<Longrightarrow> ex_receive alloc sock error d ep (eo_server s) = Inr t \<Longrightarrow>
     (is_connect_packet d (length d) \<longrightarrow> m_cur_conv (conns (eo_server s)) + 1 \<noteq> conv) \<Longrightarrow>
     (ikcp_get_conv (Some d) (int (length d)) = Some conv \<longrightarrow> is_connect_packet d (length d) \<or> d \<in> eo_up s) \<Longrightarrow>
     echo_step conv s (s\<lparr>eo_server := t\<rparr>)"
| echo_tick: "distinct order \<Longrightarrow> set order = dom (m_connections (conns (eo_server s))) \<Longrightarrow>
     ex_tick alloc sock tv order (eo_server s) = Inr t \<Longrightarrow> conv \<in> dom (m_connections (conns t)) \<Longrightarrow>
     ikcp_update (conv_engine conv (eo_server s)) (iclock (fst tv) (snd tv)) = Some (b, out) \<Longrightarrow>
     echo_step conv s (s\<lparr>eo_server := t, eo_down := eo_down s \<union> set out\<rparr>)"
| echo_timer: "echo_step conv s (s\<lparr>eo_server := handle_test_timer (eo_server s)\<rparr>)"

section \<open>The two directions\<close>

definition up_net :: "echo_state \<Rightarrow> IKCPCB \<Rightarrow> bytes list \<Rightarrow> net_state" where
  "up_net s b heard = \<lparr>n_a = eo_client s, n_b = b, n_wire = eo_up s, n_sent = eo_sent s, n_got = heard\<rparr>"

definition down_net :: "echo_state \<Rightarrow> IKCPCB \<Rightarrow> bytes list \<Rightarrow> net_state" where
  "down_net s b echoed = \<lparr>n_a = b, n_b = eo_client s, n_wire = eo_down s, n_sent = echoed, n_got = eo_got s\<rparr>"

lemmas nets = up_net_def down_net_def

text \<open>Empty messages are taken out of the engine but not passed to the callback.\<close>

abbreviation nonempty :: "bytes list \<Rightarrow> bytes list" where
  "nonempty msgs \<equiv> filter (\<lambda>msg. msg \<noteq> []) msgs"

definition echo_inv :: "u32 \<Rightarrow> echo_state \<Rightarrow> bool" where
  "echo_inv conv s \<longleftrightarrow> manager_inv (conns (eo_server s)) \<and>
     (\<exists>c b heard echoed. m_connections (conns (eo_server s)) conv = Some c \<and> c_kcp c = Some b \<and>
        net_inv (up_net s b heard) \<and> net_inv (down_net s b echoed) \<and>
        (length (msg_log 1376 (eo_sent s)) < 4294967296 \<longrightarrow> echoed = nonempty heard))"

text \<open>A message that came whole out of the engine has the length it reports.\<close>

lemma concat_payload_length:
  "(\<forall>seg \<in> set segs. seg_ok seg) \<Longrightarrow> sum_list (map seg_len segs) = of_nat (length (concat (map payload segs)))"
  by (induction segs) (auto simp: payload_def seg_ok_def)

lemma recv_count:
  assumes "rcv_wf kcp" "ikcp_recv kcp True len = Some (r, out, kcp')" "0 \<le> sint len" "0 \<le> r" "length out < 2147483648"
  shows "r = int (length out)"
proof -
  note succ = recv_success [OF assms(2-4)]
  have "set (first_message (k_rcv_queue kcp)) \<subseteq> set (k_rcv_queue kcp)"
    using message_split [of "k_rcv_queue kcp"] by (metis Un_upper1 set_append)
  then have "ikcp_peeksize kcp = of_nat (length out)"
    unfolding peeksize_eq [OF succ(1,2)] succ(3) using assms(1) by (intro concat_payload_length) (auto simp: rcv_wf_def)
  moreover have "r = sint (ikcp_peeksize kcp)"
    using assms(2-4) succ(1) recv_take [of kcp len True] by (auto simp: ikcp_recv_def Let_def split: if_splits)
  ultimately show ?thesis using assms(5) by (simp only: sint_of_nat32)
qed

lemma send_accepts:
  assumes "api_inv k" "k_mss k = 1376" "msg_ok 1376 msg" "ikcp_send alloc k (Some msg) (of_nat (length msg)) = Some (r, k')"
  shows "r = 0"
  using send_ok [of k msg "\<lambda>i n. True"] send_any_alloc [OF assms(4)] assms(2,3) by (simp add: msg_ok_def)

lemma up_steps:
  assumes "net_inv (up_net s b heard)" "alloc_bounded alloc"
  shows "d \<in> eo_up s \<Longrightarrow> ikcp_input alloc b (Some d) (int (length d)) = Some (r, b') \<Longrightarrow> net_inv (up_net s b' heard)"
    "ikcp_recv b True len = Some (n, out, b') \<Longrightarrow> 0 \<le> sint len \<Longrightarrow> net_inv (up_net s b' (if 0 \<le> n then heard @ [out] else heard))"
    "ikcp_send alloc b (Some msg) (of_nat (length msg)) = Some (r, b') \<Longrightarrow> length msg < 2147483648 \<Longrightarrow> net_inv (up_net s b' heard)"
    "ikcp_update b current = Some (b', outs) \<Longrightarrow> net_inv (up_net s b' heard)"
  using net.step_inv [OF assms(1) net_deliver [OF assms(2)], of d r b'] net.step_inv [OF assms(1) net_recv, of len n out b']
    net.step_inv [OF assms(1) net_reply [OF assms(2)], of msg r b'] net.step_inv [OF assms(1) net_tick, of current b' outs]
  by (simp_all add: nets cong: if_cong)

lemma down_steps:
  assumes "net_inv (down_net s b echoed)" "alloc_bounded alloc"
  shows "ikcp_input alloc b (Some d) (int (length d)) = Some (r, b') \<Longrightarrow> net_inv (down_net s b' echoed)"
    "ikcp_recv b True len = Some (n, out, b') \<Longrightarrow> net_inv (down_net s b' echoed)"
    "ikcp_send alloc b (Some msg) (of_nat (length msg)) = Some (r, b') \<Longrightarrow> length msg < 2147483648 \<Longrightarrow>
       net_inv (down_net s b' (if r = 0 then echoed @ [msg] else echoed))"
    "ikcp_update b current = Some (b', outs) \<Longrightarrow> net_inv (down_net (s\<lparr>eo_down := eo_down s \<union> set outs\<rparr>) b' echoed)"
  using net.step_inv [OF assms(1) net_back [OF assms(2)], of "Some d" "int (length d)" r b'] net.step_inv [OF assms(1) net_read, of True len n out b']
    net.step_inv [OF assms(1) net_send [OF assms(2)], of msg r b'] net.step_inv [OF assms(1) net_flush, of current b' outs]
  by (simp_all add: nets cong: if_cong)

text \<open>The last message the server has heard is one the client sent.\<close>

lemma heard_ok:
  assumes "net_inv (up_net s b (heard @ [msg]))" "length (msg_log 1376 (eo_sent s)) < 4294967296"
  shows "msg_ok 1376 msg"
proof -
  obtain k where "heard @ [msg] = take k (eo_sent s)" using assms by (auto simp: net_inv_def net_log_def up_net_def)
  then have "msg \<in> set (eo_sent s)" by (metis in_set_takeD in_set_conv_decomp)
  then show ?thesis using assms(1) by (auto simp: net_inv_def up_net_def)
qed

lemma echo_pair:
  assumes up: "net_inv (up_net s b heard)" and down: "net_inv (down_net s b echoed)" and al: "alloc_bounded alloc"
    and d: "d \<in> eo_up s" "echoes alloc d b got b'"
    and eq: "length (msg_log 1376 (eo_sent s)) < 4294967296 \<longrightarrow> echoed = nonempty heard"
  shows "\<exists>heard' echoed'. net_inv (up_net s b' heard') \<and> net_inv (down_net s b' echoed') \<and>
    (length (msg_log 1376 (eo_sent s)) < 4294967296 \<longrightarrow> echoed' = nonempty heard')"
proof -
  obtain r k1 n out k2 where k: "ikcp_input alloc b (Some d) (int (length d)) = Some (r, k1)"
    "ikcp_recv k1 True (1024 * 1000) = Some (n, out, k2)" "got = (if n \<le> 0 then None else Some (take (nat n) out))"
    and b': "case got of None \<Rightarrow> b' = k2 | Some msg \<Rightarrow> \<exists>r. ikcp_send alloc k2 (Some msg) (of_nat (length msg)) = Some (r, b')"
    using d(2) by (auto simp: echoes_def takes_datagram_def)
  let ?heard = "if 0 \<le> n then heard @ [out] else heard"
  note u1 = up_steps(1) [OF up al d(1) k(1)] and d1 = down_steps(1) [OF down al k(1)]
  have u2: "net_inv (up_net s k2 ?heard)" using up_steps(2) [OF u1 al k(2)] by simp
  have d2: "net_inv (down_net s k2 echoed)" by (rule down_steps(2) [OF d1 al k(2)])
  have wf: "rcv_wf k1" using u1 by (simp add: net_inv_def up_net_def api_inv_def kcp_wf_def)
  have msg: "msg_ok 1376 out" "n = int (length out)" if "length (msg_log 1376 (eo_sent s)) < 4294967296" "0 \<le> n"
  proof -
    show ok: "msg_ok 1376 out" using heard_ok [of s k2 heard out] u2 that by simp
    show "n = int (length out)" using recv_count [OF wf k(2) _ that(2)] ok by (simp add: msg_ok_def)
  qed
  show ?thesis
  proof (cases "n \<le> 0")
    case True
    then have "length (msg_log 1376 (eo_sent s)) < 4294967296 \<longrightarrow> echoed = nonempty ?heard" using eq msg by auto
    then show ?thesis using True b' k(3) u2 d2 by auto
  next
    case False
    define m where "m = take (nat n) out"
    obtain r' where snd: "ikcp_send alloc k2 (Some m) (of_nat (length m)) = Some (r', b')" using b' k(3) False by (auto simp: m_def)
    have short: "length m < 2147483648" using d(2) k(3) False takes_datagram_length by (auto simp: echoes_def m_def simp del: length_take)
    note u3 = up_steps(3) [OF u2 al snd short] and d3 = down_steps(3) [OF d2 al snd short]
    have "(if r' = 0 then echoed @ [m] else echoed) = nonempty ?heard" if small: "length (msg_log 1376 (eo_sent s)) < 4294967296"
    proof -
      have "n = int (length out)" "msg_ok 1376 out" using msg [OF small] False by simp_all
      then have "m = out" "out \<noteq> []" using False by (auto simp: m_def)
      moreover have "r' = 0" using send_accepts [OF _ _ _ snd] d2 \<open>msg_ok 1376 out\<close> \<open>m = out\<close> by (simp add: net_inv_def down_net_def)
      ultimately show ?thesis using eq small False by simp
    qed
    then show ?thesis using u3 d3 by blast
  qed
qed

section \<open>Runs\<close>

text \<open>A step of the client alone.\<close>

lemma echo_inv_client:
  assumes "echo_inv conv s" "eo_server s' = eo_server s"
    and "\<And>b heard. net_inv (up_net s b heard) \<Longrightarrow> net_inv (up_net s' b heard)"
    and "\<And>b echoed. net_inv (down_net s b echoed) \<Longrightarrow> net_inv (down_net s' b echoed)"
    and "length (msg_log 1376 (eo_sent s)) \<le> length (msg_log 1376 (eo_sent s'))"
  shows "echo_inv conv s'"
proof -
  obtain c b heard echoed where *: "m_connections (conns (eo_server s)) conv = Some c" "c_kcp c = Some b"
    "net_inv (up_net s b heard)" "net_inv (down_net s b echoed)"
    "length (msg_log 1376 (eo_sent s)) < 4294967296 \<longrightarrow> echoed = nonempty heard"
    using assms(1) by (auto simp: echo_inv_def)
  then have "length (msg_log 1376 (eo_sent s')) < 4294967296 \<longrightarrow> echoed = nonempty heard" using assms(5) by simp
  then show ?thesis using * assms(1,2) assms(3) [OF *(3)] assms(4) [OF *(4)] by (auto simp: echo_inv_def)
qed

lemma echo_serve_inv:
  assumes inv: "echo_inv conv s" and al: "alloc_bounded alloc" and run: "ex_receive alloc sock error d ep (eo_server s) = Inr t"
    and new: "is_connect_packet d (length d) \<longrightarrow> m_cur_conv (conns (eo_server s)) + 1 \<noteq> conv"
    and own: "ikcp_get_conv (Some d) (int (length d)) = Some conv \<longrightarrow> is_connect_packet d (length d) \<or> d \<in> eo_up s"
  shows "echo_inv conv (s\<lparr>eo_server := t\<rparr>)"
proof -
  obtain c b heard echoed where *: "m_connections (conns (eo_server s)) conv = Some c" "c_kcp c = Some b"
    "net_inv (up_net s b heard)" "net_inv (down_net s b echoed)"
    "length (msg_log 1376 (eo_sent s)) < 4294967296 \<longrightarrow> echoed = nonempty heard"
    and mi: "manager_inv (conns (eo_server s))"
    using inv by (auto simp: echo_inv_def)
  have mi': "manager_inv (conns t)" by (rule ex_receive_inv [OF mi al run])
  show ?thesis using ex_receive_for [OF mi al run *(1) new]
  proof (elim disjE conjE exE)
    assume "m_connections (conns t) conv = Some c"
    then show ?thesis using * mi' by (auto simp: echo_inv_def nets)
  next
    fix got kcp' c'
    assume e: "\<not> is_connect_packet d (length d)" "ikcp_get_conv (Some d) (int (length d)) = Some conv"
      "echoes alloc d (the (c_kcp c)) got kcp'" "m_connections (conns t) conv = Some c'" "c_kcp c' = Some kcp'"
    have "echoes alloc d b got kcp'" "d \<in> eo_up s" using e own *(2) by simp_all
    from echo_pair [OF *(3,4) al this(2,1) *(5)] mi' e(4,5) show ?thesis by (auto simp: echo_inv_def nets)
  qed
qed

lemma echo_tick_inv:
  assumes inv: "echo_inv conv s" and ord: "distinct order" "set order = dom (m_connections (conns (eo_server s)))"
    and run: "ex_tick alloc sock tv order (eo_server s) = Inr t" and stays: "conv \<in> dom (m_connections (conns t))"
    and up: "ikcp_update (conv_engine conv (eo_server s)) (iclock (fst tv) (snd tv)) = Some (b', out)"
  shows "echo_inv conv (s\<lparr>eo_server := t, eo_down := eo_down s \<union> set out\<rparr>)"
proof -
  obtain c b heard echoed where *: "m_connections (conns (eo_server s)) conv = Some c" "c_kcp c = Some b"
    "net_inv (up_net s b heard)" "net_inv (down_net s b echoed)"
    "length (msg_log 1376 (eo_sent s)) < 4294967296 \<longrightarrow> echoed = nonempty heard"
    and mi: "manager_inv (conns (eo_server s))"
    using inv by (auto simp: echo_inv_def)
  have "manager_inv (conns t)" using handle_kcp_time_result [OF mi ord ex_tick_conns(1) [OF mi ord run]] by blast
  moreover obtain c' where c': "m_connections (conns t) conv = Some c'" using stays by blast
  have b: "ikcp_update b (iclock (fst tv) (snd tv)) = Some (b', out)" using up * by (simp add: conv_engine_def)
  have "engine_ran (iclock (fst tv) (snd tv)) c c'" by (rule ex_tick_for [OF mi ord run *(1) c'])
  then have "c_kcp c' = Some b'" using b *(2) by (auto simp: engine_ran_def)
  moreover have "alloc_bounded (\<lambda>i n. False)" by (simp add: alloc_bounded_def)
  ultimately show ?thesis using up_steps(4) [OF *(3) _ b] down_steps(4) [OF *(4) _ b] c' *(5)
    by (auto simp: echo_inv_def nets)
qed

lemma echo_step_inv:
  assumes inv: "echo_inv conv s" and step: "echo_step conv s t" shows "echo_inv conv t"
  using step
proof cases
  case (echo_send alloc msg r a)
  have "net_inv (up_net t b heard)" if "net_inv (up_net s b heard)" for b heard
    using net.step_inv [OF that net_send [OF echo_send(2), of _ msg r a]] echo_send(1,3,4) by (simp add: nets cong: if_cong)
  moreover have "net_inv (down_net t b echoed)" if "net_inv (down_net s b echoed)" for b echoed
    using net.step_inv [OF that net_reply [OF echo_send(2), of _ msg r a]] echo_send(1,3,4) by (simp add: nets)
  ultimately show ?thesis using echo_send(1) by (intro echo_inv_client [OF inv]) (simp_all add: msg_log_def)
next
  case (echo_update current a out)
  have "net_inv (up_net t b heard)" if "net_inv (up_net s b heard)" for b heard
    using net.step_inv [OF that net_flush [of _ current a out]] echo_update by (simp add: nets)
  moreover have "net_inv (down_net t b echoed)" if "net_inv (down_net s b echoed)" for b echoed
    using net.step_inv [OF that net_tick [of _ current a out]] echo_update by (simp add: nets)
  ultimately show ?thesis using echo_update(1) by (intro echo_inv_client [OF inv]) simp_all
next
  case (echo_input alloc d r a)
  have "net_inv (up_net t b heard)" if "net_inv (up_net s b heard)" for b heard
    using net.step_inv [OF that net_back [OF echo_input(2), of _ "Some d" "int (length d)" r a]] echo_input by (simp add: nets)
  moreover have "net_inv (down_net t b echoed)" if "net_inv (down_net s b echoed)" for b echoed
    using net.step_inv [OF that net_deliver [OF echo_input(2), of d _ r a]] echo_input by (simp add: nets)
  ultimately show ?thesis using echo_input(1) by (intro echo_inv_client [OF inv]) simp_all
next
  case (echo_recv len r out a)
  have "net_inv (up_net t b heard)" if "net_inv (up_net s b heard)" for b heard
    using net.step_inv [OF that net_read [of _ True len r out a]] echo_recv by (simp add: nets)
  moreover have "net_inv (down_net t b echoed)" if "net_inv (down_net s b echoed)" for b echoed
    using net.step_inv [OF that net_recv [of _ len r out a]] echo_recv by (simp add: nets cong: if_cong)
  ultimately show ?thesis using echo_recv(1) by (intro echo_inv_client [OF inv]) simp_all
next
  case (echo_serve alloc sock error d ep u)
  then show ?thesis using echo_serve_inv [OF inv echo_serve(2-5)] by simp
next
  case (echo_tick order alloc sock tv u b out)
  then show ?thesis using echo_tick_inv [OF inv echo_tick(2-6)] by simp
next
  case echo_timer
  then show ?thesis using inv by (auto simp: echo_inv_def nets handle_test_timer_def hook_test_timer_def)
qed

lemma echo_init_inv: "echo_init conv s \<Longrightarrow> echo_inv conv s"
proof -
  assume i: "echo_init conv s"
  then obtain c where c: "m_connections (conns (eo_server s)) conv = Some c" and mi: "manager_inv (conns (eo_server s))"
    by (auto simp: echo_init_def)
  obtain b where b: "c_kcp c = Some b" using manager_inv_conn [OF mi c] by (auto simp: conn_inv_def)
  have "net_init (up_net s b [])" "net_init (down_net s b [])" using i b c by (simp_all add: echo_init_def net_init_def nets conv_engine_def)
  then have "net_inv (up_net s b [])" "net_inv (down_net s b [])" by (simp_all add: net.init_inv)
  then show ?thesis unfolding echo_inv_def using b c mi by (intro conjI exI [of _ c] exI [of _ b] exI [of _ "[]"]) simp_all
qed

interpretation echo: step_system "echo_init conv" "echo_step conv" "echo_inv conv" for conv
  by unfold_locales (rule echo_init_inv, assumption, rule echo_step_inv)

text \<open>What comes back is, in order, a piece of what was sent.\<close>

lemma msg_log_nonempty: "length (msg_log m (nonempty msgs)) \<le> length (msg_log m msgs)"
  by (induction msgs) (simp_all add: msg_log_def)

lemma msg_log_take: "length (msg_log m (take k msgs)) \<le> length (msg_log m msgs)"
proof -
  have "msg_log m msgs = msg_log m (take k msgs) @ msg_log m (drop k msgs)"
    by (metis append_take_drop_id concat_append map_append msg_log_def)
  then show ?thesis by simp
qed

lemma echo_prefix:
  assumes "echo_inv conv s" "length (msg_log 1376 (eo_sent s)) < 4294967296"
  shows "\<exists>rest. nonempty (eo_sent s) = eo_got s @ rest"
proof -
  obtain b heard where up: "net_inv (up_net s b heard)" and down: "net_inv (down_net s b (nonempty heard))"
    using assms by (auto simp: echo_inv_def)
  obtain k where k: "heard = take k (eo_sent s)" using up assms(2) by (auto simp: net_inv_def net_log_def up_net_def)
  then have "length (msg_log 1376 (nonempty heard)) < 4294967296"
    using msg_log_nonempty [of 1376 heard] msg_log_take [of 1376 k "eo_sent s"] assms(2) by simp
  then obtain j where j: "eo_got s = take j (nonempty heard)" using down by (auto simp: net_inv_def net_log_def down_net_def)
  have "nonempty (eo_sent s) = nonempty heard @ nonempty (drop k (eo_sent s))"
    unfolding k by (metis append_take_drop_id filter_append)
  then have "nonempty (eo_sent s) = eo_got s @ (drop j (nonempty heard) @ nonempty (drop k (eo_sent s)))" by (simp add: j)
  then show ?thesis by blast
qed

end
