(* ===== verification/Example_Process.thy ===== *)
theory Example_Process
  imports Example_Server
begin

text \<open>
  \<open>src/server/main.cpp\<close>: the echo server as a process. \<open>main\<close> makes the server and runs its event loop inside a \<open>try\<close>
  block that catches \<open>std::exception\<close>. What a handler throws comes out of \<open>io_service::run\<close>; \<open>AssertException\<close> of
  \<open>check_function.h\<close> has no base class, so that nothing catches it and the process is terminated. The loop returns
  when no operation is outstanding. Setting up the log files, which \<open>main\<close> does first, is left out.
\<close>

section \<open>The process\<close>

text \<open>\<open>main\<close> up to \<open>s.run()\<close>; \<open>bound\<close> says whether the address could be resolved and the socket bound.\<close>

definition server_main :: "nat \<Rightarrow> bool \<Rightarrow> example_server process" where
  "server_main argc bound =
     (if argc \<noteq> 3 then Exit 1 else in_try (if bound then Inr example_server_new else Inl SystemError))"

definition outstanding :: "example_server \<Rightarrow> nat" where
  "outstanding s = of_bool (m_recv_armed (conns s)) + of_bool (m_timer_armed (conns s)) + of_bool (ex_timer_armed s)"

inductive server_run :: "example_server process \<Rightarrow> example_server process \<Rightarrow> bool" where
  run_recv: "m_recv_armed (conns s) \<Longrightarrow> alloc_bounded alloc \<Longrightarrow>
     server_run (Running s) (in_try (ex_receive alloc sock error d ep s))"
| run_tick: "m_timer_armed (conns s) \<Longrightarrow> distinct order \<Longrightarrow> set order = dom (m_connections (conns s)) \<Longrightarrow>
     server_run (Running s) (in_try (ex_tick alloc sock tv order s))"
| run_timer: "ex_timer_armed s \<Longrightarrow> server_run (Running s) (Running (handle_test_timer s))"
| run_signal: "\<not> ex_stopped s \<Longrightarrow> distinct order \<Longrightarrow> set order = dom (m_connections (conns s)) \<Longrightarrow>
     server_run (Running s) (in_try (handle_stop sock order s))"
| run_return: "ex_stopped s \<Longrightarrow> outstanding s = 0 \<Longrightarrow> server_run (Running s) (Exit 0)"

inductive_simps end_simps [simp]: "server_run (Exit code) p" "server_run Terminated p"

section \<open>What the handlers leave of the flags\<close>

definition flags :: "connection_manager \<Rightarrow> bool \<times> bool \<times> bool \<times> bool" where
  "flags m = (h_open m, h_callback m, m_stopped m, m_timer_armed m)"

lemma connect_flags:
  assumes "manager_inv m" "handle_connect_packet alloc sock ep m = Inr m'"
  shows "flags m' = flags m \<and> m_recv_armed m' = m_recv_armed m"
proof (cases "m_connections m (m_cur_conv m + 1)")
  case None
  then show ?thesis using handle_connect_result [OF assms None] by (auto simp: flags_def)
next
  case (Some c\<^sub>0)
  define conv where "conv = m_cur_conv m + 1"
  obtain p c c' where clean: "connection_destroy sock c\<^sub>0 (m\<lparr>m_cur_conv := conv, h_sent := h_sent m @ [(p, ep)],
      m_connections := (m_connections m)(conv \<mapsto> c)\<rparr>) = Inr (c', m')"
    using assms(2) Some
    by (auto simp: handle_connect_packet_def get_new_conv_def add_new_connection_def Let_def bindE_Inr_iff host_frame
        simp flip: conv_def)
  have "h_alive m" "conn_inv conv c\<^sub>0" using assms(1) Some by (simp_all add: manager_inv_def conv_def)
  then have "\<exists>out. m' = m\<lparr>h_sent := out, m_connections := (m_connections m)(conv \<mapsto> c), m_cur_conv := conv\<rparr>"
    using destroy_conn [OF _ _ clean, of conv] by auto
  then show ?thesis by (auto simp: flags_def)
qed

lemma receive_flags:
  assumes "manager_inv m" "alloc_bounded alloc" "handle_udp_receive_from alloc sock error d ep m = Inr m'"
  shows "flags m' = flags m \<and> m_recv_armed m' = (\<not> m_stopped m)"
proof -
  define m0 where "m0 = m\<lparr>m_recv_armed := False\<rparr>"
  have m0: "manager_inv m0" "flags m0 = flags m" "\<not> m_recv_armed m0" using assms(1) by (simp_all add: m0_def manager_inv_def flags_def)
  obtain m1 where m': "m' = hook_udp_async_receive m1"
    and "handle_connect_packet alloc sock ep m0 = Inr m1 \<or> handle_kcp_packet alloc d ep m0 = Inr m1 \<or> m1 = m0"
    using assms(3) by (auto simp: handle_udp_receive_from_def bindE_Inr_iff simp flip: m0_def split: if_splits)
  then have "flags m1 = flags m0 \<and> m_recv_armed m1 = m_recv_armed m0"
  proof (elim disjE)
    assume "handle_kcp_packet alloc d ep m0 = Inr m1"
    from handle_kcp_packet_result [OF m0(1) assms(2) this] show ?thesis by (auto simp: flags_def)
  qed (use connect_flags [OF m0(1)] in auto)
  then show ?thesis using m0 m' by (auto simp: hook_udp_async_receive_def flags_def)
qed

lemma send_flags:
  "manager_send_msg alloc conv msg m = Inr (r, m') \<Longrightarrow> flags m' = flags m \<and> m_recv_armed m' = m_recv_armed m"
  by (auto simp: manager_send_msg_def find_by_conv_def bindE_Inr_iff flags_def split: option.splits)

lemma callbacks_frame:
  "run_callbacks alloc evs s = Inr s' \<Longrightarrow> flags (conns s') = flags (conns s) \<and> m_recv_armed (conns s') = m_recv_armed (conns s) \<and>
     ex_stopped s' = ex_stopped s \<and> ex_timer_armed s' = ex_timer_armed s"
proof (induction alloc evs s rule: run_callbacks.induct)
  case (2 alloc conv t msg evs s)
  obtain s1 where s1: "event_callback alloc conv t msg s = Inr s1" "run_callbacks alloc evs s1 = Inr s'"
    using 2(2) by (auto simp: bindE_Inr_iff)
  have "flags (conns s1) = flags (conns s) \<and> m_recv_armed (conns s1) = m_recv_armed (conns s) \<and>
      ex_stopped s1 = ex_stopped s \<and> ex_timer_armed s1 = ex_timer_armed s"
  proof (cases "t = eRcvMsg")
    case True
    then obtain r m where "manager_send_msg alloc conv msg (conns s) = Inr (r, m)" "s1 = with_conns s m"
      using s1(1) by (auto simp: event_callback_eq bindE_Inr_iff)
    then show ?thesis using send_flags by (simp add: with_conns_def)
  qed (use s1(1) in \<open>simp add: event_callback_eq\<close>)
  then show ?case using "2.IH" [OF s1(2)] by simp
qed simp

lemma tick_flags:
  assumes "manager_inv m" "distinct order" "set order = dom (m_connections m)" "handle_kcp_time sock tv order m = Inr m'"
  shows "flags m' = (h_open m, h_callback m, m_stopped m, \<not> m_stopped m) \<and> m_recv_armed m' = m_recv_armed m"
proof -
  define m1 where "m1 = (hook_kcp_timer (m\<lparr>m_timer_armed := False\<rparr>))\<lparr>h_clock := iclock (fst tv) (snd tv)\<rparr>"
  have m1: "manager_inv m1" "h_clock m1 = iclock (fst tv) (snd tv)" "m_connections m1 = m_connections m"
    using assms(1) by (simp_all add: m1_def hook_kcp_timer_def manager_inv_def)
  have "update_all_kcp sock (iclock (fst tv) (snd tv)) order m1 = Inr m'"
    using assms(4) m1(2) by (simp add: handle_kcp_time_def Let_def m1_def)
  then have "walk_view m' = walk_view m1" using update_all_result [OF m1(1,2) assms(2)] assms(3) m1(3) by simp
  then show ?thesis by (auto simp: walk_view_def flags_def m1_def hook_kcp_timer_def)
qed

section \<open>A server that runs listens\<close>

text \<open>As long as no signal has come, all operations are outstanding. Afterwards the handlers renew none.\<close>

definition live :: "example_server \<Rightarrow> bool" where
  "live s \<longleftrightarrow> manager_inv (conns s) \<and> h_callback (conns s) \<and> m_stopped (conns s) = ex_stopped s \<and>
     (\<not> ex_stopped s \<longrightarrow> h_open (conns s) \<and> outstanding s = 3)"

definition process_inv :: "example_server process \<Rightarrow> bool" where
  "process_inv p = (case p of Running s \<Rightarrow> live s | _ \<Rightarrow> True)"

lemma outstanding_all: "outstanding s = 3 \<longleftrightarrow> m_recv_armed (conns s) \<and> m_timer_armed (conns s) \<and> ex_timer_armed s"
  by (auto simp: outstanding_def)

lemma outstanding_le: "outstanding s \<le> 3"
  by (simp add: outstanding_def)

lemma receive_live:
  assumes "live s" "alloc_bounded alloc" "ex_receive alloc sock error d ep s = Inr s'" "m_recv_armed (conns s)"
  shows "live s'" "ex_stopped s' = ex_stopped s" "ex_stopped s \<Longrightarrow> outstanding s' < outstanding s"
proof -
  obtain m where m: "handle_udp_receive_from alloc sock error d ep (conns s) = Inr m"
    and cb: "run_callbacks alloc (raised (conns s) m) (with_conns s m) = Inr s'"
    using assms(3) by (auto simp: ex_receive_def bindE_Inr_iff)
  have inv: "manager_inv (conns s)" using assms(1) by (simp add: live_def)
  note f = receive_flags [OF inv assms(2) m] callbacks_frame [OF cb]
  show "live s'" "ex_stopped s' = ex_stopped s" "ex_stopped s \<Longrightarrow> outstanding s' < outstanding s"
    using f ex_receive_inv [OF inv assms(2,3)] assms(1,4) by (auto simp: live_def flags_def outstanding_def with_conns_def)
qed

lemma tick_live:
  assumes "live s" "distinct order" "set order = dom (m_connections (conns s))" "ex_tick alloc sock tv order s = Inr s'"
    and "m_timer_armed (conns s)"
  shows "live s'" "ex_stopped s' = ex_stopped s" "ex_stopped s \<Longrightarrow> outstanding s' < outstanding s"
proof -
  have inv: "manager_inv (conns s)" using assms(1) by (simp add: live_def)
  note t = ex_tick_conns [OF inv assms(2-4)]
  have s': "ex_stopped s' = ex_stopped s" "ex_timer_armed s' = ex_timer_armed s"
    by (subst t(2), simp add: with_conns_def)+
  then show "live s'" "ex_stopped s' = ex_stopped s" "ex_stopped s \<Longrightarrow> outstanding s' < outstanding s"
    using tick_flags [OF inv assms(2,3) t(1)] handle_kcp_time_result [OF inv assms(2,3) t(1)] assms(1,5)
    by (auto simp: live_def flags_def outstanding_def)
qed

lemma stop_live:
  assumes "live s" "distinct order" "set order = dom (m_connections (conns s))" "handle_stop sock order s = Inr s'"
  shows "live s'" "ex_stopped s'"
proof -
  obtain m1 where "container_stop_all sock order ((conns s)\<lparr>m_stopped := True\<rparr>) = Inr m1" "conns s' = m1\<lparr>h_open := False\<rparr>"
    and st: "ex_stopped s'"
    using assms(4) by (auto simp: handle_stop_def server_stop_def manager_stop_all_def Let_def bindE_Inr_iff split: if_splits)
  moreover have "manager_inv ((conns s)\<lparr>m_stopped := True\<rparr>)" using assms(1) by (simp add: manager_inv_def live_def)
  moreover have "container_stop_all sock order m = Inr m' \<Longrightarrow> manager_inv m \<Longrightarrow>
      manager_inv m' \<and> h_callback m' = h_callback m \<and> m_stopped m' = m_stopped m" for m m'
  proof (induction order arbitrary: m)
    case (Cons k order)
    obtain m2 where m2: "remove_connection sock k m = Inr m2" "container_stop_all sock order m2 = Inr m'"
      using Cons.prems(1) by (auto simp: bindE_Inr_iff)
    then show ?case using Cons.IH [OF m2(2) remove_connection_inv [OF Cons.prems(2) m2(1)]]
        remove_connection_Inr [OF Cons.prems(2) m2(1)] by auto
  qed simp
  ultimately have "manager_inv (conns s')" "h_callback (conns s')" "m_stopped (conns s')"
    using assms(1) by (fastforce simp: live_def manager_inv_def)+
  then show "live s'" "ex_stopped s'" using st by (simp_all add: live_def)
qed

lemma timer_live:
  assumes "live s" "ex_timer_armed s"
  shows "live (handle_test_timer s)" "ex_stopped (handle_test_timer s) = ex_stopped s"
    "ex_stopped s \<Longrightarrow> outstanding (handle_test_timer s) < outstanding s"
  using assms by (auto simp: live_def outstanding_def handle_test_timer_def hook_test_timer_def)

lemma server_run_inv: "server_run p p' \<Longrightarrow> process_inv p \<Longrightarrow> process_inv p'"
proof (induction rule: server_run.induct)
  case (run_recv s alloc sock error d ep)
  then show ?case using receive_live(1) [of s alloc sock error d ep] by (auto simp: process_inv_def split: process.splits)
next
  case (run_tick s order alloc sock tv)
  then show ?case using tick_live(1) [of s order alloc sock tv] by (auto simp: process_inv_def split: process.splits)
next
  case (run_timer s)
  then show ?case using timer_live by (simp add: process_inv_def)
next
  case (run_signal s order sock)
  then show ?case using stop_live(1) [of s order sock] by (auto simp: process_inv_def split: process.splits)
qed (simp add: process_inv_def)

lemma server_main_inv: "process_inv (server_main argc bound)"
proof -
  have "live example_server_new" using example_server_new_inv
    by (simp add: live_def outstanding_def example_server_new_def hook_test_timer_def server_set_callback_def server_new_def
        manager_set_callback_def connection_manager_new_def hook_kcp_timer_def hook_udp_async_receive_def)
  then show ?thesis by (simp add: server_main_def process_inv_def in_try_def is_std_exception_def)
qed

interpretation proc: step_system "\<lambda>p. \<exists>argc bound. p = server_main argc bound" server_run process_inv
  by unfold_locales (use server_main_inv server_run_inv in blast)+

section \<open>The handlers return\<close>

lemma takes_mss:
  assumes "takes_datagram alloc d kcp got kcp'" shows "k_mss kcp' = k_mss kcp"
proof -
  obtain r k1 n out where "ikcp_input alloc kcp (Some d) (int (length d)) = Some (r, k1)" "ikcp_recv k1 True (1024 * 1000) = Some (n, out, kcp')"
    using assms by (auto simp: takes_datagram_def)
  then have "cfg_view kcp' = cfg_view kcp" using input_cfg recv_cfg by metis
  then show ?thesis by (simp add: cfg_view_def)
qed

text \<open>The message a datagram completes can be sent back, by whatever allocator it was taken.\<close>

lemma echo_total:
  assumes "conn_inv conv c" "takes_datagram alloc d (the (c_kcp c)) (Some msg) kcp'" "\<forall>i n. alloc i n" "c_kcp c' = Some kcp'"
  shows "\<exists>c''. connection_send_kcp_msg alloc c' msg = Inr c''"
proof -
  have "cfg_wf (the (c_kcp c))" using assms(1) by (auto simp: conn_inv_def api_inv_def kcp_wf_def)
  then have mss: "0 < unat (k_mss kcp')" "unat (k_mss kcp') < 2147483648"
    using mss_eq [of "the (c_kcp c)"] takes_mss [OF assms(2)] by (auto simp: cfg_wf_def)
  have len: "length msg < 2147483648" by (rule takes_datagram_length [OF assms(2)])
  have "ikcp_send alloc kcp' (Some msg) (of_nat (length msg)) \<noteq> None"
    using send_ok [OF mss len assms(3)] send_too_long [OF mss len, of alloc]
    by (cases "length (chunks (unat (k_mss kcp')) msg) \<le> 255") simp_all
  then show ?thesis using assms(4) by (auto simp: connection_send_kcp_msg_def)
qed

lemma kcp_packet_echo:
  assumes "serving alloc sock m" "handle_kcp_packet alloc d ep m = Inr m'"
  shows "h_events m' = h_events m \<or> (\<exists>conv msg c c'. h_events m' = h_events m @ [(conv, eRcvMsg, msg)] \<and>
    m_connections m' conv = Some c \<and> connection_send_kcp_msg alloc c msg = Inr c')"
proof (cases "\<exists>conv c. ikcp_get_conv (Some d) (int (length d)) = Some conv \<and> m_connections m conv = Some c")
  case True
  then obtain conv c where c: "ikcp_get_conv (Some d) (int (length d)) = Some conv" "m_connections m conv = Some c" by blast
  have s: "manager_inv m" "\<forall>i n. alloc i n" "h_alive m" using assms(1) by (simp_all add: serving_def manager_inv_def)
  obtain c' h' where run: "connection_input alloc c d ep m = Inr (c', h')" "m' = h'\<lparr>m_connections := (m_connections h')(conv \<mapsto> c')\<rparr>"
    using assms(2) c by (auto simp: handle_kcp_packet_def find_by_conv_def bindE_Inr_iff)
  have ci: "conn_inv conv c" by (rule manager_inv_conn [OF s(1) c(2)])
  obtain got kcp' where got: "takes_datagram alloc d (the (c_kcp c)) got kcp'" "c_kcp c' = Some kcp'"
    "h' = m\<lparr>h_events := h_events m @ (case got of None \<Rightarrow> [] | Some msg \<Rightarrow> [(conv, eRcvMsg, msg)])\<rparr>"
    using connection_input_takes [OF ci s(3) run(1)] by blast
  show ?thesis
  proof (cases got)
    case (Some msg)
    then obtain c'' where "connection_send_kcp_msg alloc c' msg = Inr c''" using echo_total [OF ci _ s(2) got(2)] got(1) by blast
    then show ?thesis using Some got(3) run(2) by auto
  qed (use got run(2) in simp)
next
  case False
  then show ?thesis using assms(2)
    by (auto simp: handle_kcp_packet_def find_by_conv_def assert_check_cases split: option.splits)
qed

lemma receive_returns:
  assumes "serving alloc sock (conns s)" "error \<or> d = [] \<or> 24 \<le> length d"
  shows "\<exists>s'. ex_receive alloc sock error d ep s = Inr s'"
proof -
  define m0 where "m0 = (conns s)\<lparr>m_recv_armed := False\<rparr>"
  have m0: "serving alloc sock m0" "h_events m0 = h_events (conns s)" using assms(1) by (simp_all add: m0_def serving_def manager_inv_def)
  obtain m1 where m1: "handle_udp_receive_from alloc sock error d ep (conns s) = Inr (hook_udp_async_receive m1)"
    "handle_connect_packet alloc sock ep m0 = Inr m1 \<or> handle_kcp_packet alloc d ep m0 = Inr m1 \<or> m1 = m0"
    using handle_connect_total [OF m0(1), of ep] handle_kcp_total [OF m0(1), of d ep] assms(2)
    by (cases "\<not> error \<and> d \<noteq> []"; cases "is_connect_packet d (length d)")
      (auto simp: handle_udp_receive_from_def Let_def simp flip: m0_def)
  let ?m = "hook_udp_async_receive m1"
  have "manager_inv m0" using m0(1) by (simp add: serving_def)
  then have "h_events m1 = h_events (conns s) \<or> (\<exists>conv msg c c'. h_events m1 = h_events (conns s) @ [(conv, eRcvMsg, msg)] \<and>
      m_connections m1 conv = Some c \<and> connection_send_kcp_msg alloc c msg = Inr c')"
    using m1(2) handle_connect_inv [of m0] kcp_packet_echo [OF m0(1)] m0(2) by metis
  then show ?thesis
  proof (elim disjE exE conjE)
    fix conv msg c c'
    assume *: "h_events m1 = h_events (conns s) @ [(conv, eRcvMsg, msg)]" "m_connections m1 conv = Some c"
      "connection_send_kcp_msg alloc c msg = Inr c'"
    have "raised (conns s) ?m = [(conv, eRcvMsg, msg)]" using *(1) by simp
    then show ?thesis using * m1(1)
      by (simp add: ex_receive_def event_callback_eq manager_send_msg_def find_by_conv_def)
  next
    assume "h_events m1 = h_events (conns s)"
    then have "raised (conns s) ?m = []" by simp
    then show ?thesis using m1(1) by (simp add: ex_receive_def)
  qed
qed

lemma short_datagram_throws:
  assumes "\<not> error" "d \<noteq> []" "length d < 24"
  shows "\<exists>what. ex_receive alloc sock error d ep s = Inl (AssertException what)"
proof -
  have "\<not> is_connect_packet d (length d)" using assms(3) by (auto simp: is_connect_packet_def ASIO_KCP_CONNECT_PACKET_def)
  moreover have "ikcp_get_conv (Some d) (int (length d)) = None"
    using get_conv_iff [of d] assms(3) by (cases "ikcp_get_conv (Some d) (int (length d))") auto
  ultimately show ?thesis using assms(1,2)
    by (auto simp: ex_receive_def handle_udp_receive_from_def handle_kcp_packet_def assert_check_cases)
qed

lemma tick_returns:
  assumes "serving alloc sock (conns s)" "distinct order" "set order = dom (m_connections (conns s))"
  shows "\<exists>s'. ex_tick alloc' sock tv order s = Inr s'"
proof -
  define m1 where "m1 = (hook_kcp_timer ((conns s)\<lparr>m_timer_armed := False\<rparr>))\<lparr>h_clock := iclock (fst tv) (snd tv)\<rparr>"
  have s: "manager_inv m1" "h_open m1" "h_callback m1" "takes_all sock" "manager_inv (conns s)"
    using assms(1) by (simp_all add: serving_def m1_def hook_kcp_timer_def manager_inv_def)
  obtain m' where "update_all_kcp sock (iclock (fst tv) (snd tv)) order m1 = Inr m'" using update_all_total [OF s(1-4)] by blast
  then have m': "handle_kcp_time sock tv order (conns s) = Inr m'" by (simp add: handle_kcp_time_def Let_def m1_def)
  obtain ks where "h_events m' = h_events (conns s) @ map (\<lambda>conv. (conv, eDisconnect, ascii ''timeout'')) ks"
    using handle_kcp_time_result [OF s(5) assms(2,3) m'] by blast
  then have "raised (conns s) m' = map (\<lambda>conv. (conv, eDisconnect, ascii ''timeout'')) ks" by (rule raised_append)
  then have "run_callbacks alloc' (raised (conns s) m') (with_conns s m') = Inr (with_conns s m')" by (intro callbacks_quiet) auto
  then show ?thesis using m' by (simp add: ex_tick_def)
qed

lemma stop_returns:
  assumes "serving alloc sock (conns s)" shows "\<exists>s'. handle_stop sock order s = Inr s'"
proof -
  have "takes_all sock" using assms by (simp add: serving_def)
  then have "manager_inv m \<Longrightarrow> h_open m \<Longrightarrow> \<exists>m'. container_stop_all sock order m = Inr m' \<and> h_open m'" for m
  proof (induction order arbitrary: m)
    case (Cons k order)
    obtain m1 where m1: "remove_connection sock k m = Inr m1" using remove_total [OF Cons.prems(1,2)] Cons.prems(3) by blast
    then show ?case using Cons.IH [OF remove_connection_inv [OF Cons.prems(1) m1]] Cons.prems
        remove_connection_Inr [OF Cons.prems(1) m1] by auto
  qed simp
  moreover have "manager_inv ((conns s)\<lparr>m_stopped := True\<rparr>)" "h_open ((conns s)\<lparr>m_stopped := True\<rparr>)"
    using assms by (simp_all add: serving_def manager_inv_def)
  ultimately obtain m' where "container_stop_all sock order ((conns s)\<lparr>m_stopped := True\<rparr>) = Inr m'" "h_open m'" by blast
  then show ?thesis by (simp add: handle_stop_def server_stop_def manager_stop_all_def)
qed

text \<open>After a signal the process comes to its end: every handler takes one of the outstanding operations away and
  none is added, and when there is none left \<open>main\<close> returns 0.\<close>

lemma stopped_runs_out:
  assumes "live s" "ex_stopped s" "server_run (Running s) p"
  shows "case p of Running s' \<Rightarrow> live s' \<and> ex_stopped s' \<and> outstanding s' < outstanding s | Exit code \<Rightarrow> code = 0 | Terminated \<Rightarrow> True"
  using assms(3)
proof cases
  case (run_recv alloc sock error d ep)
  then show ?thesis using receive_live [OF assms(1) run_recv(3)] assms(2)
    by (cases "ex_receive alloc sock error d ep s") (auto simp: in_try_def)
next
  case (run_tick order alloc sock tv)
  then show ?thesis using tick_live [OF assms(1) run_tick(3,4)] assms(2)
    by (cases "ex_tick alloc sock tv order s") (auto simp: in_try_def)
next
  case run_timer
  then show ?thesis using timer_live [OF assms(1)] assms(2) by auto
qed (use assms(2) in auto)

lemma stopped_bounded:
  assumes "live s" "ex_stopped s" "(server_run ^^ n) (Running s) p"
  shows "n \<le> Suc (outstanding s) \<and> (case p of Running s' \<Rightarrow> live s' \<and> ex_stopped s' | Exit code \<Rightarrow> code = 0 | Terminated \<Rightarrow> True)"
  using assms
proof (induction n arbitrary: s)
  case (Suc n)
  obtain q where q: "server_run (Running s) q" "(server_run ^^ n) q p" using Suc.prems(3) by (meson relpowp_Suc_D2)
  note out = stopped_runs_out [OF Suc.prems(1,2) q(1)]
  have ended: "n = 0 \<and> p = q" if "\<nexists>p'. server_run q p'"
  proof (cases n)
    case (Suc k)
    then show ?thesis using q(2) that relpowp_Suc_D2 by metis
  qed (use q(2) in simp)
  show ?case
  proof (cases q)
    case (Running s1)
    then show ?thesis using Suc.IH [of s1] out q(2) by auto
  next
    case (Exit code)
    then show ?thesis using ended out by simp
  next
    case Terminated
    then show ?thesis using ended by simp
  qed
qed auto

lemma stopped_goes_on:
  assumes "live s" "ex_stopped s" shows "\<exists>p. server_run (Running s) p"
proof -
  have "finite (dom (m_connections (conns s)))" using assms(1) by (simp add: live_def manager_inv_def)
  from finite_distinct_list [OF this]
  obtain order where order: "set order = dom (m_connections (conns s))" "distinct order" by blast
  consider "m_recv_armed (conns s)" | "m_timer_armed (conns s)" | "ex_timer_armed s" | "outstanding s = 0"
    by (cases "m_recv_armed (conns s)"; cases "m_timer_armed (conns s)"; cases "ex_timer_armed s") (simp_all add: outstanding_def)
  then show ?thesis
  proof cases
    case 1
    have "alloc_bounded (\<lambda>i n. False)" by (simp add: alloc_bounded_def)
    from run_recv [OF 1 this] show ?thesis by blast
  next
    case 2
    from run_tick [OF 2 order(2,1)] show ?thesis by blast
  qed (use assms(2) in \<open>blast intro: run_timer run_return\<close>)+
qed

end
