(* ===== verification/Std_String.thy ===== *)
theory Std_String
  imports Check_Function
begin

text \<open>
  What the example programs use of \<open>std::string\<close>: \<open>find\<close>, \<open>substr\<close> and \<open>std::stoi\<close>. A position is a natural number,
  \<^const>\<open>None\<close> is \<open>npos\<close>.
\<close>

section \<open>Searching\<close>

definition starts_with :: "bytes \<Rightarrow> bytes \<Rightarrow> bool" where
  "starts_with pat s \<longleftrightarrow> take (length pat) s = pat"

fun find_sub :: "bytes \<Rightarrow> bytes \<Rightarrow> nat option" where
  "find_sub pat [] = (if pat = [] then Some 0 else None)"
| "find_sub pat (c # s) = (if starts_with pat (c # s) then Some 0 else map_option Suc (find_sub pat s))"

text \<open>\<open>s.find(pat, pos)\<close>.\<close>

definition find_from :: "bytes \<Rightarrow> bytes \<Rightarrow> nat \<Rightarrow> nat option" where
  "find_from pat s pos = (if pos \<le> length s then map_option (\<lambda>i. pos + i) (find_sub pat (drop pos s)) else None)"

text \<open>\<open>s.substr(pos, count)\<close>, where a count of \<^const>\<open>None\<close> reaches to the end.\<close>

definition substr :: "bytes \<Rightarrow> nat \<Rightarrow> nat option \<Rightarrow> bytes outcome" where
  "substr s pos count =
     (if pos \<le> length s then Inr (case count of None \<Rightarrow> drop pos s | Some n \<Rightarrow> take n (drop pos s)) else Inl OutOfRange)"

section \<open>Reading a number\<close>

definition digits_value :: "bytes \<Rightarrow> nat" where
  "digits_value ds = foldl (\<lambda>acc c. acc * 10 + (unat c - 48)) 0 ds"

definition stoi :: "bytes \<Rightarrow> int outcome" where
  "stoi s =
     (let t = dropWhile isspace (c_str s);
          neg = (t \<noteq> [] \<and> hd t = 45);
          t = (if t \<noteq> [] \<and> (hd t = 45 \<or> hd t = 43) then tl t else t);
          ds = takeWhile isdigit t;
          v = (if neg then - int (digits_value ds) else int (digits_value ds))
      in if ds = [] then Inl InvalidArgument
         else if v < - 2147483648 \<or> 2147483647 < v then Inl OutOfRange
         else Inr v)"

section \<open>Facts\<close>

lemma starts_with_append [simp]: "starts_with pat (pat @ s)"
  by (simp add: starts_with_def)

lemma starts_with_iff: "starts_with pat s \<longleftrightarrow> (\<exists>t. s = pat @ t)"
  by (metis append_take_drop_id starts_with_def starts_with_append)

lemma find_sub_here: "find_sub pat (pat @ s) = Some 0"
  by (cases "pat @ s") (simp_all flip: append_Cons, metis starts_with_append)

lemma find_sub_sound: "find_sub pat s = Some i \<Longrightarrow> i \<le> length s \<and> starts_with pat (drop i s)"
  by (induction s arbitrary: i) (auto simp: starts_with_def split: if_splits)

lemma find_sub_first: "find_sub pat s = Some i \<Longrightarrow> j < i \<Longrightarrow> \<not> starts_with pat (drop j s)"
proof (induction s arbitrary: i j)
  case (Cons c s)
  then show ?case by (cases j) (auto split: if_splits)
qed (simp split: if_splits)

lemma find_sub_None: "find_sub pat s = None \<longleftrightarrow> (\<forall>j \<le> length s. \<not> starts_with pat (drop j s))"
proof (induction s)
  case (Cons c s)
  have "(\<forall>j \<le> length (c # s). \<not> starts_with pat (drop j (c # s))) \<longleftrightarrow>
      \<not> starts_with pat (c # s) \<and> (\<forall>j \<le> length s. \<not> starts_with pat (drop j s))"
    by (metis Suc_le_mono drop0 drop_Suc_Cons le0 length_Cons not0_implies_Suc)
  then show ?case using Cons by simp
qed (auto simp: starts_with_def)

text \<open>The first character of the pattern does not occur before.\<close>

lemma find_sub_skip: "c \<notin> set s \<Longrightarrow> find_sub (c # pat) (s @ t) = map_option (\<lambda>i. length s + i) (find_sub (c # pat) t)"
proof (induction s)
  case (Cons a s)
  then show ?case by (cases "find_sub (c # pat) t") (auto simp: starts_with_def)
qed (cases "find_sub (c # pat) t", simp_all)

lemma find_from_skip:
  assumes "c \<notin> set mid"
  shows "find_from (c # pat) (pre @ mid @ (c # pat) @ t) (length pre) = Some (length pre + length mid)"
  using find_sub_skip [OF assms, of pat "(c # pat) @ t"] find_sub_here [of "c # pat" t] by (simp add: find_from_def)

lemma substr_mid [simp]: "substr (pre @ mid @ post) (length pre) (Some (length mid)) = Inr mid"
  by (simp add: substr_def)

lemma substr_rest [simp]: "substr (pre @ post) (length pre) None = Inr post"
  by (simp add: substr_def)

lemma digits_value_print: "digits_value (print_nat n) = n"
proof (induction n rule: print_nat.induct)
  case (1 n)
  show ?case
  proof (cases "n < 10")
    case False
    then have "digits_value (print_nat n) = digits_value (print_nat (n div 10)) * 10 + n mod 10"
      by (subst print_nat.simps) (simp add: digits_value_def unat_digit_char)
    then show ?thesis using 1 False by simp
  qed (subst print_nat.simps, simp add: digits_value_def unat_digit_char)
qed

lemma print_nat_set: "c \<in> set (print_nat n) \<Longrightarrow> isdigit c"
  using print_nat_digits [of n] by (simp add: list_all_iff)

text \<open>\<open>stoi\<close> reads back what \<open>to_string\<close> wrote, as long as an \<open>int\<close> holds it.\<close>

lemma stoi_print:
  assumes "t = [] \<or> \<not> isdigit (hd t)" "0 \<notin> set t"
  shows "stoi (print_nat n @ t) = (if n < 2147483648 then Inr (int n) else Inl OutOfRange)"
proof -
  have "0 \<notin> set (print_nat n)" using print_nat_set [of 0 n] by (auto simp: isdigit_def word_le_nat_alt)
  then have "c_str (print_nat n @ t) = print_nat n @ t"
    using assms(2) unfolding c_str_def by (auto simp: takeWhile_eq_all_conv)
  moreover obtain d ds where d: "print_nat n = d # ds" "isdigit d" using print_nat_head by blast
  moreover have "takeWhile isdigit (print_nat n @ t) = print_nat n"
    using assms(1) print_nat_set [of _ n] by (cases t) (simp_all add: takeWhile_append)
  ultimately show ?thesis using digit_not_space [OF d(2)] digits_value_print [of n] by (simp add: stoi_def Let_def)
qed

end
