(* ===== verification/Multicast_Test_Server.thy ===== *)
theory Multicast_Test_Server
  imports Server_Events Std_String
begin

text \<open>
  The two test servers for multicast, \<open>src/udp_multicast_test_server/multicast_server.cpp\<close> and
  \<open>src/multicast_test_server/multicast_server.cpp\<close>. The global variables are the record \<open>mts\<close>. The counters are
  \<open>uint64_t\<close>; a point in time is a number of nanoseconds. \<open>report\<close> prints the counters and rates computed from them; the
  numbers it starts from are its result, the floating-point rates are left out, as is all other output.
  The reporting thread is the step \<open>mts_report\<close>.
\<close>

section \<open>Counters\<close>

record perf =
  ps_total_msgs :: u64
  ps_total_bytes :: u64
  ps_start_time :: int
  ps_last_report_time :: int

definition perf_new :: perf where
  "perf_new = \<lparr>ps_total_msgs = 0, ps_total_bytes = 0, ps_start_time = 0, ps_last_report_time = 0\<rparr>"

definition perf_reset :: "int \<Rightarrow> perf \<Rightarrow> perf" where
  "perf_reset now p = p\<lparr>ps_total_msgs := 0, ps_total_bytes := 0, ps_start_time := now, ps_last_report_time := now\<rparr>"

text \<open>Messages, bits and nanoseconds since the last report.\<close>

definition perf_report :: "int \<Rightarrow> perf \<Rightarrow> (u64 \<times> u64 \<times> int) \<times> perf" where
  "perf_report now p =
     ((ps_total_msgs p, ps_total_bytes p * 8, now - ps_last_report_time p),
      p\<lparr>ps_total_msgs := 0, ps_total_bytes := 0, ps_last_report_time := now\<rparr>)"

definition perf_count :: "bytes \<Rightarrow> perf \<Rightarrow> perf" where
  "perf_count msg p = p\<lparr>ps_total_msgs := ps_total_msgs p + 1, ps_total_bytes := ps_total_bytes p + of_nat (length msg)\<rparr>"

section \<open>The UDP multicast server\<close>

record mts =
  ms_perf :: perf
  ms_client_info :: "bytes std_map"
  ms_group_id :: u32
  ms_address :: bytes
  ms_port :: u16
  ms_reliable :: bool
  ms_server :: server

text \<open>The text that tells a client where the group is.\<close>

definition multicast_info :: "bytes \<Rightarrow> u16 \<Rightarrow> u32 \<Rightarrow> bytes" where
  "multicast_info addr port group_id =
     ascii ''MULTICAST:'' @ addr @ ascii '':'' @ print_nat (unat port) @ ascii '':'' @ print_u32 group_id"

definition mts_event_callback ::
    "allocator \<Rightarrow> (bytes \<Rightarrow> mc_endpoint \<Rightarrow> bool) \<Rightarrow> u32 \<Rightarrow> eEventType \<Rightarrow> bytes option \<Rightarrow> mts \<Rightarrow> mts outcome" where
  "mts_event_callback alloc msock conv event_type msg g =
     (case event_type of
        eConnect \<Rightarrow>
          let client_id = (case msg of Some m \<Rightarrow> m | None \<Rightarrow> ascii ''unknown'');
              g = g\<lparr>ms_client_info := map_put conv client_id (ms_client_info g)\<rparr>
          in if ms_group_id g \<noteq> 0
             then bindE (server_send_msg alloc conv (multicast_info (ms_address g) (ms_port g) (ms_group_id g)) (ms_server g))
                    (\<lambda>(_, s). Inr (g\<lparr>ms_server := s\<rparr>))
             else Inr g
      | eDisconnect \<Rightarrow> Inr (g\<lparr>ms_client_info := map_erase conv (ms_client_info g)\<rparr>)
      | eRcvMsg \<Rightarrow>
          (case msg of
             None \<Rightarrow> Inr g
           | Some m \<Rightarrow>
               let g = g\<lparr>ms_perf := perf_count m (ms_perf g)\<rparr>
               in if ms_group_id g \<noteq> 0 \<and> find_from (ascii ''echo:'') m 0 = Some 0
                  then bindE (substr m 5 None) (\<lambda>echo_msg.
                       if ms_reliable g
                       then Inr (g\<lparr>ms_server := send_reliable_msg_to_multicast_group msock (ms_group_id g) (Some echo_msg) (ms_server g)\<rparr>)
                       else Inr (g\<lparr>ms_server := send_msg_to_multicast_group msock (ms_group_id g) (Some echo_msg) (ms_server g)\<rparr>))
                  else Inr g)
      | _ \<Rightarrow> Inr g)"

text \<open>\<open>main\<close> reads address and port of the group out of the text that describes it.\<close>

definition parse_group_info :: "bytes \<Rightarrow> mts \<Rightarrow> mts outcome" where
  "parse_group_info group_info g =
     (case (find_from (ascii ''Multicast Address: '') group_info 0, find_from (ascii ''Port: '') group_info 0) of
        (Some addr_pos, Some port_pos) \<Rightarrow>
          let addr_pos = addr_pos + 19;
              addr_end = find_from [10] group_info addr_pos
          in bindE (substr group_info addr_pos (map_option (\<lambda>e. e - addr_pos) addr_end)) (\<lambda>addr.
             let g = g\<lparr>ms_address := addr\<rparr>;
                 port_pos = port_pos + 6;
                 port_end = find_from [10] group_info port_pos
             in bindE (substr group_info port_pos (map_option (\<lambda>e. e - port_pos) port_end)) (\<lambda>port.
                bindE (stoi port) (\<lambda>v. Inr (g\<lparr>ms_port := of_int v\<rparr>))))
      | _ \<Rightarrow> Inr g)"

definition mts_globals :: mts where
  "mts_globals =
     \<lparr>ms_perf = perf_new, ms_client_info = [], ms_group_id = 0, ms_address = [], ms_port = 0, ms_reliable = False,
      ms_server = server_new\<rparr>"

text \<open>\<open>main\<close> up to \<open>io_service.run\<close>: \<open>Inl\<close> the exit code, also where an exception was caught, or the state the event loop
  starts from. \<open>argv\<close> is the list of arguments behind the program name. \<open>bound\<close> says whether the server can be made on
  an address and port: when its socket cannot be opened or bound the constructor throws, and \<open>main\<close> returns 0.\<close>

definition mts_start :: "(bytes \<Rightarrow> ip_address option) \<Rightarrow> bool \<Rightarrow> draws \<Rightarrow> int \<Rightarrow> bytes \<Rightarrow> u16 \<Rightarrow> mts \<Rightarrow> int + mts" where
  "mts_start from_string sockopt rnd now multicast_addr multicast_port g =
     (let s = server_set_callback True server_new;
          (group_id, s) = create_multicast_group from_string sockopt rnd multicast_addr multicast_port s;
          g = g\<lparr>ms_server := s, ms_group_id := group_id\<rparr>
      in if group_id = 0 then Inl 1
         else case parse_group_info (get_multicast_group_info group_id s) g of
                Inl _ \<Rightarrow> Inl 0
              | Inr g \<Rightarrow> Inr (g\<lparr>ms_perf := perf_reset now (ms_perf g)\<rparr>))"

definition mts_main ::
    "(bytes \<Rightarrow> bytes \<Rightarrow> bool) \<Rightarrow> (bytes \<Rightarrow> ip_address option) \<Rightarrow> bool \<Rightarrow> draws \<Rightarrow> int \<Rightarrow> bytes list \<Rightarrow> int + mts" where
  "mts_main bound from_string sockopt rnd now argv =
     (if length argv < 2 then Inl 1
      else
        let given = (if length argv \<ge> 4 then bindE (stoi (argv ! 3)) (\<lambda>v. Inr (argv ! 2, of_int v)) else Inr ([], 0));
            g = mts_globals\<lparr>ms_reliable := length argv \<ge> 5 \<and> argv ! 4 = ascii ''1''\<rparr>
        in case given of
             Inl _ \<Rightarrow> Inl 0
           | Inr (multicast_addr, multicast_port) \<Rightarrow>
               if \<not> bound (argv ! 0) (argv ! 1) then Inl 0
               else mts_start from_string sockopt rnd now multicast_addr multicast_port g)"

section \<open>Its event loop\<close>

fun mts_callbacks ::
    "allocator \<Rightarrow> (bytes \<Rightarrow> mc_endpoint \<Rightarrow> bool) \<Rightarrow> (u32 \<times> eEventType \<times> bytes) list \<Rightarrow> mts \<Rightarrow> mts outcome" where
  "mts_callbacks alloc msock [] g = Inr g"
| "mts_callbacks alloc msock ((conv, t, msg) # evs) g =
     bindE (mts_event_callback alloc msock conv t (Some msg) g) (mts_callbacks alloc msock evs)"

abbreviation mts_conns :: "mts \<Rightarrow> connection_manager" where
  "mts_conns g \<equiv> sv_connections (ms_server g)"

definition mts_handled :: "allocator \<Rightarrow> (bytes \<Rightarrow> mc_endpoint \<Rightarrow> bool) \<Rightarrow> connection_manager \<Rightarrow> mts \<Rightarrow> mts outcome" where
  "mts_handled alloc msock m g =
     mts_callbacks alloc msock (drop (length (h_events (mts_conns g))) (h_events m))
       (g\<lparr>ms_server := (ms_server g)\<lparr>sv_connections := m\<rparr>\<rparr>)"

inductive mts_step :: "mts \<Rightarrow> mts \<Rightarrow> bool" where
  mts_recv: "m_recv_armed (mts_conns g) \<Longrightarrow> alloc_bounded alloc \<Longrightarrow>
     handle_udp_receive_from alloc sock error d ep (mts_conns g) = Inr m \<Longrightarrow> mts_handled alloc msock m g = Inr g' \<Longrightarrow> mts_step g g'"
| mts_tick: "m_timer_armed (mts_conns g) \<Longrightarrow> distinct order \<Longrightarrow> set order = dom (m_connections (mts_conns g)) \<Longrightarrow>
     handle_kcp_time sock tv order (mts_conns g) = Inr m \<Longrightarrow> mts_handled alloc msock m g = Inr g' \<Longrightarrow> mts_step g g'"
| mts_report: "mts_step g (g\<lparr>ms_perf := snd (perf_report now (ms_perf g))\<rparr>)"

section \<open>Finding the group in its description\<close>

lemma find_after:
  assumes "c \<notin> set pre" shows "find_from (c # pat) (pre @ (c # pat) @ t) 0 = Some (length pre)"
  using find_from_skip [OF assms, of pat "[]" t] by simp

lemma digits_only: "c \<in> set (print_nat n) \<Longrightarrow> 48 \<le> c \<and> c \<le> 57"
  using print_nat_set [of c n] by (simp add: isdigit_def)

lemma address_chars: "c \<in> set (address_to_string (V4 a)) \<Longrightarrow> c = 46 \<or> 48 \<le> c \<and> c \<le> 57"
  by (auto dest: digits_only)

lemma parse_described_group:
  fixes id rest :: bytes and port :: u16
  assumes "\<forall>c \<in> set id. 48 \<le> c \<and> c \<le> 57" "10 \<notin> set addr" "80 \<notin> set addr"
  shows "parse_group_info (ascii ''Group ID: '' @ id @ [10] @ ascii ''Multicast Address: '' @ addr @ [10]
       @ ascii ''Port: '' @ print_nat (unat port) @ [10] @ rest) g = Inr (g\<lparr>ms_address := addr, ms_port := port\<rparr>)"
proof -
  let ?addr = addr and ?port = "print_nat (unat port)"
  let ?A = "ascii ''Group ID: '' @ id @ [10]" and ?M = "ascii ''Multicast Address: ''" and ?P = "ascii ''Port: ''"
  let ?B = "?A @ ?M @ ?addr @ [10]"
  let ?info = "?A @ ?M @ ?addr @ [10] @ ?P @ ?port @ [10] @ rest"
  have M: "?M = 77 # tl ?M" and P: "?P = 80 # tl ?P" by (simp_all add: ascii_def)
  have texts: "77 \<notin> set (ascii ''Group ID: '')" "80 \<notin> set (ascii ''Group ID: '')" "80 \<notin> set ?M" "length ?M = 19" "length ?P = 6"
    by (simp_all add: ascii_def)
  have "77 \<notin> set ?A" "80 \<notin> set ?A" using texts assms(1) by (auto simp: word_le_nat_alt)
  then have noP: "80 \<notin> set ?B" using texts assms(3) by auto
  have i1: "find_from ?M ?info 0 = Some (length ?A)"
    using find_after [OF \<open>77 \<notin> set ?A\<close>, of "tl ?M" "?addr @ [10] @ ?P @ ?port @ [10] @ rest"] M by simp
  have i2: "find_from ?P ?info 0 = Some (length ?B)"
    using find_after [OF noP, of "tl ?P" "?port @ [10] @ rest"] P by simp
  have e1: "find_from [10] ?info (length (?A @ ?M)) = Some (length (?A @ ?M) + length ?addr)"
    using find_from_skip [of 10 ?addr "[]" "?A @ ?M" "?P @ ?port @ [10] @ rest"] assms(2) by auto
  have e2: "find_from [10] ?info (length (?B @ ?P)) = Some (length (?B @ ?P) + length ?port)"
    using find_from_skip [of 10 ?port "[]" "?B @ ?P" rest] digits_only [of 10 "unat port"] by auto
  have s1: "substr ?info (length (?A @ ?M)) (Some (length ?addr)) = Inr ?addr"
    using substr_mid [of "?A @ ?M" ?addr "[10] @ ?P @ ?port @ [10] @ rest"] by simp
  have s2: "substr ?info (length (?B @ ?P)) (Some (length ?port)) = Inr ?port"
    using substr_mid [of "?B @ ?P" ?port "[10] @ rest"] by simp
  have "uint port < 65536" using uint_bounded [of port] by simp
  then have "unat port < 65536" by (simp only: unat_eq_nat_uint nat_less_iff uint_nonnegative)
  then have v: "stoi ?port = Inr (int (unat port))" "(of_int (int (unat port)) :: u16) = port"
    using stoi_print [of "[]" "unat port"] by simp_all
  have lens: "length ?A + 19 = length (?A @ ?M)" "length ?B + 6 = length (?B @ ?P)" using texts by simp_all
  have "parse_group_info ?info g = Inr (g\<lparr>ms_address := ?addr, ms_port := port\<rparr>)"
    unfolding parse_group_info_def i1 i2 prod.case option.case lens Let_def e1 e2
    by (simp only: option.map add_diff_cancel_left' s1 s2 bindE_simps v)
  then show ?thesis by simp
qed

lemma parse_group:
  assumes "map_of (mm_groups mm) group_id = Some grp" "fst (g_endpoint grp) = V4 a"
  shows "parse_group_info (get_group_info mm group_id) g =
    Inr (g\<lparr>ms_address := address_to_string (fst (g_endpoint grp)), ms_port := snd (g_endpoint grp)\<rparr>)"
  unfolding get_group_info_def assms option.case
  by (rule parse_described_group)
    (use digits_only address_chars [of 10 a] address_chars [of 80 a] in \<open>auto simp: print_u32_def simp del: address_to_string.simps\<close>)

lemma parse_keeps:
  assumes "parse_group_info info g = Inr g'"
  shows "ms_server g' = ms_server g \<and> ms_group_id g' = ms_group_id g \<and> ms_client_info g' = ms_client_info g"
  using assms by (auto simp: parse_group_info_def Let_def bindE_Inr_iff split: option.splits)

text \<open>A server that got as far as its event loop has a group, and has read its address and port when the address is an
  IPv4 address.\<close>

lemma mts_start_group:
  assumes "mts_start from_string sockopt rnd now addr port g0 = Inr g"
  shows "\<exists>grp. ms_group_id g = 1 \<and> map_of (mm_groups (sv_multicast (ms_server g))) (ms_group_id g) = Some grp \<and> g_open grp \<and>
    (\<forall>a. fst (g_endpoint grp) = V4 a \<longrightarrow> ms_address g = address_to_string (V4 a) \<and> ms_port g = snd (g_endpoint grp)) \<and>
    ms_client_info g = ms_client_info g0 \<and> sv_connections (ms_server g) = sv_connections (server_set_callback True server_new)"
proof -
  obtain group_id s where c: "create_multicast_group from_string sockopt rnd addr port (server_set_callback True server_new) = (group_id, s)"
    by fastforce
  define g1 where "g1 = g0\<lparr>ms_server := s, ms_group_id := group_id\<rparr>"
  have id: "group_id \<noteq> 0" using assms c by (auto simp: mts_start_def split: if_splits)
  have new: "mm_groups (sv_multicast (server_set_callback True server_new)) = []"
    "mm_next_group_id (sv_multicast (server_set_callback True server_new)) = 1"
    by (simp_all add: server_set_callback_def server_new_def mc_manager_new_def)
  obtain grp where grp: "map_of (mm_groups (sv_multicast s)) group_id = Some grp" "g_open grp" "group_id = 1"
    "sv_connections s = sv_connections (server_set_callback True server_new)"
    using c id new by (fastforce simp: create_multicast_group_def create_group_def init_group_socket_def Let_def mc_group_new_def
        split: prod.splits if_splits option.splits)
  obtain g2 where g2: "parse_group_info (get_multicast_group_info group_id s) g1 = Inr g2" "g = g2\<lparr>ms_perf := perf_reset now (ms_perf g2)\<rparr>"
    using assms c id by (auto simp: mts_start_def g1_def Let_def split: sum.splits)
  have keep: "ms_server g2 = s \<and> ms_group_id g2 = group_id \<and> ms_client_info g2 = ms_client_info g0"
    using parse_keeps [OF g2(1)] by (simp add: g1_def)
  have "ms_address g2 = address_to_string (V4 a) \<and> ms_port g2 = snd (g_endpoint grp)" if "fst (g_endpoint grp) = V4 a" for a
    using g2(1) parse_group [OF grp(1) that, of g1] that unfolding get_multicast_group_info_def by auto
  then show ?thesis using grp keep g2(2) by auto
qed

lemma mts_main_start:
  assumes "mts_main bound from_string sockopt rnd now argv = Inr g"
  shows "\<exists>addr port g0. ms_client_info g0 = [] \<and> mts_start from_string sockopt rnd now addr port g0 = Inr g"
proof -
  obtain addr port where "mts_start from_string sockopt rnd now addr port
      (mts_globals\<lparr>ms_reliable := length argv \<ge> 5 \<and> argv ! 4 = ascii ''1''\<rparr>) = Inr g"
    using assms by (auto simp: mts_main_def Let_def split: if_splits sum.splits)
  then show ?thesis by (intro exI conjI) (auto simp: mts_globals_def)
qed

text \<open>It gets there when the address is well-formed and its socket can be opened.\<close>

lemma mts_start_total:
  assumes "from_string (if addr = [] \<or> port = 0 then fst (generate_multicast_address rnd) else addr) = Some (V4 a)" "sockopt"
  shows "\<exists>g. mts_start from_string sockopt rnd now addr port g0 = Inr g"
proof -
  obtain k s where c: "create_multicast_group from_string sockopt rnd addr port (server_set_callback True server_new) = (k, s)" by fastforce
  then have "k = 1 \<and> (\<exists>grp. map_of (mm_groups (sv_multicast s)) k = Some grp \<and> fst (g_endpoint grp) = V4 a)"
    using assms by (auto simp: create_multicast_group_def create_group_def init_group_socket_def Let_def server_set_callback_def
        server_new_def mc_manager_new_def split: prod.splits if_splits option.splits)
  then obtain grp where "k = 1" "map_of (mm_groups (sv_multicast s)) k = Some grp" "fst (g_endpoint grp) = V4 a" by blast
  then show ?thesis using c parse_group [of "sv_multicast s" k grp a]
    by (simp add: mts_start_def Let_def get_multicast_group_info_def)
qed

section \<open>Nobody is told\<close>

text \<open>The library raises no \<open>eConnect\<close> (theory \<open>Server_Events\<close>), so a callback finds nothing to announce.\<close>

lemma mts_callback_quiet:
  assumes "mts_event_callback alloc msock conv t msg g = Inr g'" "t \<noteq> eConnect" "ms_client_info g = []"
  shows "ms_client_info g' = [] \<and> mts_conns g' = mts_conns g"
proof -
  have mc: "sv_connections (send_reliable_msg_to_multicast_group msock k m s) = sv_connections s"
    "sv_connections (send_msg_to_multicast_group msock k m s) = sv_connections s" for k m s
    by (simp_all add: send_reliable_msg_to_multicast_group_def send_msg_to_multicast_group_def split: option.split)
  show ?thesis
  proof (cases t)
    case eRcvMsg
    then show ?thesis using assms(1,3)
      by (auto simp: mts_event_callback_def Let_def bindE_Inr_iff mc split: option.splits if_splits)
  qed (use assms in \<open>auto simp: mts_event_callback_def map_erase_def\<close>)
qed

lemma mts_callbacks_quiet:
  "mts_callbacks alloc msock evs g = Inr g' \<Longrightarrow> \<forall>e \<in> set evs. fst (snd e) \<noteq> eConnect \<Longrightarrow> ms_client_info g = [] \<Longrightarrow>
     ms_client_info g' = [] \<and> mts_conns g' = mts_conns g"
proof (induction evs arbitrary: g)
  case (Cons e evs)
  obtain conv t msg where e: "e = (conv, t, msg)" by (cases e)
  obtain g1 where g1: "mts_event_callback alloc msock conv t (Some msg) g = Inr g1" "mts_callbacks alloc msock evs g1 = Inr g'"
    using Cons.prems(1) e by (auto simp: bindE_Inr_iff)
  have "ms_client_info g1 = []" "mts_conns g1 = mts_conns g" using mts_callback_quiet [OF g1(1)] Cons.prems(2,3) e by simp_all
  then show ?case using Cons.IH [OF g1(2)] Cons.prems(2) by simp
qed simp

text \<open>An engine that was never given a message: it is the sender of a network on which nothing was sent.\<close>

definition never_sent :: "IKCPCB \<Rightarrow> bool" where
  "never_sent k \<longleftrightarrow> (\<exists>b w. net_inv \<lparr>n_a = k, n_b = b, n_wire = w, n_sent = [], n_got = []\<rparr>)"

lemma never_sent_empty: "never_sent k \<Longrightarrow> k_snd_queue k = [] \<and> k_snd_buf k = []"
  by (cases "k_snd_buf k") (auto simp: never_sent_def net_inv_def net_log_def msg_log_def snd_log_def logged_def at_pos_def)

lemma never_sent_ready: "ready_kcp k \<Longrightarrow> never_sent k"
  using net.init_inv [of "\<lparr>n_a = k, n_b = k, n_wire = {}, n_sent = [], n_got = []\<rparr>"]
  by (auto simp: never_sent_def net_init_def)

lemma never_sent_steps:
  assumes "never_sent k"
  shows "alloc_bounded alloc \<Longrightarrow> ikcp_input alloc k data sz = Some (r, k') \<Longrightarrow> never_sent k'"
    "ikcp_recv k buffer len = Some (n, out, k') \<Longrightarrow> never_sent k'"
    "ikcp_update k current = Some (k', outs) \<Longrightarrow> never_sent k'"
proof -
  obtain b w where inv: "net_inv \<lparr>n_a = k, n_b = b, n_wire = w, n_sent = [], n_got = []\<rparr>" using assms by (auto simp: never_sent_def)
  show "never_sent k'" if "alloc_bounded alloc" "ikcp_input alloc k data sz = Some (r, k')"
    using net.step_inv [OF inv net_back [OF that(1)], of data sz r k'] that(2) by (auto simp: never_sent_def)
  show "never_sent k'" if "ikcp_recv k buffer len = Some (n, out, k')"
    using net.step_inv [OF inv net_read, of buffer len n out k'] that by (auto simp: never_sent_def)
  show "never_sent k'" if "ikcp_update k current = Some (k', outs)"
    using net.step_inv [OF inv net_flush, of current k' outs] that by (auto simp: never_sent_def)
qed

definition all_silent :: "connection_manager \<Rightarrow> bool" where
  "all_silent m \<longleftrightarrow> (\<forall>conv c. m_connections m conv = Some c \<longrightarrow> never_sent (the (c_kcp c)))"

lemma silent_receive:
  assumes "manager_inv m" "all_silent m" "alloc_bounded alloc" "handle_udp_receive_from alloc sock error d ep m = Inr m'"
  shows "all_silent m'"
  unfolding all_silent_def
proof (intro allI impI)
  fix conv c'
  assume c': "m_connections m' conv = Some c'"
  show "never_sent (the (c_kcp c'))"
  proof (cases "is_connect_packet d (length d) \<and> conv = m_cur_conv m + 1 \<or> m_connections m conv = None")
    case True
    have "m_connections m conv = Some c' \<or> (\<exists>kcp. c_kcp c' = Some kcp \<and> ready_kcp kcp)"
      using connect_new [OF assms(1,3,4) True c'] .
    then show ?thesis using assms(2) never_sent_ready by (auto simp: all_silent_def)
  next
    case False
    then obtain c where c: "m_connections m conv = Some c" by blast
    have old: "never_sent (the (c_kcp c))" using assms(2) c by (auto simp: all_silent_def)
    have takes: "never_sent kcp'" if "takes_datagram alloc d (the (c_kcp c)) got kcp'" for got kcp'
    proof -
      obtain r k1 n out where "ikcp_input alloc (the (c_kcp c)) (Some d) (int (length d)) = Some (r, k1)"
        "ikcp_recv k1 True (1024 * 1000) = Some (n, out, kcp')"
        using \<open>takes_datagram _ _ _ _ _\<close> unfolding takes_datagram_def by blast
      then show ?thesis using never_sent_steps(2) [OF never_sent_steps(1) [OF old assms(3)]] by blast
    qed
    have "is_connect_packet d (length d) \<longrightarrow> m_cur_conv m + 1 \<noteq> conv" using False by auto
    from receive_for [OF assms(1,3,4) c this] show ?thesis using old takes c' by (elim disjE conjE exE) auto
  qed
qed

lemma silent_tick:
  assumes "manager_inv m" "all_silent m" "distinct order" "set order = dom (m_connections m)" "handle_kcp_time sock tv order m = Inr m'"
  shows "all_silent m'"
  unfolding all_silent_def
proof (intro allI impI)
  fix conv c'
  assume c': "m_connections m' conv = Some c'"
  let ?now = "iclock (fst tv) (snd tv)"
  have sw: "swept ?now (conv \<in> dom (m_connections m)) (m_connections m conv) (m_connections m' conv)"
    using handle_kcp_time_result [OF assms(1,3,4,5)] by blast
  then obtain c where c: "m_connections m conv = Some c" using c' by (auto simp: swept_def split: option.splits)
  then have "engine_ran ?now c c'" using sw c' by (auto simp: swept_def domI split: if_splits)
  moreover have "never_sent (the (c_kcp c))" using assms(2) c by (auto simp: all_silent_def)
  ultimately show "never_sent (the (c_kcp c'))" using never_sent_steps(3) by (auto simp: engine_ran_def)
qed

definition mts_quiet :: "mts \<Rightarrow> bool" where
  "mts_quiet g \<longleftrightarrow> manager_inv (mts_conns g) \<and> all_silent (mts_conns g) \<and> ms_client_info g = []"

lemma mts_handled_quiet:
  assumes "mts_quiet g" "manager_inv m" "all_silent m" "events_match (mts_conns g) m evs" "mts_handled alloc msock m g = Inr g'"
  shows "mts_quiet g'"
proof -
  have "drop (length (h_events (mts_conns g))) (h_events m) = evs" using assms(4) by (simp add: events_match_def)
  moreover have "\<forall>e \<in> set evs. fst (snd e) \<noteq> eConnect" using assms(4) by (auto simp: events_match_def)
  ultimately show ?thesis using mts_callbacks_quiet [of alloc msock evs _ g'] assms by (auto simp: mts_handled_def mts_quiet_def)
qed

lemma mts_step_quiet: assumes "mts_quiet g" "mts_step g g'" shows "mts_quiet g'"
proof -
  have q: "manager_inv (mts_conns g)" "all_silent (mts_conns g)" using assms(1) by (simp_all add: mts_quiet_def)
  from assms(2) show ?thesis
  proof cases
    case (mts_recv alloc sock error d ep m msock)
    obtain evs where "events_match (mts_conns g) m evs" using recv_events [OF q(1) mts_recv(2,3)] by blast
    then show ?thesis using mts_handled_quiet [OF assms(1) _ silent_receive [OF q mts_recv(2,3)] _ mts_recv(4)]
      receive_inv [OF q(1) mts_recv(2,3)] by blast
  next
    case (mts_tick order sock tv m alloc msock)
    obtain evs where "events_match (mts_conns g) m evs" using tick_events [OF q(1) mts_tick(2-4)] by blast
    then show ?thesis using mts_handled_quiet [OF assms(1) _ silent_tick [OF q mts_tick(2-4)] _ mts_tick(5)]
      handle_kcp_time_result [OF q(1) mts_tick(2-4)] by blast
  next
    case (mts_report now)
    then show ?thesis using assms(1) by (simp add: mts_quiet_def)
  qed
qed

lemma mts_main_quiet:
  assumes "mts_main bound from_string sockopt rnd now argv = Inr g" shows "mts_quiet g"
proof -
  obtain addr port g0 where "ms_client_info g0 = []" "mts_start from_string sockopt rnd now addr port g0 = Inr g"
    using mts_main_start [OF assms] by blast
  then have "ms_client_info g = []" "mts_conns g = sv_connections (server_set_callback True server_new)"
    using mts_start_group [of from_string sockopt rnd now addr port g0 g] by auto
  then show ?thesis using svr_step_result [OF new_manager_inv svr_callback, of True]
    by (simp add: mts_quiet_def all_silent_def server_set_callback_def server_new_def manager_set_callback_def
        connection_manager_new_def hook_kcp_timer_def hook_udp_async_receive_def)
qed

interpretation mts: step_system "\<lambda>g. mts_main bound from_string sockopt rnd now argv = Inr g" mts_step mts_quiet
  for bound from_string sockopt rnd now argv
  by unfold_locales (rule mts_main_quiet, assumption, rule mts_step_quiet)

end
