(* ===== verification/Group_Test_Server.thy ===== *)
theory Group_Test_Server
  imports Multicast_Test_Server
begin

text \<open>
  The older test server, \<open>src/multicast_test_server/multicast_server.cpp\<close>. It makes its group with
  \<open>create_multicast_group\<close> of \<open>kcp_svr::server\<close>, as the newer one does, but for its members calls
  \<open>add_to_multicast_group\<close>, \<open>remove_from_multicast_group\<close> and \<open>send_msg_to_group\<close>, which that class does not have, so the
  program does not compile. The three are parameters, any functions on the server; \<open>bound\<close>, \<open>from_string\<close>, \<open>sockopt\<close> and
  \<open>rnd\<close> are as in theory \<open>Multicast_Test_Server\<close>.
\<close>

record gts =
  gs_perf :: perf
  gs_client_info :: "bytes std_map"
  gs_group_id :: u32
  gs_server :: server

definition gts_event_callback ::
    "(u32 \<Rightarrow> u32 \<Rightarrow> server \<Rightarrow> server) \<Rightarrow> (u32 \<Rightarrow> u32 \<Rightarrow> server \<Rightarrow> server) \<Rightarrow> (u32 \<Rightarrow> bytes \<Rightarrow> server \<Rightarrow> server) \<Rightarrow>
     u32 \<Rightarrow> eEventType \<Rightarrow> bytes option \<Rightarrow> gts \<Rightarrow> gts" where
  "gts_event_callback add_to remove_from send_group conv event_type msg g =
     (case event_type of
        eConnect \<Rightarrow>
          let client_id = (case msg of Some m \<Rightarrow> m | None \<Rightarrow> ascii ''unknown'');
              g = g\<lparr>gs_client_info := map_put conv client_id (gs_client_info g)\<rparr>
          in if gs_group_id g \<noteq> 0 then g\<lparr>gs_server := add_to (gs_group_id g) conv (gs_server g)\<rparr> else g
      | eDisconnect \<Rightarrow>
          let g = g\<lparr>gs_client_info := map_erase conv (gs_client_info g)\<rparr>
          in if gs_group_id g \<noteq> 0 then g\<lparr>gs_server := remove_from (gs_group_id g) conv (gs_server g)\<rparr> else g
      | eRcvMsg \<Rightarrow>
          (case msg of
             None \<Rightarrow> g
           | Some m \<Rightarrow>
               let g = g\<lparr>gs_perf := perf_count m (gs_perf g)\<rparr>
               in if gs_group_id g \<noteq> 0 \<and> find_from (ascii ''echo:'') m 0 = Some 0
                  then g\<lparr>gs_server := send_group (gs_group_id g) (drop 5 m) (gs_server g)\<rparr>
                  else g)
      | _ \<Rightarrow> g)"

text \<open>\<open>main\<close> up to the event loop, with the arguments behind the program name. A group that cannot be opened has the
  number 0, and the server goes on without it.\<close>

definition gts_main ::
    "(bytes \<Rightarrow> bytes \<Rightarrow> bool) \<Rightarrow> (bytes \<Rightarrow> ip_address option) \<Rightarrow> bool \<Rightarrow> draws \<Rightarrow> int \<Rightarrow> bytes list \<Rightarrow> int + gts" where
  "gts_main bound from_string sockopt rnd now argv =
     (if length argv \<noteq> 2 then Inl 1
      else if \<not> bound (argv ! 0) (argv ! 1) then Inl 0
      else let (group_id, s) = create_multicast_group from_string sockopt rnd [] 0 (server_set_callback True server_new)
           in Inr \<lparr>gs_perf = perf_reset now perf_new, gs_client_info = [], gs_group_id = group_id, gs_server = s\<rparr>)"

text \<open>The reporting thread calls \<open>report\<close> every second.\<close>

definition gts_report :: "int \<Rightarrow> gts \<Rightarrow> (u64 \<times> u64 \<times> int) \<times> gts" where
  "gts_report now g = (case perf_report now (gs_perf g) of (r, p) \<Rightarrow> (r, g\<lparr>gs_perf := p\<rparr>))"

section \<open>The group and the table of clients\<close>

text \<open>The group has number 1 and is open, or there is none.\<close>

lemma gts_group:
  assumes "gts_main bound from_string sockopt rnd now argv = Inr g"
  shows "gs_group_id g = 0 \<and> mm_groups (sv_multicast (gs_server g)) = [] \<or>
    gs_group_id g = 1 \<and> (\<exists>grp. mm_groups (sv_multicast (gs_server g)) = [(1, grp)] \<and> g_open grp)"
  using assms
  by (auto simp: gts_main_def create_multicast_group_def create_group_def init_group_socket_def server_set_callback_def
      server_new_def mc_manager_new_def Let_def split: if_splits prod.splits option.splits)

type_synonym group_event = "u32 \<times> eEventType \<times> bytes option"

text \<open>Who has connected and not disconnected since.\<close>

fun present :: "group_event list \<Rightarrow> u32 set \<Rightarrow> u32 set" where
  "present [] cs = cs"
| "present ((conv, t, msg) # evs) cs =
     present evs (if t = eConnect then insert conv cs else if t = eDisconnect then cs - {conv} else cs)"

lemma gts_clients:
  assumes "map_ok (gs_client_info g)"
  shows "map_ok (gs_client_info (fold (\<lambda>(conv, t, msg). gts_event_callback add_to remove_from send_group conv t msg) evs g)) \<and>
    dom (map_of (gs_client_info (fold (\<lambda>(conv, t, msg). gts_event_callback add_to remove_from send_group conv t msg) evs g))) =
      present evs (dom (map_of (gs_client_info g)))"
  using assms
proof (induction evs arbitrary: g)
  case (Cons e evs)
  obtain conv t msg where e: "e = (conv, t, msg)" by (cases e)
  let ?g = "gts_event_callback add_to remove_from send_group conv t msg g"
  have "gs_client_info ?g = (if t = eConnect then map_put conv (case msg of Some m \<Rightarrow> m | None \<Rightarrow> ascii ''unknown'') (gs_client_info g)
      else if t = eDisconnect then map_erase conv (gs_client_info g) else gs_client_info g)"
    by (cases t) (simp_all add: gts_event_callback_def Let_def split: option.split)
  then have "map_ok (gs_client_info ?g)" "dom (map_of (gs_client_info ?g)) =
      (if t = eConnect then insert conv (dom (map_of (gs_client_info g))) else if t = eDisconnect then dom (map_of (gs_client_info g)) - {conv}
       else dom (map_of (gs_client_info g)))"
    using Cons.prems sm.ok_put sm.ok_erase by (auto simp: dom_def sm.find_put sm.find_erase split: if_splits)
  then show ?case using Cons.IH [of ?g] by (simp add: e)
qed simp

end
