(* ===== verification/Multicast_Test_Client.thy ===== *)
theory Multicast_Test_Client
  imports Kcp_Client Multicast_Client Std_String
begin

text \<open>
  The two test clients for multicast, \<open>src/multicast_test_client/multicast_client.cpp\<close> and
  \<open>src/udp_multicast_test_client/multicast_client.cpp\<close>. The second is the first with counters for multicast messages
  and a multicast client of its own; so the record of its global variables extends that of the first.

  Parameters: the system calls, the clock in nanoseconds, and the numbers the random generator draws. \<open>report\<close> prints
  rates; the integers it starts from are its result. The callbacks run on the events an \<open>update\<close> of the client
  has raised, right behind it: they do not touch the client. Nothing catches an exception in these programs.
\<close>

section \<open>The client without multicast\<close>

record gtc =
  gc_sent_msgs :: u64
  gc_sent_bytes :: u64
  gc_recv_msgs :: u64
  gc_recv_bytes :: u64
  gc_start_time :: int
  gc_last_report_time :: int
  gc_connected :: bool
  gc_running :: bool
  gc_msg_size :: int
  gc_send_interval_ms :: int
  gc_client :: kcp_client

definition gc_globals :: gtc where
  "gc_globals =
     \<lparr>gc_sent_msgs = 0, gc_sent_bytes = 0, gc_recv_msgs = 0, gc_recv_bytes = 0, gc_start_time = 0, gc_last_report_time = 0,
      gc_connected = False, gc_running = True, gc_msg_size = 1024, gc_send_interval_ms = 100, gc_client = kcp_client_new\<rparr>"

definition gc_reset :: "int \<Rightarrow> 'a gtc_scheme \<Rightarrow> 'a gtc_scheme" where
  "gc_reset now g =
     g\<lparr>gc_sent_msgs := 0, gc_sent_bytes := 0, gc_recv_msgs := 0, gc_recv_bytes := 0, gc_start_time := now, gc_last_report_time := now\<rparr>"

definition gc_report :: "int \<Rightarrow> 'a gtc_scheme \<Rightarrow> (u64 \<times> u64 \<times> u64 \<times> u64 \<times> int) \<times> 'a gtc_scheme" where
  "gc_report now g =
     ((gc_sent_msgs g, gc_sent_bytes g * 8, gc_recv_msgs g, gc_recv_bytes g * 8, now - gc_last_report_time g),
      g\<lparr>gc_sent_msgs := 0, gc_sent_bytes := 0, gc_recv_msgs := 0, gc_recv_bytes := 0, gc_last_report_time := now\<rparr>)"

definition alphanum :: bytes where
  "alphanum = ascii ''0123456789ABCDEFGHIJKLMNOPQRSTUVWXYZabcdefghijklmnopqrstuvwxyz''"

text \<open>\<open>draw i\<close> is the number drawn for the \<open>i\<close>-th character; the distribution is over 0 to 61. A negative size becomes
  a huge one in the call of \<open>reserve\<close>.\<close>

definition generate_random_message :: "(nat \<Rightarrow> nat) \<Rightarrow> int \<Rightarrow> bytes outcome" where
  "generate_random_message draw sz =
     (if sz < 0 then Inl LengthError
      else Inr (ascii ''echo:'' @ map (\<lambda>i. alphanum ! draw i) [0 ..< nat (sz - 5)]))"

definition gc_event_callback :: "u32 \<Rightarrow> eEventType \<Rightarrow> bytes \<Rightarrow> 'a gtc_scheme \<Rightarrow> 'a gtc_scheme" where
  "gc_event_callback conv event_type msg g =
     (case event_type of
        eConnect \<Rightarrow> g\<lparr>gc_connected := True\<rparr>
      | eConnectFailed \<Rightarrow> g
      | eDisconnect \<Rightarrow> g\<lparr>gc_connected := False, gc_running := False\<rparr>
      | eRcvMsg \<Rightarrow> g\<lparr>gc_recv_msgs := gc_recv_msgs g + 1, gc_recv_bytes := gc_recv_bytes g + of_nat (length msg)\<rparr>
      | _ \<Rightarrow> g)"

text \<open>\<open>main\<close> up to its loop. \<open>Inl\<close> inside is the exit code. \<open>wait_for\<close> gives the other threads of the process five
  seconds to make \<open>g_connected\<close> true, but there is no other thread: the reporting thread is started later,
  \<open>kcp_client\<close> has none, and the callback that sets the variable is called from \<open>client.update\<close> only. So the wait
  ends with the value the variable has.\<close>

definition gc_connect :: "udp_calls \<Rightarrow> u64 \<Rightarrow> int \<Rightarrow> bytes list \<Rightarrow> 'a gtc_scheme \<Rightarrow> (int + 'a gtc_scheme) outcome" where
  "gc_connect sys clock now argv g =
     (if length argv < 3 then Inr (Inl 1)
      else bindE (stoi (argv ! 0)) (\<lambda>local_port.
           bindE (stoi (argv ! 2)) (\<lambda>server_port.
           bindE (if length argv > 3 then stoi (argv ! 3) else Inr (gc_msg_size g)) (\<lambda>msg_size.
           bindE (if length argv > 4 then stoi (argv ! 4) else Inr (gc_send_interval_ms g)) (\<lambda>interval.
           let g = g\<lparr>gc_msg_size := msg_size, gc_send_interval_ms := interval\<rparr>;
               c = client_set_event_callback kcp_client_new;
               (ret, c) = client_connect_async sys clock local_port (argv ! 1) server_port c;
               g = g\<lparr>gc_client := c\<rparr>
           in if ret < 0 then Inr (Inl 1)
              else if \<not> gc_connected g then Inr (Inl 1)
              else Inr (Inr (gc_reset now g)))))))"

text \<open>The first half of a round of the loop: \<^const>\<open>None\<close> when it is left.\<close>

definition gc_send_round :: "(nat \<Rightarrow> nat) \<Rightarrow> 'a gtc_scheme \<Rightarrow> 'a gtc_scheme option outcome" where
  "gc_send_round draw g =
     (if \<not> gc_running g \<or> \<not> gc_connected g then Inr None
      else bindE (generate_random_message draw (gc_msg_size g)) (\<lambda>msg.
           Inr (Some (g\<lparr>gc_client := client_send_msg msg (gc_client g), gc_sent_msgs := gc_sent_msgs g + 1,
                        gc_sent_bytes := gc_sent_bytes g + of_nat (length msg)\<rparr>))))"

definition gc_update :: "tick \<Rightarrow> 'a gtc_scheme \<Rightarrow> ((u32 \<times> eEventType \<times> bytes) list \<times> 'a gtc_scheme) outcome" where
  "gc_update t g =
     bindE (client_update t (gc_client g)) (\<lambda>c.
     Inr (drop (length (cl_events (gc_client g))) (cl_events c), g\<lparr>gc_client := c\<rparr>))"

definition gc_round :: "tick \<Rightarrow> (nat \<Rightarrow> nat) \<Rightarrow> gtc \<Rightarrow> gtc option outcome" where
  "gc_round t draw g =
     bindE (gc_send_round draw g) (\<lambda>r.
     case r of None \<Rightarrow> Inr None
     | Some g \<Rightarrow> bindE (gc_update t g) (\<lambda>(evs, g).
                 Inr (Some (fold (\<lambda>(conv, ty, msg). gc_event_callback conv ty msg) evs g))))"

section \<open>The client with multicast\<close>

record mtc = gtc +
  mt_recv_msgs :: u64
  mt_recv_bytes :: u64
  mt_addr :: bytes
  mt_port :: u16
  mt_group_id :: u32
  mt_client :: "mc_client option"

definition mt_globals :: mtc where
  "mt_globals = gtc.extend gc_globals
     \<lparr>mt_recv_msgs = 0, mt_recv_bytes = 0, mt_addr = [], mt_port = 0, mt_group_id = 0, mt_client = None\<rparr>"

definition mt_reset :: "int \<Rightarrow> mtc \<Rightarrow> mtc" where
  "mt_reset now g = (gc_reset now g)\<lparr>mt_recv_msgs := 0, mt_recv_bytes := 0\<rparr>"

definition mt_report :: "int \<Rightarrow> mtc \<Rightarrow> ((u64 \<times> u64 \<times> u64 \<times> u64 \<times> int) \<times> u64 \<times> u64) \<times> mtc" where
  "mt_report now g =
     ((fst (gc_report now g), mt_recv_msgs g, mt_recv_bytes g * 8), (snd (gc_report now g))\<lparr>mt_recv_msgs := 0, mt_recv_bytes := 0\<rparr>)"

text \<open>This file has a copy of \<open>generate_random_message\<close>, the same to the letter, and of \<open>main\<close> up to the loop, in which
  \<open>reset\<close> is the one above.\<close>

definition mt_generate_random_message :: "(nat \<Rightarrow> nat) \<Rightarrow> int \<Rightarrow> bytes outcome" where
  "mt_generate_random_message draw sz = generate_random_message draw sz"

definition mt_connect :: "udp_calls \<Rightarrow> u64 \<Rightarrow> int \<Rightarrow> bytes list \<Rightarrow> mtc \<Rightarrow> (int + mtc) outcome" where
  "mt_connect sys clock now argv g =
     bindE (gc_connect sys clock now argv g) (\<lambda>r.
     case r of Inl code \<Rightarrow> Inr (Inl code) | Inr g \<Rightarrow> Inr (Inr (mt_reset now g)))"

definition multicast_message_callback :: "u32 \<Rightarrow> bytes \<Rightarrow> mtc \<Rightarrow> mtc" where
  "multicast_message_callback group_id msg g =
     (if group_id = mt_group_id g
      then g\<lparr>mt_recv_msgs := mt_recv_msgs g + 1, mt_recv_bytes := mt_recv_bytes g + of_nat (length msg)\<rparr>
      else g)"

text \<open>The text \<open>MULTICAST:addr:port:group_id\<close>: its three parts, or \<^const>\<open>None\<close> where a colon is missing. When the second
  search fails the third starts at 0, since \<open>npos + 1\<close> is 0.\<close>

definition parse_multicast_info :: "bytes \<Rightarrow> (bytes \<times> u16 \<times> u32) option outcome" where
  "parse_multicast_info msg =
     (let pos1 = 10;
          pos2 = find_from [58] msg pos1;
          pos3 = find_from [58] msg (case pos2 of None \<Rightarrow> 0 | Some p \<Rightarrow> p + 1)
      in case (pos2, pos3) of
           (Some p2, Some p3) \<Rightarrow>
             bindE (substr msg pos1 (Some (p2 - pos1))) (\<lambda>addr.
             bindE (bindE (substr msg (p2 + 1) (Some (p3 - p2 - 1))) stoi) (\<lambda>port.
             bindE (bindE (substr msg (p3 + 1) None) stoi) (\<lambda>group_id.
             Inr (Some (addr, of_int port, of_int group_id)))))
         | _ \<Rightarrow> Inr None)"

text \<open>Joining: \<open>sys\<close> and \<open>created\<close> are the outcomes of the calls of \<open>join_group\<close> and \<open>start\<close>.\<close>

definition join_announced :: "join_calls \<Rightarrow> bool \<Rightarrow> mtc \<Rightarrow> mtc" where
  "join_announced sys created g =
     (case mt_client g of
        Some _ \<Rightarrow> g
      | None \<Rightarrow>
          let cl = set_message_callback True mc_client_new;
              (r, cl) = join_group sys cl (mt_addr g) (mt_port g) (mt_group_id g)
          in g\<lparr>mt_client := Some (if r = 0 then snd (mc_start created cl) else cl)\<rparr>)"

definition mt_event_callback ::
    "join_calls \<Rightarrow> bool \<Rightarrow> u32 \<Rightarrow> eEventType \<Rightarrow> bytes \<Rightarrow> mtc \<Rightarrow> mtc outcome" where
  "mt_event_callback sys created conv event_type msg g =
     (let g = gc_event_callback conv event_type msg g
      in if event_type = eRcvMsg \<and> find_from (ascii ''MULTICAST:'') msg 0 = Some 0
         then bindE (parse_multicast_info msg) (\<lambda>r.
              case r of None \<Rightarrow> Inr g
              | Some (addr, port, group_id) \<Rightarrow>
                  Inr (join_announced sys created (g\<lparr>mt_addr := addr, mt_port := port, mt_group_id := group_id\<rparr>)))
         else Inr g)"

fun mt_callbacks :: "join_calls \<Rightarrow> bool \<Rightarrow> (u32 \<times> eEventType \<times> bytes) list \<Rightarrow> mtc \<Rightarrow> mtc outcome" where
  "mt_callbacks sys created [] g = Inr g"
| "mt_callbacks sys created ((conv, ty, msg) # evs) g =
     bindE (mt_event_callback sys created conv ty msg g) (mt_callbacks sys created evs)"

definition mt_round :: "tick \<Rightarrow> join_calls \<Rightarrow> bool \<Rightarrow> (nat \<Rightarrow> nat) \<Rightarrow> mtc \<Rightarrow> mtc option outcome" where
  "mt_round t sys created draw g =
     bindE (gc_send_round draw g) (\<lambda>r.
     case r of None \<Rightarrow> Inr None
     | Some g \<Rightarrow> bindE (gc_update t g) (\<lambda>(evs, g). bindE (mt_callbacks sys created evs g) (\<lambda>g. Inr (Some g))))"

text \<open>Behind the loop: \<open>client.stop\<close> does nothing, the multicast client is stopped if there is one.\<close>

definition mt_stop :: "mtc \<Rightarrow> mtc" where
  "mt_stop g = g\<lparr>mt_client := map_option mc_client_stop (mt_client g)\<rparr>"

section \<open>Facts\<close>

lemma generated_message:
  assumes "0 \<le> sz" "\<And>i. draw i < 62"
  shows "\<exists>msg. generate_random_message draw sz = Inr (ascii ''echo:'' @ msg) \<and> length msg = nat (sz - 5) \<and> set msg \<subseteq> set alphanum"
proof -
  have "length alphanum = 62" by (simp add: alphanum_def)
  then have "alphanum ! draw i \<in> set alphanum" for i using assms(2) [of i] by (simp add: nth_mem)
  then show ?thesis using assms(1) by (auto simp: generate_random_message_def)
qed

text \<open>Nobody connects: \<open>main\<close> always ends before its loop, with code 1 or with an exception of \<open>stoi\<close>.\<close>

lemma never_connects:
  assumes "\<not> gc_connected g" shows "\<nexists>g'. gc_connect sys clock now argv g = Inr (Inr g')"
  using assms by (auto simp: gc_connect_def Let_def bindE_Inr_iff split: prod.splits if_splits)

lemma mt_never_connects: "\<nexists>g'. mt_connect sys clock now argv mt_globals = Inr (Inr g')"
proof -
  have "\<not> gc_connected mt_globals" by (simp add: mt_globals_def gc_globals_def gtc.defs)
  from never_connects [OF this] show ?thesis by (auto simp: mt_connect_def bindE_Inr_iff split: sum.splits)
qed

text \<open>The parts of an announcement, where the address has no colon. A group number from $2^{31}$ on is no \<open>int\<close>.\<close>

lemma parse_announcement:
  fixes port :: u16
  assumes "58 \<notin> set addr"
  shows "parse_multicast_info (ascii ''MULTICAST:'' @ addr @ ascii '':'' @ print_nat (unat port) @ ascii '':'' @ print_u32 group_id) =
    (if unat group_id < 2147483648 then Inr (Some (addr, port, group_id)) else Inl OutOfRange)"
proof -
  let ?p = "print_nat (unat port)" and ?g = "print_u32 group_id" and ?M = "ascii ''MULTICAST:''"
  let ?msg = "?M @ addr @ [58] @ ?p @ [58] @ ?g"
  have colon: "58 \<notin> set (print_nat n)" for n using print_nat_set [of 58 n] by (auto simp: isdigit_def)
  have ten: "length ?M = 10" by (simp add: ascii_def)
  have i2: "find_from [58] ?msg (length ?M) = Some (length ?M + length addr)"
    using find_from_skip [OF assms, of "[]" ?M "?p @ [58] @ ?g"] by simp
  have i3: "find_from [58] ?msg (length (?M @ addr @ [58])) = Some (length (?M @ addr @ [58]) + length ?p)"
    using find_from_skip [OF colon, of "[]" "?M @ addr @ [58]" "unat port" ?g] by simp
  have s1: "substr ?msg (length ?M) (Some (length addr)) = Inr addr" by (rule substr_mid)
  have s2: "substr ?msg (length (?M @ addr @ [58])) (Some (length ?p)) = Inr ?p"
    using substr_mid [of "?M @ addr @ [58]" ?p "[58] @ ?g"] by simp
  have s3: "substr ?msg (length (?M @ addr @ [58] @ ?p @ [58])) None = Inr ?g"
    using substr_rest [of "?M @ addr @ [58] @ ?p @ [58]" ?g] by simp
  have "uint port < 65536" using uint_bounded [of port] by simp
  then have "unat port < 65536" by (simp only: unat_eq_nat_uint nat_less_iff uint_nonnegative)
  then have v1: "stoi ?p = Inr (int (unat port))" using stoi_print [of "[]" "unat port"] by simp
  have v2: "stoi ?g = (if unat group_id < 2147483648 then Inr (int (unat group_id)) else Inl OutOfRange)"
    using stoi_print [of "[]" "unat group_id"] by (simp add: print_u32_def)
  have l: "length ?M + length addr + 1 = length (?M @ addr @ [58])"
    "length (?M @ addr @ [58]) + length ?p + 1 = length (?M @ addr @ [58] @ ?p @ [58])"
    "length (?M @ addr @ [58]) + length ?p - (length ?M + length addr) - 1 = length ?p"
    "length ?M + length addr - length ?M = length addr" by simp_all
  have "parse_multicast_info ?msg = (if unat group_id < 2147483648 then Inr (Some (addr, port, group_id)) else Inl OutOfRange)"
    unfolding parse_multicast_info_def Let_def ten [symmetric] i2 option.case l(1) i3 prod.case l s1 s2 s3 bindE_simps v1 v2
    by simp
  then show ?thesis by (simp add: ascii_def)
qed

text \<open>What is read as the address has no colon.\<close>

lemma find_from_first: "find_from [c] s i = Some j \<Longrightarrow> c \<notin> set (take (j - i) (drop i s))"
proof -
  assume "find_from [c] s i = Some j"
  then obtain k where k: "find_sub [c] (drop i s) = Some k" "j = i + k" by (auto simp: find_from_def split: if_splits)
  have "drop i s ! n \<noteq> c" if "n < k" "n < length (drop i s)" for n
    using find_sub_first [OF k(1) that(1)] that(2) by (auto simp: starts_with_def take_Suc_conv_app_nth add.commute)
  then show ?thesis using k(2) by (auto simp: in_set_conv_nth)
qed

lemma parse_no_colon:
  assumes "58 \<in> set addr" "parse_multicast_info msg = Inr (Some (a, port, k))" shows "a \<noteq> addr"
proof -
  have "58 \<notin> set a" using assms(2) find_from_first [of 58 msg 10]
    by (auto simp: parse_multicast_info_def Let_def bindE_Inr_iff substr_def split: option.splits if_splits)
  then show ?thesis using assms(1) by blast
qed

end
