(* ===== verification/Asio_Client.thy ===== *)
theory Asio_Client
  imports Kcp_Client Std_String
begin

text \<open>
  The test client of \<open>src/client_with_asio\<close>: \<open>test_str\<close> makes texts of a given length, each message carries the time
  it was made, and two timers drive a \<open>kcp_client\<close>: one updates it, one sends a test message every second. The time
  of day is a parameter. \<open>size_t\<close> is 64 bits wide. Console output is left out.
\<close>

section \<open>Texts of a given length\<close>

definition count_digits :: "nat \<Rightarrow> nat \<Rightarrow> bytes" where
  "count_digits from to = map (\<lambda>i. digit_char (i mod 10)) [from + 1 ..< to + 1]"

text \<open>\<open>resize(n, c)\<close>.\<close>

definition resize_with :: "nat \<Rightarrow> byte \<Rightarrow> bytes \<Rightarrow> bytes" where
  "resize_with n c s = take n s @ replicate (n - length s) c"

text \<open>One block of the loop, such as \<open>(20_56789)\<close>.\<close>

definition test_str_block :: "bytes \<Rightarrow> bytes" where
  "test_str_block str =
     (let new_len = length str + 10;
          str = str @ ascii ''('' @ print_nat new_len @ ascii ''_'';
          str = str @ count_digits (length str) (new_len - 1)
      in str @ ascii '')'')"

lemma test_str_block_grows: "length str < length (test_str_block str)"
  by (simp add: test_str_block_def Let_def)

function test_str_loop :: "nat \<Rightarrow> bytes \<Rightarrow> bytes" where
  "test_str_loop str_len str = (if length str + 10 \<le> str_len then test_str_loop str_len (test_str_block str) else str)"
  by auto
termination
proof (relation "measure (\<lambda>(n, str). n - length str)")
  fix n and str :: bytes
  assume "length str + 10 \<le> n"
  then show "((n, test_str_block str), (n, str)) \<in> measure (\<lambda>(n, str). n - length str)"
    using test_str_block_grows [of str] by simp
qed simp

declare test_str_loop.simps [simp del]

definition test_str :: "bytes \<Rightarrow> nat \<Rightarrow> bytes" where
  "test_str str_prefix str_len =
     (let str = str_prefix @ ascii '':''
      in if length str \<ge> str_len then take str_len str
         else if str_len < 20 then str @ count_digits (length str) str_len
         else
           let str = resize_with 10 61 str;
               str = test_str_loop str_len str
           in if length str < str_len then str @ count_digits (length str) str_len else str)"

section \<open>Messages with a time\<close>

definition CLOCK_START_STR :: bytes where "CLOCK_START_STR = ascii ''!ha''"
definition CLOCK_INTERVAL_STR :: bytes where "CLOCK_INTERVAL_STR = ascii ''_ha''"
definition SEND_TEST_MSG_INTERVAL :: nat where "SEND_TEST_MSG_INTERVAL = 1000"

definition asio_iclock64 :: "u64 \<Rightarrow> u64 \<Rightarrow> u64" where
  "asio_iclock64 s u = s * 1000 + u div 1000"

text \<open>The length left for the rest is a difference of two \<open>size_t\<close>: it wraps when the size asked for is too small.\<close>

definition make_test_str :: "u64 \<Rightarrow> u64 \<Rightarrow> bytes" where
  "make_test_str clock test_str_size =
     (let msg_str = CLOCK_START_STR @ print_int (sint clock)
      in msg_str @ test_str CLOCK_INTERVAL_STR (unat (test_str_size - of_nat (length msg_str))))"

text \<open>\<open>atoll\<close> of the characters from a position on; a \<open>std::string\<close> has a terminator behind its end.\<close>

definition atoll_at :: "bytes \<Rightarrow> u64" where
  "atoll_at s = (case atol (s @ [0]) of Some v \<Rightarrow> of_int v | None \<Rightarrow> 0)"

definition get_time_from_msg :: "bytes \<Rightarrow> u64 outcome" where
  "get_time_from_msg msg =
     (case find_from CLOCK_INTERVAL_STR msg 0 of
        None \<Rightarrow> Inr 0
      | Some pos \<Rightarrow> bindE (substr msg (length CLOCK_START_STR) (Some pos)) (\<lambda>time_str. Inr (atoll_at time_str)))"

definition search_time_from_kcp_str :: "bytes \<Rightarrow> u64" where
  "search_time_from_kcp_str kcp_str =
     (case find_from CLOCK_INTERVAL_STR kcp_str 0 of
        None \<Rightarrow> 0
      | Some _ \<Rightarrow>
          (case find_from CLOCK_START_STR kcp_str 0 of
             None \<Rightarrow> 0
           | Some start \<Rightarrow> atoll_at (drop (start + length CLOCK_START_STR) kcp_str)))"

section \<open>The client\<close>

text \<open>\<open>g_package_send_counter\<close> and the two pairs of counters are global variables that nothing but
  \<open>print_recv_log\<close> reads or writes; the three static variables of that function are fields as well.\<close>

record asio_client =
  ac_stopped :: bool
  ac_client :: kcp_client
  ac_test_str_size :: u64
  ac_timer_armed :: bool
  ac_send_timer_armed :: bool
  ac_interval :: "u64 list"
  ac_interval10 :: "u64 list"
  ac_interval100 :: "u64 list"
  ac_good_recv_count :: u64
  ac_last_refresh_time :: u64
  ac_recved_bytes :: u64
  ac_send_counter :: "u64 \<rightharpoonup> u64"
  ac_count_send_udp_packet :: u64
  ac_count_send_kcp_packet :: u64
  ac_count_send_udp_size :: u64
  ac_count_send_kcp_size :: u64

definition hook_client_timer :: "asio_client \<Rightarrow> asio_client" where
  "hook_client_timer a = (if ac_stopped a then a else a\<lparr>ac_timer_armed := True\<rparr>)"

definition hook_timer_send_msg :: "asio_client \<Rightarrow> asio_client" where
  "hook_timer_send_msg a = (if ac_stopped a then a else a\<lparr>ac_send_timer_armed := True\<rparr>)"

text \<open>The constructor; the result of \<open>connect_async\<close> is dropped.\<close>

definition asio_client_new :: "udp_calls \<Rightarrow> u64 \<Rightarrow> int \<Rightarrow> bytes \<Rightarrow> int \<Rightarrow> u64 \<Rightarrow> asio_client" where
  "asio_client_new sys now udp_port_bind server_ip server_port test_str_size =
     (let a = \<lparr>ac_stopped = False, ac_client = client_set_event_callback kcp_client_new, ac_test_str_size = test_str_size,
               ac_timer_armed = False, ac_send_timer_armed = False, ac_interval = [], ac_interval10 = [], ac_interval100 = [],
               ac_good_recv_count = 0, ac_last_refresh_time = 0, ac_recved_bytes = 0, ac_send_counter = Map.empty,
               ac_count_send_udp_packet = 0, ac_count_send_kcp_packet = 0, ac_count_send_udp_size = 0, ac_count_send_kcp_size = 0\<rparr>;
          a = hook_client_timer a;
          a = a\<lparr>ac_client := snd (client_connect_async sys now udp_port_bind server_ip server_port (ac_client a))\<rparr>
      in hook_timer_send_msg a)"

definition asio_stop_all :: "asio_client \<Rightarrow> asio_client" where
  "asio_stop_all a = a\<lparr>ac_stopped := True\<rparr>"

definition send_test_msg :: "u64 \<Rightarrow> asio_client \<Rightarrow> asio_client" where
  "send_test_msg clock a = a\<lparr>ac_client := client_send_msg (make_test_str clock (ac_test_str_size a)) (ac_client a)\<rparr>"

definition handle_timer_send_msg :: "u64 \<Rightarrow> asio_client \<Rightarrow> asio_client" where
  "handle_timer_send_msg clock a = hook_timer_send_msg (send_test_msg clock (a\<lparr>ac_send_timer_armed := False\<rparr>))"

definition asio_handle_event :: "u32 \<Rightarrow> eEventType \<Rightarrow> bytes \<Rightarrow> asio_client \<Rightarrow> asio_client" where
  "asio_handle_event conv event_type msg a =
     (case event_type of
        eConnectFailed \<Rightarrow> a\<lparr>ac_stopped := True\<rparr>
      | eDisconnect \<Rightarrow> a\<lparr>ac_stopped := True\<rparr>
      | _ \<Rightarrow> a)"

text \<open>\<open>client_event_callback_func\<close> passes each event of an update on to the handler.\<close>

definition asio_callbacks :: "(u32 \<times> eEventType \<times> bytes) list \<Rightarrow> asio_client \<Rightarrow> asio_client" where
  "asio_callbacks evs a = fold (\<lambda>(conv, event_type, msg). asio_handle_event conv event_type msg) evs a"

definition handle_client_time :: "tick \<Rightarrow> asio_client \<Rightarrow> asio_client outcome" where
  "handle_client_time t a =
     (let a = hook_client_timer (a\<lparr>ac_timer_armed := False\<rparr>)
      in bindE (client_update t (ac_client a)) (\<lambda>c.
         Inr (asio_callbacks (drop (length (cl_events (ac_client a))) (cl_events c)) (a\<lparr>ac_client := c\<rparr>))))"

text \<open>The bookkeeping of \<open>print_recv_log\<close>, which is called from nowhere. The integer divisions it prints fail when
  the divisor is 0.\<close>

definition print_recv_log :: "u64 \<Rightarrow> bytes \<Rightarrow> asio_client \<Rightarrow> asio_client outcome" where
  "print_recv_log cur_time msg a =
     bindE (get_time_from_msg msg) (\<lambda>send_time.
     let interval = cur_time - send_time;
         n = ac_good_recv_count a + 1;
         a = a\<lparr>ac_recved_bytes := ac_recved_bytes a + of_nat (length msg), ac_good_recv_count := n,
               ac_interval := ac_interval a @ [interval], ac_interval10 := ac_interval10 a @ [interval],
               ac_interval100 := ac_interval100 a @ [interval], ac_send_counter := (ac_send_counter a)(send_time := None)\<rparr>;
         a = (if n mod 10 = 0 then a\<lparr>ac_interval10 := []\<rparr> else a);
         a = (if cur_time - ac_last_refresh_time a > 10000 \<and> n mod 100 = 30 \<and> n \<noteq> 30
              then a\<lparr>ac_last_refresh_time := cur_time, ac_recved_bytes := 0\<rparr> else a);
         a = (if n mod 100 = 0 \<and> n \<noteq> 0 then a\<lparr>ac_interval100 := []\<rparr> else a)
     in if n mod 100 = 10 \<and> n \<noteq> 10 \<and> (ac_count_send_kcp_packet a = 0 \<or> ac_count_send_kcp_size a = 0)
        then Inl Aborted else Inr a)"

text \<open>\<open>main\<close> up to \<open>io_service.run()\<close>, with the arguments behind the name of the program. \<open>atoi\<close> cuts the result of \<open>strtol\<close>
  to an \<open>int\<close>; the size of a message becomes a \<open>size_t\<close>.\<close>

definition atoi :: "bytes \<Rightarrow> int" where
  "atoi s = (case atol (s @ [0]) of None \<Rightarrow> 0 | Some v \<Rightarrow> sint (word_of_int v :: i32))"

definition test_kcp :: "udp_calls \<Rightarrow> u64 \<Rightarrow> int \<Rightarrow> bytes \<Rightarrow> int \<Rightarrow> int \<Rightarrow> asio_client" where
  "test_kcp sys now port_bind_to ip port test_msg_size = asio_client_new sys now port_bind_to ip port (word_of_int test_msg_size)"

definition asio_main :: "udp_calls \<Rightarrow> u64 \<Rightarrow> bytes list \<Rightarrow> asio_client process" where
  "asio_main sys now argv =
     (if length argv \<noteq> 4 then Exit 1
      else in_try (Inr (test_kcp sys now (atoi (argv ! 0)) (argv ! 1) (atoi (argv ! 2)) (atoi (argv ! 3)))))"

section \<open>The event loop of the program\<close>

inductive asio_step :: "asio_client \<Rightarrow> asio_client \<Rightarrow> bool" where
  asio_time: "ac_timer_armed a \<Longrightarrow> alloc_bounded (t_alloc t) \<Longrightarrow> handle_client_time t a = Inr a' \<Longrightarrow> asio_step a a'"
| asio_send: "ac_send_timer_armed a \<Longrightarrow> asio_step a (handle_timer_send_msg clock a)"

section \<open>The length of a text\<close>

lemma length_count_digits [simp]: "length (count_digits from to) = to - from"
  unfolding count_digits_def length_map length_upt by arith

lemma block_length:
  assumes "length str + 10 < 10000000" shows "length (test_str_block str) = length str + 10"
proof -
  have "length (print_nat (length str + 10)) \<le> Suc 6" by (rule print_nat_length_aux) (use assms in simp)
  then show ?thesis by (simp add: test_str_block_def Let_def)
qed

lemma loop_length:
  assumes "length str \<le> n" "n < 10000000"
  shows "length (test_str_loop n str) \<le> n \<and> (\<exists>t. test_str_loop n str = str @ t)"
  using assms
proof (induction n str rule: test_str_loop.induct)
  case (1 n str)
  show ?case
  proof (cases "length str + 10 \<le> n")
    case True
    have "length (test_str_block str) = length str + 10" using block_length [of str] True 1(3) by simp
    moreover have "\<exists>t. test_str_block str = str @ t" by (simp add: test_str_block_def Let_def)
    ultimately show ?thesis using 1(1) [OF True] 1(3) True by (subst (1 2) test_str_loop.simps) auto
  qed (use 1(2) in \<open>subst (1 2) test_str_loop.simps, simp\<close>)
qed

lemma test_str_length: "n < 10000000 \<Longrightarrow> length (test_str prefix n) = n"
  using loop_length [of "resize_with 10 61 (prefix @ ascii '':'')" n]
  by (auto simp: test_str_def Let_def resize_with_def)

text \<open>A text of at least three characters starts with a prefix of three.\<close>

lemma test_str_prefix:
  assumes "length prefix = 3" "3 \<le> n" "n < 10000000" shows "\<exists>t. test_str prefix n = prefix @ t"
proof -
  have r: "resize_with 10 61 (prefix @ ascii '':'') = prefix @ ascii '':'' @ replicate 6 61" using assms(1) by (simp add: resize_with_def)
  have "\<exists>t. test_str_loop n (prefix @ ascii '':'' @ replicate 6 61) = prefix @ t" if "20 \<le> n"
    using loop_length [of "prefix @ ascii '':'' @ replicate 6 61" n] assms that by auto
  moreover have "\<exists>t. take n (prefix @ ascii '':'') = prefix @ t" using assms(1,2) by simp
  ultimately show ?thesis unfolding test_str_def Let_def r using assms by auto
qed

section \<open>The time in a message\<close>

lemma time_read:
  fixes clock :: u64
  assumes "0 \<le> sint clock" "c = 95"
  shows "atoll_at (print_int (sint clock) @ c # t) = clock"
proof -
  have "sint clock < 9223372036854775808" using sint_lt [of clock] by simp
  then have "atol (print_nat (nat (sint clock)) @ 95 # t @ [0]) = Some (int (nat (sint clock)))"
    using assms(1) by (intro atol_print_nat) (auto simp: isdigit_def)
  then show ?thesis using assms by (simp add: atoll_at_def print_int_def)
qed

lemma made_msg:
  fixes clock sz :: u64
  assumes "0 \<le> sint clock" "length (print_int (sint clock)) + 6 \<le> unat sz" "unat sz < 10000000"
  shows "\<exists>t. make_test_str clock sz = CLOCK_START_STR @ print_int (sint clock) @ CLOCK_INTERVAL_STR @ t"
    and "length (make_test_str clock sz) = unat sz"
proof -
  let ?m = "CLOCK_START_STR @ print_int (sint clock)"
  have three: "length CLOCK_START_STR = 3" "length CLOCK_INTERVAL_STR = 3" by (simp_all add: CLOCK_START_STR_def CLOCK_INTERVAL_STR_def)
  define k where "k = length ?m"
  have k: "k + 3 \<le> unat sz" "k < 10000000" using assms(2,3) three by (simp_all add: k_def)
  have "unat (of_nat k :: u64) = k" using k(2) by (simp add: unat_of_nat take_bit_nat_eq_self)
  then have d: "unat (sz - of_nat (length ?m)) = unat sz - length ?m"
    using k unat_sub [of "of_nat k" sz] unfolding k_def [symmetric] by (simp add: word_le_nat_alt)
  show "\<exists>t. make_test_str clock sz = CLOCK_START_STR @ print_int (sint clock) @ CLOCK_INTERVAL_STR @ t"
    using test_str_prefix [of CLOCK_INTERVAL_STR "unat sz - length ?m"] three assms(2,3) unfolding make_test_str_def Let_def d by auto
  show "length (make_test_str clock sz) = unat sz"
    using test_str_length [of "unat sz - length ?m" CLOCK_INTERVAL_STR] three assms(2,3) unfolding make_test_str_def Let_def d by auto
qed

lemma time_chars: "0 \<le> sint clock \<Longrightarrow> c \<in> set (print_int (sint clock)) \<Longrightarrow> isdigit c"
  using print_nat_set by (auto simp: print_int_def)

lemma made_time:
  fixes clock :: u64
  assumes "0 \<le> sint clock"
  shows "get_time_from_msg (CLOCK_START_STR @ print_int (sint clock) @ CLOCK_INTERVAL_STR @ t) = Inr clock"
    and "33 \<notin> set hdr \<Longrightarrow> search_time_from_kcp_str (hdr @ CLOCK_START_STR @ print_int (sint clock) @ CLOCK_INTERVAL_STR @ t) = clock"
proof -
  let ?n = "print_int (sint clock)"
  have S: "CLOCK_START_STR = 33 # [104, 97]" and I: "CLOCK_INTERVAL_STR = 95 # [104, 97]"
    by (simp_all add: CLOCK_START_STR_def CLOCK_INTERVAL_STR_def ascii_def)
  have no: "95 \<notin> set ?n" "33 \<notin> set ?n" using time_chars [OF assms, of 95] time_chars [OF assms, of 33] by (auto simp: isdigit_def)
  have "find_from (95 # [104, 97]) ((CLOCK_START_STR @ ?n) @ (95 # [104, 97]) @ t) 0 = Some (length (CLOCK_START_STR @ ?n))"
    using find_from_skip [of 95 "CLOCK_START_STR @ ?n" "[104, 97]" "[]" t] no(1) by (simp add: S)
  then have f: "find_from CLOCK_INTERVAL_STR (CLOCK_START_STR @ ?n @ CLOCK_INTERVAL_STR @ t) 0 = Some (length CLOCK_START_STR + length ?n)"
    by (simp add: I)
  have cut: "take (length CLOCK_START_STR + length ?n) (?n @ CLOCK_INTERVAL_STR @ t) = ?n @ 95 # 104 # 97 # []"
    by (simp add: I S)
  show "get_time_from_msg (CLOCK_START_STR @ ?n @ CLOCK_INTERVAL_STR @ t) = Inr clock"
    unfolding get_time_from_msg_def f option.case substr_def
    using time_read [OF assms refl, of "[104, 97]"] cut by simp
  show "search_time_from_kcp_str (hdr @ CLOCK_START_STR @ ?n @ CLOCK_INTERVAL_STR @ t) = clock" if h: "33 \<notin> set hdr"
  proof -
    let ?s = "hdr @ CLOCK_START_STR @ ?n @ CLOCK_INTERVAL_STR @ t"
    have "starts_with CLOCK_INTERVAL_STR (drop (length (hdr @ CLOCK_START_STR @ ?n)) ?s)" by simp
    then have "find_sub CLOCK_INTERVAL_STR ?s \<noteq> None"
      unfolding find_sub_None by (metis append_assoc le_add1 length_append)
    then obtain e where e: "find_from CLOCK_INTERVAL_STR ?s 0 = Some e" by (auto simp: find_from_def)
    have st: "find_from CLOCK_START_STR ?s 0 = Some (length hdr)"
      using find_from_skip [OF h, of "[104, 97]" "[]" "?n @ CLOCK_INTERVAL_STR @ t"] by (simp add: S)
    show ?thesis unfolding search_time_from_kcp_str_def e st option.case
      using time_read [OF assms refl, of "104 # 97 # t"] by (simp add: I)
  qed
qed

lemma clock_length:
  fixes clock :: u64
  assumes "0 \<le> sint clock" shows "length (print_int (sint clock)) \<le> 19"
proof -
  have "sint clock < 9223372036854775808" using sint_lt [of clock] by simp
  then have "nat (sint clock) < 10 ^ Suc 18" using assms by (simp add: nat_less_iff)
  from print_nat_length_aux [OF this] show ?thesis using assms by (simp add: print_int_def)
qed

section \<open>The program ends with its connection\<close>

definition timers :: "asio_client \<Rightarrow> nat" where
  "timers a = (if ac_timer_armed a then 1 else 0) + (if ac_send_timer_armed a then 1 else 0)"

lemma callbacks_timers:
  "ac_timer_armed (asio_callbacks evs a) = ac_timer_armed a \<and> ac_send_timer_armed (asio_callbacks evs a) = ac_send_timer_armed a \<and>
   (ac_stopped a \<longrightarrow> ac_stopped (asio_callbacks evs a))"
proof (induction evs arbitrary: a)
  case (Cons e evs)
  obtain conv ty msg where e: "e = (conv, ty, msg)" by (cases e)
  have "ac_timer_armed (asio_handle_event conv ty msg a) = ac_timer_armed a"
    "ac_send_timer_armed (asio_handle_event conv ty msg a) = ac_send_timer_armed a"
    "ac_stopped a \<Longrightarrow> ac_stopped (asio_handle_event conv ty msg a)"
    by (simp_all add: asio_handle_event_def split: eEventType.split)
  then show ?case using Cons.IH [of "asio_handle_event conv ty msg a"] by (simp add: asio_callbacks_def e)
qed (simp add: asio_callbacks_def)

lemma stopped_step:
  assumes "ac_stopped a" "asio_step a a'" shows "ac_stopped a' \<and> timers a' < timers a"
  using assms(2)
proof cases
  case (asio_time t)
  then obtain evs c where "a' = asio_callbacks evs (a\<lparr>ac_timer_armed := False, ac_client := c\<rparr>)"
    using assms(1) by (auto simp: handle_client_time_def Let_def bindE_Inr_iff hook_client_timer_def)
  then show ?thesis using callbacks_timers [of evs] asio_time(1) assms(1) by (simp add: timers_def)
next
  case (asio_send clock)
  then show ?thesis using assms(1)
    by (simp add: handle_timer_send_msg_def send_test_msg_def hook_timer_send_msg_def timers_def)
qed

lemma stopped_ends: "(asio_step ^^ n) a a' \<Longrightarrow> ac_stopped a \<Longrightarrow> n + timers a' \<le> timers a \<and> ac_stopped a'"
proof (induction n arbitrary: a')
  case (Suc n)
  then obtain b where "(asio_step ^^ n) a b" "asio_step b a'" by auto
  then show ?case using Suc.IH [of b] Suc.prems(2) stopped_step [of b a'] by auto
qed simp

text \<open>A number printed in decimal is read back from the command line.\<close>

lemma atoi_print:
  assumes "n < 2147483648" shows "atoi (print_nat n) = int n"
proof -
  have "atol (print_nat n @ [0]) = Some (int n)" using atol_print_nat [of n 0 "[]"] assms by (simp add: isdigit_def)
  then show ?thesis using assms sint32_of_int [of "int n"] by (simp add: atoi_def)
qed

lemma asio_main_starts:
  assumes "port < 2147483648" "to < 2147483648" "sz < 2147483648"
  shows "asio_main sys now [print_nat port, ip, print_nat to, print_nat sz] =
    Running (asio_client_new sys now (int port) ip (int to) (of_nat sz))"
  by (simp add: asio_main_def test_kcp_def atoi_print assms in_try_def)

end
