(* ===== verification/Example_Properties.thy ===== *)
theory Example_Properties
  imports Example_Echo Example_Process Group_Test_Server Multicast_Test_Client Asio_Client Delivery_Properties
begin

text \<open>
  The properties of the programs that use the library (\<open>src/server\<close>, \<open>src/client_with_asio\<close> and the multicast test
  programs), and of the events they are built on.
\<close>

section \<open>The echo server\<close>

definition echo_demo0 :: echo_state where
  "echo_demo0 = \<lparr>eo_client = demo_kcp, eo_server = with_conns example_server_new svr_demo1, eo_up = {}, eo_down = {}, eo_sent = [], eo_got = []\<rparr>"

definition echo_demo :: echo_state where
  "echo_demo = echo_demo0\<lparr>eo_client := demo_a3, eo_up := {demo_d}, eo_sent := [demo_msg]\<rparr>"

lemma echo_demo_init: "echo_init 1001 echo_demo0"
proof -
  have "ready_kcp demo_kcp" using demo_fresh by (auto simp: ready_kcp_def)
  moreover have "ready_kcp (the (c_kcp svr_conn))" using create_ready [OF svr_conn_created] by auto
  ultimately show ?thesis using svr_demo1_inv by (simp add: echo_init_def echo_demo0_def conv_engine_def svr_demo1_fields)
qed

lemma echo_demo_run: "(echo_step 1001)\<^sup>*\<^sup>* echo_demo0 echo_demo"
proof -
  let ?s1 = "echo_demo0\<lparr>eo_client := demo_a1, eo_sent := [demo_msg]\<rparr>" and ?s2 = "echo_demo0\<lparr>eo_client := demo_a2, eo_sent := [demo_msg]\<rparr>"
  have "echo_step 1001 echo_demo0 ?s1"
    using echo_send [OF demo_bounded, of demo_msg echo_demo0 0 demo_a1] demo_send by (simp add: echo_demo0_def demo_msg_def)
  moreover have "echo_step 1001 ?s1 ?s2"
    using echo_update [of ?s1 0 demo_a2 "[]"] demo_tick by (simp add: echo_demo0_def)
  moreover have "echo_step 1001 ?s2 echo_demo"
    using echo_update [of ?s2 100 demo_a3 "[demo_d]"] demo_flush by (simp add: echo_demo_def echo_demo0_def)
  ultimately show ?thesis by (meson converse_rtranclp_into_rtranclp rtranclp.rtrancl_refl)
qed

text \<open>C5: A conversation with the echo server. A client talks to the example server through a network that loses,
  repeats and reorders datagrams in both directions, while the server serves any other traffic. As long as
  the conversation exists and nobody else uses its number, the messages that come back to the client are, in
  order and each once, an initial piece of the messages it has sent, empty ones left out; as long as fewer
  than $2^{32}$ fragments were sent.\<close>

theorem echo_returns:
  assumes "echo_init conv s" "(echo_step conv)\<^sup>*\<^sup>* s t" "length (msg_log 1376 (eo_sent t)) < 4294967296"
  shows "\<exists>rest. filter (\<lambda>msg. msg \<noteq> []) (eo_sent t) = eo_got t @ rest"
  by (rule echo_prefix [OF echo.reachable_inv [OF assms(1,2)] assms(3)])

theorem echo_returns_witness: "\<exists>rest. filter (\<lambda>msg. msg \<noteq> []) (eo_sent echo_demo) = eo_got echo_demo @ rest"
  by (rule echo_returns [OF echo_demo_init echo_demo_run])
    (simp add: echo_demo_def echo_demo0_def msg_log_def demo_msg_def chunks_small)

section \<open>The events of the server\<close>

text \<open>C9: What the user of the server sees of a conversation, in every state the event loop reaches within four
  thousand million steps: messages, and behind them at most one disconnect, after which the connection is
  gone and nothing more comes. The connect event that the header of the library promises is never raised.\<close>

theorem event_order:
  assumes "(svr_step ^^ n) connection_manager_new m" "n < 4294966296"
  shows "\<exists>k. conv_events m conv = replicate k Connection.eRcvMsg \<or>
    conv \<notin> dom (m_connections m) \<and> conv_events m conv = replicate k Connection.eRcvMsg @ [Connection.eDisconnect]"
  using life_run [OF assms] unfolding life_ok_def by blast

theorem event_order_witness: "\<exists>k. conv_events svr_demo1 1001 = replicate k Connection.eRcvMsg"
  using event_order [OF svr_demo1_run, of 1001] by (simp add: svr_demo1_fields)

section \<open>Where the group is\<close>

text \<open>C28: From the test server to its client. When the test server has come as far as its event loop it has opened a group.
  If the address of the group is an IPv4 address, as every generated one is meant to be, and the text by which the server
  announces the group reaches the test client as a message, the client has understood it: it knows address, port and number
  of the very group the server has opened, and, when the calls of the system succeed, has joined it there. If the address
  has a colon in its text, as every IPv6 address has, which the server accepts as well, the client never reads that address
  out of the announcement: it splits the text at the colons.\<close>

theorem announcement_understood:
  assumes "mts_main bound from_string sockopt rnd now argv = Inr g" "mt_client c = None"
    and "0 \<le> j_socket sys" "j_reuse sys" "j_getfl sys" "j_setfl sys" "j_bind sys" "j_member sys"
  shows "\<exists>grp. map_of (mm_groups (sv_multicast (ms_server g))) (ms_group_id g) = Some grp \<and> g_open grp \<and>
    (\<forall>a. fst (g_endpoint grp) = V4 a \<longrightarrow>
      (\<exists>c' cl. mt_event_callback sys created conv Kcp_Client.eRcvMsg (multicast_info (ms_address g) (ms_port g) (ms_group_id g)) c = Inr c' \<and>
        mt_addr c' = address_to_string (V4 a) \<and> mt_port c' = snd (g_endpoint grp) \<and>
        mt_group_id c' = ms_group_id g \<and> mt_client c' = Some cl \<and> map_of (mcl_groups cl) (ms_group_id g) =
          Some \<lparr>gi_multicast_addr = mt_addr c', gi_port = mt_port c', gi_socket_fd = j_socket sys, gi_last_seq = 0\<rparr>)) \<and>
    (58 \<in> set (ms_address g) \<longrightarrow>
      (\<forall>addr port k. parse_multicast_info (multicast_info (ms_address g) (ms_port g) (ms_group_id g)) = Inr (Some (addr, port, k)) \<longrightarrow>
        addr \<noteq> ms_address g))"
proof -
  obtain grp where grp: "ms_group_id g = 1" "map_of (mm_groups (sv_multicast (ms_server g))) (ms_group_id g) = Some grp" "g_open grp"
    "\<And>a. fst (g_endpoint grp) = V4 a \<Longrightarrow> ms_address g = address_to_string (V4 a) \<and> ms_port g = snd (g_endpoint grp)"
    using mts_main_start [OF assms(1)] mts_start_group by metis
  have "\<exists>c' cl. mt_event_callback sys created conv Kcp_Client.eRcvMsg (multicast_info (ms_address g) (ms_port g) (ms_group_id g)) c = Inr c' \<and>
      mt_addr c' = address_to_string (V4 a) \<and> mt_port c' = snd (g_endpoint grp) \<and>
      mt_group_id c' = ms_group_id g \<and> mt_client c' = Some cl \<and> map_of (mcl_groups cl) (ms_group_id g) =
        Some \<lparr>gi_multicast_addr = mt_addr c', gi_port = mt_port c', gi_socket_fd = j_socket sys, gi_last_seq = 0\<rparr>"
    if v4: "fst (g_endpoint grp) = V4 a" for a
  proof -
    define addr where "addr = address_to_string (V4 a)"
    define port where "port = snd (g_endpoint grp)"
    let ?msg = "multicast_info addr port 1"
    have "58 \<notin> set addr" using address_chars [of 58 a] by (auto simp: addr_def simp del: address_to_string.simps)
    then have "parse_multicast_info ?msg = Inr (Some (addr, port, 1))" unfolding multicast_info_def by (simp add: parse_announcement)
    moreover have "find_from (ascii ''MULTICAST:'') ?msg 0 = Some 0"
      unfolding multicast_info_def find_from_def by (simp add: find_sub_here)
    moreover define c1 where "c1 = (gc_event_callback conv Kcp_Client.eRcvMsg ?msg c)\<lparr>mt_addr := addr, mt_port := port, mt_group_id := 1\<rparr>"
    ultimately have "mt_event_callback sys created conv Kcp_Client.eRcvMsg ?msg c = Inr (join_announced sys created c1)"
      by (simp add: mt_event_callback_def Let_def)
    moreover have "mt_client c1 = None" "mt_addr c1 = addr" "mt_port c1 = port" "mt_group_id c1 = 1"
      using assms(2) by (simp_all add: c1_def gc_event_callback_def)
    ultimately show ?thesis using assms(3-) grp(1) grp(4) [OF v4] unfolding addr_def [symmetric] port_def [symmetric]
      by (simp add: join_announced_def join_group_def set_message_callback_def mc_client_new_def mc_start_def Let_def)
  qed
  then show ?thesis using grp(2,3) parse_no_colon by blast
qed

definition mts_demo_main :: "int + mts" where
  "mts_demo_main = mts_main (\<lambda>a p. True) (\<lambda>addr. Some (V4 4026466305)) True (0, 1, 30000) 0 [ascii ''0.0.0.0'', ascii ''12345'']"

definition mts_demo :: mts where "mts_demo = projr mts_demo_main"

lemma mts_demo_started: "mts_main (\<lambda>a p. True) (\<lambda>addr. Some (V4 4026466305)) True (0, 1, 30000) 0 [ascii ''0.0.0.0'', ascii ''12345''] = Inr mts_demo"
proof -
  obtain g where "mts_start (\<lambda>addr. Some (V4 4026466305)) True (0, 1, 30000) 0 [] 0 (mts_globals\<lparr>ms_reliable := False\<rparr>) = Inr g"
    using mts_start_total [of "\<lambda>addr. Some (V4 4026466305)" "[]" 0 "(0, 1, 30000)" 4026466305 True] by auto
  then show ?thesis by (simp add: mts_demo_def mts_demo_main_def mts_main_def)
qed

lemma mts_demo_group:
  "map_of (mm_groups (sv_multicast (ms_server mts_demo))) (ms_group_id mts_demo) =
     Some (mc_group_new\<lparr>g_endpoint := (V4 4026466305, 30000), g_open := True\<rparr>)"
proof -
  obtain g where g: "mts_start (\<lambda>addr. Some (V4 4026466305)) True (0, 1, 30000) 0 [] 0 (mts_globals\<lparr>ms_reliable := False\<rparr>) = Inr g"
    using mts_start_total [of "\<lambda>addr. Some (V4 4026466305)" "[]" 0 "(0, 1, 30000)" 4026466305 True] by auto
  then have "mts_demo = g" by (simp add: mts_demo_def mts_demo_main_def mts_main_def)
  define s1 where "s1 = (server_set_callback True server_new)\<lparr>sv_multicast := mc_manager_new\<lparr>mm_next_group_id := 2,
    mm_groups := [(1, mc_group_new\<lparr>g_endpoint := (V4 4026466305, 30000), g_open := True\<rparr>)]\<rparr>\<rparr>"
  have c: "create_multicast_group (\<lambda>addr. Some (V4 4026466305)) True (0, 1, 30000) [] 0 (server_set_callback True server_new) = (1, s1)"
    by (simp add: create_multicast_group_def create_group_def init_group_socket_def server_set_callback_def server_new_def
        mc_manager_new_def generate_multicast_address_def Let_def s1_def)
  obtain x where "parse_group_info (get_multicast_group_info 1 s1) (mts_globals\<lparr>ms_reliable := False, ms_server := s1, ms_group_id := 1\<rparr>) = Inr x"
    "g = x\<lparr>ms_perf := perf_reset 0 (ms_perf x)\<rparr>"
    using g unfolding mts_start_def Let_def c prod.case by (auto split: sum.splits)
  then have "ms_server g = s1" "ms_group_id g = 1" using parse_keeps by fastforce+
  then show ?thesis using \<open>mts_demo = g\<close> by (simp add: s1_def)
qed

definition join_demo :: join_calls where
  "join_demo = \<lparr>j_socket = 5, j_reuse = True, j_getfl = True, j_setfl = True, j_bind = True, j_member = True\<rparr>"

theorem announcement_understood_witness:
  "\<exists>c' cl. mt_event_callback join_demo True 1001 Kcp_Client.eRcvMsg
      (multicast_info (ms_address mts_demo) (ms_port mts_demo) (ms_group_id mts_demo)) mt_globals = Inr c' \<and>
    mt_client c' = Some cl \<and> map_of (mcl_groups cl) (ms_group_id mts_demo) \<noteq> None"
proof -
  have "mt_client mt_globals = None" by (simp add: mt_globals_def gtc.defs)
  note u = announcement_understood [OF mts_demo_started this, of join_demo True 1001]
  have "\<forall>grp. map_of (mm_groups (sv_multicast (ms_server mts_demo))) (ms_group_id mts_demo) = Some grp \<longrightarrow> fst (g_endpoint grp) = V4 4026466305"
    using mts_demo_group by simp
  then show ?thesis using u by (fastforce simp: join_demo_def)
qed

text \<open>C29: But the announcement is never made. In every state the test server reaches from its start, whoever connects
  and whatever is sent to it, its table of clients is empty, and no connection has anything to send, queued or
  under way: the library never raises the event that would make the server tell a client of the group.\<close>

theorem group_never_announced:
  assumes "mts_main bound from_string sockopt rnd now argv = Inr g" "mts_step\<^sup>*\<^sup>* g g'"
  shows "ms_client_info g' = [] \<and> (\<forall>conv c kcp. m_connections (sv_connections (ms_server g')) conv = Some c \<and> c_kcp c = Some kcp \<longrightarrow>
    k_snd_queue kcp = [] \<and> k_snd_buf kcp = [])"
proof -
  have "mts_quiet g'" using mts.reachable_inv [OF assms] .
  then show ?thesis using never_sent_empty unfolding mts_quiet_def all_silent_def by (metis option.sel)
qed

theorem group_never_announced_witness: "ms_client_info (mts_demo\<lparr>ms_perf := snd (perf_report 1 (ms_perf mts_demo))\<rparr>) = []"
proof -
  have "mts_step\<^sup>*\<^sup>* mts_demo (mts_demo\<lparr>ms_perf := snd (perf_report 1 (ms_perf mts_demo))\<rparr>)" using mts_report by blast
  from group_never_announced [OF mts_demo_started this] show ?thesis by (rule conjunct1)
qed

section \<open>The time in a message\<close>

text \<open>C31: The messages of the test client have exactly the size that was asked for, for sizes from 25 up to ten million,
  and the time they were made is read back from them, from the message itself and from a datagram that carries
  it behind bytes in which no exclamation mark occurs.\<close>

theorem test_message_time:
  assumes "0 \<le> sint clock" "25 \<le> unat sz" "unat sz < 10000000"
  shows "length (make_test_str clock sz) = unat sz \<and> get_time_from_msg (make_test_str clock sz) = Inr clock \<and>
    (33 \<notin> set hdr \<longrightarrow> search_time_from_kcp_str (hdr @ make_test_str clock sz) = clock)"
proof -
  have "length (print_int (sint clock)) + 6 \<le> unat sz" using clock_length [OF assms(1)] assms(2) by simp
  note m = made_msg [OF assms(1) this assms(3)]
  then obtain t where "make_test_str clock sz = CLOCK_START_STR @ print_int (sint clock) @ CLOCK_INTERVAL_STR @ t" by blast
  then show ?thesis using m(2) made_time(1) [OF assms(1), of t] made_time(2) [OF assms(1), of hdr t] by simp
qed

theorem test_message_time_witness: "length (make_test_str 1447667000123 500) = 500 \<and> get_time_from_msg (make_test_str 1447667000123 500) = Inr 1447667000123"
  using test_message_time [of 1447667000123 500 "[]"] by simp

section \<open>The echo server as a process\<close>

text \<open>C10: As long as no signal has come, the process of the echo server listens: the next datagram, the next tick and
  the test timer are always waited for. With memory granted and a network that takes every datagram, whatever it
  receives and whatever the clock says, the process goes on, with one exception: a single datagram of 1 to
  23 bytes, from anywhere, ends it, because the exception thrown for it is none that \<open>main\<close> catches. A signal stops it in
  order: at most three more handlers run, and \<open>main\<close> returns 0 unless one of them fails.\<close>

theorem server_process:
  assumes "server_run\<^sup>*\<^sup>* (server_main argc bound) (Running s)" "\<not> ex_stopped s" "\<forall>i n. alloc i n" "takes_all sock"
  shows "m_recv_armed (conns s) \<and> m_timer_armed (conns s) \<and> ex_timer_armed s \<and>
    (if error \<or> d = [] \<or> 24 \<le> length d then \<exists>s'. in_try (ex_receive alloc sock error d ep s) = Running s'
     else in_try (ex_receive alloc sock error d ep s) = Terminated) \<and>
    (distinct order \<and> set order = dom (m_connections (conns s)) \<longrightarrow>
      (\<exists>s'. in_try (ex_tick alloc sock tv order s) = Running s') \<and>
      (\<exists>s'. in_try (handle_stop sock order s) = Running s' \<and>
        (\<forall>n p. (server_run ^^ n) (Running s') p \<longrightarrow> n \<le> 4 \<and> ((\<nexists>p'. server_run p p') \<longrightarrow> p = Exit 0 \<or> p = Terminated))))"
proof -
  have live: "live s" using proc.reachable_inv [OF _ assms(1)] by (auto simp: process_inv_def)
  then have srv: "serving alloc sock (conns s)" using assms(2-4) by (simp add: live_def serving_def)
  have armed: "m_recv_armed (conns s) \<and> m_timer_armed (conns s) \<and> ex_timer_armed s"
    using live assms(2) outstanding_all by (auto simp: live_def)
  have down: "n \<le> 4 \<and> ((\<nexists>p'. server_run p p') \<longrightarrow> p = Exit 0 \<or> p = Terminated)"
    if "live s'" "ex_stopped s'" "(server_run ^^ n) (Running s') p" for s' n p
    using stopped_bounded [OF that] stopped_goes_on outstanding_le [of s'] by (cases p) auto
  have stop: "\<exists>s'. handle_stop sock order s = Inr s' \<and> live s' \<and> ex_stopped s'"
    if "distinct order" "set order = dom (m_connections (conns s))"
    using stop_returns [OF srv] stop_live [OF live that] by blast
  show ?thesis
    using armed receive_returns [OF srv, of error d ep] short_datagram_throws [of error d alloc sock ep s]
      tick_returns [OF srv, of order alloc tv] stop down
    by (auto split: if_splits)
qed

theorem server_process_witness:
  "in_try (ex_receive (\<lambda>i n. True) (\<lambda>d ep. True) False [1, 2, 3] (2130706433, 5000) example_server_new) = Terminated \<and>
   (\<exists>s'. in_try (handle_stop (\<lambda>d ep. True) [] example_server_new) = Running s')"
proof -
  have run: "server_run\<^sup>*\<^sup>* (server_main 3 True) (Running example_server_new)" by (simp add: server_main_def in_try_def)
  have s: "\<not> ex_stopped example_server_new" "m_connections (conns example_server_new) = Map.empty" "takes_all (\<lambda>d ep. True)"
    by (simp_all add: example_server_new_def hook_test_timer_def server_set_callback_def server_new_def manager_set_callback_def
        connection_manager_new_def hook_kcp_timer_def hook_udp_async_receive_def takes_all_def)
  from server_process [OF run s(1) _ s(3), of "\<lambda>i n. True" False "[1, 2, 3]" "(2130706433, 5000)" "[]" "(0, 0)"] s(2)
  show ?thesis by auto
qed

end
