(* ===== verification/Spec2Isabelle.thy ===== *)
theory Spec2Isabelle
  imports Kcp_Properties Delivery_Properties Server_Properties Client_Properties Multicast_Properties Library_Properties Example_Properties
begin

text \<open>
  asio_kcp is a reliable message transport over UDP: the KCP protocol engine (\<open>src/util/ikcp.c\<close>), a server that
  multiplexes conversations over one socket (\<open>src/server_lib\<close>), a client (\<open>src/client_lib\<close>), multicast for both
  sides, a small utility library (\<open>src/essential\<close>), and programs that use them: an echo server (\<open>src/server\<close>), a test
  client (\<open>src/client_with_asio\<close>) and test programs for multicast. This development models these parts as functions
  on explicit states and proves what makes them correct.

  \<^bold>\<open>How the parts work together.\<close> A client sends the text of a connect request until it is answered. The server gives
  the client a conversation number, files a connection with its own engine under it and answers with the
  number; the client creates an engine of the same number. From then on both sides feed the datagrams they
  receive to their engines, call \<open>ikcp_update\<close> from a timer, and hand complete messages to a callback. The
  server drops connections that were silent for ten seconds and tells the peer of a dropped connection with a
  disconnect datagram. Multicast runs beside this, over sockets of its own.

  \<^bold>\<open>Conventions.\<close> Machine integers are words of their width, so that arithmetic wraps as in C; a byte string is a
  list of 8-bit words. A struct or class is a record, one definition for each function, composed as in the code.
  In the engine \<open>None\<close> is undefined behaviour or a failed \<open>assert\<close>; in the C++ parts a result is a sum, \<open>Inl\<close> the
  way it failed (theory \<open>Check_Function\<close>). What the program gets from outside is a parameter: the allocator (a
  predicate that says which requests it grants), results of system calls, received datagrams, the clock, the
  order in which an \<open>unordered_map\<close> is walked, random numbers. Datagrams sent and callbacks made are logged in the
  state. A callback of the user is an event in that log; the programs of \<open>src/\<close> that call back into the library are
  run on the events of a handler, right behind it, which is where the library makes the call that matters to them
  (theories \<open>Example_Server\<close> and \<open>Multicast_Test_Client\<close> say why).

  \<^bold>\<open>The engine.\<close>
  \<^item> \<open>Kcp_Prelude\<close>: types, the locale of a step system with its invariant, facts on words and lists. \<open>Iqueue\<close>: the
    pointer queues of \<open>ikcp.h\<close> over a heap of links, with their refinement to lists; the other theories use lists.
  \<^item> \<open>Kcp_Basic\<close>, \<open>Kcp_State\<close>: encoders, constants, the records of a segment and of the control block, creation,
    settings.
  \<^item> \<open>Kcp_Recv\<close>, \<open>Kcp_Send\<close>, \<open>Kcp_Ack\<close>, \<open>Kcp_Input\<close>, \<open>Kcp_Flush\<close>: the operations, each in the order of \<open>ikcp.c\<close>.
  \<^item> \<open>Kcp_Wf\<close>: the invariant of a control block. \<open>Kcp_Stream\<close>: the log of all fragments a sender has made, and how
    the states of both ends relate to it. \<open>Kcp_Protocol\<close>: sequences of calls on one engine (\<open>api_step\<close>: every function but \<open>ikcp_release\<close>
    that changes the control block, with any arguments that are true of their buffers, but \<open>ikcp_setmtu\<close> only while no
    segment is queued that is too long for the new size), and two engines with a network that loses, repeats and
    reorders (\<open>net_step\<close>: the calls that \<open>connection.cpp\<close> and \<open>kcp_client.cpp\<close> make during a conversation, which are
    \<open>ikcp_send\<close>, \<open>ikcp_recv\<close>, \<open>ikcp_input\<close> and \<open>ikcp_update\<close>; the settings are made once, right after creation).
  \<^item> \<open>Kcp_Emission\<close>: \<open>flush_wires\<close>, the list of segments a flush owes the peer, and that the datagrams of \<open>ikcp_flush\<close>
    are a cut of it. \<open>Kcp_Held\<close>: what a receiver has, and that only such segments are acknowledged. \<open>Kcp_Link\<close>: two
    engines with a network in both directions; the sender keeps what the receiver does not hold. \<open>Kcp_Recovery\<close> and
    \<open>Kcp_Delivery\<close>: one round in which the datagrams arrive repairs every loss. \<open>Kcp_Rounds\<close>: rounds in both
    directions, with a window that may be closed and has to be probed, until everything has arrived.
  \<^item> \<open>Kcp_Hooks\<close>: the hooks that replace the allocator, and \<open>ikcp_log\<close>.
  \<^item> \<open>Kcp_Properties\<close>: the properties: delivery in order, the invariant, absence of overruns, windows, timeouts,
    error returns, scheduling. \<open>Delivery_Properties\<close>: everything arrives, the
    sender forgets nothing the receiver lacks, what a flush sends, and two ways in which the engine fails: a message
    longer than the receive window, and \<open>ikcp_setmtu\<close> below the length of what is queued.

  \<^bold>\<open>The helpers.\<close>
  \<^item> \<open>C_Lib\<close>: what is used of the C library (\<open>snprintf\<close>, \<open>atol\<close>, \<open>memcmp\<close>, character classes). \<open>Connect_Packet\<close>:
    \<open>connect_packet.cpp\<close>. \<open>Check_Function\<close>: \<open>check_function.cpp\<close>, and what becomes of an exception in a \<open>main\<close> function. \<open>Std_Map\<close>: ordered maps as sorted association lists,
    with the laws of a map as a locale. \<open>Threadsafe_Queue\<close>: both queues, the laws of a queue as a locale, and threads
    that wait. \<open>Mutex\<close>: \<open>mutex.h\<close>, and threads that run the member functions of a queue statement by statement under
    it. \<open>Std_String\<close>: what is used of \<open>std::string\<close>. \<open>Timer\<close>: \<open>timer.hpp\<close>. \<open>Strutil\<close>: \<open>strutil.cpp\<close>.
    \<open>Binary_Stream\<close>: the buffers and streams; what a stream needs of a buffer is a locale, interpreted for \<open>_binary_buf\<close>
    and \<open>_appointed_buf\<close>. \<open>Binary_Iostream\<close>: the stream for both directions, a queue of strings. \<open>Log_Stream\<close>: the buffer of \<open>LogStream.h\<close>, which never
    overruns as long as it is written by \<open>append\<close>.
  \<^item> \<open>Library_Properties\<close>: round trips of the control datagrams and of the escaped text, the binary stream as a queue, the
    waiting queue loses no wake-up, the queue under its mutex behaves as if calls were made one after the other, the
    hex dump.

  \<^bold>\<open>The server.\<close> \<open>Connection\<close> is \<open>connection.cpp\<close>; \<open>Connection_Manager\<close> is \<open>connection_container.cpp\<close> and
  \<open>connection_manager.cpp\<close>, with the event loop as the step relation \<open>svr_step\<close>; \<open>Multicast_Manager\<close> is
  \<open>udp_multicast_manager.cpp\<close>, whose groups have IPv4 or IPv6 addresses; \<open>Server\<close> is \<open>server.cpp\<close>. \<open>Server_Properties\<close>: the invariant of every run, what one
  datagram and one tick do and when the handlers fail, and connections that never time out. \<open>Server_Events\<close>: the order
  of the events of one conversation over a whole run. \<open>Member_Multicast\<close> is the older \<open>multicast_manager.cpp\<close>; the
  class \<open>ConnectionManager\<close> it needs is not in the repository, so its functions are parameters. \<open>stop_all\<close> of the
  manager throws when it is called a second time, on a socket that is closed.

  \<^bold>\<open>The client.\<close> \<open>Kcp_Client\<close> is \<open>kcp_client.cpp\<close>, \<open>Kcp_Client_Wrap\<close> is \<open>kcp_client_wrap.cpp\<close> and \<open>kcp_client_util.cpp\<close>,
  \<open>Multicast_Client\<close> is \<open>kcp_multicast_client.cpp\<close>. The work thread of the wrapper ends at the first round that
  finds the request to stop. The receive thread of the multicast client takes one step for each piece of code it runs
  under the lock or between two of them, so that groups may be joined and left while it polls. \<open>Client_Properties\<close>: the
  life of a client, the blocking connect returns unless an answer fills the receive buffer (\<open>overlong_answer\<close>), messages
  are handed over completely. \<open>Multicast_Properties\<close>: delivery, descriptors, retransmissions
  that do not come to rest, and the groups of \<open>Member_Multicast\<close> as sets of members.

  \<^bold>\<open>The programs.\<close> \<open>Example_Server\<close> is \<open>src/server/server.cpp\<close>, \<open>Example_Process\<close> the process that \<open>src/server/main.cpp\<close>
  makes of it, \<open>Example_Echo\<close> a conversation with it over a network that
  loses, repeats and reorders; \<open>Asio_Client\<close> is \<open>src/client_with_asio\<close>; \<open>Multicast_Test_Server\<close>, \<open>Group_Test_Server\<close> and
  \<open>Multicast_Test_Client\<close> are the test programs for multicast. \<open>Example_Properties\<close>: what a client gets back is what it
  sent, in order; the events of a conversation are messages and then at most one disconnect; the announcement of
  an IPv4 group by \<open>udp_multicast_test_server\<close> would be understood by its test client, but that server never makes one,
  because the library raises no connect event; the time in a test message is read back; the process of the echo server
  stays up whatever arrives, with one exception, and shuts down in order.

  This theory joins server, client and engine: after the handshake both ends have engines of the same number, and
  the delivery theorems of the engine, order as well as arrival, apply to them in both directions.

  \<^bold>\<open>Bounds.\<close> Delivery is stated for fewer than $2^{32}$ fragments of one conversation, after which
  sequence numbers repeat; where the receiver's acknowledgements count as well (theories \<open>Kcp_Held\<close> to
  \<open>Kcp_Delivery\<close>) it is $2^{31}$, the range in which the wrapping comparisons agree with the order of the
  numbers, and $2^{31}$ less one window of 32 segments where whole rounds are counted (\<open>Kcp_Rounds\<close>); a message then has at most
  32 fragments, since a longer one never fits the receive window. The run of the server is limited to 4294966296 steps, because the counter of conversations wraps. Messages
  are shorter than $2^{31}$ bytes, the range of the \<open>int\<close> the engine takes; the round trips of the escaped text and of the
  binary stream have the same bound, because \<open>strutil.cpp\<close> and the streams keep lengths and positions in an \<open>int\<close>. \<open>alloc_bounded\<close>
  says that no array of 16 gigabytes is granted, which keeps 32-bit sizes from wrapping. No definition uses fuel: loops
  that always end are total functions, and the four that may not (\<open>iqueue_foreach_from\<close>,
  \<open>do_asio_kcp_connect_loop\<close>, \<open>workthread_rounds\<close>, \<open>hex_dump_loop\<close>) are partial functions whose value
  \<open>None\<close> is a loop that goes on, with theorems on when they return.

  \<^bold>\<open>Not modelled.\<close> Log and console output, except for the two buffers above; \<open>ikcp_qprint\<close>, whose body is disabled.
  Sockets, timers and threads beyond their results and the order of steps. Callbacks that call back into the library
  from inside a handler, other than those of the programs in \<open>src/\<close>. The log files the \<open>main\<close> functions set up; rates in floating point, which the test programs only print. The
  stack traces of \<open>src/essential/stack_trace\<close> and the number operators of \<open>LogStream.h\<close>, whose implementation is not in
  the repository. \<open>asio_kcp_log.hpp\<close> and
  \<open>es_config.h\<close> are macros. Unit tests and build files. Of the stream templates the instances at \<open>int\<close> and \<open>char\<close> are
  modelled; \<open>capacity\<close> and \<open>reserve\<close>, which do not touch the contents, are left out.
\<close>

section \<open>From the handshake to the stream\<close>

lemma granting_create: "granting alloc \<Longrightarrow> ikcp_create alloc conv 0 \<noteq> None"
  by (simp add: granting_def ikcp_create_def Let_def sizeof_IKCPCB_def kcp_consts)

lemma connect_answered:
  assumes "h_open m" "takes_all sock" "granting alloc" "m_connections m (m_cur_conv m + 1) = None"
    "making_send_back_conv_packet (m_cur_conv m + 1) = Some reply"
  shows "\<exists>conn m'. handle_udp_receive_from alloc sock False making_connect_packet ep m = Inr m' \<and>
    h_sent m' = h_sent m @ [(reply, ep)] \<and> m_connections m' = (m_connections m)(m_cur_conv m + 1 \<mapsto> conn) \<and>
    c_endpoint conn = ep \<and> (\<exists>kcp. c_kcp conn = Some kcp \<and> ready_kcp kcp \<and> k_conv kcp = m_cur_conv m + 1)"
proof -
  define conv where "conv = m_cur_conv m + 1"
  obtain conn where conn: "connection_create alloc conv ep = Inr conn"
    using granting_create [OF assms(3), of conv] by (auto simp: connection_create_def connection_init_kcp_def Let_def)
  have c: "is_connect_packet making_connect_packet (length making_connect_packet)" "making_connect_packet \<noteq> []"
    using made_packets_recognised by (auto simp: making_connect_packet_def ASIO_KCP_CONNECT_PACKET_def)
  have "handle_udp_receive_from alloc sock False making_connect_packet ep m = Inr (hook_udp_async_receive
      (m\<lparr>m_recv_armed := False, m_cur_conv := conv, h_sent := h_sent m @ [(reply, ep)], m_connections := (m_connections m)(conv \<mapsto> conn)\<rparr>))"
    using assms c conn by (simp add: handle_udp_receive_from_def handle_connect_packet_def get_new_conv_def Let_def
        add_new_connection_def send_udp_total flip: conv_def)
  then show ?thesis using create_ready [OF conn] create_conn_inv(2) [OF conn]
    by (intro exI [of _ conn]) (simp flip: conv_def)
qed

lemma answer_accepted:
  assumes "making_send_back_conv_packet conv = Some reply" "granting alloc" "cl_event_func c"
  shows "\<exists>kcp. ready_kcp kcp \<and> k_conv kcp = conv \<and> try_recv_connect_back_packet alloc (RecvData reply) c =
    Inr (c\<lparr>cl_kcp := Some kcp, cl_in_connect_stage := False, cl_connect_succeed := True,
           cl_events := cl_events c @ [(conv, Kcp_Client.eConnect, ascii ''connect succeed'')]\<rparr>)"
proof -
  have len: "0 < length reply" "length reply < 1400"
    using assms(1) print_u32_length [of conv] by (auto simp: making_packets ascii_def)
  define z where "z = replicate (1399 - length reply) (0 :: byte)"
  have buf: "take 1400 (reply @ replicate 1400 0) = reply @ 0 # z"
  proof -
    have "take 1400 (reply @ replicate 1400 0) = reply @ replicate (Suc (1399 - length reply)) 0"
      using len(2) by (simp add: Suc_diff_le del: replicate_Suc)
    then show ?thesis by (simp add: z_def)
  qed
  have "is_send_back_conv_packet (reply @ 0 # z) (length reply)" by (rule made_packets_recognised(2) [OF assms(1)])
  moreover have "grab_conv_from_send_back_conv_packet (reply @ 0 # z) (length reply) = Some conv"
    by (rule grab_made_packets(1) [OF assms(1)]) (simp add: isdigit_def)
  moreover obtain kcp where "client_init_kcp alloc conv c = Inr (c\<lparr>cl_kcp := Some kcp\<rparr>)" "ready_kcp kcp" "k_conv kcp = conv"
    using init_kcp_ready [OF granting_create [OF assms(2)]] by blast
  ultimately show ?thesis using len assms(3) buf
    by (auto simp: try_recv_connect_back_packet_def Let_def call_event_def min_def)
qed

lemma connected_update:
  assumes "cl_in_connect_stage c" "cl_event_func c" "\<not> connect_timeout (t_clock t) c" "granting (t_alloc t)"
    "t_recv t = RecvData reply" "making_send_back_conv_packet conv = Some reply"
  shows "\<exists>c' kcp. client_update t c = Inr c' \<and> cl_connect_succeed c' \<and> cl_kcp c' = Some kcp \<and> ready_kcp kcp \<and> k_conv kcp = conv"
proof -
  define c0 where "c0 = (if need_send_connect_packet (t_clock t) c then do_send_connect_packet (t_send t) (t_clock t) c else c)"
  have "cl_event_func c0" using assms(2) by (simp add: c0_def do_send_connect_packet_def client_send_def)
  from answer_accepted [OF assms(6,4) this] show ?thesis using assms
    by (auto simp: client_update_def do_asio_kcp_connect_def c0_def)
qed

definition talk :: "IKCPCB \<Rightarrow> IKCPCB \<Rightarrow> net_state" where
  "talk a b = \<lparr>n_a = a, n_b = b, n_wire = {}, n_sent = [], n_got = []\<rparr>"

lemma talk_prefix:
  assumes "ready_kcp a" "ready_kcp b" "net_step\<^sup>*\<^sup>* (talk a b) s" "length (net_log s) < 4294967296"
  shows "\<exists>rest. n_sent s = n_got s @ rest"
  by (rule net_prefix [OF _ assms(3,4)]) (simp add: net_init_def talk_def assms(1,2))

text \<open>The same two engines over the network of theory \<open>Kcp_Link\<close>.\<close>

definition joined :: "IKCPCB \<Rightarrow> IKCPCB \<Rightarrow> link_state" where
  "joined a b = \<lparr>lk_net = talk a b, lk_back = {}\<rparr>"

text \<open>What is asked of a state and a list of rounds so that the rounds deliver everything (theory \<open>Kcp_Rounds\<close>).\<close>

definition enough_rounds :: "allocator \<Rightarrow> (u32 \<times> u32) list \<Rightarrow> link_state \<Rightarrow> bool" where
  "enough_rounds alloc ts s \<longleftrightarrow> granting alloc \<and> alloc_bounded alloc \<and> rounds_due alloc ts s \<and>
     length (k_snd_queue (n_a (lk_net s))) < length ts \<and> length (net_log (lk_net s)) < 2147483616 \<and>
     list_all (\<lambda>msg. length msg \<le> 44032) (n_sent (lk_net s)) \<and>
     length (pending_acks (n_a (lk_net s))) + length (pending_acks (n_b (lk_net s))) < 1000000000"

lemma joined_delivers:
  assumes "ready_kcp a" "ready_kcp b" "k_conv b = k_conv a" "link_step\<^sup>*\<^sup>* (joined a b) s" "enough_rounds alloc ts s"
  shows "\<exists>t. link_rounds alloc ts s = Some t \<and> n_got (lk_net t) = n_sent (lk_net s)"
proof -
  have "link_init (joined a b)" using assms(1-3) by (simp add: link_init_def joined_def net_init_def talk_def)
  then have "round_ready s" by (rule reachable_ready [OF _ assms(4)]) (use assms(5) in \<open>auto simp: enough_rounds_def list_all_iff\<close>)
  then show ?thesis using rounds_deliver assms(5) by (fastforce simp: enough_rounds_def)
qed

text \<open>C4: The components together. When the server receives a connect request while the next conversation number is
  free, it answers the sender and files a connection to it under that number; when a client in its connect stage
  receives that answer before its five seconds are over, it is connected; the two control blocks carry the same
  number, the one handed out; whatever happens to the datagrams between the two from then on, the
  messages either side receives are, in order, an initial piece of the messages the other side sent; and when the
  network does its job for enough rounds, each of them gets all of them.\<close>

theorem handshake_then_stream:
  assumes "h_open m" "takes_all sock" "granting alloc" "m_connections m (m_cur_conv m + 1) = None"
    and "cl_in_connect_stage c" "cl_event_func c"
  shows "\<exists>m' reply conn ks. handle_udp_receive_from alloc sock False making_connect_packet ep m = Inr m' \<and>
    making_send_back_conv_packet (m_cur_conv m + 1) = Some reply \<and> h_sent m' = h_sent m @ [(reply, ep)] \<and>
    m_connections m' (m_cur_conv m + 1) = Some conn \<and> c_endpoint conn = ep \<and> c_kcp conn = Some ks \<and> k_conv ks = m_cur_conv m + 1 \<and>
    (\<forall>t. t_recv t = RecvData reply \<and> granting (t_alloc t) \<and> \<not> connect_timeout (t_clock t) c \<longrightarrow>
      (\<exists>c' kc. client_update t c = Inr c' \<and> cl_connect_succeed c' \<and> cl_kcp c' = Some kc \<and> k_conv kc = k_conv ks \<and>
        (\<forall>s. (net_step\<^sup>*\<^sup>* (talk kc ks) s \<or> net_step\<^sup>*\<^sup>* (talk ks kc) s) \<and> length (net_log s) < 4294967296 \<longrightarrow>
          (\<exists>rest. n_sent s = n_got s @ rest)) \<and>
        (\<forall>s alloc ts. (link_step\<^sup>*\<^sup>* (joined kc ks) s \<or> link_step\<^sup>*\<^sup>* (joined ks kc) s) \<and> enough_rounds alloc ts s \<longrightarrow>
          (\<exists>t. link_rounds alloc ts s = Some t \<and> n_got (lk_net t) = n_sent (lk_net s)))))"
proof -
  obtain reply where reply: "making_send_back_conv_packet (m_cur_conv m + 1) = Some reply" by (simp add: making_packets)
  obtain conn m' ks where m': "handle_udp_receive_from alloc sock False making_connect_packet ep m = Inr m'"
    "h_sent m' = h_sent m @ [(reply, ep)]" "m_connections m' = (m_connections m)(m_cur_conv m + 1 \<mapsto> conn)"
    "c_endpoint conn = ep" "c_kcp conn = Some ks" "ready_kcp ks" "k_conv ks = m_cur_conv m + 1"
    using connect_answered [OF assms(1-4) reply] by blast
  have "\<exists>c' kc. client_update t c = Inr c' \<and> cl_connect_succeed c' \<and> cl_kcp c' = Some kc \<and> k_conv kc = k_conv ks \<and>
      (\<forall>s. (net_step\<^sup>*\<^sup>* (talk kc ks) s \<or> net_step\<^sup>*\<^sup>* (talk ks kc) s) \<and> length (net_log s) < 4294967296 \<longrightarrow>
        (\<exists>rest. n_sent s = n_got s @ rest)) \<and>
      (\<forall>s alloc ts. (link_step\<^sup>*\<^sup>* (joined kc ks) s \<or> link_step\<^sup>*\<^sup>* (joined ks kc) s) \<and> enough_rounds alloc ts s \<longrightarrow>
        (\<exists>t. link_rounds alloc ts s = Some t \<and> n_got (lk_net t) = n_sent (lk_net s)))"
    if t: "t_recv t = RecvData reply" "granting (t_alloc t)" "\<not> connect_timeout (t_clock t) c" for t
  proof -
    obtain c' kc where kc: "client_update t c = Inr c'" "cl_connect_succeed c'" "cl_kcp c' = Some kc" "ready_kcp kc"
      "k_conv kc = k_conv ks" using connected_update [OF assms(5,6) t(3,2,1) reply] m'(7) by auto
    then show ?thesis using talk_prefix m'(6) joined_delivers [OF kc(4) m'(6)] joined_delivers [OF m'(6) kc(4)] by metis
  qed
  then show ?thesis using m' reply by (intro exI [of _ m'] exI [of _ reply] exI [of _ conn] exI [of _ ks]) simp
qed

theorem handshake_then_stream_witness:
  "\<exists>c'. client_update (cl_quiet 200\<lparr>t_recv := RecvData svr_reply\<rparr>) cl_demo = Inr c' \<and> cl_connect_succeed c'"
proof -
  have free: "m_connections svr_demo0 (m_cur_conv svr_demo0 + 1) = None" by (simp add: svr_demo0_fields)
  have conv: "m_cur_conv svr_demo0 + 1 = 1001" by (simp add: svr_demo0_fields)
  have grant: "granting (\<lambda>i n. n < 17179869184)" by (simp add: granting_def)
  have cb: "cl_event_func cl_demo" "cl_connect_start_time cl_demo = 100"
    by (simp_all add: cl_demo_def client_connect_async_def init_udp_connect_def cl_calls_def client_set_event_callback_def
        kcp_client_new_def Let_def)
  have t: "granting (t_alloc (cl_quiet 200\<lparr>t_recv := RecvData svr_reply\<rparr>))"
    "\<not> connect_timeout (t_clock (cl_quiet 200\<lparr>t_recv := RecvData svr_reply\<rparr>)) cl_demo"
    "t_recv (cl_quiet 200\<lparr>t_recv := RecvData svr_reply\<rparr>) = RecvData svr_reply"
    by (simp_all add: cl_quiet_def granting_def connect_timeout_def cb client_consts)
  from handshake_then_stream [OF svr_demo0_fields(6) svr_sock_takes_all grant free cl_demo_fields(1) cb(1), of svr_peer]
  show ?thesis unfolding conv svr_reply_made option.inject using t by blast
qed

end
